(* ===== verification/Prelude.thy ===== *)
theory Prelude
  imports Main "HOL-Library.Word"
begin

text \<open>
  Shared vocabulary of the development: the machine integer types of the C sources, the lemmas
  that read bit operations on machine words as arithmetic on natural numbers, and generic facts
  on byte lists.  A C function that may access memory out of bounds returns an \<open>option\<close>, in
  which \<open>None\<close> stands for such an access (undefined behaviour in C).
\<close>

unbundle bit_operations_syntax

type_synonym u8 = "8 word"
type_synonym u16 = "16 word"
type_synonym u32 = "32 word"
type_synonym u64 = "64 word"
type_synonym size_t = "64 word"

named_theorems word_nat \<open>machine words read as natural numbers\<close>

section \<open>Words as natural numbers\<close>

lemma unat_take_bit [word_nat]: "unat (take_bit n (w :: 'a::len word)) = unat w mod 2 ^ n"
  by (rule trans [OF unsigned_take_bit_eq take_bit_eq_mod])

lemma unat_and_mask [word_nat]: "unat ((w :: 'a::len word) AND mask n) = unat w mod 2 ^ n"
  by (simp only: unat_take_bit flip: take_bit_eq_mask)

lemma unat_and_0x7F [word_nat]: "unat ((w :: 'a::len word) AND 0x7F) = unat w mod 128"
  using unat_and_mask [of w 7] by (simp add: mask_eq_exp_minus_1)

lemma unat_drop_bit [word_nat]: "unat (drop_bit n (w :: 'a::len word)) = unat w div 2 ^ n"
  by (rule trans [OF unat_drop_bit_eq drop_bit_eq_div])

lemma unat_push_bit [word_nat]:
  "unat (push_bit n (w :: 'a::len word)) = unat w * 2 ^ n mod 2 ^ LENGTH('a)"
  by (rule trans [OF unsigned_push_bit_eq]) (simp only: push_bit_eq_mult take_bit_eq_mod)

lemma unat_ucast_mod [word_nat]:
  "unat (ucast (w :: 'a::len word) :: 'b::len word) = unat w mod 2 ^ LENGTH('b)"
  by (simp only: unsigned_ucast_eq take_bit_eq_mod)

lemma unat_of_nat_mod [word_nat]:
  "unat (of_nat n :: 'a::len word) = n mod 2 ^ LENGTH('a)"
  by (simp add: unsigned_of_nat take_bit_eq_mod)

lemma unat_bound: "unat (w :: 'a::len word) < 2 ^ LENGTH('a)"
  by (rule unsigned_less)

lemma u8_bound [simp]: "unat (b :: u8) < 256"
  using unat_bound [of b] by simp

lemma u8_bound_le [simp]: "unat (b :: u8) \<le> 255"
  using u8_bound [of b] by linarith

lemma unat_eqI: "unat (a :: 'a::len word) = unat b \<Longrightarrow> a = b"
  by (simp add: word_unat_eq_iff)

lemma nat_or_push_bit:
  fixes a b :: nat
  assumes "a < 2 ^ n"
  shows "a OR push_bit n b = a + push_bit n b"
proof -
  have a: "take_bit n a = a" using assms by (simp add: take_bit_nat_eq_self)
  have "\<not> bit a m \<or> \<not> bit (push_bit n b) m" for m
  proof (cases "m < n")
    case True
    then show ?thesis by (simp add: bit_push_bit_iff)
  next
    case False
    then have "\<not> bit (take_bit n a) m" by (simp add: bit_take_bit_iff)
    then show ?thesis by (simp add: a)
  qed
  then show ?thesis by (simp add: disjunctive_add)
qed

lemma unat_or_push_bit:
  fixes a b :: "'a::len word"
  assumes "unat a < 2 ^ n" and "unat b * 2 ^ n < 2 ^ LENGTH('a)"
  shows "unat (a OR push_bit n b) = unat a + unat b * 2 ^ n"
proof -
  have p: "unat (push_bit n b) = push_bit n (unat b)"
    by (rule trans [OF unat_push_bit])
      (use assms(2) in \<open>simp only: push_bit_eq_mult mod_less\<close>)
  have "unat (a OR push_bit n b) = unat a OR push_bit n (unat b)"
    by (simp only: unsigned_or_eq p)
  also have "\<dots> = unat a + push_bit n (unat b)"
    by (rule nat_or_push_bit [OF assms(1)])
  also have "push_bit n (unat b) = unat b * 2 ^ n"
    by (rule push_bit_eq_mult)
  finally show ?thesis .
qed

lemma word_or_push_bit:
  fixes a b :: "'a::len word"
  assumes "unat a < 2 ^ n"
  shows "a OR push_bit n b = a + push_bit n b"
proof -
  have "unat (take_bit n a) = unat a"
    using assms by (simp only: unat_take_bit mod_less)
  then have a: "take_bit n a = a" by (rule unat_eqI)
  have "\<not> bit a m \<or> \<not> bit (push_bit n b) m" for m
  proof (cases "m < n")
    case True
    then show ?thesis by (simp add: bit_push_bit_iff)
  next
    case False
    then have "\<not> bit (take_bit n a) m" by (simp add: bit_take_bit_iff)
    then show ?thesis by (simp add: a)
  qed
  then show ?thesis by (simp add: disjunctive_add)
qed

lemma unat_ucast_u32 [simp]: "unat (ucast (w :: u32) :: u64) = unat w"
  using unat_bound [of w] by (simp add: unat_ucast_mod)

text \<open>The top bit of a byte, which marks a continuation in a varint.\<close>

lemma u8_top_bit: "(b :: u8) AND 0x80 = 0 \<longleftrightarrow> unat b < 128"
proof -
  have "b AND 0x80 = 0 \<longleftrightarrow> \<not> bit b 7"
    using and_exp_eq_0_iff_not_bit [of b 7] by simp
  also have "bit b 7 \<longleftrightarrow> bit (unat b) 7"
    by (simp add: bit_unsigned_iff)
  also have "\<dots> \<longleftrightarrow> odd (unat b div 128)"
    by (simp add: bit_iff_odd)
  also have "\<dots> \<longleftrightarrow> 128 \<le> unat b"
    using u8_bound [of b] div_nat_eqI [of 128 1 "unat b"] by (cases "unat b < 128") auto
  finally show ?thesis by auto
qed

definition cont :: "u8 \<Rightarrow> bool" where
  "cont b \<longleftrightarrow> 128 \<le> unat b"

definition cont_run :: "u8 list \<Rightarrow> nat" where
  "cont_run bs = length (takeWhile cont bs)"

lemma and_0x80 [simp]: "(b :: u8) AND 0x80 \<noteq> 0 \<longleftrightarrow> cont b" "(b :: u8) AND 0x80 = 0 \<longleftrightarrow> \<not> cont b"
  using u8_top_bit [of b] by (auto simp: cont_def)

lemma cont_run_simps [simp]:
  "cont_run [] = 0"
  "cont_run (b # bs) = (if cont b then Suc (cont_run bs) else 0)"
  by (simp_all add: cont_run_def)

lemma cont_run_le: "cont_run bs \<le> length bs"
  by (simp add: cont_run_def length_takeWhile_le)

text \<open>A decidable fact about all bytes, by evaluation of the 256 cases.\<close>

lemma u8_all:
  assumes "list_all P (map word_of_nat [0..<256])"
  shows "P (b :: u8)"
proof -
  from assms have "\<forall>i<256. P (of_nat i)" by (auto simp: list_all_iff)
  then have "P (of_nat (unat b))" using u8_bound [of b] by blast
  then show "P b" by simp
qed

lemma u8_and_0x70: "(b :: u8) AND 0x70 = 0 \<longleftrightarrow> unat b mod 128 < 16"
  by (rule u8_all [of "\<lambda>b. (b AND 0x70 = 0) = (unat b mod 128 < 16)"]) code_simp

section \<open>Byte strings as numbers\<close>

text \<open>Little endian: \<open>le_val\<close> reads a byte string, \<open>le_bytes k n\<close> writes \<open>n\<close> in \<open>k\<close> bytes.\<close>

fun le_val :: "u8 list \<Rightarrow> nat" where
  "le_val [] = 0"
| "le_val (b # bs) = unat b + 256 * le_val bs"

fun le_bytes :: "nat \<Rightarrow> nat \<Rightarrow> u8 list" where
  "le_bytes 0 n = []"
| "le_bytes (Suc k) n = of_nat (n mod 256) # le_bytes k (n div 256)"

lemma length_le_bytes [simp]: "length (le_bytes k n) = k"
  by (induction k arbitrary: n) auto

lemma le_val_bound: "le_val bs < 256 ^ length bs"
proof (induction bs)
  case Nil
  then show ?case by simp
next
  case (Cons b bs)
  then have "256 * (le_val bs + 1) \<le> 256 * 256 ^ length bs" by (intro mult_le_mono2) simp
  then have "256 + 256 * le_val bs \<le> 256 * 256 ^ length bs" by simp
  then have "unat b + 256 * le_val bs < 256 * 256 ^ length bs" using u8_bound [of b] by linarith
  then show ?case by simp
qed

lemma le_val_bytes: "le_val (le_bytes k n) = n mod 256 ^ k"
proof (induction k arbitrary: n)
  case 0
  then show ?case by simp
next
  case (Suc k)
  then show ?case
    by (simp add: unat_of_nat_mod mod_mult2_eq)
qed

lemma le_bytes_val: "le_bytes (length bs) (le_val bs) = bs"
proof (induction bs)
  case Nil
  then show ?case by simp
next
  case (Cons b bs)
  have "(unat b + 256 * le_val bs) mod 256 = unat b" "(unat b + 256 * le_val bs) div 256 = le_val bs"
    by simp_all
  with Cons show ?case by simp
qed

lemma unat_ucast_u8 [simp]:
  "8 \<le> LENGTH('a::len) \<Longrightarrow> unat (ucast (b :: u8) :: 'a word) = unat b"
proof -
  assume "8 \<le> LENGTH('a)"
  then have "(2::nat) ^ 8 \<le> 2 ^ LENGTH('a)" by (intro power_increasing) auto
  then have "256 \<le> (2::nat) ^ LENGTH('a)" by simp
  then have "unat b < 2 ^ LENGTH('a)" by (rule less_le_trans [OF u8_bound])
  then show ?thesis by (simp add: unat_ucast_mod)
qed

lemma nth_le_bytes: "i < k \<Longrightarrow> le_bytes k n ! i = of_nat (n div 256 ^ i)"
proof (induction k arbitrary: n i)
  case (Suc k)
  show ?case
  proof (cases i)
    case 0
    have "of_nat (n mod 256) = (of_nat n :: u8)" by (rule unat_eqI) (simp add: unat_of_nat_mod)
    then show ?thesis using 0 by simp
  next
    case (Suc j)
    then show ?thesis using Suc.IH [of j "n div 256"] Suc.prems by (simp add: div_mult2_eq)
  qed
qed simp

lemma nth_le_bytes_word: "i < k \<Longrightarrow> le_bytes k (unat (v :: 'a::len word)) ! i = ucast (drop_bit (8 * i) v)"
  by (rule unat_eqI)
     (simp add: nth_le_bytes unat_of_nat_mod unat_ucast_mod unat_drop_bit power_mult)

lemma le_bytes_word: "le_bytes k (unat (v :: 'a::len word)) = map (\<lambda>i. ucast (drop_bit (8 * i) v)) [0..<k]"
  by (rule nth_equalityI) (simp_all add: nth_le_bytes_word)

text \<open>Adding a byte above the ones read so far.\<close>

lemma unat_or_byte:
  fixes a :: "'a::len word"
  assumes "unat a < 2 ^ n" and "n + 8 \<le> LENGTH('a)"
  shows "unat (a OR push_bit n (ucast (b :: u8))) = unat a + unat b * 2 ^ n"
proof -
  have "unat b * 2 ^ n < 2 ^ 8 * 2 ^ n" by simp
  also have "\<dots> = 2 ^ (n + 8)" by (simp add: power_add)
  also have "\<dots> \<le> 2 ^ LENGTH('a)" using assms(2) by (intro power_increasing) auto
  finally show ?thesis
    using unat_or_push_bit [OF assms(1), of "ucast b"] assms(2) by simp
qed

text \<open>A word is its bytes.\<close>

lemma byte_of: "(ucast (w AND 0xFF) :: u8) = ucast (w::'a::len word)"
  using unat_and_mask [of w 8] by (intro unat_eqI) (simp add: unat_ucast_mod mask_eq_exp_minus_1)

lemma split_byte: 
  fixes w :: "'a::len word"
  assumes "n + 8 \<le> LENGTH('a)"
  shows "push_bit n (ucast (ucast (drop_bit n w) :: u8)) OR push_bit (n + 8) (drop_bit (n + 8) w)
    = push_bit n (drop_bit n w)"
proof (rule bit_word_eqI)
  fix m assume "m < LENGTH('a)"
  with assms show "bit (push_bit n (ucast (ucast (drop_bit n w) :: u8))
      OR push_bit (n + 8) (drop_bit (n + 8) w)) m = bit (push_bit n (drop_bit n w)) m"
    by (cases "m < n + 8") (auto simp: bit_simps)
qed

section \<open>Functions that update a state and may fail\<close>

text \<open>
  A C function \<open>bool f(S *s, ..., T *dest)\<close> is a function from the state \<open>*s\<close> to an \<open>option\<close>
  (\<open>None\<close>: an access out of bounds) of a pair: the value written to \<open>dest\<close>, or \<open>None\<close> when the
  C function returns \<open>false\<close>, and the state afterwards.
\<close>

type_synonym ('s, 'a) io = "'s \<Rightarrow> ('a option \<times> 's) option"

definition io_ret :: "'a \<Rightarrow> ('s, 'a) io" where
  "io_ret a s = Some (Some a, s)"

definition io_bind :: "('s, 'a) io \<Rightarrow> ('a \<Rightarrow> ('s, 'b) io) \<Rightarrow> ('s, 'b) io" where
  "io_bind m f s =
     (case m s of
        None \<Rightarrow> None
      | Some (None, t) \<Rightarrow> Some (None, t)
      | Some (Some a, t) \<Rightarrow> f a t)"

lemma io_bind_cong [fundef_cong]:
  assumes "m s = m' s'" and "\<And>a t. m' s' = Some (Some a, t) \<Longrightarrow> f a t = g a t"
  shows "io_bind m f s = io_bind m' g s'"
  using assms by (auto simp: io_bind_def split: option.splits)

lemma io_bind_simps [simp]:
  "m s = None \<Longrightarrow> io_bind m f s = None"
  "m s = Some (None, t) \<Longrightarrow> io_bind m f s = Some (None, t)"
  "m s = Some (Some a, t) \<Longrightarrow> io_bind m f s = f a t"
  by (simp_all add: io_bind_def)

lemma io_bind_assoc: "io_bind (io_bind m f) g = io_bind m (\<lambda>a. io_bind (f a) g)"
  by (rule ext) (auto simp: io_bind_def split: option.split)

lemma io_bind_Some_iff:
  "io_bind m f s = Some (Some b, u) \<longleftrightarrow> (\<exists>a t. m s = Some (Some a, t) \<and> f a t = Some (Some b, u))"
  by (auto simp: io_bind_def split: option.splits)

section \<open>Blocks of memory\<close>

text \<open>
  Reading \<open>n\<close> bytes at an offset of a block, and copying bytes over it; \<open>None\<close> out of bounds.
\<close>

definition mem_read :: "u8 list \<Rightarrow> nat \<Rightarrow> nat \<Rightarrow> u8 list option" where
  "mem_read mem pos n = (if pos + n \<le> length mem then Some (take n (drop pos mem)) else None)"

definition mem_write :: "u8 list \<Rightarrow> nat \<Rightarrow> u8 list \<Rightarrow> u8 list option" where
  "mem_write mem pos bs =
     (if pos + length bs \<le> length mem
      then Some (take pos mem @ bs @ drop (pos + length bs) mem) else None)"

lemma length_mem_write: "mem_write mem pos bs = Some mem' \<Longrightarrow> length mem' = length mem"
  by (auto simp: mem_write_def split: if_splits)

lemma mem_read_0 [simp]: "mem_read mem 0 n = (if n \<le> length mem then Some (take n mem) else None)"
  by (simp add: mem_read_def)

end
