(* ===== verification/Pb_Stream.thy ===== *)
theory Pb_Stream
  imports Prelude
begin

text \<open>
  The input streams of nanopb: \<open>pb_istream_t\<close>, \<open>buf_read\<close>, \<open>pb_read\<close> and \<open>pb_readbyte\<close> of
  \<open>pb_decode.c\<close>, and the contract of a source of bytes that the decoders rely on.
\<close>

section \<open>Input streams\<close>

text \<open>
  \<open>callback\<close> and \<open>state\<close> of a \<open>pb_istream_t\<close>: either \<open>buf_read\<close> over a buffer, with the read
  pointer as an offset into it, or a callback of the user with its state, which is a parameter of
  the model (given the state and the count it returns the result, the bytes and the new state).
\<close>

datatype 's source =
    is_Buf_read: Buf_read (src_mem: "u8 list") (src_pos: nat)
  | User_read "'s \<Rightarrow> size_t \<Rightarrow> bool \<times> u8 list \<times> 's" 's

record 's pb_istream_t =
  is_src :: "'s source"
  bytes_left :: size_t
  is_errmsg :: "string option"

definition PB_SET_ERROR_i :: "string \<Rightarrow> 's pb_istream_t \<Rightarrow> 's pb_istream_t" where
  "PB_SET_ERROR_i msg s =
     s\<lparr>is_errmsg := (case is_errmsg s of None \<Rightarrow> Some msg | Some m \<Rightarrow> Some m)\<rparr>"

definition PB_RETURN_ERROR_i :: "string \<Rightarrow> ('s pb_istream_t, 'a) io" where
  "PB_RETURN_ERROR_i msg s = Some (None, PB_SET_ERROR_i msg s)"

definition buf_read :: "u8 list \<Rightarrow> nat \<Rightarrow> size_t \<Rightarrow> (u8 list \<times> nat) option" where
  "buf_read mem pos count =
     (if pos + unat count \<le> length mem
      then Some (take (unat count) (drop pos mem), pos + unat count)
      else None)"

fun src_call :: "'s source \<Rightarrow> size_t \<Rightarrow> (u8 list option \<times> 's source) option" where
  "src_call (Buf_read mem pos) count =
     (case buf_read mem pos count of
        None \<Rightarrow> None
      | Some (bs, pos') \<Rightarrow> Some (Some bs, Buf_read mem pos'))"
| "src_call (User_read f st) count =
     (case f st count of
        (ok, bs, st') \<Rightarrow> Some (if ok then Some bs else None, User_read f st'))"

definition pb_read :: "size_t \<Rightarrow> ('s pb_istream_t, u8 list) io" where
  "pb_read count s =
     (if count = 0 then io_ret [] s
      else if bytes_left s < count then PB_RETURN_ERROR_i ''end-of-stream'' s
      else case src_call (is_src s) count of
             None \<Rightarrow> None
           | Some (None, c) \<Rightarrow> PB_RETURN_ERROR_i ''io error'' (s\<lparr>is_src := c\<rparr>)
           | Some (Some bs, c) \<Rightarrow>
               io_ret bs (s\<lparr>is_src := c, bytes_left := bytes_left s - count\<rparr>))"

text \<open>
  \<open>pb_read\<close> with \<open>buf == NULL\<close> skips: a buffer stream in one call, any other stream in pieces of
  at most 16 bytes.
\<close>

function pb_read_skip :: "size_t \<Rightarrow> ('s pb_istream_t, unit) io" where
  "pb_read_skip count s =
     (if 16 < count then io_bind (pb_read 16) (\<lambda>_. pb_read_skip (count - 16)) s
      else io_bind (pb_read count) (\<lambda>_. io_ret ()) s)"
  by pat_completeness auto
termination
  by (relation "measure (\<lambda>(count, s). unat count)")
     (auto simp: unat_sub word_less_nat_alt word_le_nat_alt)

declare pb_read_skip.simps [simp del]

definition pb_read_null :: "size_t \<Rightarrow> ('s pb_istream_t, unit) io" where
  "pb_read_null count s =
     (if count = 0 then io_ret () s
      else if \<not> is_Buf_read (is_src s) then pb_read_skip count s
      else io_bind (pb_read count) (\<lambda>_. io_ret ()) s)"

definition pb_readbyte :: "('s pb_istream_t, u8) io" where
  "pb_readbyte s =
     (if bytes_left s = 0 then PB_RETURN_ERROR_i ''end-of-stream'' s
      else case src_call (is_src s) 1 of
             None \<Rightarrow> None
           | Some (None, c) \<Rightarrow> PB_RETURN_ERROR_i ''io error'' (s\<lparr>is_src := c\<rparr>)
           | Some (Some bs, c) \<Rightarrow>
               (case bs of
                  [] \<Rightarrow> None
                | b # _ \<Rightarrow> io_ret b (s\<lparr>is_src := c, bytes_left := bytes_left s - 1\<rparr>)))"

definition pb_istream_from_buffer :: "u8 list \<Rightarrow> size_t \<Rightarrow> 's pb_istream_t" where
  "pb_istream_from_buffer buf bufsize =
     \<lparr>is_src = Buf_read buf 0, bytes_left = bufsize, is_errmsg = None\<rparr>"

lemma pb_readbyte_bytes_left:
  "pb_readbyte s = Some (Some b, t) \<Longrightarrow> unat (bytes_left t) < unat (bytes_left s)"
  by (auto simp: pb_readbyte_def PB_RETURN_ERROR_i_def io_ret_def unat_minus_one unat_gt_0
           split: if_splits option.splits list.splits)

lemma pb_read_bytes_left:
  "pb_read n s = Some (Some bs, t) \<Longrightarrow> unat (bytes_left t) = unat (bytes_left s) - unat n"
  by (auto simp: pb_read_def PB_RETURN_ERROR_i_def io_ret_def unat_sub word_le_nat_alt not_less
           split: if_splits option.splits)

subsection \<open>The contract of a source\<close>

text \<open>
  What the decoder relies on: while enough bytes are pending, the callback delivers the next
  \<open>count\<close> of them and moves on.  Under this contract every decoding routine is a function of
  the bytes of the stream (\<open>avail\<close>), and never reads outside the buffer.
\<close>

locale byte_source =
  fixes pending :: "'s source \<Rightarrow> u8 list"
    and good :: "'s source \<Rightarrow> bool"
    and adv :: "nat \<Rightarrow> 's source \<Rightarrow> 's source"
  assumes call: "good c \<Longrightarrow> unat n \<le> length (pending c) \<Longrightarrow>
      src_call c n = Some (Some (take (unat n) (pending c)), adv (unat n) c)"
    and good_adv: "good c \<Longrightarrow> k \<le> length (pending c) \<Longrightarrow> good (adv k c)"
    and pending_adv: "good c \<Longrightarrow> k \<le> length (pending c) \<Longrightarrow> pending (adv k c) = drop k (pending c)"
    and adv_adv: "adv j (adv k c) = adv (k + j) c"
    and adv_0: "adv 0 c = c"
    and adv_kind: "is_Buf_read (adv k c) = is_Buf_read c"
begin

definition ready :: "'s pb_istream_t \<Rightarrow> bool" where
  "ready s \<longleftrightarrow> good (is_src s) \<and> unat (bytes_left s) \<le> length (pending (is_src s))"

definition avail :: "'s pb_istream_t \<Rightarrow> u8 list" where
  "avail s = take (unat (bytes_left s)) (pending (is_src s))"

definition advance :: "nat \<Rightarrow> 's pb_istream_t \<Rightarrow> 's pb_istream_t" where
  "advance k s = s\<lparr>is_src := adv k (is_src s), bytes_left := bytes_left s - of_nat k\<rparr>"

lemma length_avail: "ready s \<Longrightarrow> length (avail s) = unat (bytes_left s)"
  by (simp add: ready_def avail_def)

lemma avail_Nil: "ready s \<Longrightarrow> avail s = [] \<longleftrightarrow> bytes_left s = 0"
  using length_avail [of s] by (auto simp: unat_eq_0)

lemma advance_0 [simp]: "advance 0 s = s"
  by (simp add: advance_def adv_0)

lemma advance_advance [simp]: "advance j (advance k s) = advance (k + j) s"
  by (simp add: advance_def adv_adv algebra_simps)

lemma advance_errmsg [simp]: "is_errmsg (advance k s) = is_errmsg s"
  by (simp add: advance_def)

lemma unat_bytes_left_advance:
  assumes "k \<le> unat (bytes_left s)"
  shows "unat (bytes_left (advance k s)) = unat (bytes_left s) - k"
proof -
  have "k < 2 ^ LENGTH(64)"
    using assms unat_bound [of "bytes_left s"] by simp
  then have "unat (of_nat k :: size_t) = k"
    by (simp add: unat_of_nat_mod)
  then show ?thesis
    using assms by (simp add: advance_def unat_sub word_le_nat_alt)
qed

lemma ready_advance: "ready s \<Longrightarrow> k \<le> length (avail s) \<Longrightarrow> ready (advance k s)"
  using unat_bytes_left_advance [of k s]
  by (auto simp: ready_def length_avail advance_def good_adv pending_adv avail_def)

lemma avail_advance: "ready s \<Longrightarrow> k \<le> length (avail s) \<Longrightarrow> avail (advance k s) = drop k (avail s)"
  using unat_bytes_left_advance [of k s]
  by (auto simp: ready_def length_avail advance_def good_adv pending_adv avail_def drop_take)

lemma pb_readbyte_Cons:
  assumes "ready s" and "avail s = b # bs"
  shows "pb_readbyte s = Some (Some b, advance 1 s)"
proof -
  have l: "unat (bytes_left s) = Suc (length bs)"
    using assms length_avail [of s] by simp
  then have nz: "bytes_left s \<noteq> 0" by auto
  have g: "good (is_src s)" "Suc 0 \<le> length (pending (is_src s))"
    using assms(1) l by (auto simp: ready_def)
  have "take 1 (pending (is_src s)) = [b]"
    using assms(2) l by (cases "pending (is_src s)") (auto simp: avail_def)
  then have "src_call (is_src s) 1 = Some (Some [b], adv 1 (is_src s))"
    using call [of "is_src s" 1] g by simp
  then show ?thesis
    using nz by (simp add: pb_readbyte_def io_ret_def advance_def)
qed

lemma pb_readbyte_Nil:
  "ready s \<Longrightarrow> avail s = [] \<Longrightarrow> pb_readbyte s = PB_RETURN_ERROR_i ''end-of-stream'' s"
  by (simp add: pb_readbyte_def avail_Nil)

lemma pb_read_enough:
  assumes "ready s" and "unat n \<le> length (avail s)"
  shows "pb_read n s = Some (Some (take (unat n) (avail s)), advance (unat n) s)"
proof (cases "n = 0")
  case True
  then show ?thesis by (simp add: pb_read_def io_ret_def)
next
  case False
  have "\<not> bytes_left s < n"
    using assms by (simp add: length_avail word_less_nat_alt)
  moreover have "src_call (is_src s) n
      = Some (Some (take (unat n) (pending (is_src s))), adv (unat n) (is_src s))"
    using assms by (intro call) (auto simp: ready_def length_avail)
  moreover have "take (unat n) (pending (is_src s)) = take (unat n) (avail s)"
    using assms by (simp add: avail_def length_avail min_absorb1)
  ultimately show ?thesis
    using False by (simp add: pb_read_def io_ret_def advance_def)
qed

lemma pb_read_short:
  "ready s \<Longrightarrow> length (avail s) < unat n \<Longrightarrow> pb_read n s = PB_RETURN_ERROR_i ''end-of-stream'' s"
  by (auto simp: pb_read_def length_avail word_less_nat_alt)

lemma pb_read_skip_enough:
  "ready s \<Longrightarrow> unat n \<le> length (avail s) \<Longrightarrow> pb_read_skip n s = Some (Some (), advance (unat n) s)"
proof (induction n s rule: pb_read_skip.induct)
  case (1 n s)
  show ?case
  proof (cases "16 < n")
    case True
    have n: "16 \<le> unat n" "unat (n - 16) = unat n - 16"
      using True by (auto simp: word_less_nat_alt unat_sub word_le_nat_alt)
    have r: "pb_read 16 s = Some (Some (take 16 (avail s)), advance 16 s)"
      using pb_read_enough [of s 16] "1.prems" n by simp
    have "pb_read_skip (n - 16) (advance 16 s) = Some (Some (), advance (unat (n - 16)) (advance 16 s))"
      by (rule "1.IH" [OF True r]) (use "1.prems" n in \<open>simp_all add: ready_advance avail_advance\<close>)
    then show ?thesis
      using True r n by (simp add: pb_read_skip.simps [of n s])
  next
    case False
    then show ?thesis
      using pb_read_enough [OF "1.prems"] by (simp add: pb_read_skip.simps [of n s] io_ret_def)
  qed
qed

lemma pb_read_null_enough:
  "ready s \<Longrightarrow> unat n \<le> length (avail s) \<Longrightarrow> pb_read_null n s = Some (Some (), advance (unat n) s)"
  using pb_read_skip_enough [of s n] pb_read_enough [of s n]
  by (auto simp: pb_read_null_def io_ret_def)

end

text \<open>The buffer source keeps the contract.\<close>

fun buf_pending :: "'s source \<Rightarrow> u8 list" where
  "buf_pending (Buf_read mem pos) = drop pos mem"
| "buf_pending (User_read f st) = []"

fun buf_good :: "'s source \<Rightarrow> bool" where
  "buf_good (Buf_read mem pos) = (pos \<le> length mem)"
| "buf_good (User_read f st) = False"

fun buf_adv :: "nat \<Rightarrow> 's source \<Rightarrow> 's source" where
  "buf_adv k (Buf_read mem pos) = Buf_read mem (pos + k)"
| "buf_adv k (User_read f st) = User_read f st"

interpretation buf: byte_source buf_pending buf_good buf_adv
proof (unfold_locales, goal_cases)
  case (1 c n) then show ?case by (cases c) (auto simp: buf_read_def)
next
  case (2 c k) then show ?case by (cases c) auto
next
  case (3 c k) then show ?case by (cases c) (auto simp: add.commute)
next
  case (4 j k c) then show ?case by (cases c) auto
next
  case (5 c) then show ?case by (cases c) auto
next
  case (6 k c) then show ?case by (cases c) auto
qed

lemma ready_from_buffer:
  "buf.ready (pb_istream_from_buffer buf n) \<longleftrightarrow> unat n \<le> length buf"
  by (auto simp: buf.ready_def pb_istream_from_buffer_def)

lemma avail_from_buffer:
  "buf.avail (pb_istream_from_buffer buf n) = take (unat n) buf"
  by (simp add: buf.avail_def pb_istream_from_buffer_def)

end
