(* ===== verification/Pb_Ostream.thy ===== *)
theory Pb_Ostream
  imports Pb_Stream
begin

text \<open>
  The output streams of nanopb: \<open>pb_ostream_t\<close>, \<open>buf_write\<close> and \<open>pb_write\<close> of
  \<open>pb_encode.c\<close>, and the contract of a sink that the encoders rely on.
\<close>

section \<open>Output streams\<close>

text \<open>
  \<open>callback\<close> and \<open>state\<close> of a \<open>pb_ostream_t\<close>: no callback (a sizing stream), \<open>buf_write\<close>
  into a buffer with the write pointer as an offset, or a callback of the user.
\<close>

datatype 's sink =
    is_Null_cb: Null_cb
  | Buf_write (snk_mem: "u8 list") (snk_pos: nat)
  | User_write "'s \<Rightarrow> u8 list \<Rightarrow> bool \<times> 's" 's

record 's pb_ostream_t =
  os_sink :: "'s sink"
  max_size :: size_t
  bytes_written :: size_t
  os_errmsg :: "string option"

definition PB_SET_ERROR_o :: "string \<Rightarrow> 's pb_ostream_t \<Rightarrow> 's pb_ostream_t" where
  "PB_SET_ERROR_o msg s =
     s\<lparr>os_errmsg := (case os_errmsg s of None \<Rightarrow> Some msg | Some m \<Rightarrow> Some m)\<rparr>"

definition PB_RETURN_ERROR_o :: "string \<Rightarrow> ('s pb_ostream_t, 'a) io" where
  "PB_RETURN_ERROR_o msg s = Some (None, PB_SET_ERROR_o msg s)"

definition buf_write :: "u8 list \<Rightarrow> nat \<Rightarrow> u8 list \<Rightarrow> (u8 list \<times> nat) option" where
  "buf_write mem pos bs =
     (if pos + length bs \<le> length mem
      then Some (take pos mem @ bs @ drop (pos + length bs) mem, pos + length bs)
      else None)"

fun sink_call :: "'s sink \<Rightarrow> u8 list \<Rightarrow> (bool \<times> 's sink) option" where
  "sink_call Null_cb bs = None"
| "sink_call (Buf_write mem pos) bs =
     (case buf_write mem pos bs of
        None \<Rightarrow> None
      | Some (mem', pos') \<Rightarrow> Some (True, Buf_write mem' pos'))"
| "sink_call (User_write f st) bs =
     (case f st bs of (ok, st') \<Rightarrow> Some (ok, User_write f st'))"

definition PB_OSTREAM_SIZING :: "'s pb_ostream_t" where
  "PB_OSTREAM_SIZING =
     \<lparr>os_sink = Null_cb, max_size = 0, bytes_written = 0, os_errmsg = None\<rparr>"

definition pb_ostream_from_buffer :: "u8 list \<Rightarrow> size_t \<Rightarrow> 's pb_ostream_t" where
  "pb_ostream_from_buffer buf bufsize =
     \<lparr>os_sink = Buf_write buf 0, max_size = bufsize, bytes_written = 0, os_errmsg = None\<rparr>"

text \<open>
  \<open>pb_write(stream, buf, count)\<close>: \<open>buf\<close> is the memory from the pointer on, \<open>None\<close> for
  \<open>NULL\<close>; reading more than it holds is an access out of bounds.
\<close>

definition pb_write :: "u8 list option \<Rightarrow> size_t \<Rightarrow> ('s pb_ostream_t, unit) io" where
  "pb_write buf count s =
     (if 0 < count \<and> \<not> is_Null_cb (os_sink s) then
        if bytes_written s + count < bytes_written s \<or> max_size s < bytes_written s + count
        then PB_RETURN_ERROR_o ''stream full'' s
        else case buf of
               None \<Rightarrow> None
             | Some bs \<Rightarrow>
                 if length bs < unat count then None
                 else case sink_call (os_sink s) (take (unat count) bs) of
                        None \<Rightarrow> None
                      | Some (False, c) \<Rightarrow> PB_RETURN_ERROR_o ''io error'' (s\<lparr>os_sink := c\<rparr>)
                      | Some (True, c) \<Rightarrow>
                          io_ret () (s\<lparr>os_sink := c, bytes_written := bytes_written s + count\<rparr>)
      else io_ret () (s\<lparr>bytes_written := bytes_written s + count\<rparr>))"

text \<open>Writing a whole byte list.\<close>

definition put_bytes :: "u8 list \<Rightarrow> ('s pb_ostream_t, unit) io" where
  "put_bytes bs = pb_write (Some bs) (of_nat (length bs))"

lemma pb_write_null_cb:
  "is_Null_cb (os_sink s) \<Longrightarrow>
   pb_write buf n s = Some (Some (), s\<lparr>bytes_written := bytes_written s + n\<rparr>)"
  by (simp add: pb_write_def io_ret_def)

subsection \<open>The contract of a sink\<close>

text \<open>
  What the encoder relies on: while there is room, the callback stores the bytes after those it
  stored before.  \<open>app bs c\<close> is the sink after storing \<open>bs\<close>, \<open>room\<close> its space, \<open>stored\<close>
  what it holds.
\<close>

locale byte_sink =
  fixes room :: "'s sink \<Rightarrow> nat"
    and app :: "u8 list \<Rightarrow> 's sink \<Rightarrow> 's sink"
    and stored :: "'s sink \<Rightarrow> u8 list"
    and live :: "'s sink \<Rightarrow> bool"
  assumes call: "live c \<Longrightarrow> length bs \<le> room c \<Longrightarrow> sink_call c bs = Some (True, app bs c)"
    and live_app: "live c \<Longrightarrow> length bs \<le> room c \<Longrightarrow> live (app bs c)"
    and live_cb: "live c \<Longrightarrow> \<not> is_Null_cb c"
    and room_app: "live c \<Longrightarrow> length bs \<le> room c \<Longrightarrow> room (app bs c) = room c - length bs"
    and stored_app: "live c \<Longrightarrow> length bs \<le> room c \<Longrightarrow> stored (app bs c) = stored c @ bs"
    and app_app: "live c \<Longrightarrow> length xs + length ys \<le> room c \<Longrightarrow>
          app ys (app xs c) = app (xs @ ys) c"
    and app_Nil: "live c \<Longrightarrow> app [] c = c"
begin

text \<open>
  \<open>open_for n s\<close>: the stream takes \<open>n\<close> more bytes; \<open>emit bs s\<close>: the stream after it took \<open>bs\<close>.
\<close>

definition open_for :: "nat \<Rightarrow> 's pb_ostream_t \<Rightarrow> bool" where
  "open_for n s \<longleftrightarrow>
     live (os_sink s) \<and> n \<le> room (os_sink s) \<and>
     unat (bytes_written s) + n \<le> unat (max_size s)"

definition emit :: "u8 list \<Rightarrow> 's pb_ostream_t \<Rightarrow> 's pb_ostream_t" where
  "emit bs s = s\<lparr>os_sink := app bs (os_sink s),
                 bytes_written := bytes_written s + of_nat (length bs)\<rparr>"

lemma open_for_mono: "open_for n s \<Longrightarrow> k \<le> n \<Longrightarrow> open_for k s"
  by (auto simp: open_for_def)

lemma open_for_len:
  assumes "open_for n s"
  shows "unat (of_nat n :: size_t) = n"
    and "unat (bytes_written s + of_nat n) = unat (bytes_written s) + n"
proof -
  have "unat (bytes_written s) + n < 2 ^ LENGTH(64)"
    using assms unat_bound [of "max_size s"] by (simp add: open_for_def)
  then show "unat (of_nat n :: size_t) = n"
    and "unat (bytes_written s + of_nat n) = unat (bytes_written s) + n"
    by (simp_all add: unat_of_nat_mod unat_word_ariths)
qed

lemma put_bytes_emit:
  assumes "open_for (length bs) s"
  shows "put_bytes bs s = Some (Some (), emit bs s)"
proof (cases "bs = []")
  case True
  then show ?thesis
    using assms by (simp add: put_bytes_def pb_write_def io_ret_def emit_def open_for_def app_Nil)
next
  case False
  let ?n = "of_nat (length bs) :: size_t"
  note n = open_for_len [OF assms]
  have "0 < ?n" using False n(1) by (simp add: word_less_nat_alt)
  moreover have "\<not> bytes_written s + ?n < bytes_written s"
    by (simp add: word_less_nat_alt n)
  moreover have "\<not> max_size s < bytes_written s + ?n"
    using assms by (simp add: word_less_nat_alt n open_for_def)
  moreover have "sink_call (os_sink s) bs = Some (True, app bs (os_sink s))"
    using assms by (intro call) (auto simp: open_for_def)
  ultimately show ?thesis
    using assms by (simp add: put_bytes_def pb_write_def n io_ret_def emit_def open_for_def live_cb)
qed

lemma open_for_emit:
  assumes "open_for (length bs + n) s"
  shows "open_for n (emit bs s)"
  using assms open_for_len(2) [OF open_for_mono [OF assms, of "length bs"]]
  by (auto simp: open_for_def emit_def live_app room_app)

lemma emit_emit:
  "open_for (length xs + length ys) s \<Longrightarrow> emit ys (emit xs s) = emit (xs @ ys) s"
  by (simp add: emit_def open_for_def app_app algebra_simps)

lemma stored_emit:
  "open_for (length bs) s \<Longrightarrow> stored (os_sink (emit bs s)) = stored (os_sink s) @ bs"
  by (simp add: emit_def open_for_def stored_app)

lemma bytes_written_emit:
  "open_for (length bs) s \<Longrightarrow> unat (bytes_written (emit bs s)) = unat (bytes_written s) + length bs"
  using open_for_len(2) [of "length bs" s] by (simp add: emit_def)

lemma emit_simps [simp]:
  "max_size (emit bs s) = max_size s" "os_errmsg (emit bs s) = os_errmsg s"
  by (simp_all add: emit_def)

end

text \<open>The buffer sink keeps the contract.\<close>

fun buf_room :: "'s sink \<Rightarrow> nat" where
  "buf_room (Buf_write mem pos) = length mem - pos"
| "buf_room Null_cb = 0"
| "buf_room (User_write f st) = 0"

fun buf_app :: "u8 list \<Rightarrow> 's sink \<Rightarrow> 's sink" where
  "buf_app bs (Buf_write mem pos) =
     Buf_write (take pos mem @ bs @ drop (pos + length bs) mem) (pos + length bs)"
| "buf_app bs Null_cb = Null_cb"
| "buf_app bs (User_write f st) = User_write f st"

fun buf_stored :: "'s sink \<Rightarrow> u8 list" where
  "buf_stored (Buf_write mem pos) = take pos mem"
| "buf_stored Null_cb = []"
| "buf_stored (User_write f st) = []"

fun buf_live :: "'s sink \<Rightarrow> bool" where
  "buf_live (Buf_write mem pos) = (pos \<le> length mem)"
| "buf_live Null_cb = False"
| "buf_live (User_write f st) = False"

interpretation obuf: byte_sink buf_room buf_app buf_stored buf_live
proof (unfold_locales, goal_cases)
  case (1 c bs) then show ?case by (cases c) (auto simp: buf_write_def)
next
  case (2 c bs) then show ?case by (cases c) auto
next
  case (3 c) then show ?case by (cases c) auto
next
  case (4 c bs) then show ?case by (cases c) auto
next
  case (5 c bs) then show ?case by (cases c) auto
next
  case (6 c xs ys) then show ?case by (cases c) (auto simp: ac_simps)
next
  case (7 c) then show ?case by (cases c) auto
qed

lemma open_from_buffer:
  "obuf.open_for n (pb_ostream_from_buffer buf m) \<longleftrightarrow> n \<le> length buf \<and> n \<le> unat m"
  by (simp add: obuf.open_for_def pb_ostream_from_buffer_def)

section \<open>Streams over a buffer\<close>

text \<open>
  The invariant of an output stream over a buffer: the write pointer is \<open>bytes_written\<close> bytes
  into a buffer of at least \<open>max_size\<close> bytes.
\<close>

definition wf_ostream :: "'s pb_ostream_t \<Rightarrow> bool" where
  "wf_ostream s \<longleftrightarrow>
     os_sink s = Buf_write (snk_mem (os_sink s)) (unat (bytes_written s)) \<and>
     bytes_written s \<le> max_size s \<and> unat (max_size s) \<le> length (snk_mem (os_sink s))"

lemma wf_from_buffer [simp]: "wf_ostream (pb_ostream_from_buffer mem cap) \<longleftrightarrow> unat cap \<le> length mem"
  by (simp add: wf_ostream_def pb_ostream_from_buffer_def)

definition written :: "u8 list \<Rightarrow> 's pb_ostream_t \<Rightarrow> 's pb_ostream_t" where
  "written bs s =
     (let mem = snk_mem (os_sink s); w = unat (bytes_written s); n = length bs
      in s\<lparr>os_sink := Buf_write (take w mem @ bs @ drop (w + n) mem) (w + n),
           bytes_written := bytes_written s + of_nat n\<rparr>)"

lemma fits_iff:
  fixes w m n :: size_t
  assumes "w \<le> m"
  shows "\<not> (w + n < w \<or> m < w + n) \<longleftrightarrow> unat w + unat n \<le> unat m"
proof (cases "unat w + unat n < 2 ^ 64")
  case True
  then have "unat (w + n) = unat w + unat n" by (simp add: unat_word_ariths)
  then show ?thesis by (auto simp: word_less_nat_alt)
next
  case False
  then have "unat (w + n) = unat w + unat n - 2 ^ 64"
    using unat_bound [of w] unat_bound [of n] by (simp add: unat_word_ariths mod_if)
  then have "w + n < w" using False unat_bound [of n] by (simp add: word_less_nat_alt)
  moreover have "\<not> unat w + unat n \<le> unat m" using False unat_bound [of m] by simp
  ultimately show ?thesis by simp
qed

lemma pb_write_wf:
  assumes wf: "wf_ostream s" and n: "unat n \<le> length bs"
  shows "pb_write (Some bs) n s =
    (if unat (bytes_written s) + unat n \<le> unat (max_size s)
     then Some (Some (), written (take (unat n) bs) s)
     else PB_RETURN_ERROR_o ''stream full'' s)"
proof -
  let ?w = "unat (bytes_written s)" and ?mem = "snk_mem (os_sink s)"
  have sink: "os_sink s = Buf_write ?mem ?w" and le: "bytes_written s \<le> max_size s"
    and mem: "unat (max_size s) \<le> length ?mem"
    using wf by (auto simp: wf_ostream_def)
  have cb: "\<not> is_Null_cb (os_sink s)" by (subst sink) simp
  note fits = fits_iff [OF le, of n]
  show ?thesis
  proof (cases "n = 0")
    case True
    have "written [] s = s"
      using sink by (simp add: written_def Let_def)
    with True le show ?thesis by (simp add: pb_write_def io_ret_def word_le_nat_alt)
  next
    case False
    then have pos: "0 < n" by (simp add: word_neq_0_conv)
    show ?thesis
    proof (cases "?w + unat n \<le> unat (max_size s)")
      case True
      then have "sink_call (os_sink s) (take (unat n) bs)
          = Some (True, os_sink (written (take (unat n) bs) s))"
        using n mem by (subst sink) (simp add: buf_write_def written_def Let_def)
      moreover have "of_nat (unat n) = n" by simp
      ultimately show ?thesis
        using True pos cb fits n by (simp add: pb_write_def io_ret_def written_def Let_def min_absorb2)
    next
      case False
      then show ?thesis using pos cb fits by (simp add: pb_write_def)
    qed
  qed
qed

lemma wf_written:
  assumes "wf_ostream s" and "unat (bytes_written s) + length bs \<le> unat (max_size s)"
  shows "wf_ostream (written bs s)"
    and "unat (bytes_written (written bs s)) = unat (bytes_written s) + length bs"
    and "max_size (written bs s) = max_size s"
    and "os_errmsg (written bs s) = os_errmsg s"
proof -
  have "unat (bytes_written s) + length bs < 2 ^ LENGTH(64)"
    using assms(2) unat_bound [of "max_size s"] by linarith
  then show w: "unat (bytes_written (written bs s)) = unat (bytes_written s) + length bs"
    by (simp add: written_def Let_def unat_word_ariths unat_of_nat_mod)
  show "max_size (written bs s) = max_size s" "os_errmsg (written bs s) = os_errmsg s"
    by (simp_all add: written_def Let_def)
  then show "wf_ostream (written bs s)"
    using assms w by (auto simp: wf_ostream_def word_le_nat_alt) (simp_all add: written_def Let_def)
qed

lemma put_bytes_wf:
  assumes "wf_ostream s"
  shows "length bs < 2 ^ 64 \<Longrightarrow> put_bytes bs s =
    (if unat (bytes_written s) + length bs \<le> unat (max_size s)
     then Some (Some (), written bs s)
     else PB_RETURN_ERROR_o ''stream full'' s)"
  using pb_write_wf [OF assms, of "of_nat (length bs)" bs]
  by (simp add: put_bytes_def unat_of_nat_mod)

end
