(* ===== verification/Varint.thy ===== *)
theory Varint
  imports Prelude
begin

text \<open>
  Varints, shared by nanopb and leveldb: \<open>leb128\<close> is the reference encoding, seven bits in a byte
  with the lowest first and the top bit set in all but the last, and \<open>varint_val\<close> the value of a
  byte string.
\<close>

fun leb128 :: "nat \<Rightarrow> u8 list" where
  "leb128 n = (if n < 128 then [of_nat n] else of_nat (n mod 128 + 128) # leb128 (n div 128))"

declare leb128.simps [simp del]

lemma leb128_nonempty [simp]: "leb128 n \<noteq> []"
  by (subst leb128.simps) simp

lemma length_leb128: "0 < k \<Longrightarrow> n < 2 ^ (7 * k) \<Longrightarrow> length (leb128 n) \<le> k"
proof (induction k arbitrary: n)
  case 0
  then show ?case by simp
next
  case (Suc k)
  show ?case
  proof (cases "n < 128")
    case True
    then show ?thesis by (simp add: leb128.simps)
  next
    case False
    have "k \<noteq> 0" using False Suc.prems(2) by (intro notI) simp
    moreover have "n div 128 < 2 ^ (7 * k)"
      using Suc.prems(2) by (simp add: less_mult_imp_div_less power_add mult.commute)
    ultimately show ?thesis
      using False Suc.IH [of "n div 128"] by (simp add: leb128.simps [of n])
  qed
qed

lemma length_leb128_u64: "length (leb128 (unat (v :: u64))) \<le> 10"
  using length_leb128 [of 10 "unat v"] unat_bound [of v] by simp

lemma length_leb128_u32: "length (leb128 (unat (v :: u32))) \<le> 5"
  using length_leb128 [of 5 "unat v"] unat_bound [of v] by simp

fun varint_val :: "u8 list \<Rightarrow> nat" where
  "varint_val [] = 0"
| "varint_val (b # bs) = unat b mod 128 + 128 * varint_val bs"

lemma ucast_low_bits: "ucast (b AND 0x7F :: u8) = (of_nat (unat b mod 128) :: 'a::len word)"
  by (rule unat_eqI) (simp add: unat_ucast_mod unat_and_0x7F unat_of_nat_mod)

lemma varint_step:
  fixes r :: "'a::len word"
  assumes "unat r < 2 ^ n"
  shows "r OR push_bit n (ucast (b AND 0x7F :: u8)) = r + of_nat (unat b mod 128 * 2 ^ n)"
  using word_or_push_bit [OF assms, of "ucast (b AND 0x7F)"]
  by (simp add: ucast_low_bits push_bit_eq_mult)

lemma varint_step_bound:
  fixes r :: "'a::len word"
  assumes "unat r < 2 ^ n"
  shows "unat (r + of_nat (unat (b :: u8) mod 128 * 2 ^ n)) < 2 ^ (n + 7)"
proof -
  have "unat (r + of_nat (unat b mod 128 * 2 ^ n)) \<le> unat r + unat b mod 128 * 2 ^ n"
    by (simp only: unat_word_ariths unat_of_nat_mod mod_add_right_eq) (rule mod_less_eq_dividend)
  also have "\<dots> < 2 ^ n + 127 * 2 ^ n"
    using assms by (intro add_less_le_mono mult_le_mono1) auto
  finally show ?thesis by (simp add: power_add)
qed

lemma leb128_split:
  "cont_run (leb128 n @ rest) = length (leb128 n) - 1 \<and> varint_val (leb128 n) = n"
proof (induction n rule: leb128.induct)
  case (1 n)
  show ?case
  proof (cases "n < 128")
    case True
    then show ?thesis
      by (simp add: leb128.simps [of n] cont_def unat_of_nat_mod)
  next
    case False
    have u: "unat (of_nat (n mod 128 + 128) :: u8) = n mod 128 + 128"
      by (simp add: unat_of_nat_mod del: of_nat_add)
    then have "cont (of_nat (n mod 128 + 128))" by (simp add: cont_def)
    moreover have "(n mod 128 + 128) mod 128 = n mod 128" by simp
    ultimately show ?thesis
      using "1.IH" [OF False] False u leb128_nonempty [of "n div 128"]
      by (simp add: leb128.simps [of n] Suc_pred del: of_nat_add)
  qed
qed

lemma take_leb128 [simp]: "take (Suc (cont_run (leb128 n @ rest))) (leb128 n @ rest) = leb128 n"
  using leb128_split [of n rest] by simp

lemma varint_val_leb128 [simp]: "varint_val (leb128 n) = n"
  using leb128_split [of n "[]"] by simp

lemma Suc_cont_run_leb128 [simp]: "Suc (cont_run (leb128 n @ rest)) = length (leb128 n)"
  using leb128_split [of n rest] by simp

lemma cont_run_leb128: "cont_run (leb128 n @ rest) < length (leb128 n)"
  by (metis Suc_cont_run_leb128 lessI)

lemma varint_val_bound: "varint_val bs < 128 ^ length bs"
proof (induction bs)
  case Nil
  then show ?case by simp
next
  case (Cons b bs)
  then have "128 * Suc (varint_val bs) \<le> 128 * 128 ^ length bs" by (intro mult_le_mono2) simp
  moreover have "unat b mod 128 < 128" by simp
  ultimately show ?case by simp
qed

end
