(* ===== verification/Pb_Wire_Encode.thy ===== *)
theory Pb_Wire_Encode
  imports Pb_Ostream Varint
begin

text \<open>
  The wire-level encoders of \<open>pb_encode.c\<close>: varints, zig-zag varints, fixed width integers,
  tags and strings.  \<open>leb128\<close> is the reference encoding of the protocol buffer specification;
  every encoder writes exactly the bytes the reference gives.
\<close>

section \<open>Wire types\<close>

datatype pb_wire_type_t = PB_WT_VARINT | PB_WT_64BIT | PB_WT_STRING | PB_WT_32BIT | PB_WT_INVALID u32

fun wire_code :: "pb_wire_type_t \<Rightarrow> u32" where
  "wire_code PB_WT_VARINT = 0"
| "wire_code PB_WT_64BIT = 1"
| "wire_code PB_WT_STRING = 2"
| "wire_code PB_WT_32BIT = 5"
| "wire_code (PB_WT_INVALID w) = w"

text \<open>The cast \<open>(pb_wire_type_t) x\<close>: a value outside the enumeration stays as it is.\<close>

definition wire_of_code :: "u32 \<Rightarrow> pb_wire_type_t" where
  "wire_of_code w =
     (if w = 0 then PB_WT_VARINT else if w = 1 then PB_WT_64BIT
      else if w = 2 then PB_WT_STRING else if w = 5 then PB_WT_32BIT
      else PB_WT_INVALID w)"

lemma wire_code_of_code [simp]: "wire_code (wire_of_code w) = w"
  by (simp add: wire_of_code_def)

section \<open>Varints\<close>

function varint_buffer :: "u64 \<Rightarrow> u8 list" where
  "varint_buffer value =
     (if value = 0 then []
      else (ucast (value AND 0x7F) OR 0x80) # varint_buffer (drop_bit 7 value))"
  by pat_completeness auto
termination
  by (relation "measure unat") (simp_all add: unat_drop_bit unat_gt_0)

declare varint_buffer.simps [simp del]

definition pb_encode_varint :: "u64 \<Rightarrow> ('s pb_ostream_t, unit) io" where
  "pb_encode_varint value =
     (if value \<le> 0x7F then put_bytes [ucast value]
      else let buffer = varint_buffer value; i = length buffer
           in put_bytes (buffer[i - 1 := buffer ! (i - 1) AND 0x7F]))"

lemma u8_or_0x80:
  fixes b :: u8
  assumes "unat b < 128"
  shows "unat (b OR 0x80) = unat b + 128"
  using unat_or_push_bit [of b 7 1] assms by simp

lemma varint_byte: "ucast (v AND 0x7F :: u64) OR (0x80 :: u8) = of_nat (unat v mod 128 + 128)"
proof (rule unat_eqI)
  have "unat (ucast (v AND 0x7F) :: u8) = unat v mod 128"
    by (simp add: unat_ucast_mod unat_and_0x7F)
  then show "unat (ucast (v AND 0x7F) OR (0x80 :: u8)) = unat (of_nat (unat v mod 128 + 128) :: u8)"
    using u8_or_0x80 [of "ucast (v AND 0x7F)"] by (simp add: unat_of_nat_mod del: of_nat_add)
qed

lemma varint_last_byte:
  "n < 128 \<Longrightarrow> (of_nat (n mod 128 + 128) :: u8) AND 0x7F = of_nat n"
  by (rule unat_eqI) (simp add: unat_and_0x7F unat_of_nat_mod del: of_nat_add)

lemma varint_buffer_leb128:
  assumes "0 < v"
  shows "varint_buffer v \<noteq> [] \<and>
    (varint_buffer v)[length (varint_buffer v) - 1 := last (varint_buffer v) AND 0x7F]
      = leb128 (unat v)"
  using assms
proof (induction v rule: varint_buffer.induct)
  case (1 v)
  have v0: "v \<noteq> 0" using "1.prems" by auto
  have d: "unat (drop_bit 7 v) = unat v div 128"
    by (simp add: unat_drop_bit)
  have unf: "varint_buffer v = of_nat (unat v mod 128 + 128) # varint_buffer (drop_bit 7 v)"
    using v0 by (subst varint_buffer.simps) (simp add: varint_byte)
  show ?case
  proof (cases "unat v < 128")
    case True
    then have "drop_bit 7 v = 0"
      using d by (simp add: unat_eq_0)
    then have "varint_buffer (drop_bit 7 v) = []"
      by (simp add: varint_buffer.simps)
    then show ?thesis
      using True varint_last_byte [of "unat v"] by (simp add: unf leb128.simps [of "unat v"])
  next
    case False
    then have "0 < drop_bit 7 v"
      using d by (simp add: word_less_nat_alt)
    from "1.IH" [OF v0 this] show ?thesis
      using False d
      by (cases "varint_buffer (drop_bit 7 v)")
         (auto simp: unf leb128.simps [of "unat v"])
  qed
qed

lemma pb_encode_varint_leb128: "pb_encode_varint v = put_bytes (leb128 (unat v))"
proof (cases "v \<le> 0x7F")
  case True
  then have "unat v < 128" by (simp add: word_le_nat_alt)
  moreover have "ucast v = (of_nat (unat v) :: u8)" by simp
  ultimately show ?thesis
    using True by (simp add: pb_encode_varint_def leb128.simps)
next
  case False
  then have "0 < v" by (simp add: word_less_nat_alt word_le_nat_alt)
  from varint_buffer_leb128 [OF this] have ne: "varint_buffer v \<noteq> []"
    and eq: "(varint_buffer v)[length (varint_buffer v) - 1 := last (varint_buffer v) AND 0x7F]
               = leb128 (unat v)" by auto
  show ?thesis
    using False eq by (simp add: pb_encode_varint_def Let_def last_conv_nth [OF ne])
qed

text \<open>The 10-byte \<open>buffer\<close> on the stack is large enough.\<close>

lemma length_varint_buffer: "length (varint_buffer v) \<le> 10"
proof (cases "v = 0")
  case True
  then show ?thesis by (simp add: varint_buffer.simps)
next
  case False
  then have "0 < v" by (simp add: word_gt_0)
  from varint_buffer_leb128 [OF this] have "length (varint_buffer v) = length (leb128 (unat v))"
    by (metis length_list_update)
  then show ?thesis by (simp add: length_leb128_u64)
qed

section \<open>Zig-zag, fixed width, tags and strings\<close>

text \<open>A \<open>pb_int64_t\<close> is a 64-bit word read with \<open>sint\<close>.\<close>

definition zigzag :: "u64 \<Rightarrow> u64" where
  "zigzag value = (if value <s 0 then NOT (push_bit 1 value) else push_bit 1 value)"

definition pb_encode_svarint :: "u64 \<Rightarrow> ('s pb_ostream_t, unit) io" where
  "pb_encode_svarint value = pb_encode_varint (zigzag value)"

definition fixed32_bytes :: "u32 \<Rightarrow> u8 list" where
  "fixed32_bytes val =
     [ucast (val AND 0xFF), ucast (drop_bit 8 val AND 0xFF),
      ucast (drop_bit 16 val AND 0xFF), ucast (drop_bit 24 val AND 0xFF)]"

definition pb_encode_fixed32 :: "u32 \<Rightarrow> ('s pb_ostream_t, unit) io" where
  "pb_encode_fixed32 val = put_bytes (fixed32_bytes val)"

definition fixed64_bytes :: "u64 \<Rightarrow> u8 list" where
  "fixed64_bytes val =
     [ucast (val AND 0xFF), ucast (drop_bit 8 val AND 0xFF),
      ucast (drop_bit 16 val AND 0xFF), ucast (drop_bit 24 val AND 0xFF),
      ucast (drop_bit 32 val AND 0xFF), ucast (drop_bit 40 val AND 0xFF),
      ucast (drop_bit 48 val AND 0xFF), ucast (drop_bit 56 val AND 0xFF)]"

definition pb_encode_fixed64 :: "u64 \<Rightarrow> ('s pb_ostream_t, unit) io" where
  "pb_encode_fixed64 val = put_bytes (fixed64_bytes val)"

definition pb_encode_tag :: "pb_wire_type_t \<Rightarrow> u32 \<Rightarrow> ('s pb_ostream_t, unit) io" where
  "pb_encode_tag wiretype field_number =
     pb_encode_varint (push_bit 3 (ucast field_number) OR ucast (wire_code wiretype))"

definition pb_encode_string :: "u8 list option \<Rightarrow> size_t \<Rightarrow> ('s pb_ostream_t, unit) io" where
  "pb_encode_string buffer count =
     io_bind (pb_encode_varint count) (\<lambda>_. pb_write buffer count)"

lemma unat_tag:
  fixes n w :: u32
  assumes "unat w < 8"
  shows "unat (push_bit 3 (ucast n) OR (ucast w :: u64)) = unat n * 8 + unat w"
proof -
  have "unat (ucast n :: u64) = unat n" "unat (ucast w :: u64) = unat w"
    using unat_bound [of n] unat_bound [of w] by (simp_all add: unat_ucast_mod)
  then have "unat ((ucast w :: u64) OR push_bit 3 (ucast n)) = unat w + unat n * 2 ^ 3"
    using assms unat_bound [of n] by (subst unat_or_push_bit) auto
  then show ?thesis
    by (simp add: or.commute)
qed

text \<open>The zig-zag code of \<open>n\<close> is \<open>2n\<close> for \<open>n \<ge> 0\<close> and \<open>-2n - 1\<close> below.\<close>

lemma uint_zigzag:
  "uint (zigzag v) = (if 0 \<le> sint v then 2 * sint v else - 2 * sint v - 1)"
proof -
  define i where "i = sint v"
  have r: "- (2 ^ 63) \<le> i" "i < 2 ^ 63"
    using sint_greater_eq [of v] sint_less [of v] by (simp_all add: i_def)
  have v: "word_of_int i = v" by (simp add: i_def)
  have "push_bit 1 v = 2 * v" by (simp add: push_bit_eq_mult)
  also have "2 * v = word_of_int (2 * i)" by (simp only: of_int_mult v of_int_numeral)
  finally have p: "push_bit 1 v = word_of_int (2 * i)" .
  have n: "NOT (push_bit 1 v) = word_of_int (- 2 * i - 1)"
    by (simp only: p not_eq_complement of_int_diff of_int_1 of_int_mult of_int_minus of_int_numeral
          mult_minus_left)
  show ?thesis
  proof (cases "0 \<le> i")
    case True
    then have "uint (push_bit 1 v) = 2 * i"
      using r by (simp only: p uint_word_of_int) simp
    with True show ?thesis
      by (simp add: zigzag_def word_sless_alt flip: i_def)
  next
    case False
    then have "uint (NOT (push_bit 1 v)) = - 2 * i - 1"
      using r by (simp only: n uint_word_of_int) simp
    with False show ?thesis
      by (simp add: zigzag_def word_sless_alt flip: i_def)
  qed
qed

end
