(* ===== verification/Pb_Wire_Decode.thy ===== *)
theory Pb_Wire_Decode
  imports Pb_Wire_Encode
begin

text \<open>
  The wire-level decoders of \<open>pb_decode.c\<close>: varints of 64 and of 32 bits, tags, skipping of
  unknown fields, raw values, length-delimited substreams, zig-zag and fixed width integers.
\<close>

section \<open>64-bit varints\<close>

text \<open>\<open>bitpos\<close> is a \<open>uint_fast8_t\<close>, 8 bits wide on the platforms of the application.\<close>

function decode_varint_loop :: "u8 \<Rightarrow> u64 \<Rightarrow> ('s pb_istream_t, u64) io" where
  "decode_varint_loop bitpos result s =
     (if 64 \<le> bitpos then PB_RETURN_ERROR_i ''varint overflow'' s
      else io_bind pb_readbyte
             (\<lambda>byte t.
                let result' = result OR push_bit (unat bitpos) (ucast (byte AND 0x7F))
                in if byte AND 0x80 \<noteq> 0 then decode_varint_loop (bitpos + 7) result' t
                   else io_ret result' t) s)"
  by pat_completeness auto
termination
  by (relation "measure (\<lambda>(bitpos, result, s). unat (bytes_left s))")
     (auto dest: pb_readbyte_bytes_left)

declare decode_varint_loop.simps [simp del]

definition pb_decode_varint :: "('s pb_istream_t, u64) io" where
  "pb_decode_varint = decode_varint_loop 0 0"

section \<open>32-bit varints\<close>

function varint32_loop :: "u8 \<Rightarrow> u32 \<Rightarrow> ('s pb_istream_t, u32) io" where
  "varint32_loop bitpos result s =
     io_bind pb_readbyte
       (\<lambda>byte t.
          let sign_extension = (if bitpos < 63 then 0xFF else 0x01);
              result' = (if 32 \<le> bitpos then result
                         else result OR push_bit (unat bitpos) (ucast (byte AND 0x7F)));
              bitpos' = bitpos + 7
          in if 32 \<le> bitpos \<and> byte AND 0x7F \<noteq> 0
                \<and> (drop_bit 31 result = 0 \<or> byte \<noteq> sign_extension)
             then PB_RETURN_ERROR_i ''varint overflow'' t
             else if byte AND 0x80 \<noteq> 0 then varint32_loop bitpos' result' t
             else if bitpos' = 35 \<and> byte AND 0x70 \<noteq> 0
             then PB_RETURN_ERROR_i ''varint overflow'' t
             else io_ret result' t) s"
  by pat_completeness auto
termination
  by (relation "measure (\<lambda>(bitpos, result, s). unat (bytes_left s))")
     (auto dest: pb_readbyte_bytes_left)

declare varint32_loop.simps [simp del]

text \<open>
  \<open>pb_decode_varint32_eof\<close> also returns whether it set \<open>*eof\<close>: when the first byte cannot be
  read and no bytes are left.
\<close>

definition pb_decode_varint32_eof ::
  "'s pb_istream_t \<Rightarrow> (u32 option \<times> bool \<times> 's pb_istream_t) option" where
  "pb_decode_varint32_eof s =
     (case pb_readbyte s of
        None \<Rightarrow> None
      | Some (None, t) \<Rightarrow> Some (None, bytes_left t = 0, t)
      | Some (Some byte, t) \<Rightarrow>
          if byte AND 0x80 = 0 then Some (Some (ucast byte), False, t)
          else (case varint32_loop 7 (ucast (byte AND 0x7F)) t of
                  None \<Rightarrow> None
                | Some (r, t') \<Rightarrow> Some (r, False, t')))"

definition pb_decode_varint32 :: "('s pb_istream_t, u32) io" where
  "pb_decode_varint32 s =
     (case pb_decode_varint32_eof s of
        None \<Rightarrow> None
      | Some (r, _, t) \<Rightarrow> Some (r, t))"

section \<open>Skipping, tags and raw values\<close>

function pb_skip_varint :: "('s pb_istream_t, unit) io" where
  "pb_skip_varint s =
     io_bind (pb_read 1)
       (\<lambda>bs t. case bs of
                  [] \<Rightarrow> None
                | byte # _ \<Rightarrow> if byte AND 0x80 \<noteq> 0 then pb_skip_varint t else io_ret () t) s"
  by pat_completeness auto
termination
  by (relation "measure (\<lambda>s. unat (bytes_left s))")
     (auto simp: pb_read_def io_ret_def PB_RETURN_ERROR_i_def unat_gt_0 unat_minus_one
           split: if_splits option.splits)

declare pb_skip_varint.simps [simp del]

definition pb_skip_string :: "('s pb_istream_t, unit) io" where
  "pb_skip_string = io_bind pb_decode_varint32 (\<lambda>len. pb_read_null (ucast len))"

text \<open>\<open>pb_decode_tag\<close>: the wire type and the tag, and the value of \<open>*eof\<close> on return.\<close>

definition pb_decode_tag ::
  "'s pb_istream_t \<Rightarrow> ((pb_wire_type_t \<times> u32) option \<times> bool \<times> 's pb_istream_t) option" where
  "pb_decode_tag s =
     (case pb_decode_varint32_eof s of
        None \<Rightarrow> None
      | Some (None, eof, t) \<Rightarrow> Some (None, eof, t)
      | Some (Some temp, eof, t) \<Rightarrow>
          if temp = 0 then Some (None, True, t)
          else Some (Some (wire_of_code (temp AND 7), drop_bit 3 temp), eof, t))"

fun pb_skip_field :: "pb_wire_type_t \<Rightarrow> ('s pb_istream_t, unit) io" where
  "pb_skip_field PB_WT_VARINT s = pb_skip_varint s"
| "pb_skip_field PB_WT_64BIT s = pb_read_null 8 s"
| "pb_skip_field PB_WT_STRING s = pb_skip_string s"
| "pb_skip_field PB_WT_32BIT s = pb_read_null 4 s"
| "pb_skip_field (PB_WT_INVALID w) s = PB_RETURN_ERROR_i ''invalid wire_type'' s"

text \<open>
  \<open>read_raw_value\<close>: the bytes stored to \<open>buf\<close>, as many as \<open>*size\<close> says on return, where
  \<open>max_size\<close> is \<open>*size\<close> on call.
\<close>

function raw_varint_loop :: "nat \<Rightarrow> u8 list \<Rightarrow> ('s pb_istream_t, u8 list) io" where
  "raw_varint_loop maxsz buf s =
     (if maxsz < Suc (length buf) then Some (None, s)
      else io_bind (pb_read 1)
             (\<lambda>bs t. case bs of
                        [] \<Rightarrow> None
                      | byte # _ \<Rightarrow>
                          if byte AND 0x80 \<noteq> 0 then raw_varint_loop maxsz (buf @ [byte]) t
                          else io_ret (buf @ [byte]) t) s)"
  by pat_completeness auto
termination
  by (relation "measure (\<lambda>(maxsz, buf, s). maxsz - length buf)") auto

declare raw_varint_loop.simps [simp del]

definition read_raw_value :: "pb_wire_type_t \<Rightarrow> nat \<Rightarrow> ('s pb_istream_t, u8 list) io" where
  "read_raw_value wire_type maxsz s =
     (case wire_type of
        PB_WT_VARINT \<Rightarrow> raw_varint_loop maxsz [] s
      | PB_WT_64BIT \<Rightarrow> pb_read 8 s
      | PB_WT_32BIT \<Rightarrow> pb_read 4 s
      | _ \<Rightarrow> PB_RETURN_ERROR_i ''invalid wire_type'' s)"

section \<open>Substreams\<close>

definition pb_make_string_substream :: "('s pb_istream_t, 's pb_istream_t) io" where
  "pb_make_string_substream =
     io_bind pb_decode_varint32
       (\<lambda>n s. if bytes_left s < ucast n then PB_RETURN_ERROR_i ''parent stream too short'' s
              else io_ret (s\<lparr>bytes_left := ucast n\<rparr>) (s\<lparr>bytes_left := bytes_left s - ucast n\<rparr>))"

definition pb_close_string_substream :: "'s pb_istream_t \<Rightarrow> ('s pb_istream_t, unit) io" where
  "pb_close_string_substream substream s =
     (if bytes_left substream \<noteq> 0 then
        case pb_read_null (bytes_left substream) substream of
          None \<Rightarrow> None
        | Some (None, sub) \<Rightarrow> Some (None, s)
        | Some (Some _, sub) \<Rightarrow>
            io_ret () (s\<lparr>is_src := is_src sub, is_errmsg := is_errmsg sub\<rparr>)
      else io_ret () (s\<lparr>is_src := is_src substream, is_errmsg := is_errmsg substream\<rparr>))"

section \<open>Zig-zag and fixed width integers\<close>

definition unzigzag :: "u64 \<Rightarrow> u64" where
  "unzigzag value = (if value AND 1 \<noteq> 0 then NOT (drop_bit 1 value) else drop_bit 1 value)"

definition pb_decode_svarint :: "('s pb_istream_t, u64) io" where
  "pb_decode_svarint = io_bind pb_decode_varint (\<lambda>value. io_ret (unzigzag value))"

definition fixed32_value :: "u8 list \<Rightarrow> u32" where
  "fixed32_value bytes =
     ucast (bytes ! 0) OR push_bit 8 (ucast (bytes ! 1)) OR
     push_bit 16 (ucast (bytes ! 2)) OR push_bit 24 (ucast (bytes ! 3))"

definition pb_decode_fixed32 :: "('s pb_istream_t, u32) io" where
  "pb_decode_fixed32 = io_bind (pb_read 4) (\<lambda>bytes. io_ret (fixed32_value bytes))"

definition fixed64_value :: "u8 list \<Rightarrow> u64" where
  "fixed64_value bytes =
     ucast (bytes ! 0) OR push_bit 8 (ucast (bytes ! 1)) OR
     push_bit 16 (ucast (bytes ! 2)) OR push_bit 24 (ucast (bytes ! 3)) OR
     push_bit 32 (ucast (bytes ! 4)) OR push_bit 40 (ucast (bytes ! 5)) OR
     push_bit 48 (ucast (bytes ! 6)) OR push_bit 56 (ucast (bytes ! 7))"

definition pb_decode_fixed64 :: "('s pb_istream_t, u64) io" where
  "pb_decode_fixed64 = io_bind (pb_read 8) (\<lambda>bytes. io_ret (fixed64_value bytes))"

end
