(* ===== verification/Pb_Wire_Spec.thy ===== *)
theory Pb_Wire_Spec
  imports Pb_Wire_Decode
begin

text \<open>
  What the wire-level decoders compute, as functions of the bytes of the stream: the reference
  decoding of varints, the exact behaviour of the 64-bit and the 32-bit varint decoder, of the
  skipping functions and of substreams, and the round trips with the encoders.
\<close>

section \<open>The reference decoding\<close>

text \<open>A length prefix of at most five bytes at the start of the bytes, and the length it says.\<close>

definition len_ok :: "u8 list \<Rightarrow> bool" where
  "len_ok bs \<longleftrightarrow> cont_run bs \<le> 4 \<and> cont_run bs < length bs \<and>
     varint_val (take (Suc (cont_run bs)) bs) < 2 ^ 32"

definition len_of :: "u8 list \<Rightarrow> nat" where
  "len_of bs = varint_val (take (Suc (cont_run bs)) bs)"

section \<open>64-bit varints\<close>

context byte_source
begin

lemma decode_varint_loop_spec:
  assumes "ready s" and "j \<le> 10" and "unat r < 2 ^ (7 * j)"
  shows "decode_varint_loop (of_nat (7 * j)) r s =
    (if 10 \<le> j + cont_run (avail s) then PB_RETURN_ERROR_i ''varint overflow'' (advance (10 - j) s)
     else if cont_run (avail s) = length (avail s)
     then PB_RETURN_ERROR_i ''end-of-stream'' (advance (cont_run (avail s)) s)
     else Some (Some (r + of_nat (varint_val (take (Suc (cont_run (avail s))) (avail s)) * 2 ^ (7 * j))),
                advance (Suc (cont_run (avail s))) s))"
  using assms
proof (induction "avail s" arbitrary: s j r)
  case Nil
  then have "avail s = []" by simp
  moreover have "64 \<le> (of_nat (7 * j) :: u8) \<longleftrightarrow> j = 10"
    using Nil.prems by (auto simp: word_le_nat_alt unat_of_nat_mod simp del: of_nat_mult)
  ultimately show ?case
    using Nil.prems pb_readbyte_Nil [of s]
    by (simp add: decode_varint_loop.simps [of "of_nat (7 * j)"] PB_RETURN_ERROR_i_def del: of_nat_mult)
next
  case (Cons b bs)
  let ?p = "of_nat (7 * j) :: u8"
  have av: "avail s = b # bs" using Cons.hyps by simp
  have p: "64 \<le> ?p \<longleftrightarrow> j = 10" "unat ?p = 7 * j"
    using Cons.prems by (auto simp: word_le_nat_alt unat_of_nat_mod simp del: of_nat_mult)
  have p7: "?p + 7 = of_nat (7 * Suc j)" by simp
  let ?t = "advance 1 s"
  let ?r = "r + of_nat (unat b mod 128 * 2 ^ (7 * j)) :: u64"
  have t: "ready ?t" "avail ?t = bs"
    using Cons.prems av by (simp_all add: ready_advance avail_advance)
  have rb: "pb_readbyte s = Some (Some b, ?t)"
    using Cons.prems av by (simp add: pb_readbyte_Cons)
  show ?case
  proof (cases "j = 10")
    case True
    then have "decode_varint_loop ?p r s = PB_RETURN_ERROR_i ''varint overflow'' s"
      using p by (subst decode_varint_loop.simps) simp
    with True show ?thesis by simp
  next
    case False
    have unf: "decode_varint_loop ?p r s =
        (if cont b then decode_varint_loop (of_nat (7 * Suc j)) ?r ?t else io_ret ?r ?t)"
      using False p p7 rb varint_step [OF Cons.prems(3), of b]
      by (simp add: decode_varint_loop.simps [of ?p] Let_def add.commute del: of_nat_mult)
    show ?thesis
    proof (cases "cont b")
      case True
      have "unat ?r < 2 ^ (7 * Suc j)"
        using varint_step_bound [OF Cons.prems(3), of b] by (simp add: add.commute)
      from Cons.hyps(1) [OF t(2) [symmetric] t(1) _ this]
      show ?thesis
        using True False Cons.prems(2) unf t(2) av
          Suc_diff_le [of j 9]
        by (simp add: algebra_simps power_add del: of_nat_mult)
    next
      case c: False
      then show ?thesis
        using False Cons.prems(2) unf av by (simp add: io_ret_def)
    qed
  qed
qed

lemma pb_decode_varint_spec:
  assumes "ready s"
  shows "pb_decode_varint s =
    (if 10 \<le> cont_run (avail s) then PB_RETURN_ERROR_i ''varint overflow'' (advance 10 s)
     else if cont_run (avail s) = length (avail s)
     then PB_RETURN_ERROR_i ''end-of-stream'' (advance (length (avail s)) s)
     else Some (Some (of_nat (varint_val (take (Suc (cont_run (avail s))) (avail s)))),
                advance (Suc (cont_run (avail s))) s))"
  using decode_varint_loop_spec [OF assms, of 0 0] by (simp add: pb_decode_varint_def)

section \<open>32-bit varints\<close>

text \<open>
  Up to five bytes the 32-bit decoder is exact: the value when it fits 32 bits, an error when it
  does not.
\<close>

lemma varint32_loop_spec:
  assumes "ready s" and "1 \<le> j" and "j + cont_run (avail s) \<le> 4" and "unat r < 2 ^ (7 * j)"
  shows "varint32_loop (of_nat (7 * j)) r s =
    (if cont_run (avail s) = length (avail s)
     then PB_RETURN_ERROR_i ''end-of-stream'' (advance (cont_run (avail s)) s)
     else let v = unat r + varint_val (take (Suc (cont_run (avail s))) (avail s)) * 2 ^ (7 * j);
              t = advance (Suc (cont_run (avail s))) s
          in if v < 2 ^ 32 then Some (Some (of_nat v), t)
             else PB_RETURN_ERROR_i ''varint overflow'' t)"
  using assms
proof (induction "avail s" arbitrary: s j r)
  case Nil
  then have "avail s = []" by simp
  then show ?case
    using Nil.prems pb_readbyte_Nil [of s]
    by (simp add: varint32_loop.simps [of "of_nat (7 * j)"] PB_RETURN_ERROR_i_def del: of_nat_mult)
next
  case (Cons b bs)
  let ?p = "of_nat (7 * j) :: u8"
  have av: "avail s = b # bs" using Cons.hyps by simp
  have j: "j \<le> 4" using Cons.prems(3) by simp
  have p: "unat ?p = 7 * j" "\<not> 32 \<le> ?p" "?p + 7 = 35 \<longleftrightarrow> j = 4"
    using j Cons.prems(2)
    by (auto simp: word_le_nat_alt unat_of_nat_mod word_unat_eq_iff unat_word_ariths
             simp del: of_nat_mult)
  have p7: "?p + 7 = of_nat (7 * Suc j)" by simp
  let ?t = "advance 1 s"
  let ?r = "r + of_nat (unat b mod 128 * 2 ^ (7 * j)) :: u32"
  have t: "ready ?t" "avail ?t = bs"
    using Cons.prems av by (simp_all add: ready_advance avail_advance)
  have rb: "pb_readbyte s = Some (Some b, ?t)"
    using Cons.prems av by (simp add: pb_readbyte_Cons)
  have unf: "varint32_loop ?p r s =
      (if cont b then varint32_loop (of_nat (7 * Suc j)) ?r ?t
       else if j = 4 \<and> 16 \<le> unat b mod 128 then PB_RETURN_ERROR_i ''varint overflow'' ?t
       else io_ret ?r ?t)"
    using p p7 rb varint_step [OF Cons.prems(4), of b]
    by (simp add: varint32_loop.simps [of ?p] Let_def u8_and_0x70 add.commute not_less
             del: of_nat_mult)
  show ?case
  proof (cases "cont b")
    case True
    then have j3: "j \<le> 3" using Cons.prems(3) av by simp
    have "unat r + unat b mod 128 * 2 ^ (7 * j) < 2 ^ (7 * j) + 127 * 2 ^ (7 * j)"
      using Cons.prems(4) by (intro add_less_le_mono mult_le_mono1) auto
    also have "\<dots> = 2 ^ (7 * Suc j)" by (simp add: power_add)
    also have "\<dots> \<le> (2 ^ 28 :: nat)"
      using j3 by (intro power_increasing) auto
    finally have "unat ?r = unat r + unat b mod 128 * 2 ^ (7 * j)"
      by (simp add: unat_word_ariths unat_of_nat_mod del: of_nat_mult)
    moreover have "unat ?r < 2 ^ (7 * Suc j)"
      using varint_step_bound [OF Cons.prems(4), of b] by (simp add: add.commute)
    ultimately show ?thesis
      using Cons.hyps(1) [OF t(2) [symmetric] t(1), of "Suc j" ?r] True Cons.prems(3) unf t(2) av
      by (simp add: Let_def algebra_simps power_add del: of_nat_mult of_nat_add)
  next
    case c: False
    have r: "?r = of_nat (unat r + unat b mod 128 * 2 ^ (7 * j))" by simp
    have "j = 4 \<and> 16 \<le> unat b mod 128 \<longleftrightarrow> \<not> unat r + unat b mod 128 * 2 ^ (7 * j) < 2 ^ 32"
    proof (cases "j = 4")
      case True
      then show ?thesis using Cons.prems(4) by auto
    next
      case False
      then have "unat r + unat b mod 128 * 2 ^ (7 * j) < 2 ^ (7 * j) + 127 * 2 ^ (7 * j)"
        using Cons.prems(4) by (intro add_less_le_mono mult_le_mono1) auto
      also have "\<dots> = 2 ^ (7 * Suc j)" by (simp add: power_add)
      also have "\<dots> \<le> (2 ^ 32 :: nat)"
        using False j by (intro power_increasing) auto
      finally show ?thesis using False by simp
    qed
    then show ?thesis
      using c unf av r by (simp add: io_ret_def Let_def del: of_nat_mult of_nat_add)
  qed
qed

lemma pb_decode_varint32_eof_spec:
  assumes "ready s" and "cont_run (avail s) \<le> 4"
  shows "pb_decode_varint32_eof s =
    (if avail s = [] then Some (None, True, PB_SET_ERROR_i ''end-of-stream'' s)
     else if cont_run (avail s) = length (avail s)
     then Some (None, False, PB_SET_ERROR_i ''end-of-stream'' (advance (length (avail s)) s))
     else let v = varint_val (take (Suc (cont_run (avail s))) (avail s));
              t = advance (Suc (cont_run (avail s))) s
          in if v < 2 ^ 32 then Some (Some (of_nat v), False, t)
             else Some (None, False, PB_SET_ERROR_i ''varint overflow'' t))"
proof (cases "avail s")
  case Nil
  then show ?thesis
    using assms pb_readbyte_Nil [of s]
    by (simp add: pb_decode_varint32_eof_def PB_RETURN_ERROR_i_def PB_SET_ERROR_i_def avail_Nil)
next
  case (Cons b bs)
  let ?t = "advance 1 s"
  have t: "ready ?t" "avail ?t = bs"
    using assms Cons by (simp_all add: ready_advance avail_advance)
  have rb: "pb_readbyte s = Some (Some b, ?t)"
    using assms Cons by (simp add: pb_readbyte_Cons)
  show ?thesis
  proof (cases "cont b")
    case False
    then have "unat b < 128" by (simp add: cont_def)
    moreover have "(ucast b :: u32) = of_nat (unat b)" by simp
    ultimately show ?thesis
      using False rb Cons u8_bound [of b]
      by (simp add: pb_decode_varint32_eof_def Let_def)
  next
    case True
    have r: "unat (ucast (b AND 0x7F) :: u32) = unat b mod 128"
      by (simp add: unat_ucast_mod unat_and_0x7F)
    have "varint32_loop 7 (ucast (b AND 0x7F)) ?t = varint32_loop (of_nat (7 * 1)) (ucast (b AND 0x7F)) ?t"
      by simp
    also note varint32_loop_spec [OF t(1), of 1 "ucast (b AND 0x7F)"]
    finally show ?thesis
      using True rb Cons assms(2) t(2) r
      by (simp add: pb_decode_varint32_eof_def Let_def PB_RETURN_ERROR_i_def add.commute mult.commute)
  qed
qed

lemma pb_decode_varint32_spec:
  assumes "ready s" and "cont_run (avail s) \<le> 4"
  shows "pb_decode_varint32 s =
    (if cont_run (avail s) = length (avail s)
     then PB_RETURN_ERROR_i ''end-of-stream'' (advance (length (avail s)) s)
     else let v = varint_val (take (Suc (cont_run (avail s))) (avail s));
              t = advance (Suc (cont_run (avail s))) s
          in if v < 2 ^ 32 then Some (Some (of_nat v), t)
             else PB_RETURN_ERROR_i ''varint overflow'' t)"
  using pb_decode_varint32_eof_spec [OF assms]
  by (auto simp: pb_decode_varint32_def Let_def PB_RETURN_ERROR_i_def)

section \<open>Skipping\<close>

lemma pb_skip_varint_spec:
  assumes "ready s"
  shows "pb_skip_varint s =
    (if cont_run (avail s) = length (avail s)
     then PB_RETURN_ERROR_i ''end-of-stream'' (advance (length (avail s)) s)
     else Some (Some (), advance (Suc (cont_run (avail s))) s))"
  using assms
proof (induction "avail s" arbitrary: s)
  case Nil
  then have "avail s = []" by simp
  then show ?case
    using pb_read_short [OF Nil.prems, of 1]
    by (simp add: pb_skip_varint.simps [of s] PB_RETURN_ERROR_i_def)
next
  case (Cons b bs)
  have av: "avail s = b # bs" using Cons.hyps by simp
  have t: "ready (advance 1 s)" "avail (advance 1 s) = bs"
    using Cons.prems av by (simp_all add: ready_advance avail_advance)
  have r: "pb_read 1 s = Some (Some [b], advance 1 s)"
    using pb_read_enough [OF Cons.prems, of 1] av by simp
  show ?case
    using Cons.hyps(1) [OF t(2) [symmetric] t(1)] av t(2)
    by (simp add: pb_skip_varint.simps [of s] r io_ret_def)
qed

lemma varint32_len:
  assumes "ready s" and "len_ok (avail s)"
  shows "pb_decode_varint32 s = Some (Some (of_nat (len_of (avail s))), advance (Suc (cont_run (avail s))) s)"
    and "unat (of_nat (len_of (avail s)) :: u32) = len_of (avail s)"
  using assms by (simp_all add: pb_decode_varint32_spec len_ok_def len_of_def unat_of_nat_mod)

lemma pb_skip_string_spec:
  assumes "ready s" and "len_ok (avail s)"
    and "Suc (cont_run (avail s)) + len_of (avail s) \<le> length (avail s)"
  shows "pb_skip_string s = Some (Some (), advance (Suc (cont_run (avail s)) + len_of (avail s)) s)"
proof -
  let ?k = "Suc (cont_run (avail s))"
  note l = varint32_len [OF assms(1,2)]
  have t: "ready (advance ?k s)" "avail (advance ?k s) = drop ?k (avail s)"
    using assms by (simp_all add: ready_advance avail_advance)
  have "pb_read_null (ucast (of_nat (len_of (avail s)) :: u32)) (advance ?k s)
      = Some (Some (), advance (unat (ucast (of_nat (len_of (avail s)) :: u32) :: u64)) (advance ?k s))"
    by (rule pb_read_null_enough [OF t(1)]) (use t l assms(3) in simp)
  then show ?thesis
    using l by (simp add: pb_skip_string_def)
qed

section \<open>Substreams\<close>

lemma limit_stream:
  assumes "ready s" and "unat w \<le> unat (bytes_left s)"
  shows "ready (s\<lparr>bytes_left := w\<rparr>)"
    and "avail (s\<lparr>bytes_left := w\<rparr>) = take (unat w) (avail s)"
  using assms by (auto simp: ready_def avail_def min_absorb1)

lemma pb_make_string_substream_spec:
  assumes "ready s" and "len_ok (avail s)"
    and "Suc (cont_run (avail s)) + len_of (avail s) \<le> length (avail s)"
  shows "\<exists>sub s'. pb_make_string_substream s = Some (Some sub, s') \<and>
     ready sub \<and> avail sub = take (len_of (avail s)) (drop (Suc (cont_run (avail s))) (avail s)) \<and>
     s' = (advance (Suc (cont_run (avail s))) s)
            \<lparr>bytes_left := bytes_left (advance (Suc (cont_run (avail s)) + len_of (avail s)) s)\<rparr> \<and>
     is_src sub = is_src s' \<and> is_errmsg sub = is_errmsg s"
proof -
  let ?k = "Suc (cont_run (avail s))" and ?n = "len_of (avail s)"
  let ?t = "advance ?k s"
  let ?w = "ucast (of_nat ?n :: u32) :: size_t"
  note l = varint32_len [OF assms(1,2)]
  have t: "ready ?t" "avail ?t = drop ?k (avail s)"
    using assms by (simp_all add: ready_advance avail_advance)
  have w: "unat ?w = ?n" using l(2) by simp
  have bl: "unat (bytes_left ?t) = length (avail s) - ?k"
    using length_avail [OF t(1)] t(2) by simp
  have le: "\<not> bytes_left ?t < ?w"
    using bl w assms(3) by (simp add: word_less_nat_alt)
  have of_n: "?w = of_nat ?n"
    using arg_cong [OF w, of "of_nat :: nat \<Rightarrow> size_t"] by simp
  let ?sub = "?t\<lparr>bytes_left := ?w\<rparr>"
  have "ready ?sub" and "avail ?sub = take ?n (drop ?k (avail s))"
    using limit_stream [OF t(1), of ?w] t(2) w bl assms(3) by auto
  moreover have "bytes_left ?t - ?w = bytes_left (advance (?k + ?n) s)"
    by (simp add: of_n advance_def)
  ultimately show ?thesis
    using l(1) le by (simp add: pb_make_string_substream_def io_ret_def)
qed

lemma pb_close_string_substream_spec:
  assumes "ready sub"
  shows "pb_close_string_substream sub s =
    Some (Some (), s\<lparr>is_src := is_src (advance (length (avail sub)) sub), is_errmsg := is_errmsg sub\<rparr>)"
proof (cases "bytes_left sub = 0")
  case True
  then show ?thesis
    using assms by (simp add: pb_close_string_substream_def io_ret_def length_avail)
next
  case False
  then show ?thesis
    using pb_read_null_enough [OF assms, of "bytes_left sub"] assms
    by (simp add: pb_close_string_substream_def io_ret_def length_avail)
qed

end

section \<open>No access out of bounds\<close>

context byte_source
begin

text \<open>\<open>safe m\<close>: on every stream within its buffer, \<open>m\<close> returns and stays within the buffer.\<close>

definition safe :: "('s pb_istream_t, 'a) io \<Rightarrow> bool" where
  "safe m \<longleftrightarrow> (\<forall>s. ready s \<longrightarrow> (\<exists>r t. m s = Some (r, t) \<and> ready t))"

lemma safeE: "safe m \<Longrightarrow> ready s \<Longrightarrow> \<exists>r t. m s = Some (r, t) \<and> ready t"
  by (simp add: safe_def)

lemma ready_error [simp]: "ready (PB_SET_ERROR_i msg s) = ready s"
  by (simp add: ready_def PB_SET_ERROR_i_def)

lemma safe_ret [intro]: "safe (io_ret a)"
  by (simp add: safe_def io_ret_def)

lemma safe_error [intro]: "safe (PB_RETURN_ERROR_i msg)"
  by (simp add: safe_def PB_RETURN_ERROR_i_def)

lemma safe_bind [intro]: "safe m \<Longrightarrow> (\<And>a. safe (f a)) \<Longrightarrow> safe (io_bind m f)"
  by (fastforce simp: safe_def io_bind_def split: option.splits)

lemma safe_pb_readbyte [intro]: "safe pb_readbyte"
  unfolding safe_def
proof (intro allI impI)
  fix s assume s: "ready s"
  then show "\<exists>r t. pb_readbyte s = Some (r, t) \<and> ready t"
    by (cases "avail s")
       (auto simp: pb_readbyte_Cons ready_advance pb_readbyte_Nil PB_RETURN_ERROR_i_def)
qed

lemma safe_pb_read [intro]: "safe (pb_read n)"
  unfolding safe_def
proof (intro allI impI)
  fix s assume s: "ready s"
  then show "\<exists>r t. pb_read n s = Some (r, t) \<and> ready t"
    by (cases "unat n \<le> length (avail s)")
       (auto simp: pb_read_enough ready_advance pb_read_short PB_RETURN_ERROR_i_def)
qed

lemma safe_pb_read_null [intro]: "safe (pb_read_null n)"
proof -
  have "\<exists>r t. pb_read_skip n s = Some (r, t) \<and> ready t" if "ready s" for s
    using that
  proof (induction n s rule: pb_read_skip.induct)
    case (1 n s)
    obtain a t where a: "pb_read 16 s = Some (a, t)" "ready t"
      using safeE [OF safe_pb_read "1.prems"] by blast
    obtain b u where b: "pb_read n s = Some (b, u)" "ready u"
      using safeE [OF safe_pb_read "1.prems"] by blast
    show ?case
    proof (cases "16 < n")
      case True
      then show ?thesis
        using "1.IH" [OF True] a by (cases a) (auto simp: pb_read_skip.simps [of n s])
    next
      case False
      then show ?thesis
        using b by (cases b) (auto simp: pb_read_skip.simps [of n s] io_ret_def)
    qed
  qed
  moreover have "safe (io_bind (pb_read n) (\<lambda>_. io_ret ()))" by blast
  ultimately show ?thesis
    by (auto simp: safe_def pb_read_null_def io_ret_def)
qed

lemma safe_varint_loop: "ready s \<Longrightarrow> \<exists>r' t. decode_varint_loop p r s = Some (r', t) \<and> ready t"
proof (induction p r s rule: decode_varint_loop.induct)
  case (1 p r s)
  obtain b t where rb: "pb_readbyte s = Some (b, t)" "ready t"
    using safe_pb_readbyte "1.prems" by (auto simp: safe_def)
  show ?case
    using "1.IH" rb
    by (cases b) (auto simp: decode_varint_loop.simps [of p r s] Let_def PB_RETURN_ERROR_i_def
                        io_ret_def "1.prems")
qed

lemma safe_varint32_loop: "ready s \<Longrightarrow> \<exists>r' t. varint32_loop p r s = Some (r', t) \<and> ready t"
proof (induction p r s rule: varint32_loop.induct)
  case (1 p r s)
  obtain b t where rb: "pb_readbyte s = Some (b, t)" "ready t"
    using safe_pb_readbyte "1.prems" by (auto simp: safe_def)
  show ?case
    using "1.IH" rb
    by (cases b) (auto simp: varint32_loop.simps [of p r s] Let_def PB_RETURN_ERROR_i_def io_ret_def)
qed

lemma safe_pb_decode_varint [intro]: "safe pb_decode_varint"
  by (simp add: safe_def pb_decode_varint_def safe_varint_loop)

lemma safe_varint32_eof: "ready s \<Longrightarrow> \<exists>r e t. pb_decode_varint32_eof s = Some (r, e, t) \<and> ready t"
proof -
  assume s: "ready s"
  obtain b t where b: "pb_readbyte s = Some (b, t)" "ready t"
    using safe_pb_readbyte s by (auto simp: safe_def)
  show ?thesis
  proof (cases b)
    case None
    then show ?thesis using b by (simp add: pb_decode_varint32_eof_def)
  next
    case (Some byte)
    obtain r u where "varint32_loop 7 (ucast (byte AND 0x7F)) t = Some (r, u)" "ready u"
      using safe_varint32_loop [OF b(2)] by blast
    then show ?thesis using b Some by (auto simp: pb_decode_varint32_eof_def)
  qed
qed

lemma safe_pb_decode_varint32 [intro]: "safe pb_decode_varint32"
  using safe_varint32_eof by (fastforce simp: safe_def pb_decode_varint32_def)

lemma safe_pb_decode_tag: "ready s \<Longrightarrow> \<exists>r e t. pb_decode_tag s = Some (r, e, t) \<and> ready t"
  using safe_varint32_eof [of s] by (auto simp: pb_decode_tag_def split: option.splits)

lemma safe_pb_skip_varint [intro]: "safe pb_skip_varint"
proof -
  have "\<exists>r t. pb_skip_varint s = Some (r, t) \<and> ready t" if "ready s" for s
    using pb_skip_varint_spec [OF that] that
      ready_advance [of s "Suc (cont_run (avail s))"] ready_advance [of s "length (avail s)"]
      cont_run_le [of "avail s"]
    by (auto simp: PB_RETURN_ERROR_i_def)
  then show ?thesis by (simp add: safe_def)
qed

lemma safe_pb_skip_field [intro]: "safe (pb_skip_field w)"
proof (cases w)
  case PB_WT_STRING
  have "safe pb_skip_string"
    unfolding pb_skip_string_def by blast
  then show ?thesis by (simp add: PB_WT_STRING safe_def)
next
  case PB_WT_VARINT
  then show ?thesis using safe_pb_skip_varint by (simp add: safe_def)
next
  case PB_WT_64BIT
  then show ?thesis using safe_pb_read_null [of 8] by (simp add: safe_def)
next
  case PB_WT_32BIT
  then show ?thesis using safe_pb_read_null [of 4] by (simp add: safe_def)
next
  case (PB_WT_INVALID x)
  then show ?thesis by (simp add: safe_def PB_RETURN_ERROR_i_def)
qed

lemma safe_raw_varint_loop: "ready s \<Longrightarrow> \<exists>r t. raw_varint_loop m buf s = Some (r, t) \<and> ready t
     \<and> (\<forall>bs. r = Some bs \<longrightarrow> length bs \<le> m)"
proof (induction m buf s rule: raw_varint_loop.induct)
  case (1 m buf s)
  have rd: "(\<exists>b. pb_read 1 s = Some (Some [b], advance 1 s) \<and> ready (advance 1 s)) \<or>
      (\<exists>t. pb_read 1 s = Some (None, t) \<and> ready t)"
    using pb_read_enough [OF "1.prems", of 1] pb_read_short [OF "1.prems", of 1] "1.prems"
    by (cases "avail s") (auto simp: ready_advance PB_RETURN_ERROR_i_def)
  then show ?case
    using "1.IH" "1.prems"
    by (auto simp: raw_varint_loop.simps [of m buf s] io_ret_def Suc_le_eq not_less)
qed

lemma safe_make_substream:
  assumes "ready s"
  shows "\<exists>r t. pb_make_string_substream s = Some (r, t) \<and> ready t \<and> (\<forall>sub. r = Some sub \<longrightarrow> ready sub)"
proof -
  obtain r t where d: "pb_decode_varint32 s = Some (r, t)" "ready t"
    using safeE [OF safe_pb_decode_varint32 assms] by blast
  show ?thesis
  proof (cases r)
    case None
    then show ?thesis using d by (simp add: pb_make_string_substream_def)
  next
    case (Some n)
    let ?n = "ucast n :: size_t"
    have "ready (t\<lparr>bytes_left := ?n\<rparr>) \<and> ready (t\<lparr>bytes_left := bytes_left t - ?n\<rparr>)"
      if "\<not> bytes_left t < ?n"
      using that limit_stream(1) [OF d(2)] by (simp add: word_less_nat_alt unat_sub word_le_nat_alt)
    then show ?thesis
      using Some d by (auto simp: pb_make_string_substream_def PB_RETURN_ERROR_i_def io_ret_def)
  qed
qed

lemma safe_read_raw_value [intro]: "safe (read_raw_value w m)"
  using safe_raw_varint_loop [of _ m "[]"] safe_pb_read safe_error
  by (fastforce simp: safe_def read_raw_value_def split: pb_wire_type_t.splits)

end

text \<open>Beyond five bytes the 32-bit decoder is described by its run over the bytes alone.\<close>

fun varint32_run :: "u8 \<Rightarrow> u32 \<Rightarrow> u8 list \<Rightarrow> u32 option" where
  "varint32_run p r [] = None"
| "varint32_run p r (b # bs) =
     (let r' = (if 32 \<le> p then r else r OR push_bit (unat p) (ucast (b AND 0x7F)))
      in if 32 \<le> p \<and> b AND 0x7F \<noteq> 0 \<and> (drop_bit 31 r = 0 \<or> b \<noteq> (if p < 63 then 0xFF else 0x01))
         then None
         else if b AND 0x80 \<noteq> 0 then varint32_run (p + 7) r' bs
         else if p + 7 = 35 \<and> b AND 0x70 \<noteq> 0 then None else Some r')"

context byte_source begin

lemma varint32_loop_run:
  assumes "ready s"
  shows "map_option fst (varint32_loop p r s) = Some (varint32_run p r (avail s))"
  using assms
proof (induction "avail s" arbitrary: p r s)
  case Nil
  then have "avail s = []" by simp
  with Nil.prems show ?case
    by (simp add: varint32_loop.simps [of p r s] pb_readbyte_Nil PB_RETURN_ERROR_i_def)
next
  case (Cons b bs)
  have av: "avail s = b # bs" using Cons.hyps by simp
  let ?t = "advance 1 s"
  have t: "ready ?t" "avail ?t = bs"
    using Cons.prems av by (simp_all add: ready_advance avail_advance)
  have rb: "pb_readbyte s = Some (Some b, ?t)"
    using Cons.prems av by (simp add: pb_readbyte_Cons)
  have IH: "map_option fst (varint32_loop p' r' ?t) = Some (varint32_run p' r' bs)" for p' r'
    using Cons.hyps(1) [OF t(2) [symmetric] t(1)] t(2) by simp
  have unf: "map_option fst (varint32_loop p r s) =
      (let r' = (if 32 \<le> p then r else r OR push_bit (unat p) (ucast (b AND 0x7F)))
       in if 32 \<le> p \<and> b AND 0x7F \<noteq> 0
             \<and> (drop_bit 31 r = 0 \<or> b \<noteq> (if p < 63 then 0xFF else 0x01))
          then Some None
          else if b AND 0x80 \<noteq> 0 then map_option fst (varint32_loop (p + 7) r' ?t)
          else if p + 7 = 35 \<and> b AND 0x70 \<noteq> 0 then Some None else Some (Some r'))"
    unfolding varint32_loop.simps [of p r s] rb io_bind_def
    by (simp only: option.case prod.case Let_def PB_RETURN_ERROR_i_def io_ret_def
          if_distrib [of "map_option fst"] option.map fst_conv)
  show ?case
    unfolding unf IH av varint32_run.simps by (simp only: Let_def if_distrib [of Some])
qed

end

section \<open>Round trips\<close>

lemma unzigzag_zigzag: "unzigzag (zigzag v) = v"
proof -
  define i where "i = sint v"
  have v: "word_of_int i = v" by (simp add: i_def)
  let ?z = "zigzag v"
  have z: "uint ?z = (if 0 \<le> i then 2 * i else - 2 * i - 1)"
    using uint_zigzag [of v] by (simp add: i_def)
  have odd: "?z AND 1 \<noteq> 0 \<longleftrightarrow> i < 0"
  proof -
    have "?z AND 1 \<noteq> 0 \<longleftrightarrow> odd ?z" by (simp add: and_one_eq odd_iff_mod_2_eq_one)
    also have "\<dots> \<longleftrightarrow> odd (uint ?z)" by (simp add: bit_uint_iff flip: bit_0)
    finally show ?thesis using z by auto
  qed
  have d: "uint (drop_bit 1 ?z) = uint ?z div 2"
    by (simp only: uint_nat unat_drop_bit zdiv_int) simp
  show ?thesis
  proof (cases "0 \<le> i")
    case True
    then have "uint (drop_bit 1 ?z) = i" using d z by simp
    then have "drop_bit 1 ?z = word_of_int i" by (metis word_of_int_uint)
    with True odd v show ?thesis by (simp add: unzigzag_def)
  next
    case False
    then have "uint (drop_bit 1 ?z) = - i - 1" using d z by simp
    then have "drop_bit 1 ?z = word_of_int (- i - 1)" by (metis word_of_int_uint)
    then have "NOT (drop_bit 1 ?z) = word_of_int i" by (simp add: not_eq_complement)
    with False odd v show ?thesis by (simp add: unzigzag_def)
  qed
qed

lemma length_fixed_bytes [simp]: "length (fixed32_bytes v) = 4" "length (fixed64_bytes w) = 8"
  by (simp_all add: fixed32_bytes_def fixed64_bytes_def)

text \<open>The fixed width codes.\<close>

lemma fixed32_value_bytes: "fixed32_value (fixed32_bytes v) = v"
  unfolding fixed32_value_def fixed32_bytes_def byte_of
  using split_byte [of 0 v] split_byte [of 8 v] split_byte [of 16 v] split_byte [of 24 v] 
  by (simp add: or.assoc)

lemma fixed64_value_bytes: "fixed64_value (fixed64_bytes v) = v"
  unfolding fixed64_value_def fixed64_bytes_def byte_of
  using split_byte [of 0 v] split_byte [of 8 v] split_byte [of 16 v] split_byte [of 24 v] 
    split_byte [of 32 v] split_byte [of 40 v] split_byte [of 48 v] split_byte [of 56 v] 
  by (simp add: or.assoc)

end
