(* ===== verification/Pb_Wire_Props.thy ===== *)
theory Pb_Wire_Props
  imports Pb_Wire_Spec
begin

text \<open>
  The properties of the wire format layer of nanopb: exact behaviour of the varint decoders,
  round trips through memory buffers, skipping and substreams.
\<close>

section \<open>From an output buffer to an input stream\<close>

lemma put_bytes_buffer:
  assumes "length bs \<le> unat cap" and "unat cap \<le> length mem"
  shows "put_bytes bs (pb_ostream_from_buffer mem cap)
       = Some (Some (), \<lparr>os_sink = Buf_write (bs @ drop (length bs) mem) (length bs), max_size = cap,
                         bytes_written = of_nat (length bs), os_errmsg = None\<rparr>)"
  using obuf.put_bytes_emit [of bs "pb_ostream_from_buffer mem cap"] assms
  by (simp add: open_from_buffer) (simp add: obuf.emit_def pb_ostream_from_buffer_def)

text \<open>Bytes written to a buffer, read back by a decoder that consumes exactly them.\<close>

lemma write_then_read:
  fixes mem :: "u8 list" and dec :: "('r pb_istream_t, 'a) io"
  assumes len: "length bs \<le> unat cap" "unat cap \<le> length mem"
    and k: "length bs \<le> k"
    and dec: "\<And>s :: 'r pb_istream_t. buf.ready s \<Longrightarrow> buf.avail s = bs \<Longrightarrow>
                dec s = Some (Some x, buf.advance (length bs) s)"
  shows "\<exists>(os :: 'w pb_ostream_t) (is :: 'r pb_istream_t).
      put_bytes bs (pb_ostream_from_buffer mem cap) = Some (Some (), os)
    \<and> unat (bytes_written os) \<le> k
    \<and> dec (pb_istream_from_buffer (snk_mem (os_sink os)) (bytes_written os)) = Some (Some x, is)
    \<and> bytes_left is = 0 \<and> is_errmsg is = None"
proof -
  let ?mem = "bs @ drop (length bs) mem" and ?n = "of_nat (length bs) :: size_t"
  let ?os = "\<lparr>os_sink = Buf_write ?mem (length bs), max_size = cap,
               bytes_written = ?n, os_errmsg = None\<rparr> :: 'w pb_ostream_t"
  let ?is = "pb_istream_from_buffer ?mem ?n :: 'r pb_istream_t"
  have n: "unat ?n = length bs"
    using len unat_bound [of cap] by (simp add: unat_of_nat_mod)
  have "buf.ready ?is" "buf.avail ?is = bs"
    using n by (simp_all add: ready_from_buffer avail_from_buffer)
  then have "dec ?is = Some (Some x, buf.advance (length bs) ?is)" by (rule dec)
  moreover have "bytes_left (buf.advance (length bs) ?is) = 0"
    by (simp add: buf.advance_def pb_istream_from_buffer_def)
  moreover have "is_errmsg (buf.advance (length bs) ?is) = None"
    by (simp add: pb_istream_from_buffer_def)
  ultimately show ?thesis
    using put_bytes_buffer [OF len, where 'a = 'w] n k
    by (intro exI [of _ ?os] exI [of _ "buf.advance (length bs) ?is"]) simp
qed

lemma varint_of_leb128:
  fixes v :: u64
  assumes "buf.ready s" and "buf.avail s = leb128 (unat v) @ rest"
  shows "pb_decode_varint s = Some (Some v, buf.advance (length (leb128 (unat v))) s)"
proof -
  have "cont_run (buf.avail s) < 10" "cont_run (buf.avail s) < length (buf.avail s)"
    using assms(2) cont_run_leb128 [of "unat v" rest] length_leb128_u64 [of v] by auto
  then show ?thesis
    using buf.pb_decode_varint_spec [OF assms(1)] assms(2) by simp
qed

lemma varint32_of_leb128:
  fixes v :: u32
  assumes "buf.ready s" and "buf.avail s = leb128 (unat v) @ rest"
  shows "pb_decode_varint32 s = Some (Some v, buf.advance (length (leb128 (unat v))) s)"
proof -
  have "cont_run (buf.avail s) \<le> 4" "cont_run (buf.avail s) < length (buf.avail s)"
    using assms(2) cont_run_leb128 [of "unat v" rest] length_leb128_u32 [of v] by auto
  then show ?thesis
    using buf.pb_decode_varint32_spec [OF assms(1)] assms(2) unat_bound [of v] by (simp add: Let_def)
qed

lemma varint32_eof_of_leb128:
  fixes v :: u32
  assumes "buf.ready s" and a: "buf.avail s = leb128 (unat v) @ rest"
  shows "pb_decode_varint32_eof s = Some (Some v, False, buf.advance (length (leb128 (unat v))) s)"
proof -
  note h = Suc_cont_run_leb128 [of "unat v" rest] and t = take_leb128 [of "unat v" rest]
  have c: "cont_run (buf.avail s) \<le> 4" "cont_run (buf.avail s) \<noteq> length (buf.avail s)"
    "buf.avail s \<noteq> []"
    using cont_run_leb128 [of "unat v" rest] length_leb128_u32 [of v] unfolding a by simp_all
  have v: "varint_val (leb128 (unat v)) < 2 ^ 32"
    unfolding varint_val_leb128 by (rule less_le_trans [OF unat_bound]) simp
  show ?thesis
    unfolding buf.pb_decode_varint32_eof_spec [OF assms(1) c(1)] if_not_P [OF c(2)] if_not_P [OF c(3)]
    unfolding a t h Let_def using v by simp
qed

section \<open>Properties\<close>

text \<open>
  C1: Round trip of 64-bit varints through memory.  For every value and every buffer with room,
  \<open>pb_encode_varint\<close> writes at most ten bytes, and \<open>pb_decode_varint\<close> on the bytes written
  returns the value and consumes exactly those bytes.
\<close>

theorem pb_varint_roundtrip:
  fixes v :: u64
  assumes "10 \<le> unat cap" and "unat cap \<le> length mem"
  shows "\<exists>os is. pb_encode_varint v (pb_ostream_from_buffer mem cap) = Some (Some (), os)
    \<and> unat (bytes_written os) \<le> 10
    \<and> pb_decode_varint (pb_istream_from_buffer (snk_mem (os_sink os)) (bytes_written os))
        = Some (Some v, is)
    \<and> bytes_left is = 0 \<and> is_errmsg is = None"
proof -
  have l: "length (leb128 (unat v)) \<le> unat cap" using length_leb128_u64 [of v] assms(1) by linarith
  show ?thesis
    unfolding pb_encode_varint_leb128
    by (rule write_then_read [OF l assms(2) length_leb128_u64]) (simp add: varint_of_leb128)
qed

theorem pb_varint_roundtrip_witness:
  "\<exists>os is. pb_encode_varint 300 (pb_ostream_from_buffer (replicate 16 0) 16) = Some (Some (), os)
    \<and> unat (bytes_written os) \<le> 10
    \<and> pb_decode_varint (pb_istream_from_buffer (snk_mem (os_sink os)) (bytes_written os))
        = Some (Some 300, is)
    \<and> bytes_left is = 0 \<and> is_errmsg is = None"
  by (rule pb_varint_roundtrip) simp_all

text \<open>
  C6: The 32-bit varint decoder agrees with the 64-bit decoder on every varint of at most five
  bytes: the same value, the same bytes consumed and the same errors, except that a value of
  2^32 or more is the error ``varint overflow''.
\<close>

theorem pb_varint32_agrees:
  assumes "buf.ready s" and "cont_run (buf.avail s) \<le> 4"
  shows "pb_decode_varint32 s =
    (case pb_decode_varint s of
       None \<Rightarrow> None
     | Some (None, t) \<Rightarrow> Some (None, t)
     | Some (Some v, t) \<Rightarrow>
         if v < 2 ^ 32 then Some (Some (ucast v), t)
         else PB_RETURN_ERROR_i ''varint overflow'' t)"
proof -
  let ?bs = "buf.avail s"
  let ?v = "varint_val (take (Suc (cont_run ?bs)) ?bs)"
  show ?thesis
  proof (cases "cont_run ?bs = length ?bs")
    case True
    then show ?thesis
      using assms by (simp add: buf.pb_decode_varint32_spec buf.pb_decode_varint_spec
                       PB_RETURN_ERROR_i_def)
  next
    case False
    have "?v < 128 ^ length (take (Suc (cont_run ?bs)) ?bs)" by (rule varint_val_bound)
    also have "\<dots> \<le> 128 ^ 5" using assms(2) by (intro power_increasing) auto
    finally have "?v < 2 ^ 64" by simp
    then have "unat (of_nat ?v :: u64) = ?v" by (simp add: unat_of_nat_mod)
    moreover from this have "(ucast (of_nat ?v :: u64) :: u32) = of_nat ?v"
      by (intro unat_eqI) (simp add: unat_ucast_mod unat_of_nat_mod)
    ultimately show ?thesis
      using assms False
      by (simp add: buf.pb_decode_varint32_spec buf.pb_decode_varint_spec Let_def word_less_nat_alt)
  qed
qed

theorem pb_varint32_agrees_witness:
  "pb_decode_varint32 (pb_istream_from_buffer [0xAC, 0x02] 2 :: unit pb_istream_t) =
    (case pb_decode_varint (pb_istream_from_buffer [0xAC, 0x02] 2 :: unit pb_istream_t) of
       None \<Rightarrow> None
     | Some (None, t) \<Rightarrow> Some (None, t)
     | Some (Some v, t) \<Rightarrow>
         if v < 2 ^ 32 then Some (Some (ucast v), t)
         else PB_RETURN_ERROR_i ''varint overflow'' t)"
  by (rule pb_varint32_agrees)
     (simp_all add: ready_from_buffer avail_from_buffer cont_def)

text \<open>
  C10: Beyond five bytes the 32-bit decoder is wrong.  The 38-byte varint \<open>80 ... 80 01\<close>, which the
  64-bit decoder rejects, decodes to 8, because the 8-bit \<open>bitpos\<close> wraps around; and
  \<open>80 80 80 80 90 00\<close>, whose value is 2^32, decodes to 0, because only the last byte is checked
  for bits above the 32nd.
\<close>

theorem pb_varint32_overlong_accepted:
  "map_option fst (pb_decode_varint32
      (pb_istream_from_buffer (replicate 37 0x80 @ [0x01]) 38 :: unit pb_istream_t)) = Some (Some 8)
 \<and> map_option fst (pb_decode_varint
      (pb_istream_from_buffer (replicate 37 0x80 @ [0x01]) 38 :: unit pb_istream_t)) = Some None
 \<and> map_option fst (pb_decode_varint32
      (pb_istream_from_buffer [0x80, 0x80, 0x80, 0x80, 0x90, 0x00] 6 :: unit pb_istream_t))
      = Some (Some 0)
 \<and> map_option fst (pb_decode_varint
      (pb_istream_from_buffer [0x80, 0x80, 0x80, 0x80, 0x90, 0x00] 6 :: unit pb_istream_t))
      = Some (Some (2 ^ 32))"
proof (intro conjI)
  show "map_option fst (pb_decode_varint32
      (pb_istream_from_buffer (replicate 37 0x80 @ [0x01]) 38 :: unit pb_istream_t)) = Some (Some 8)"
  proof -
    let ?s = "pb_istream_from_buffer (replicate 37 0x80 @ [0x01]) 38 :: unit pb_istream_t"
    have r: "replicate 37 (0x80 :: u8) = 0x80 # replicate 36 0x80" by (simp add: numeral_eq_Suc)
    have a: "buf.ready ?s" "buf.avail ?s = 0x80 # replicate 36 0x80 @ [0x01]"
      by (simp_all add: ready_from_buffer avail_from_buffer r)
    then have rb: "pb_readbyte ?s = Some (Some 0x80, buf.advance 1 ?s)"
      by (rule buf.pb_readbyte_Cons)
    have "buf.ready (buf.advance 1 ?s)" "buf.avail (buf.advance 1 ?s) = replicate 36 0x80 @ [0x01]"
      using a by (simp_all add: buf.ready_advance buf.avail_advance)
    then have "map_option fst (varint32_loop 7 0 (buf.advance 1 ?s))
        = Some (varint32_run 7 0 (replicate 36 0x80 @ [0x01]))"
      using buf.varint32_loop_run [of "buf.advance 1 ?s"] by simp
    also have "varint32_run 7 0 (replicate 36 0x80 @ [0x01]) = Some 8" by code_simp
    finally show ?thesis
      by (auto simp: pb_decode_varint32_def pb_decode_varint32_eof_def rb cont_def)
  qed
  show "map_option fst (pb_decode_varint
      (pb_istream_from_buffer (replicate 37 0x80 @ [0x01]) 38 :: unit pb_istream_t)) = Some None"
  proof -
    have "cont_run (replicate 37 0x80 @ [0x01]) = 37" by code_simp
    then show ?thesis
      by (simp add: buf.pb_decode_varint_spec ready_from_buffer avail_from_buffer PB_RETURN_ERROR_i_def)
  qed
  show "map_option fst (pb_decode_varint32
      (pb_istream_from_buffer [0x80, 0x80, 0x80, 0x80, 0x90, 0x00] 6 :: unit pb_istream_t))
      = Some (Some 0)" by code_simp
  show "map_option fst (pb_decode_varint
      (pb_istream_from_buffer [0x80, 0x80, 0x80, 0x80, 0x90, 0x00] 6 :: unit pb_istream_t))
      = Some (Some (2 ^ 32))" by code_simp
qed

text \<open>
  Zig-zag coding.  The code of a signed value \<open>n\<close> is \<open>2n\<close> for \<open>n \<ge> 0\<close> and \<open>-2n - 1\<close> for
  \<open>n < 0\<close>, and the decoding in \<open>pb_decode_svarint\<close> inverts it for every 64-bit value.
\<close>

theorem zigzag_roundtrip:
  "unzigzag (zigzag v) = v
   \<and> uint (zigzag v) = (if 0 \<le> sint v then 2 * sint v else - 2 * sint v - 1)"
  using unzigzag_zigzag uint_zigzag by blast

text \<open>
  C8: Round trip of signed varints (\<open>sint32\<close>, \<open>sint64\<close>) through memory.
\<close>

theorem pb_svarint_roundtrip:
  assumes "10 \<le> unat cap" and "unat cap \<le> length mem"
  shows "\<exists>os is. pb_encode_svarint v (pb_ostream_from_buffer mem cap) = Some (Some (), os)
    \<and> unat (bytes_written os) \<le> (if - 64 \<le> sint v \<and> sint v < 64 then 1 else 10)
    \<and> pb_decode_svarint (pb_istream_from_buffer (snk_mem (os_sink os)) (bytes_written os))
        = Some (Some v, is)
    \<and> bytes_left is = 0 \<and> is_errmsg is = None"
proof -
  let ?z = "zigzag v"
  have l: "length (leb128 (unat ?z)) \<le> unat cap" using length_leb128_u64 [of ?z] assms(1) by linarith
  have k: "length (leb128 (unat ?z)) \<le> (if - 64 \<le> sint v \<and> sint v < 64 then 1 else 10)"
  proof (cases "- 64 \<le> sint v \<and> sint v < 64")
    case True
    then have "uint ?z < 128" using uint_zigzag [of v] by auto
    then have "int (unat ?z) < 128" by (simp only: uint_nat)
    then have "unat ?z < 128" by linarith
    then have "length (leb128 (unat ?z)) = 1" by (subst leb128.simps) simp
    with True show ?thesis by simp
  next
    case False
    then show ?thesis using length_leb128_u64 [of ?z] by (simp only: if_False)
  qed
  show ?thesis
    unfolding pb_encode_svarint_def pb_encode_varint_leb128
    by (rule write_then_read [OF l assms(2) k])
       (simp add: pb_decode_svarint_def varint_of_leb128 [of _ _ "[]"] io_ret_def unzigzag_zigzag)
qed

theorem pb_svarint_roundtrip_witness:
  "\<exists>os is. pb_encode_svarint (- 3) (pb_ostream_from_buffer (replicate 16 0) 16) = Some (Some (), os)
    \<and> unat (bytes_written os) \<le> (if - 64 \<le> sint (- 3 :: u64) \<and> sint (- 3 :: u64) < 64 then 1 else 10)
    \<and> pb_decode_svarint (pb_istream_from_buffer (snk_mem (os_sink os)) (bytes_written os))
        = Some (Some (- 3), is)
    \<and> bytes_left is = 0 \<and> is_errmsg is = None"
  by (rule pb_svarint_roundtrip) simp_all

text \<open>
  Round trip of the fixed width integers: the 4 and 8 bytes written by \<open>pb_encode_fixed32\<close>
  and \<open>pb_encode_fixed64\<close> are read back as the same value.
\<close>

theorem pb_fixed_roundtrip:
  assumes "8 \<le> unat cap" and "unat cap \<le> length mem"
  shows "(\<exists>os is. pb_encode_fixed32 v (pb_ostream_from_buffer mem cap) = Some (Some (), os)
      \<and> unat (bytes_written os) \<le> 4
      \<and> pb_decode_fixed32 (pb_istream_from_buffer (snk_mem (os_sink os)) (bytes_written os))
          = Some (Some v, is)
      \<and> bytes_left is = 0 \<and> is_errmsg is = None)
   \<and> (\<exists>os is. pb_encode_fixed64 w (pb_ostream_from_buffer mem cap) = Some (Some (), os)
      \<and> unat (bytes_written os) \<le> 8
      \<and> pb_decode_fixed64 (pb_istream_from_buffer (snk_mem (os_sink os)) (bytes_written os))
          = Some (Some w, is)
      \<and> bytes_left is = 0 \<and> is_errmsg is = None)"
proof -
  have l: "length (fixed32_bytes v) \<le> unat cap" "length (fixed32_bytes v) \<le> 4"
    "length (fixed64_bytes w) \<le> unat cap" "length (fixed64_bytes w) \<le> 8"
    using assms by (simp_all add: fixed32_bytes_def fixed64_bytes_def)
  show ?thesis
    unfolding pb_encode_fixed32_def pb_encode_fixed64_def
  proof (intro conjI)
    show "\<exists>os is. put_bytes (fixed32_bytes v) (pb_ostream_from_buffer mem cap) = Some (Some (), os)
      \<and> unat (bytes_written os) \<le> 4
      \<and> pb_decode_fixed32 (pb_istream_from_buffer (snk_mem (os_sink os)) (bytes_written os))
          = Some (Some v, is)
      \<and> bytes_left is = 0 \<and> is_errmsg is = None"
      by (rule write_then_read [OF l(1) assms(2) l(2)])
         (simp add: pb_decode_fixed32_def buf.pb_read_enough io_ret_def fixed32_value_bytes)
    show "\<exists>os is. put_bytes (fixed64_bytes w) (pb_ostream_from_buffer mem cap) = Some (Some (), os)
      \<and> unat (bytes_written os) \<le> 8
      \<and> pb_decode_fixed64 (pb_istream_from_buffer (snk_mem (os_sink os)) (bytes_written os))
          = Some (Some w, is)
      \<and> bytes_left is = 0 \<and> is_errmsg is = None"
      by (rule write_then_read [OF l(3) assms(2) l(4)])
         (simp add: pb_decode_fixed64_def buf.pb_read_enough io_ret_def fixed64_value_bytes)
  qed
qed

theorem pb_fixed_roundtrip_witness:
  "(\<exists>os is. pb_encode_fixed32 0xDEADBEEF (pb_ostream_from_buffer (replicate 16 0) 16) = Some (Some (), os)
      \<and> unat (bytes_written os) \<le> 4
      \<and> pb_decode_fixed32 (pb_istream_from_buffer (snk_mem (os_sink os)) (bytes_written os))
          = Some (Some 0xDEADBEEF, is)
      \<and> bytes_left is = 0 \<and> is_errmsg is = None)
   \<and> (\<exists>os is. pb_encode_fixed64 1 (pb_ostream_from_buffer (replicate 16 0) 16) = Some (Some (), os)
      \<and> unat (bytes_written os) \<le> 8
      \<and> pb_decode_fixed64 (pb_istream_from_buffer (snk_mem (os_sink os)) (bytes_written os))
          = Some (Some 1, is)
      \<and> bytes_left is = 0 \<and> is_errmsg is = None)"
  by (rule pb_fixed_roundtrip) simp_all

text \<open>
  C7: Round trip of tags: \<open>pb_encode_tag\<close> writes at most five bytes, and \<open>pb_decode_tag\<close> reads
  the wire type and the field number back, without signalling the end of the message.
\<close>

theorem pb_tag_roundtrip:
  fixes field :: u32
  assumes "10 \<le> unat cap" and "unat cap \<le> length mem"
    and "0 < unat field" and "unat field < 2 ^ 29"
    and "w \<in> {PB_WT_VARINT, PB_WT_64BIT, PB_WT_STRING, PB_WT_32BIT}"
  shows "\<exists>os is. pb_encode_tag w field (pb_ostream_from_buffer mem cap) = Some (Some (), os)
    \<and> unat (bytes_written os) \<le> 5
    \<and> pb_decode_tag (pb_istream_from_buffer (snk_mem (os_sink os)) (bytes_written os))
        = Some (Some (w, field), False, is)
    \<and> bytes_left is = 0 \<and> is_errmsg is = None"
proof -
  let ?c = "unat (wire_code w)"
  let ?v = "of_nat (unat field * 8 + ?c) :: u32"
  let ?enc = "push_bit 3 (ucast field) OR ucast (wire_code w) :: u64"
  let ?dec = "\<lambda>s. map_option (\<lambda>(r, e, t). (if e then None else r, t)) (pb_decode_tag s)"
  have c: "?c < 8" "wire_of_code (of_nat ?c) = w" using assms(5) by (auto simp: wire_of_code_def)
  have v: "unat ?v = unat field * 8 + ?c"
    using c(1) assms(4) by (subst unat_of_nat_mod) simp
  have e: "unat ?enc = unat ?v" using unat_tag [OF c(1)] v by simp
  have l: "length (leb128 (unat ?v)) \<le> unat cap" using length_leb128_u32 [of ?v] assms(1) by linarith
  have v0: "?v \<noteq> 0" using v assms(3) by (metis add_is_0 mult_is_0 not_gr_zero unat_0 zero_neq_numeral)
  have "?v AND 7 = of_nat ?c"
    using unat_and_mask [of ?v 3] v c(1)
    by (intro unat_eqI) (simp add: mask_eq_exp_minus_1 unat_of_nat_mod del: of_nat_add of_nat_mult)
  moreover have "drop_bit 3 ?v = field"
    by (rule unat_eqI) (use v c(1) in \<open>simp only: unat_drop_bit, simp\<close>)
  ultimately have d: "wire_of_code (?v AND 7) = w" "drop_bit 3 ?v = field" using c(2) by simp_all
  have "\<exists>os is. put_bytes (leb128 (unat ?v)) (pb_ostream_from_buffer mem cap) = Some (Some (), os)
    \<and> unat (bytes_written os) \<le> 5
    \<and> ?dec (pb_istream_from_buffer (snk_mem (os_sink os)) (bytes_written os)) = Some (Some (w, field), is)
    \<and> bytes_left is = 0 \<and> is_errmsg is = None"
  proof (rule write_then_read [OF l assms(2) length_leb128_u32])
    fix s
    assume r: "buf.ready s" and a: "buf.avail s = leb128 (unat ?v)"
    have "pb_decode_varint32_eof s
        = Some (Some ?v, False, buf.advance (length (leb128 (unat ?v))) s)"
      by (rule varint32_eof_of_leb128 [OF r, where rest = "[]"]) (use a in simp)
    then show "?dec s = Some (Some (w, field), buf.advance (length (leb128 (unat ?v))) s)"
      using v0 d by (simp add: pb_decode_tag_def del: of_nat_add of_nat_mult)
  qed
  moreover have "pb_decode_tag s = Some (Some r, False, t)" if "?dec s = Some (Some r, t)" for s r t
    using that by (auto split: if_splits)
  ultimately show ?thesis
    unfolding pb_encode_tag_def pb_encode_varint_leb128 e by blast
qed

theorem pb_tag_roundtrip_witness:
  "\<exists>os is. pb_encode_tag PB_WT_STRING 1000 (pb_ostream_from_buffer (replicate 16 0) 16) = Some (Some (), os)
    \<and> unat (bytes_written os) \<le> 5
    \<and> pb_decode_tag (pb_istream_from_buffer (snk_mem (os_sink os)) (bytes_written os))
        = Some (Some (PB_WT_STRING, 1000), False, is)
    \<and> bytes_left is = 0 \<and> is_errmsg is = None"
  by (rule pb_tag_roundtrip) simp_all

text \<open>
  C5: Skipping.  \<open>pb_skip_field\<close> on a well-formed payload of any wire type succeeds and consumes
  exactly the payload: a varint up to its last byte, 8 or 4 bytes, or the length and the bytes of a
  string.
\<close>

fun payload :: "pb_wire_type_t \<Rightarrow> u8 list \<Rightarrow> bool" where
  "payload PB_WT_VARINT p = (p \<noteq> [] \<and> cont_run p = length p - 1)"
| "payload PB_WT_64BIT p = (length p = 8)"
| "payload PB_WT_32BIT p = (length p = 4)"
| "payload PB_WT_STRING p =
     (len_ok p \<and> length p = Suc (cont_run p) + len_of p)"
| "payload (PB_WT_INVALID w) p = False"

lemma cont_run_append: "cont_run p < length p \<Longrightarrow> cont_run (p @ q) = cont_run p"
  by (induction p) (auto split: if_splits)

theorem pb_skip_field_exact:
  assumes "buf.ready s" and "buf.avail s = p @ rest" and "payload w p"
  shows "pb_skip_field w s = Some (Some (), buf.advance (length p) s)"
proof (cases w)
  case PB_WT_VARINT
  then have "cont_run (p @ rest) = length p - 1" "p \<noteq> []"
    using assms(3) cont_run_append [of p rest] by auto
  then have "Suc (cont_run (buf.avail s)) = length p" "cont_run (buf.avail s) \<noteq> length (buf.avail s)"
    unfolding assms(2) by (simp_all, cases p, auto)
  then show ?thesis using buf.pb_skip_varint_spec [OF assms(1)] PB_WT_VARINT by simp
next
  case PB_WT_64BIT
  then show ?thesis using buf.pb_read_null_enough [OF assms(1), of 8] assms by simp
next
  case PB_WT_32BIT
  then show ?thesis using buf.pb_read_null_enough [OF assms(1), of 4] assms by simp
next
  case PB_WT_STRING
  then have p: "len_ok p" "length p = Suc (cont_run p) + len_of p" using assms(3) by auto
  then have c: "cont_run (p @ rest) = cont_run p" by (intro cont_run_append) simp
  then have "len_ok (p @ rest)" "len_of (p @ rest) = len_of p"
    using p by (auto simp: len_ok_def len_of_def)
  then show ?thesis
    using buf.pb_skip_string_spec [OF assms(1)] assms(2) p c PB_WT_STRING by simp
next
  case (PB_WT_INVALID x)
  then show ?thesis using assms(3) by simp
qed

theorem pb_skip_field_exact_witness:
  "pb_skip_field PB_WT_STRING (pb_istream_from_buffer [2, 65, 66, 99] 4 :: unit pb_istream_t) =
    Some (Some (), buf.advance 3 (pb_istream_from_buffer [2, 65, 66, 99] 4))"
  using pb_skip_field_exact [of "pb_istream_from_buffer [2, 65, 66, 99] 4 :: unit pb_istream_t"
      "[2, 65, 66]" "[99]" PB_WT_STRING]
  by (simp add: ready_from_buffer avail_from_buffer len_ok_def len_of_def cont_def numeral_3_eq_3)

text \<open>
  C4: Substreams.  On a stream that begins with a length prefix and that many bytes,
  \<open>pb_make_string_substream\<close> gives a stream of exactly those bytes, and whatever part of them has
  been read, \<open>pb_close_string_substream\<close> leaves the parent just after them.
\<close>

theorem pb_substream_exact:
  assumes "buf.ready s" and "buf.avail s = leb128 (length data) @ data @ rest"
    and "length data < 2 ^ 32"
  shows "\<exists>sub s'. pb_make_string_substream s = Some (Some sub, s')
    \<and> buf.ready sub \<and> buf.avail sub = data
    \<and> (\<forall>k\<le>length data. pb_close_string_substream (buf.advance k sub) s'
         = Some (Some (), buf.advance (length (leb128 (length data)) + length data) s))"
proof -
  let ?n = "length data" and ?h = "length (leb128 (length data))"
  have n: "unat (of_nat ?n :: u32) = ?n" using assms(3) by (simp add: unat_of_nat_mod)
  have h: "Suc (cont_run (buf.avail s)) = ?h" and t: "take ?h (buf.avail s) = leb128 ?n"
    unfolding assms(2) using Suc_cont_run_leb128 [of ?n "data @ rest"] by simp_all
  have lo: "len_of (buf.avail s) = ?n" "len_ok (buf.avail s)"
    using h t assms(2,3) length_leb128_u32 [of "of_nat ?n"] n cont_run_leb128 [of ?n "data @ rest"]
    by (simp_all add: len_of_def len_ok_def)
  obtain sub s' where m: "pb_make_string_substream s = Some (Some sub, s')"
    and sub: "buf.ready sub" "buf.avail sub = data"
    and s': "s' = (buf.advance ?h s)\<lparr>bytes_left := bytes_left (buf.advance (?h + ?n) s)\<rparr>"
    and src: "is_src sub = is_src s'" "is_errmsg sub = is_errmsg s"
    using buf.pb_make_string_substream_spec [OF assms(1) lo(2)] h lo assms(2) by auto
  have "pb_close_string_substream (buf.advance k sub) s' = Some (Some (), buf.advance (?h + ?n) s)"
    if k: "k \<le> ?n" for k
  proof -
    have r: "buf.ready (buf.advance k sub)" "length (buf.avail (buf.advance k sub)) = ?n - k"
      using k sub by (simp_all add: buf.ready_advance buf.avail_advance)
    then show ?thesis
      using buf.pb_close_string_substream_spec [OF r(1), of s'] k s' src
      by (simp add: buf.advance_def buf.adv_adv)
  qed
  then show ?thesis using m sub by blast
qed

theorem pb_substream_exact_witness:
  "\<exists>sub s'. pb_make_string_substream (pb_istream_from_buffer [2, 65, 66, 99] 4 :: unit pb_istream_t)
        = Some (Some sub, s')
    \<and> buf.ready sub \<and> buf.avail sub = [65, 66]
    \<and> (\<forall>k\<le>length [65, 66 :: u8]. pb_close_string_substream (buf.advance k sub) s'
         = Some (Some (), buf.advance (length (leb128 (length [65, 66 :: u8])) + length [65, 66 :: u8])
              (pb_istream_from_buffer [2, 65, 66, 99] 4)))"
  by (rule pb_substream_exact [where rest = "[99]"])
     (simp_all add: ready_from_buffer avail_from_buffer leb128.simps [of "Suc (Suc 0)"])



text \<open>
  C3: Output bounds.  On a stream over a buffer, \<open>pb_write\<close> stores the bytes after those already
  written when they fit into \<open>max_size\<close>, touching no other byte of the buffer, and otherwise
  fails with ``stream full'' and stores nothing, even when \<open>bytes_written + count\<close> wraps around.
\<close>

theorem pb_write_bounds:
  assumes "wf_ostream s" and "unat n \<le> length bs"
  shows "(unat (bytes_written s) + unat n \<le> unat (max_size s) \<longrightarrow>
      (\<exists>t. pb_write (Some bs) n s = Some (Some (), t) \<and> wf_ostream t
        \<and> unat (bytes_written t) = unat (bytes_written s) + unat n
        \<and> length (snk_mem (os_sink t)) = length (snk_mem (os_sink s))
        \<and> (\<forall>i<length (snk_mem (os_sink s)). snk_mem (os_sink t) ! i =
             (if unat (bytes_written s) \<le> i \<and> i < unat (bytes_written s) + unat n
              then bs ! (i - unat (bytes_written s)) else snk_mem (os_sink s) ! i))))
   \<and> (unat (max_size s) < unat (bytes_written s) + unat n \<longrightarrow>
      pb_write (Some bs) n s = Some (None, PB_SET_ERROR_o ''stream full'' s))"
proof (intro conjI impI)
  let ?w = "unat (bytes_written s)" and ?n = "unat n" and ?mem = "snk_mem (os_sink s)"
  assume fits: "?w + ?n \<le> unat (max_size s)"
  let ?t = "written (take ?n bs) s"
  have l: "length (take ?n bs) = ?n" using assms(2) by simp
  have "?w + ?n \<le> length ?mem" using fits assms(1) by (simp add: wf_ostream_def)
  then have "length (snk_mem (os_sink ?t)) = length ?mem"
    and "\<forall>i<length ?mem. snk_mem (os_sink ?t) ! i =
             (if ?w \<le> i \<and> i < ?w + ?n then bs ! (i - ?w) else ?mem ! i)"
    using l by (auto simp: written_def Let_def nth_append)
  then show "\<exists>t. pb_write (Some bs) n s = Some (Some (), t) \<and> wf_ostream t
        \<and> unat (bytes_written t) = ?w + ?n
        \<and> length (snk_mem (os_sink t)) = length ?mem
        \<and> (\<forall>i<length ?mem. snk_mem (os_sink t) ! i =
             (if ?w \<le> i \<and> i < ?w + ?n then bs ! (i - ?w) else ?mem ! i))"
    using pb_write_wf [OF assms] wf_written [OF assms(1), of "take ?n bs"] fits l
    by (intro exI [of _ ?t]) simp
next
  assume "unat (max_size s) < unat (bytes_written s) + unat n"
  then show "pb_write (Some bs) n s = Some (None, PB_SET_ERROR_o ''stream full'' s)"
    using pb_write_wf [OF assms] by (simp add: PB_RETURN_ERROR_o_def)
qed

theorem pb_write_bounds_witness:
  "pb_write (Some [1, 2, 3]) 3 (pb_ostream_from_buffer [0, 0] 2 :: unit pb_ostream_t) =
    Some (None, PB_SET_ERROR_o ''stream full'' (pb_ostream_from_buffer [0, 0] 2))"
  using pb_write_bounds [of "pb_ostream_from_buffer [0, 0] 2 :: unit pb_ostream_t" 3 "[1, 2, 3]"]
  by (simp add: pb_ostream_from_buffer_def wf_ostream_def)

text \<open>
  C9: Size prediction.  A sizing stream counts exactly the bytes that \<open>pb_encode_string\<close> needs:
  the string fits into a buffer if and only if its capacity is at least the size counted.
\<close>

theorem pb_encode_string_fits:
  fixes z :: "'z pb_ostream_t" and os :: "'w pb_ostream_t"
  assumes "length data < 2 ^ 63"
  shows "\<exists>z :: 'z pb_ostream_t.
     pb_encode_string (Some data) (of_nat (length data)) PB_OSTREAM_SIZING = Some (Some (), z)
   \<and> unat (bytes_written z) = length (leb128 (length data)) + length data
   \<and> (\<forall>mem cap. unat cap \<le> length mem \<longrightarrow>
        (\<exists>os :: 'w pb_ostream_t. pb_encode_string (Some data) (of_nat (length data))
              (pb_ostream_from_buffer mem cap) = Some (Some (), os))
          \<longleftrightarrow> bytes_written z \<le> cap)"
proof -
  let ?n = "of_nat (length data) :: u64"
  have n: "unat ?n = length data" using assms by (simp add: unat_of_nat_mod)
  let ?l = "length (leb128 (length data))"
  have l: "?l \<le> 10" using length_leb128_u64 [of ?n] n by simp
  let ?z = "PB_OSTREAM_SIZING\<lparr>bytes_written := of_nat ?l + ?n\<rparr> :: 'z pb_ostream_t"
  have z: "pb_encode_string (Some data) ?n PB_OSTREAM_SIZING = Some (Some (), ?z)"
    unfolding pb_encode_string_def pb_encode_varint_leb128 n put_bytes_def
    by (simp add: pb_write_null_cb PB_OSTREAM_SIZING_def)
  have zn: "unat (bytes_written ?z) = ?l + length data"
    using n l assms by (simp add: unat_word_ariths unat_of_nat_mod)
  have "(\<exists>os :: 'w pb_ostream_t. pb_encode_string (Some data) ?n (pb_ostream_from_buffer mem cap)
      = Some (Some (), os)) \<longleftrightarrow> bytes_written ?z \<le> cap" if cap: "unat cap \<le> length mem" for mem cap
  proof -
    let ?s = "pb_ostream_from_buffer mem cap :: 'w pb_ostream_t"
    have s: "wf_ostream ?s" "bytes_written ?s = 0" "max_size ?s = cap"
      using cap by (simp_all add: pb_ostream_from_buffer_def wf_ostream_def)
    have p: "put_bytes (leb128 (length data)) ?s = (if ?l \<le> unat cap
        then Some (Some (), written (leb128 (length data)) ?s) else PB_RETURN_ERROR_o ''stream full'' ?s)"
      using put_bytes_wf [OF s(1), of "leb128 (length data)"] s l by simp
    show ?thesis
    proof (cases "?l \<le> unat cap")
      case False
      then show ?thesis
        using p zn unfolding pb_encode_string_def pb_encode_varint_leb128 n
        by (simp add: PB_RETURN_ERROR_o_def word_le_nat_alt)
    next
      case True
      then have w: "wf_ostream (written (leb128 (length data)) ?s)"
        "unat (bytes_written (written (leb128 (length data)) ?s)) = ?l"
        "max_size (written (leb128 (length data)) ?s) = cap"
        using wf_written [OF s(1), of "leb128 (length data)"] s by simp_all
      show ?thesis
        using p True pb_write_wf [OF w(1), of ?n data] w n zn
        unfolding pb_encode_string_def pb_encode_varint_leb128 n
        by (simp add: PB_RETURN_ERROR_o_def word_le_nat_alt)
    qed
  qed
  then show ?thesis using z zn by blast
qed

theorem pb_encode_string_fits_witness:
  "\<exists>z :: unit pb_ostream_t.
     pb_encode_string (Some [65, 66]) (of_nat (length [65, 66 :: u8])) PB_OSTREAM_SIZING = Some (Some (), z)
   \<and> unat (bytes_written z) = length (leb128 (length [65, 66 :: u8])) + length [65, 66 :: u8]
   \<and> (\<forall>mem cap. unat cap \<le> length mem \<longrightarrow>
        (\<exists>os :: unit pb_ostream_t. pb_encode_string (Some [65, 66]) (of_nat (length [65, 66 :: u8]))
              (pb_ostream_from_buffer mem cap) = Some (Some (), os))
          \<longleftrightarrow> bytes_written z \<le> cap)"
  by (rule pb_encode_string_fits) simp

end
