(* ===== verification/Bs_Mem.thy ===== *)
theory Bs_Mem
  imports Prelude
begin

text \<open>
  \<open>crypto/mem.c\<close> of BoringSSL: the allocator with its size prefix, and the string functions.
  A block of memory is the list of its bytes; a pointer returned by \<open>OPENSSL_malloc\<close> is the whole
  block, of which the caller sees the part after the prefix.  The libc \<open>malloc\<close> is a parameter:
  it gives a block for a size, or \<open>None\<close> when it fails.
\<close>

section \<open>Allocation\<close>

definition OPENSSL_MALLOC_PREFIX :: size_t where
  "OPENSSL_MALLOC_PREFIX = 8"

text \<open>The part of a block that the caller sees, and the size stored in its prefix.\<close>

definition payload_of :: "u8 list \<Rightarrow> u8 list" where
  "payload_of blk = drop 8 blk"

definition size_of_block :: "u8 list \<Rightarrow> size_t" where
  "size_of_block blk = of_nat (le_val (take 8 blk))"

definition OPENSSL_malloc :: "(size_t \<Rightarrow> u8 list option) \<Rightarrow> size_t \<Rightarrow> u8 list option option" where
  "OPENSSL_malloc malloc n =
     (case malloc (n + OPENSSL_MALLOC_PREFIX) of
        None \<Rightarrow> Some None
      | Some blk \<Rightarrow> map_option Some (mem_write blk 0 (le_bytes 8 (unat n))))"

definition OPENSSL_cleanse :: "u8 list \<Rightarrow> size_t \<Rightarrow> u8 list option" where
  "OPENSSL_cleanse blk n = mem_write blk 0 (replicate (unat n) 0)"

text \<open>\<open>OPENSSL_free\<close>: the contents of the block when it is handed to \<open>sdallocx\<close>.\<close>

fun OPENSSL_free :: "u8 list option \<Rightarrow> u8 list option option" where
  "OPENSSL_free None = Some None"
| "OPENSSL_free (Some blk) =
     (if length blk < 8 then None
      else map_option Some (OPENSSL_cleanse blk (size_of_block blk + OPENSSL_MALLOC_PREFIX)))"

text \<open>\<open>OPENSSL_realloc\<close>: the new block, and the old block as it is freed.\<close>

fun OPENSSL_realloc ::
  "(size_t \<Rightarrow> u8 list option) \<Rightarrow> u8 list option \<Rightarrow> size_t \<Rightarrow> (u8 list option \<times> u8 list option) option" where
  "OPENSSL_realloc malloc None new_size =
     map_option (\<lambda>r. (r, None)) (OPENSSL_malloc malloc new_size)"
| "OPENSSL_realloc malloc (Some blk) new_size =
     (if length blk < 8 then None
      else case OPENSSL_malloc malloc new_size of
             None \<Rightarrow> None
           | Some None \<Rightarrow> Some (None, Some blk)
           | Some (Some ret) \<Rightarrow>
               let old_size = size_of_block blk;
                   to_copy = (if old_size < new_size then old_size else new_size)
               in case mem_read blk 8 (unat to_copy) of
                    None \<Rightarrow> None
                  | Some bs \<Rightarrow>
                      (case mem_write ret 8 bs of
                         None \<Rightarrow> None
                       | Some ret' \<Rightarrow>
                           map_option (\<lambda>freed. (Some ret', freed)) (OPENSSL_free (Some blk))))"

definition OPENSSL_memdup :: "(size_t \<Rightarrow> u8 list option) \<Rightarrow> u8 list \<Rightarrow> size_t \<Rightarrow> u8 list option option" where
  "OPENSSL_memdup malloc data n =
     (if n = 0 then Some None
      else case OPENSSL_malloc malloc n of
             None \<Rightarrow> None
           | Some None \<Rightarrow> Some None
           | Some (Some ret) \<Rightarrow>
               (case mem_read data 0 (unat n) of
                  None \<Rightarrow> None
                | Some bs \<Rightarrow> map_option Some (mem_write ret 8 bs)))"

section \<open>Comparison and hashing\<close>

fun memcmp_loop :: "u8 \<Rightarrow> u8 list \<Rightarrow> u8 list \<Rightarrow> u8" where
  "memcmp_loop x (a # as) (b # bs) = memcmp_loop (x OR (a XOR b)) as bs"
| "memcmp_loop x _ _ = x"

definition CRYPTO_memcmp :: "u8 list \<Rightarrow> u8 list \<Rightarrow> size_t \<Rightarrow> u8 option" where
  "CRYPTO_memcmp in_a in_b len =
     (case (mem_read in_a 0 (unat len), mem_read in_b 0 (unat len)) of
        (Some a, Some b) \<Rightarrow> Some (memcmp_loop 0 a b)
      | _ \<Rightarrow> None)"

fun hash32_loop :: "u32 \<Rightarrow> u8 list \<Rightarrow> u32" where
  "hash32_loop h [] = h"
| "hash32_loop h (b # bs) = hash32_loop ((h XOR ucast b) * 16777619) bs"

definition OPENSSL_hash32 :: "u8 list \<Rightarrow> size_t \<Rightarrow> u32 option" where
  "OPENSSL_hash32 ptr len = map_option (hash32_loop 2166136261) (mem_read ptr 0 (unat len))"

section \<open>Strings\<close>

text \<open>A C string is the memory from its pointer on; \<open>strlen\<close> reads up to the first NUL.\<close>

fun strlen :: "u8 list \<Rightarrow> size_t option" where
  "strlen [] = None"
| "strlen (c # cs) = (if c = 0 then Some 0 else map_option (\<lambda>n. n + 1) (strlen cs))"

function strnlen_loop :: "size_t \<Rightarrow> u8 list \<Rightarrow> size_t \<Rightarrow> size_t option" where
  "strnlen_loop i s len =
     (if i < len then
        case s of
          [] \<Rightarrow> None
        | c # cs \<Rightarrow> if c = 0 then Some i else strnlen_loop (i + 1) cs len
      else Some len)"
  by pat_completeness auto
termination
  by (relation "measure (\<lambda>(i, s, len). length s)") auto

declare strnlen_loop.simps [simp del]

definition OPENSSL_strnlen :: "u8 list \<Rightarrow> size_t \<Rightarrow> size_t option" where
  "OPENSSL_strnlen s len = strnlen_loop 0 s len"

definition OPENSSL_strdup :: "(size_t \<Rightarrow> u8 list option) \<Rightarrow> u8 list option \<Rightarrow> u8 list option option" where
  "OPENSSL_strdup malloc s =
     (case s of
        None \<Rightarrow> Some None
      | Some str \<Rightarrow>
          (case strlen str of
             None \<Rightarrow> None
           | Some l \<Rightarrow>
               (case OPENSSL_malloc malloc (l + 1) of
                  None \<Rightarrow> None
                | Some None \<Rightarrow> Some None
                | Some (Some ret) \<Rightarrow>
                    (case mem_read str 0 (unat (l + 1)) of
                       None \<Rightarrow> None
                     | Some bs \<Rightarrow> map_option Some (mem_write ret 8 bs)))))"

definition OPENSSL_strndup ::
  "(size_t \<Rightarrow> u8 list option) \<Rightarrow> u8 list option \<Rightarrow> size_t \<Rightarrow> u8 list option option" where
  "OPENSSL_strndup malloc s n =
     (case s of
        None \<Rightarrow> Some None
      | Some str \<Rightarrow>
          (case OPENSSL_strnlen str n of
             None \<Rightarrow> None
           | Some l \<Rightarrow>
               if l + 1 < l then Some None
               else case OPENSSL_malloc malloc (l + 1) of
                      None \<Rightarrow> None
                    | Some None \<Rightarrow> Some None
                    | Some (Some ret) \<Rightarrow>
                        (case mem_read str 0 (unat l) of
                           None \<Rightarrow> None
                         | Some bs \<Rightarrow>
                             (case mem_write ret 8 bs of
                                None \<Rightarrow> None
                              | Some ret' \<Rightarrow> map_option Some (mem_write ret' (8 + unat l) [0])))))"

text \<open>\<open>char\<close> is signed: the comparisons are on sign-extended values.\<close>

definition OPENSSL_tolower :: "int \<Rightarrow> int" where
  "OPENSSL_tolower c = (if 65 \<le> c \<and> c \<le> 90 then c + (97 - 65) else c)"

fun OPENSSL_strcasecmp :: "u8 list \<Rightarrow> u8 list \<Rightarrow> int option" where
  "OPENSSL_strcasecmp (a # as) (b # bs) =
     (let aa = OPENSSL_tolower (sint a); bb = OPENSSL_tolower (sint b)
      in if aa < bb then Some (- 1)
         else if bb < aa then Some 1
         else if aa = 0 then Some 0
         else OPENSSL_strcasecmp as bs)"
| "OPENSSL_strcasecmp _ _ = None"

fun strncasecmp_loop :: "nat \<Rightarrow> u8 list \<Rightarrow> u8 list \<Rightarrow> int option" where
  "strncasecmp_loop 0 as bs = Some 0"
| "strncasecmp_loop (Suc n) (a # as) (b # bs) =
     (let aa = OPENSSL_tolower (sint a); bb = OPENSSL_tolower (sint b)
      in if aa < bb then Some (- 1)
         else if bb < aa then Some 1
         else if aa = 0 then Some 0
         else strncasecmp_loop n as bs)"
| "strncasecmp_loop (Suc n) _ _ = None"

definition OPENSSL_strncasecmp :: "u8 list \<Rightarrow> u8 list \<Rightarrow> size_t \<Rightarrow> int option" where
  "OPENSSL_strncasecmp a b n = strncasecmp_loop (unat n) a b"

text \<open>\<open>OPENSSL_strlcpy\<close> and \<open>OPENSSL_strlcat\<close>: the memory at \<open>dst\<close> afterwards and the result.\<close>

function strlcpy_loop ::
  "size_t \<Rightarrow> u8 list \<Rightarrow> u8 list \<Rightarrow> size_t \<Rightarrow> (u8 list \<times> size_t) option" where
  "strlcpy_loop l dst src dst_size =
     (case src of
        [] \<Rightarrow> None
      | c # cs \<Rightarrow>
          if 1 < dst_size \<and> c \<noteq> 0 then
            case dst of
              [] \<Rightarrow> None
            | _ # ds \<Rightarrow> map_option (\<lambda>(ds', r). (c # ds', r)) (strlcpy_loop (l + 1) ds cs (dst_size - 1))
          else
            case (if dst_size \<noteq> 0 then mem_write dst 0 [0] else Some dst) of
              None \<Rightarrow> None
            | Some dst' \<Rightarrow> map_option (\<lambda>n. (dst', l + n)) (strlen src))"
  by pat_completeness auto
termination
  by (relation "measure (\<lambda>(l, dst, src, n). length src)") auto

declare strlcpy_loop.simps [simp del]

definition OPENSSL_strlcpy :: "u8 list \<Rightarrow> u8 list \<Rightarrow> size_t \<Rightarrow> (u8 list \<times> size_t) option" where
  "OPENSSL_strlcpy dst src dst_size = strlcpy_loop 0 dst src dst_size"

function strlcat_loop ::
  "size_t \<Rightarrow> u8 list \<Rightarrow> u8 list \<Rightarrow> size_t \<Rightarrow> (u8 list \<times> size_t) option" where
  "strlcat_loop l dst src dst_size =
     (if 0 < dst_size then
        case dst of
          [] \<Rightarrow> None
        | c # ds \<Rightarrow>
            if c \<noteq> 0
            then map_option (\<lambda>(ds', r). (c # ds', r)) (strlcat_loop (l + 1) ds src (dst_size - 1))
            else map_option (\<lambda>(dst', r). (dst', l + r)) (OPENSSL_strlcpy dst src dst_size)
      else map_option (\<lambda>(dst', r). (dst', l + r)) (OPENSSL_strlcpy dst src dst_size))"
  by pat_completeness auto
termination
  by (relation "measure (\<lambda>(l, dst, src, n). length dst)") auto

declare strlcat_loop.simps [simp del]

definition OPENSSL_strlcat :: "u8 list \<Rightarrow> u8 list \<Rightarrow> size_t \<Rightarrow> (u8 list \<times> size_t) option" where
  "OPENSSL_strlcat dst src dst_size = strlcat_loop 0 dst src dst_size"

end
