(* ===== verification/Bs_Mem_Props.thy ===== *)
theory Bs_Mem_Props
  imports Bs_Mem
begin

text \<open>
  What the allocator and the string functions of \<open>crypto/mem.c\<close> promise: blocks know their size,
  reallocation keeps the contents and wipes the old block, comparison decides equality, and the
  bounded string functions stay within their bounds.
\<close>

section \<open>Blocks\<close>

text \<open>
  The documented behaviour of the libc \<open>malloc\<close>: a block has the size asked for, which is never
  more than \<open>PTRDIFF_MAX\<close>.
\<close>

definition alloc_ok :: "(size_t \<Rightarrow> u8 list option) \<Rightarrow> bool" where
  "alloc_ok malloc \<longleftrightarrow> (\<forall>n blk. malloc n = Some blk \<longrightarrow> length blk = unat n \<and> unat n < 2 ^ 63)"

definition wf_block :: "u8 list \<Rightarrow> bool" where
  "wf_block blk \<longleftrightarrow> 8 \<le> length blk \<and> length blk < 2 ^ 64 \<and> le_val (take 8 blk) = length blk - 8"

lemma mem_write_append:
  "length bs \<le> length mem \<Longrightarrow> mem_write mem 0 bs = Some (bs @ drop (length bs) mem)"
  by (simp add: mem_write_def)

lemma add_prefix:
  fixes n :: size_t
  assumes "unat n + 8 < 2 ^ 64"
  shows "unat (n + OPENSSL_MALLOC_PREFIX) = unat n + 8"
  using assms by (simp add: OPENSSL_MALLOC_PREFIX_def unat_word_ariths)

lemma OPENSSL_malloc_Some:
  assumes "alloc_ok malloc" and "unat n + 8 < 2 ^ 64"
    and "malloc (n + OPENSSL_MALLOC_PREFIX) = Some m"
  shows "OPENSSL_malloc malloc n = Some (Some (le_bytes 8 (unat n) @ drop 8 m))"
    and "wf_block (le_bytes 8 (unat n) @ drop 8 m)"
    and "length (payload_of (le_bytes 8 (unat n) @ drop 8 m)) = unat n"
proof -
  have l: "length m = unat n + 8"
    using assms add_prefix [OF assms(2)] by (auto simp: alloc_ok_def)
  then show "OPENSSL_malloc malloc n = Some (Some (le_bytes 8 (unat n) @ drop 8 m))"
    using assms(3) by (simp add: OPENSSL_malloc_def mem_write_append)
  have "le_val (le_bytes 8 (unat n)) = unat n"
    unfolding le_val_bytes using unat_bound [of n] by simp
  then show "wf_block (le_bytes 8 (unat n) @ drop 8 m)"
    using l assms(2) by (simp add: wf_block_def)
  show "length (payload_of (le_bytes 8 (unat n) @ drop 8 m)) = unat n"
    using l by (simp add: payload_of_def)
qed

lemma size_of_wf_block:
  "wf_block blk \<Longrightarrow> unat (size_of_block blk) = length blk - 8"
  unfolding wf_block_def size_of_block_def by (subst unat_of_nat_mod) (simp add: less_imp_diff_less)

lemma length_payload_of: "length (payload_of blk) = length blk - 8"
  by (simp add: payload_of_def)

lemma OPENSSL_free_wf:
  assumes "wf_block blk"
  shows "OPENSSL_free (Some blk) = Some (Some (replicate (length blk) 0))"
proof -
  note s = size_of_wf_block [OF assms]
  have "unat (size_of_block blk + OPENSSL_MALLOC_PREFIX) = length blk"
    using s assms add_prefix [of "size_of_block blk"] by (auto simp: wf_block_def)
  then show ?thesis
    using assms by (simp add: OPENSSL_cleanse_def mem_write_append wf_block_def)
qed

lemma OPENSSL_realloc_Some:
  assumes "alloc_ok malloc" and "wf_block blk" and "unat n + 8 < 2 ^ 64"
    and "malloc (n + OPENSSL_MALLOC_PREFIX) = Some m"
  shows "\<exists>new. OPENSSL_realloc malloc (Some blk) n
      = Some (Some new, Some (replicate (length blk) 0))
    \<and> wf_block new \<and> length (payload_of new) = unat n
    \<and> (let k = min (length (payload_of blk)) (unat n)
       in take k (payload_of new) = take k (payload_of blk))"
proof -
  let ?ret = "le_bytes 8 (unat n) @ drop 8 m"
  note ret = OPENSSL_malloc_Some [OF assms(1,3,4)]
  note s = size_of_wf_block [OF assms(2)]
  let ?c = "if size_of_block blk < n then size_of_block blk else n"
  have c: "unat ?c = min (length blk - 8) (unat n)"
    using s by (simp add: word_less_nat_alt)
  have l: "8 \<le> length blk" using assms(2) by (simp add: wf_block_def)
  let ?bs = "take (unat ?c) (drop 8 blk)"
  have lbs: "length ?bs = unat ?c" using c by simp
  have lret: "length ?ret = unat n + 8" using ret(3) by (simp add: payload_of_def)
  let ?new = "le_bytes 8 (unat n) @ ?bs @ drop (unat ?c) (drop 8 m)"
  have w: "mem_write ?ret 8 ?bs = Some ?new"
    using lbs c lret by (simp add: mem_write_def)
  have "mem_read blk 8 (unat ?c) = Some ?bs"
    using c l by (simp add: mem_read_def)
  then have "OPENSSL_realloc malloc (Some blk) n = Some (Some ?new, Some (replicate (length blk) 0))"
    using ret(1) w l OPENSSL_free_wf [OF assms(2)] by (simp add: Let_def del: OPENSSL_free.simps)
  moreover have "length ?new = length ?ret" using lbs c lret by simp
  then have "wf_block ?new" and "length (payload_of ?new) = unat n"
    using ret(2,3) by (auto simp: wf_block_def length_payload_of)
  moreover have "take (unat ?c) (payload_of ?new) = take (unat ?c) (payload_of blk)"
    using lbs by (simp add: payload_of_def)
  ultimately show ?thesis using c by (auto simp: Let_def length_payload_of)
qed

section \<open>Strings\<close>

definition nul_free :: "u8 list \<Rightarrow> bool" where
  "nul_free bs \<longleftrightarrow> 0 \<notin> set bs"

lemma nul_free_simps [simp]:
  "nul_free []" "nul_free (c # cs) \<longleftrightarrow> c \<noteq> 0 \<and> nul_free cs"
  by (auto simp: nul_free_def)

lemma strlen_string: "nul_free str \<Longrightarrow> strlen (str @ 0 # rest) = Some (of_nat (length str))"
  by (induction str) (auto simp: add.commute)

lemma strnlen_loop_string:
  "nul_free str \<Longrightarrow> unat i + length str < 2 ^ 64 \<Longrightarrow>
   strnlen_loop i (str @ 0 # rest) n
     = Some (if unat i + length str \<le> unat n then i + of_nat (length str) else n)"
proof (induction str arbitrary: i)
  case Nil
  then show ?case
    by (auto simp: strnlen_loop.simps [of i] word_less_nat_alt word_unat_eq_iff)
next
  case (Cons c str)
  have i: "unat (i + 1) = Suc (unat i)" using Cons.prems by (simp add: unat_word_ariths)
  show ?case
  proof (cases "i < n")
    case True
    then show ?thesis
      using Cons.IH [of "i + 1"] Cons.prems i
      by (simp add: strnlen_loop.simps [of i] algebra_simps)
  next
    case False
    then show ?thesis by (simp add: strnlen_loop.simps [of i] word_less_nat_alt)
  qed
qed

lemma xor_eq_0: "(a :: u8) XOR b = 0 \<longleftrightarrow> a = b"
  by (metis xor.assoc xor.right_neutral xor_self_eq)

lemma memcmp_loop_0: "length as = length bs \<Longrightarrow> memcmp_loop x as bs = 0 \<longleftrightarrow> x = 0 \<and> as = bs"
proof (induction x as bs rule: memcmp_loop.induct)
  case (1 x a as b bs)
  have "x OR (a XOR b) = 0 \<longleftrightarrow> x = 0 \<and> a = b" by (simp add: or_eq_0_iff xor_eq_0)
  with 1 show ?case by auto
qed auto

lemma strlcpy_loop_string:
  assumes "nul_free str" and "0 < unat n" and "unat n \<le> length dst"
  shows "strlcpy_loop l dst (str @ 0 # rest) n =
    (let k = min (length str) (unat n - 1)
     in Some (take k str @ 0 # drop (Suc k) dst, l + of_nat (length str)))"
  using assms
proof (induction str arbitrary: l dst n)
  case Nil
  then obtain d ds where "dst = d # ds" by (cases dst) auto
  with Nil show ?case
    by (auto simp: strlcpy_loop.simps [of l] mem_write_def unat_gt_0)
next
  case (Cons c str)
  obtain d ds where dst: "dst = d # ds" using Cons.prems by (cases dst) auto
  show ?case
  proof (cases "1 < n")
    case True
    then have n: "unat (n - 1) = unat n - 1" "1 < unat n"
      by (auto simp: unat_sub word_le_nat_alt word_less_nat_alt)
    then have "min (length (c # str)) (unat n - 1) = Suc (min (length str) (unat (n - 1) - 1))"
      by simp
    then show ?thesis
      using Cons.IH [of "n - 1" ds "l + 1"] Cons.prems n True dst
      by (simp add: strlcpy_loop.simps [of l] Let_def algebra_simps)
  next
    case False
    then have "unat n = 1" using Cons.prems by (simp add: word_less_nat_alt)
    then have n: "n = 1" by (simp add: word_unat_eq_iff)
    have "strlen (c # str @ 0 # rest) = Some (of_nat (length (c # str)))"
      using strlen_string [OF Cons.prems(1)] by simp
    then show ?thesis
      using n dst by (simp add: strlcpy_loop.simps [of l] mem_write_def)
  qed
qed

section \<open>Properties\<close>

text \<open>
  C20: Reallocation.  When \<open>malloc\<close> succeeds, \<open>OPENSSL_realloc\<close> returns a well-formed block of the
  new size whose contents agree with the old block on the smaller of the two sizes, and the old
  block is all zeros when it is freed.
\<close>

theorem realloc_keeps_contents:
  assumes "alloc_ok malloc" and "wf_block blk" and "unat n + 8 < 2 ^ 64"
    and "malloc (n + OPENSSL_MALLOC_PREFIX) = Some m"
  shows "\<exists>new. OPENSSL_realloc malloc (Some blk) n
      = Some (Some new, Some (replicate (length blk) 0))
    \<and> wf_block new \<and> length (payload_of new) = unat n
    \<and> (let k = min (length (payload_of blk)) (unat n)
       in take k (payload_of new) = take k (payload_of blk))"
  by (rule OPENSSL_realloc_Some [OF assms])

definition zero_malloc :: "size_t \<Rightarrow> u8 list option" where
  "zero_malloc n = (if n < 2 ^ 63 then Some (replicate (unat n) 0) else None)"

theorem realloc_keeps_contents_witness:
  "\<exists>new. OPENSSL_realloc zero_malloc (Some (le_bytes 8 2 @ [7, 9])) 3
      = Some (Some new, Some (replicate (length (le_bytes 8 2 @ [7, 9 :: u8])) 0))
    \<and> wf_block new \<and> length (payload_of new) = unat (3 :: size_t)
    \<and> (let k = min (length (payload_of (le_bytes 8 2 @ [7, 9]))) (unat (3 :: size_t))
       in take k (payload_of new) = take k (payload_of (le_bytes 8 2 @ [7, 9])))"
  by (rule realloc_keeps_contents [where m = "replicate 11 0"])
     (simp_all add: alloc_ok_def zero_malloc_def word_less_nat_alt wf_block_def le_val_bytes
        OPENSSL_MALLOC_PREFIX_def)

text \<open>
  C22: \<open>OPENSSL_malloc\<close> does not check that the size plus its prefix fits into a \<open>size_t\<close>.  For a
  size within eight bytes of the largest one the sum wraps around, and when \<open>malloc\<close> gives a block
  of that small size the prefix is written past its end.
\<close>

theorem malloc_prefix_overflow:
  assumes "2 ^ 64 \<le> unat n + 8" and "malloc (n + OPENSSL_MALLOC_PREFIX) = Some blk"
    and "length blk = unat (n + OPENSSL_MALLOC_PREFIX)"
  shows "OPENSSL_malloc malloc n = None"
proof -
  have "unat (n + OPENSSL_MALLOC_PREFIX) = unat n + 8 - 2 ^ 64"
    using assms(1) unat_bound [of n] by (simp add: OPENSSL_MALLOC_PREFIX_def unat_word_ariths mod_if)
  then have "length blk < 8" using assms(3) unat_bound [of n] by simp
  then show ?thesis using assms(2) by (simp add: OPENSSL_malloc_def mem_write_def)
qed

theorem malloc_prefix_overflow_witness:
  "OPENSSL_malloc zero_malloc 0xFFFFFFFFFFFFFFFF = None"
  by (rule malloc_prefix_overflow [where blk = "replicate 7 0"])
     (simp_all add: zero_malloc_def OPENSSL_MALLOC_PREFIX_def)

text \<open>
  \<open>CRYPTO_memcmp\<close> returns zero exactly when the two regions hold the same bytes, and never
  reads past them.
\<close>

theorem memcmp_decides_equality:
  assumes "unat n \<le> length a" and "unat n \<le> length b"
  shows "\<exists>r. CRYPTO_memcmp a b n = Some r \<and> (r = 0 \<longleftrightarrow> take (unat n) a = take (unat n) b)"
  using assms memcmp_loop_0 [of "take (unat n) a" "take (unat n) b" 0]
  by (simp add: CRYPTO_memcmp_def)

theorem memcmp_decides_equality_witness:
  "\<exists>r. CRYPTO_memcmp [1, 2] [1, 3] 2 = Some r
     \<and> (r = 0 \<longleftrightarrow> take (unat (2 :: size_t)) [1, 2 :: u8] = take (unat (2 :: size_t)) [1, 3])"
  by (rule memcmp_decides_equality) simp_all

text \<open>
  C21: \<open>OPENSSL_strlcpy\<close> with room for at least one byte copies as much of the string as fits with
  its terminating NUL, leaves the rest of the destination as it was, and returns the length of the
  source, so truncation shows as a result of \<open>dst_size\<close> or more.
\<close>

theorem strlcpy_bounded:
  assumes "nul_free str" and "0 < unat n" and "unat n \<le> length dst"
  shows "OPENSSL_strlcpy dst (str @ 0 # rest) n =
    (let k = min (length str) (unat n - 1)
     in Some (take k str @ 0 # drop (Suc k) dst, of_nat (length str)))"
  using strlcpy_loop_string [OF assms, of 0 rest] by (simp add: OPENSSL_strlcpy_def)

theorem strlcpy_bounded_witness:
  "OPENSSL_strlcpy [1, 1, 1, 1] ([65, 66, 67] @ 0 # []) 3 =
    (let k = min (length [65, 66, 67 :: u8]) (unat (3 :: size_t) - 1)
     in Some (take k [65, 66, 67] @ 0 # drop (Suc k) [1, 1, 1, 1], of_nat (length [65, 66, 67 :: u8])))"
  by (rule strlcpy_bounded) simp_all

end
