(* ===== verification/Bs_Cbs.thy ===== *)
theory Bs_Cbs
  imports Bs_Mem
begin

text \<open>
  \<open>crypto/bytestring/cbs.c\<close> of BoringSSL: parsing of byte strings and of DER and BER elements.
  A \<open>CBS\<close> is the memory from its data pointer on, with a length.  A parsing function takes the
  \<open>CBS\<close> and gives the value written to \<open>*out\<close>, or \<open>None\<close> when it returns 0, with the \<open>CBS\<close> as it
  is left; the outer \<open>None\<close> is a read past the memory.
\<close>

section \<open>Bytes and integers\<close>

record CBS =
  cbs_data :: "u8 list"
  cbs_len :: size_t

type_synonym 'a parser = "(CBS, 'a) io"

definition CBS_init :: "u8 list \<Rightarrow> size_t \<Rightarrow> CBS" where
  "CBS_init data len = \<lparr>cbs_data = data, cbs_len = len\<rparr>"

definition cbs_get :: "size_t \<Rightarrow> u8 list parser" where
  "cbs_get n cbs =
     (if cbs_len cbs < n then Some (None, cbs)
      else Some (Some (cbs_data cbs),
                 \<lparr>cbs_data = drop (unat n) (cbs_data cbs), cbs_len = cbs_len cbs - n\<rparr>))"

definition CBS_skip :: "size_t \<Rightarrow> unit parser" where
  "CBS_skip len = io_bind (cbs_get len) (\<lambda>_. io_ret ())"

definition CBS_stow :: "(size_t \<Rightarrow> u8 list option) \<Rightarrow> CBS \<Rightarrow> (bool \<times> u8 list option \<times> size_t) option" where
  "CBS_stow malloc cbs =
     (if cbs_len cbs = 0 then Some (True, None, 0)
      else case OPENSSL_memdup malloc (cbs_data cbs) (cbs_len cbs) of
             None \<Rightarrow> None
           | Some None \<Rightarrow> Some (False, None, 0)
           | Some (Some p) \<Rightarrow> Some (True, Some p, cbs_len cbs))"

definition CBS_strdup :: "(size_t \<Rightarrow> u8 list option) \<Rightarrow> CBS \<Rightarrow> (bool \<times> u8 list option) option" where
  "CBS_strdup malloc cbs =
     map_option (\<lambda>r. (r \<noteq> None, r)) (OPENSSL_strndup malloc (Some (cbs_data cbs)) (cbs_len cbs))"

definition CBS_contains_zero_byte :: "CBS \<Rightarrow> bool option" where
  "CBS_contains_zero_byte cbs =
     map_option (\<lambda>bs. 0 \<in> set bs) (mem_read (cbs_data cbs) 0 (unat (cbs_len cbs)))"

definition CBS_mem_equal :: "CBS \<Rightarrow> u8 list \<Rightarrow> size_t \<Rightarrow> bool option" where
  "CBS_mem_equal cbs data len =
     (if len \<noteq> cbs_len cbs then Some False
      else map_option (\<lambda>r. r = 0) (CRYPTO_memcmp (cbs_data cbs) data len))"

fun be_loop :: "u64 \<Rightarrow> u8 list \<Rightarrow> u64" where
  "be_loop result [] = result"
| "be_loop result (b # bs) = be_loop (push_bit 8 result OR ucast b) bs"

definition cbs_get_u :: "size_t \<Rightarrow> u64 parser" where
  "cbs_get_u len =
     io_bind (cbs_get len)
       (\<lambda>data cbs. case mem_read data 0 (unat len) of
                      None \<Rightarrow> None
                    | Some bs \<Rightarrow> io_ret (be_loop 0 bs) cbs)"

definition CBS_get_u8 :: "u8 parser" where
  "CBS_get_u8 = io_bind (cbs_get 1) (\<lambda>v cbs. case v of [] \<Rightarrow> None | b # _ \<Rightarrow> io_ret b cbs)"

definition CRYPTO_bswap2 :: "u16 \<Rightarrow> u16" where
  "CRYPTO_bswap2 x = drop_bit 8 x OR push_bit 8 x"

definition CRYPTO_bswap4 :: "u32 \<Rightarrow> u32" where
  "CRYPTO_bswap4 x =
     (let x = drop_bit 16 x OR push_bit 16 x
      in drop_bit 8 (x AND 0xff00ff00) OR push_bit 8 (x AND 0x00ff00ff))"

definition CRYPTO_bswap8 :: "u64 \<Rightarrow> u64" where
  "CRYPTO_bswap8 x =
     ucast (CRYPTO_bswap4 (ucast (drop_bit 32 x))) OR push_bit 32 (ucast (CRYPTO_bswap4 (ucast x)))"

definition CBS_get_u16 :: "u16 parser" where
  "CBS_get_u16 = io_bind (cbs_get_u 2) (\<lambda>v. io_ret (ucast v))"

definition CBS_get_u16le :: "u16 parser" where
  "CBS_get_u16le = io_bind CBS_get_u16 (\<lambda>v. io_ret (CRYPTO_bswap2 v))"

definition CBS_get_u24 :: "u32 parser" where
  "CBS_get_u24 = io_bind (cbs_get_u 3) (\<lambda>v. io_ret (ucast v))"

definition CBS_get_u32 :: "u32 parser" where
  "CBS_get_u32 = io_bind (cbs_get_u 4) (\<lambda>v. io_ret (ucast v))"

definition CBS_get_u32le :: "u32 parser" where
  "CBS_get_u32le = io_bind CBS_get_u32 (\<lambda>v. io_ret (CRYPTO_bswap4 v))"

definition CBS_get_u64 :: "u64 parser" where
  "CBS_get_u64 = cbs_get_u 8"

definition CBS_get_u64le :: "u64 parser" where
  "CBS_get_u64le = io_bind (cbs_get_u 8) (\<lambda>v. io_ret (CRYPTO_bswap8 v))"

definition CBS_get_last_u8 :: "u8 parser" where
  "CBS_get_last_u8 cbs =
     (if cbs_len cbs = 0 then Some (None, cbs)
      else let i = unat (cbs_len cbs - 1)
           in if i < length (cbs_data cbs)
              then Some (Some (cbs_data cbs ! i), cbs\<lparr>cbs_len := cbs_len cbs - 1\<rparr>)
              else None)"

definition CBS_get_bytes :: "size_t \<Rightarrow> CBS parser" where
  "CBS_get_bytes len = io_bind (cbs_get len) (\<lambda>v. io_ret (CBS_init v len))"

definition CBS_copy_bytes :: "size_t \<Rightarrow> u8 list parser" where
  "CBS_copy_bytes len =
     io_bind (cbs_get len)
       (\<lambda>v cbs. case mem_read v 0 (unat len) of None \<Rightarrow> None | Some bs \<Rightarrow> io_ret bs cbs)"

definition cbs_get_length_prefixed :: "size_t \<Rightarrow> CBS parser" where
  "cbs_get_length_prefixed len_len = io_bind (cbs_get_u len_len) CBS_get_bytes"

definition CBS_get_u8_length_prefixed :: "CBS parser" where
  "CBS_get_u8_length_prefixed = cbs_get_length_prefixed 1"

definition CBS_get_u16_length_prefixed :: "CBS parser" where
  "CBS_get_u16_length_prefixed = cbs_get_length_prefixed 2"

definition CBS_get_u24_length_prefixed :: "CBS parser" where
  "CBS_get_u24_length_prefixed = cbs_get_length_prefixed 3"

section \<open>Tags and elements\<close>

lemma CBS_get_u8_len:
  "CBS_get_u8 s = Some (Some b, t) \<Longrightarrow> unat (cbs_len t) < unat (cbs_len s)"
  by (auto simp: CBS_get_u8_def io_bind_def cbs_get_def io_ret_def unat_minus_one unat_gt_0
           split: if_splits list.splits)

function base128_loop :: "u64 \<Rightarrow> u64 parser" where
  "base128_loop v cbs =
     io_bind CBS_get_u8
       (\<lambda>b t.
          if drop_bit (64 - 7) v \<noteq> 0 then Some (None, t)
          else if v = 0 \<and> b = 0x80 then Some (None, t)
          else let v' = push_bit 7 v OR ucast (b AND 0x7f)
               in if b AND 0x80 \<noteq> 0 then base128_loop v' t else io_ret v' t) cbs"
  by pat_completeness auto
termination
  by (relation "measure (\<lambda>(v, cbs). unat (cbs_len cbs))") (auto dest: CBS_get_u8_len)

declare base128_loop.simps [simp del]

definition parse_base128_integer :: "u64 parser" where
  "parse_base128_integer = base128_loop 0"

definition CBS_ASN1_TAG_NUMBER_MASK :: u32 where
  "CBS_ASN1_TAG_NUMBER_MASK = push_bit (5 + 24) 1 - 1"

definition CBS_ASN1_CONSTRUCTED :: u32 where
  "CBS_ASN1_CONSTRUCTED = push_bit 24 0x20"

definition CBS_ASN1_BOOLEAN :: u32 where "CBS_ASN1_BOOLEAN = 1"
definition CBS_ASN1_INTEGER :: u32 where "CBS_ASN1_INTEGER = 2"
definition CBS_ASN1_OCTETSTRING :: u32 where "CBS_ASN1_OCTETSTRING = 4"

definition parse_asn1_tag :: "u32 parser" where
  "parse_asn1_tag =
     io_bind CBS_get_u8
       (\<lambda>tag_byte.
          let tag = push_bit 24 (ucast tag_byte AND 0xe0);
              tag_number = ucast (tag_byte AND 0x1f)
          in if tag_number = 0x1f
             then io_bind parse_base128_integer
                    (\<lambda>v s. if ucast CBS_ASN1_TAG_NUMBER_MASK < v \<or> v < 0x1f then Some (None, s)
                           else io_ret (tag OR ucast v) s)
             else io_ret (tag OR tag_number))"

text \<open>
  \<open>cbs_get_any_asn1_element\<close> reads the header from a copy of the \<open>CBS\<close>: \<open>asn1_header\<close> gives the
  tag, the length of the whole element and the length of its header.
\<close>

definition asn1_header :: "bool \<Rightarrow> size_t \<Rightarrow> (u32 \<times> size_t \<times> size_t) parser" where
  "asn1_header ber_ok whole_len =
     io_bind parse_asn1_tag (\<lambda>tag.
     io_bind CBS_get_u8 (\<lambda>length_byte header.
       let header_len = whole_len - cbs_len header
       in if length_byte AND 0x80 = 0
          then io_ret (tag, ucast length_byte + header_len, header_len) header
          else
            let num_bytes = ucast (length_byte AND 0x7f)
            in if ber_ok \<and> tag AND CBS_ASN1_CONSTRUCTED \<noteq> 0 \<and> num_bytes = 0
               then io_ret (tag, header_len, header_len) header
               else if num_bytes = 0 \<or> 4 < num_bytes then Some (None, header)
               else io_bind (cbs_get_u num_bytes)
                      (\<lambda>len64 h.
                         if len64 < 128 then Some (None, h)
                         else if drop_bit (unat ((num_bytes - 1) * 8)) len64 = 0 then Some (None, h)
                         else if len64 + header_len + num_bytes < len64 then Some (None, h)
                         else io_ret (tag, len64 + (header_len + num_bytes), header_len + num_bytes) h)
                      header))"

text \<open>The value is the element, its tag and the length of its header.\<close>

definition cbs_get_any_asn1_element :: "bool \<Rightarrow> (CBS \<times> u32 \<times> size_t) parser" where
  "cbs_get_any_asn1_element ber_ok cbs =
     (case asn1_header ber_ok (cbs_len cbs) cbs of
        None \<Rightarrow> None
      | Some (None, _) \<Rightarrow> Some (None, cbs)
      | Some (Some (tag, len, header_len), _) \<Rightarrow>
          io_bind (CBS_get_bytes len) (\<lambda>out. io_ret (out, tag, header_len)) cbs)"

definition CBS_get_any_asn1_element :: "(CBS \<times> u32 \<times> size_t) parser" where
  "CBS_get_any_asn1_element = cbs_get_any_asn1_element False"

definition CBS_get_any_ber_asn1_element :: "(CBS \<times> u32 \<times> size_t) parser" where
  "CBS_get_any_ber_asn1_element = cbs_get_any_asn1_element True"

text \<open>Skipping the header of the element just read: \<open>CBS_skip(out, header_len)\<close>.\<close>

definition skip_header :: "CBS \<Rightarrow> size_t \<Rightarrow> CBS parser" where
  "skip_header out header_len cbs =
     (case CBS_skip header_len out of
        None \<Rightarrow> None
      | Some (None, _) \<Rightarrow> Some (None, cbs)
      | Some (Some _, out') \<Rightarrow> io_ret out' cbs)"

definition CBS_get_any_asn1 :: "(CBS \<times> u32) parser" where
  "CBS_get_any_asn1 =
     io_bind CBS_get_any_asn1_element
       (\<lambda>(out, tag, header_len). io_bind (skip_header out header_len) (\<lambda>out'. io_ret (out', tag)))"

definition cbs_get_asn1 :: "u32 \<Rightarrow> bool \<Rightarrow> CBS parser" where
  "cbs_get_asn1 tag_value skip =
     io_bind CBS_get_any_asn1_element
       (\<lambda>(out, tag, header_len) cbs.
          if tag \<noteq> tag_value then Some (None, cbs)
          else if skip then skip_header out header_len cbs
          else io_ret out cbs)"

definition CBS_get_asn1 :: "u32 \<Rightarrow> CBS parser" where
  "CBS_get_asn1 tag_value = cbs_get_asn1 tag_value True"

definition CBS_get_asn1_element :: "u32 \<Rightarrow> CBS parser" where
  "CBS_get_asn1_element tag_value = cbs_get_asn1 tag_value False"

definition CBS_peek_asn1_tag :: "CBS \<Rightarrow> u32 \<Rightarrow> bool option" where
  "CBS_peek_asn1_tag cbs tag_value =
     (if cbs_len cbs < 1 then Some False
      else map_option (\<lambda>(r, _). r = Some tag_value) (parse_asn1_tag cbs))"

section \<open>Integers, booleans and optional elements\<close>

fun uint64_loop :: "u64 \<Rightarrow> u8 list \<Rightarrow> u64 option" where
  "uint64_loop out [] = Some out"
| "uint64_loop out (b # bs) =
     (if drop_bit 56 out \<noteq> 0 then None else uint64_loop (push_bit 8 out OR ucast b) bs)"

definition CBS_get_asn1_uint64 :: "u64 parser" where
  "CBS_get_asn1_uint64 =
     io_bind (CBS_get_asn1 CBS_ASN1_INTEGER)
       (\<lambda>bytes cbs. case mem_read (cbs_data bytes) 0 (unat (cbs_len bytes)) of
          None \<Rightarrow> None
        | Some data \<Rightarrow>
            if data = [] then Some (None, cbs)
            else if data ! 0 AND 0x80 \<noteq> 0 then Some (None, cbs)
            else if data ! 0 = 0 \<and> 1 < length data \<and> data ! 1 AND 0x80 = 0 then Some (None, cbs)
            else Some (uint64_loop 0 data, cbs))"

text \<open>An \<open>int64_t\<close> is its 64-bit two's complement word; the union has the layout of a little
  endian machine.\<close>

definition CBS_get_asn1_int64 :: "u64 parser" where
  "CBS_get_asn1_int64 =
     io_bind (CBS_get_asn1 CBS_ASN1_INTEGER)
       (\<lambda>bytes cbs. case mem_read (cbs_data bytes) 0 (unat (cbs_len bytes)) of
          None \<Rightarrow> None
        | Some data \<Rightarrow>
            let len = length data in
            if len = 0 \<or> 8 < len then Some (None, cbs)
            else if 1 < len \<and> data ! 0 = 0 \<and> data ! 1 AND 0x80 = 0 then Some (None, cbs)
            else if 1 < len \<and> data ! 0 = 0xff \<and> data ! 1 AND 0x80 \<noteq> 0 then Some (None, cbs)
            else let is_negative = data ! 0 AND 0x80 \<noteq> 0;
                     u = rev data @ replicate (8 - len) (if is_negative then 0xff else 0)
                 in io_ret (of_nat (le_val u)) cbs)"

definition CBS_get_asn1_bool :: "bool parser" where
  "CBS_get_asn1_bool =
     io_bind (CBS_get_asn1 CBS_ASN1_BOOLEAN)
       (\<lambda>bytes cbs.
          if cbs_len bytes \<noteq> 1 then Some (None, cbs)
          else case cbs_data bytes of
                 [] \<Rightarrow> None
               | val # _ \<Rightarrow> if val \<noteq> 0 \<and> val \<noteq> 0xff then Some (None, cbs) else io_ret (val \<noteq> 0) cbs)"

text \<open>The result of \<open>CBS_get_optional_asn1\<close>: the element when \<open>*out_present\<close> is set.\<close>

definition CBS_get_optional_asn1 :: "u32 \<Rightarrow> CBS option parser" where
  "CBS_get_optional_asn1 tag cbs =
     (case CBS_peek_asn1_tag cbs tag of
        None \<Rightarrow> None
      | Some False \<Rightarrow> io_ret None cbs
      | Some True \<Rightarrow> io_bind (CBS_get_asn1 tag) (\<lambda>out. io_ret (Some out)) cbs)"

text \<open>A parser applied to the child element, which it must use up.\<close>

definition whole_child :: "'a parser \<Rightarrow> CBS \<Rightarrow> 'a parser" where
  "whole_child m child cbs =
     (case m child of
        None \<Rightarrow> None
      | Some (None, _) \<Rightarrow> Some (None, cbs)
      | Some (Some a, child') \<Rightarrow> if cbs_len child' \<noteq> 0 then Some (None, cbs) else io_ret a cbs)"

definition CBS_get_optional_asn1_octet_string :: "u32 \<Rightarrow> (CBS \<times> bool) parser" where
  "CBS_get_optional_asn1_octet_string tag =
     io_bind (CBS_get_optional_asn1 tag)
       (\<lambda>c. case c of
               Some child \<Rightarrow>
                 io_bind (whole_child (CBS_get_asn1 CBS_ASN1_OCTETSTRING) child) (\<lambda>out. io_ret (out, True))
             | None \<Rightarrow> io_ret (CBS_init [] 0, False))"

definition CBS_get_optional_asn1_uint64 :: "u32 \<Rightarrow> u64 \<Rightarrow> u64 parser" where
  "CBS_get_optional_asn1_uint64 tag default_value =
     io_bind (CBS_get_optional_asn1 tag)
       (\<lambda>c. case c of
               Some child \<Rightarrow> whole_child CBS_get_asn1_uint64 child
             | None \<Rightarrow> io_ret default_value)"

definition CBS_get_optional_asn1_bool :: "u32 \<Rightarrow> int \<Rightarrow> int parser" where
  "CBS_get_optional_asn1_bool tag default_value =
     io_bind (CBS_get_optional_asn1 tag)
       (\<lambda>c cbs. case c of
               Some child \<Rightarrow>
                 (case CBS_get_asn1 CBS_ASN1_BOOLEAN child of
                    None \<Rightarrow> None
                  | Some (None, _) \<Rightarrow> Some (None, cbs)
                  | Some (Some child2, child') \<Rightarrow>
                      if cbs_len child2 \<noteq> 1 \<or> cbs_len child' \<noteq> 0 then Some (None, cbs)
                      else case cbs_data child2 of
                             [] \<Rightarrow> None
                           | boolean # _ \<Rightarrow>
                               if boolean = 0 then io_ret 0 cbs
                               else if boolean = 0xff then io_ret 1 cbs
                               else Some (None, cbs))
             | None \<Rightarrow> io_ret default_value cbs)"

section \<open>Bit strings\<close>

definition CBS_is_valid_asn1_bitstring :: "CBS \<Rightarrow> bool option" where
  "CBS_is_valid_asn1_bitstring cbs =
     (case CBS_get_u8 cbs of
        None \<Rightarrow> None
      | Some (None, _) \<Rightarrow> Some False
      | Some (Some num_unused_bits, in') \<Rightarrow>
          if 7 < num_unused_bits then Some False
          else if num_unused_bits = 0 then Some True
          else case CBS_get_last_u8 in' of
                 None \<Rightarrow> None
               | Some (None, _) \<Rightarrow> Some False
               | Some (Some last_byte, _) \<Rightarrow> Some (last_byte AND (push_bit (unat num_unused_bits) 1 - 1) = 0))"

definition CBS_asn1_bitstring_has_bit :: "CBS \<Rightarrow> u32 \<Rightarrow> bool option" where
  "CBS_asn1_bitstring_has_bit cbs n =
     (case CBS_is_valid_asn1_bitstring cbs of
        None \<Rightarrow> None
      | Some False \<Rightarrow> Some False
      | Some True \<Rightarrow>
          let byte_num = drop_bit 3 n + 1; bit_num = 7 - (n AND 7)
          in if ucast byte_num < cbs_len cbs
             then if unat byte_num < length (cbs_data cbs)
                  then Some (cbs_data cbs ! unat byte_num AND push_bit (unat bit_num) 1 \<noteq> 0)
                  else None
             else Some False)"

end
