(* ===== verification/Bs_Cbb.thy ===== *)
theory Bs_Cbb
  imports Bs_Cbs
begin

text \<open>
  \<open>crypto/bytestring/cbb.c\<close> of BoringSSL: building of byte strings with nested length prefixes.
  All \<open>CBB\<close>s of one string share a buffer.  Each has at most one child, so the live ones form a
  chain: the state holds the base and the chain of the children below the root, outermost first,
  and an operation names the \<open>CBB\<close> it is called on by its depth (0: the root).  A depth beyond the
  chain stands for a \<open>CBB\<close> whose \<open>base\<close> has been set to \<open>NULL\<close> by a flush.
\<close>

section \<open>The shared buffer\<close>

type_synonym malloc_fun = "size_t \<Rightarrow> u8 list option"

record cbb_buffer =
  cb_buf :: "u8 list option"
  cb_len :: size_t
  cb_cap :: size_t
  can_resize :: bool
  cb_error :: bool

record cbb_child =
  cc_offset :: size_t
  pending_len_len :: u8
  pending_is_asn1 :: bool

record CBB =
  cbb_base :: "cbb_buffer option"
  cbb_chain :: "cbb_child list"

definition CBB_zero :: CBB where
  "CBB_zero = \<lparr>cbb_base = None, cbb_chain = []\<rparr>"

text \<open>\<open>base->buf\<close> is the part of an allocated block after its prefix.\<close>

definition block_of :: "u8 list \<Rightarrow> u8 list" where
  "block_of buf = le_bytes 8 (length buf) @ buf"

definition realloc_buf :: "malloc_fun \<Rightarrow> u8 list option \<Rightarrow> size_t \<Rightarrow> u8 list option option" where
  "realloc_buf malloc buf n =
     map_option (\<lambda>(r, _). map_option payload_of r) (OPENSSL_realloc malloc (map_option block_of buf) n)"

definition SIZEOF_CBB_BUFFER :: size_t where
  "SIZEOF_CBB_BUFFER = 32"

definition cbb_init :: "malloc_fun \<Rightarrow> u8 list option \<Rightarrow> size_t \<Rightarrow> (CBB, unit) io" where
  "cbb_init malloc buf cap cbb =
     (case OPENSSL_malloc malloc SIZEOF_CBB_BUFFER of
        None \<Rightarrow> None
      | Some None \<Rightarrow> Some (None, cbb)
      | Some (Some _) \<Rightarrow>
          io_ret () (cbb\<lparr>cbb_base := Some \<lparr>cb_buf = buf, cb_len = 0, cb_cap = cap,
                                           can_resize = True, cb_error = False\<rparr>\<rparr>))"

definition CBB_init :: "malloc_fun \<Rightarrow> size_t \<Rightarrow> (CBB, unit) io" where
  "CBB_init malloc initial_capacity _ =
     (case OPENSSL_malloc malloc initial_capacity of
        None \<Rightarrow> None
      | Some buf \<Rightarrow>
          if 0 < initial_capacity \<and> buf = None then Some (None, CBB_zero)
          else cbb_init malloc (map_option payload_of buf) initial_capacity CBB_zero)"

definition CBB_init_fixed :: "malloc_fun \<Rightarrow> u8 list \<Rightarrow> size_t \<Rightarrow> (CBB, unit) io" where
  "CBB_init_fixed malloc buf len _ =
     io_bind (cbb_init malloc (Some buf) len)
       (\<lambda>_ cbb. io_ret () (cbb\<lparr>cbb_base := map_option (\<lambda>b. b\<lparr>can_resize := False\<rparr>) (cbb_base cbb)\<rparr>))
       CBB_zero"

definition CBB_cleanup :: "nat \<Rightarrow> CBB \<Rightarrow> CBB" where
  "CBB_cleanup d cbb = (if d \<noteq> 0 then cbb else cbb\<lparr>cbb_base := None\<rparr>)"

definition cbb_fail :: "(cbb_buffer, 'a) io" where
  "cbb_fail b = Some (None, b\<lparr>cb_error := True\<rparr>)"

text \<open>The value is the offset of \<open>*out\<close> in the buffer.\<close>

definition cbb_buffer_reserve :: "malloc_fun \<Rightarrow> size_t \<Rightarrow> (cbb_buffer, nat) io" where
  "cbb_buffer_reserve malloc len b =
     (let newlen = cb_len b + len
      in if newlen < cb_len b then cbb_fail b
         else if cb_cap b < newlen then
           if \<not> can_resize b then cbb_fail b
           else let newcap = cb_cap b * 2;
                    newcap' = (if newcap < cb_cap b \<or> newcap < newlen then newlen else newcap)
                in case realloc_buf malloc (cb_buf b) newcap' of
                     None \<Rightarrow> None
                   | Some None \<Rightarrow> cbb_fail b
                   | Some (Some newbuf) \<Rightarrow>
                       io_ret (unat (cb_len b)) (b\<lparr>cb_buf := Some newbuf, cb_cap := newcap'\<rparr>)
         else io_ret (unat (cb_len b)) b)"

definition cbb_buffer_add :: "malloc_fun \<Rightarrow> size_t \<Rightarrow> (cbb_buffer, nat) io" where
  "cbb_buffer_add malloc len =
     io_bind (cbb_buffer_reserve malloc len)
       (\<lambda>out b. io_ret out (b\<lparr>cb_len := cb_len b + len\<rparr>))"

text \<open>Storing bytes at an offset of the buffer.\<close>

definition buf_store :: "nat \<Rightarrow> u8 list \<Rightarrow> (cbb_buffer, unit) io" where
  "buf_store off bs b =
     (if bs = [] then io_ret () b
      else case cb_buf b of
             None \<Rightarrow> None
           | Some m \<Rightarrow>
               (case mem_write m off bs of
                  None \<Rightarrow> None
                | Some m' \<Rightarrow> io_ret () (b\<lparr>cb_buf := Some m'\<rparr>)))"

text \<open>The loop \<open>buf[i] = v; v >>= 8\<close> for \<open>i\<close> from \<open>n - 1\<close> down to 0: the bytes and the rest of \<open>v\<close>.\<close>

fun be_store :: "nat \<Rightarrow> u64 \<Rightarrow> u8 list \<times> u64" where
  "be_store 0 v = ([], v)"
| "be_store (Suc i) v = (case be_store i (drop_bit 8 v) of (bs, r) \<Rightarrow> (bs @ [ucast v], r))"

definition cbb_buffer_add_u :: "malloc_fun \<Rightarrow> u64 \<Rightarrow> size_t \<Rightarrow> (cbb_buffer, unit) io" where
  "cbb_buffer_add_u malloc v len_len =
     (if len_len = 0 then io_ret ()
      else io_bind (cbb_buffer_add malloc len_len) (\<lambda>off.
           case be_store (unat len_len) v of
             (bs, v') \<Rightarrow> io_bind (buf_store off bs) (\<lambda>_. if v' \<noteq> 0 then cbb_fail else io_ret ())))"

section \<open>Flushing\<close>

text \<open>The DER length: the number of bytes it takes, its first byte, and the rest of the length.\<close>

definition asn1_len_len :: "size_t \<Rightarrow> (u8 \<times> u8 \<times> size_t) option" where
  "asn1_len_len len =
     (if 0xfffffffe < len then None
      else if 0xffffff < len then Some (5, 0x80 OR 4, len)
      else if 0xffff < len then Some (4, 0x80 OR 3, len)
      else if 0xff < len then Some (3, 0x80 OR 2, len)
      else if 0x7f < len then Some (2, 0x80 OR 1, len)
      else Some (1, ucast len, 0))"

text \<open>\<open>memmove\<close> of the \<open>n\<close> bytes at \<open>src\<close> to \<open>dst\<close> inside the buffer.\<close>

definition buf_move :: "nat \<Rightarrow> nat \<Rightarrow> nat \<Rightarrow> (cbb_buffer, unit) io" where
  "buf_move dst src n b =
     (if n = 0 then io_ret () b
      else case cb_buf b of
             None \<Rightarrow> None
           | Some m \<Rightarrow> (case mem_read m src n of None \<Rightarrow> None | Some bs \<Rightarrow> buf_store dst bs b))"

text \<open>
  The part of \<open>CBB_flush\<close> after the child is flushed: the length of the contents is written to the
  pending prefix, which for ASN.1 may first have to be made longer.
\<close>

definition write_prefix :: "malloc_fun \<Rightarrow> cbb_child \<Rightarrow> (cbb_buffer, unit) io" where
  "write_prefix malloc c b =
     (let child_start = cc_offset c + ucast (pending_len_len c)
      in if child_start < cc_offset c \<or> cb_len b < child_start then cbb_fail b
         else
           let len = cb_len b - child_start
           in io_bind
                (if pending_is_asn1 c then
                   case asn1_len_len len of
                     None \<Rightarrow> cbb_fail
                   | Some (len_len, initial, rest) \<Rightarrow>
                       io_bind
                         (if len_len \<noteq> 1 then
                            io_bind (cbb_buffer_add malloc (ucast (len_len - 1)))
                              (\<lambda>_. buf_move (unat (child_start + ucast (len_len - 1)))
                                     (unat child_start) (unat rest))
                          else io_ret ())
                         (\<lambda>_. io_bind (buf_store (unat (cc_offset c)) [initial])
                                (\<lambda>_. io_ret (cc_offset c + 1, len_len - 1, rest)))
                 else io_ret (cc_offset c, pending_len_len c, len))
                (\<lambda>(offset, len_len, rest).
                   case be_store (unat len_len) rest of
                     (bs, rest') \<Rightarrow>
                       io_bind (buf_store (unat offset) bs)
                         (\<lambda>_. if rest' \<noteq> 0 then cbb_fail else io_ret ())) b)"

text \<open>\<open>CBB_flush\<close> on the descendants of a \<open>CBB\<close>: the result, those left, and the buffer.\<close>

fun flush_chain ::
  "malloc_fun \<Rightarrow> cbb_child list \<Rightarrow> cbb_buffer \<Rightarrow> (bool \<times> cbb_child list \<times> cbb_buffer) option" where
  "flush_chain malloc [] b = Some (\<not> cb_error b, [], b)"
| "flush_chain malloc (c # cs) b =
     (if cb_error b then Some (False, c # cs, b)
      else if pending_len_len c = 0 then Some (True, c # cs, b)
      else case flush_chain malloc cs b of
             None \<Rightarrow> None
           | Some (False, cs', b') \<Rightarrow> Some (False, c # cs', b'\<lparr>cb_error := True\<rparr>)
           | Some (True, cs', b') \<Rightarrow>
               (case write_prefix malloc c b' of
                  None \<Rightarrow> None
                | Some (None, b'') \<Rightarrow> Some (False, c # cs', b''\<lparr>cb_error := True\<rparr>)
                | Some (Some _, b'') \<Rightarrow> Some (True, [], b'')))"

definition CBB_flush :: "malloc_fun \<Rightarrow> nat \<Rightarrow> (CBB, unit) io" where
  "CBB_flush malloc d cbb =
     (case cbb_base cbb of
        None \<Rightarrow> Some (None, cbb)
      | Some b \<Rightarrow>
          if length (cbb_chain cbb) < d then Some (None, cbb)
          else case flush_chain malloc (drop d (cbb_chain cbb)) b of
                 None \<Rightarrow> None
               | Some (ok, cs, b') \<Rightarrow>
                   Some (if ok then Some () else None,
                         cbb\<lparr>cbb_base := Some b', cbb_chain := take d (cbb_chain cbb) @ cs\<rparr>))"

text \<open>An operation on the shared buffer.\<close>

definition on_base :: "(cbb_buffer, 'a) io \<Rightarrow> (CBB, 'a) io" where
  "on_base m cbb =
     (case cbb_base cbb of
        None \<Rightarrow> Some (None, cbb)
      | Some b \<Rightarrow>
          (case m b of
             None \<Rightarrow> None
           | Some (r, b') \<Rightarrow> Some (r, cbb\<lparr>cbb_base := Some b'\<rparr>)))"

definition get_base :: "(CBB, cbb_buffer) io" where
  "get_base cbb = (case cbb_base cbb of None \<Rightarrow> None | Some b \<Rightarrow> io_ret b cbb)"

text \<open>\<open>outs\<close>: whether \<open>out_data\<close> and \<open>out_len\<close> are given.\<close>

definition CBB_finish :: "malloc_fun \<Rightarrow> bool \<Rightarrow> nat \<Rightarrow> (CBB, u8 list option \<times> size_t) io" where
  "CBB_finish malloc outs d =
     (if d \<noteq> 0 then (\<lambda>cbb. Some (None, cbb))
      else io_bind (CBB_flush malloc d) (\<lambda>_.
           io_bind get_base (\<lambda>b cbb.
             if can_resize b \<and> \<not> outs then Some (None, cbb)
             else io_ret (cb_buf b, cb_len b) (CBB_cleanup d cbb))))"

text \<open>The data and the length of a \<open>CBB\<close>; a \<open>CBB\<close> that is no longer live has no \<open>base\<close>.\<close>

definition content_start :: "nat \<Rightarrow> CBB \<Rightarrow> size_t" where
  "content_start d cbb =
     (if d = 0 then 0
      else cc_offset (cbb_chain cbb ! (d - 1)) + ucast (pending_len_len (cbb_chain cbb ! (d - 1))))"

definition CBB_data :: "nat \<Rightarrow> CBB \<Rightarrow> u8 list option" where
  "CBB_data d cbb =
     (if length (cbb_chain cbb) < d then None
      else case cbb_base cbb of
        None \<Rightarrow> None
      | Some b \<Rightarrow> (case cb_buf b of None \<Rightarrow> None | Some m \<Rightarrow> Some (drop (unat (content_start d cbb)) m)))"

definition CBB_len :: "nat \<Rightarrow> CBB \<Rightarrow> size_t option" where
  "CBB_len d cbb =
     (if length (cbb_chain cbb) < d then None
      else case cbb_base cbb of None \<Rightarrow> None | Some b \<Rightarrow> Some (cb_len b - content_start d cbb))"

section \<open>Adding\<close>

text \<open>A new child of the \<open>CBB\<close> at depth \<open>d\<close>, which has been flushed.\<close>

definition add_child :: "nat \<Rightarrow> cbb_child \<Rightarrow> (CBB, unit) io" where
  "add_child d c cbb = io_ret () (cbb\<lparr>cbb_chain := take d (cbb_chain cbb) @ [c]\<rparr>)"

definition cbb_add_length_prefixed :: "malloc_fun \<Rightarrow> u8 \<Rightarrow> nat \<Rightarrow> (CBB, unit) io" where
  "cbb_add_length_prefixed malloc len_len d =
     io_bind (CBB_flush malloc d) (\<lambda>_.
     io_bind get_base (\<lambda>b.
     io_bind (on_base (io_bind (cbb_buffer_add malloc (ucast len_len))
                         (\<lambda>off. buf_store off (replicate (unat len_len) 0))))
       (\<lambda>_. add_child d \<lparr>cc_offset = cb_len b, pending_len_len = len_len, pending_is_asn1 = False\<rparr>)))"

definition CBB_add_u8_length_prefixed :: "malloc_fun \<Rightarrow> nat \<Rightarrow> (CBB, unit) io" where
  "CBB_add_u8_length_prefixed malloc = cbb_add_length_prefixed malloc 1"

definition CBB_add_u16_length_prefixed :: "malloc_fun \<Rightarrow> nat \<Rightarrow> (CBB, unit) io" where
  "CBB_add_u16_length_prefixed malloc = cbb_add_length_prefixed malloc 2"

definition CBB_add_u24_length_prefixed :: "malloc_fun \<Rightarrow> nat \<Rightarrow> (CBB, unit) io" where
  "CBB_add_u24_length_prefixed malloc = cbb_add_length_prefixed malloc 3"

definition add_uint :: "malloc_fun \<Rightarrow> size_t \<Rightarrow> nat \<Rightarrow> u64 \<Rightarrow> (CBB, unit) io" where
  "add_uint malloc n d v =
     io_bind (CBB_flush malloc d) (\<lambda>_. on_base (cbb_buffer_add_u malloc v n))"

definition CBB_add_u8 :: "malloc_fun \<Rightarrow> nat \<Rightarrow> u8 \<Rightarrow> (CBB, unit) io" where
  "CBB_add_u8 malloc d v = add_uint malloc 1 d (ucast v)"

definition CBB_add_u16 :: "malloc_fun \<Rightarrow> nat \<Rightarrow> u16 \<Rightarrow> (CBB, unit) io" where
  "CBB_add_u16 malloc d v = add_uint malloc 2 d (ucast v)"

definition CBB_add_u16le :: "malloc_fun \<Rightarrow> nat \<Rightarrow> u16 \<Rightarrow> (CBB, unit) io" where
  "CBB_add_u16le malloc d v = CBB_add_u16 malloc d (CRYPTO_bswap2 v)"

definition CBB_add_u24 :: "malloc_fun \<Rightarrow> nat \<Rightarrow> u32 \<Rightarrow> (CBB, unit) io" where
  "CBB_add_u24 malloc d v = add_uint malloc 3 d (ucast v)"

definition CBB_add_u32 :: "malloc_fun \<Rightarrow> nat \<Rightarrow> u32 \<Rightarrow> (CBB, unit) io" where
  "CBB_add_u32 malloc d v = add_uint malloc 4 d (ucast v)"

definition CBB_add_u32le :: "malloc_fun \<Rightarrow> nat \<Rightarrow> u32 \<Rightarrow> (CBB, unit) io" where
  "CBB_add_u32le malloc d v = CBB_add_u32 malloc d (CRYPTO_bswap4 v)"

definition CBB_add_u64 :: "malloc_fun \<Rightarrow> nat \<Rightarrow> u64 \<Rightarrow> (CBB, unit) io" where
  "CBB_add_u64 malloc d v = add_uint malloc 8 d v"

definition CBB_add_u64le :: "malloc_fun \<Rightarrow> nat \<Rightarrow> u64 \<Rightarrow> (CBB, unit) io" where
  "CBB_add_u64le malloc d v = CBB_add_u64 malloc d (CRYPTO_bswap8 v)"

definition CBB_add_bytes :: "malloc_fun \<Rightarrow> nat \<Rightarrow> u8 list \<Rightarrow> size_t \<Rightarrow> (CBB, unit) io" where
  "CBB_add_bytes malloc d data len =
     io_bind (CBB_flush malloc d) (\<lambda>_.
     on_base (io_bind (cbb_buffer_add malloc len)
       (\<lambda>off b. case mem_read data 0 (unat len) of None \<Rightarrow> None | Some bs \<Rightarrow> buf_store off bs b)))"

text \<open>\<open>CBB_add_space\<close> and \<open>CBB_reserve\<close>: the offset of \<open>*out_data\<close> in the buffer.\<close>

definition CBB_add_space :: "malloc_fun \<Rightarrow> nat \<Rightarrow> size_t \<Rightarrow> (CBB, nat) io" where
  "CBB_add_space malloc d len = io_bind (CBB_flush malloc d) (\<lambda>_. on_base (cbb_buffer_add malloc len))"

definition CBB_reserve :: "malloc_fun \<Rightarrow> nat \<Rightarrow> size_t \<Rightarrow> (CBB, nat) io" where
  "CBB_reserve malloc d len = io_bind (CBB_flush malloc d) (\<lambda>_. on_base (cbb_buffer_reserve malloc len))"

definition CBB_did_write :: "nat \<Rightarrow> size_t \<Rightarrow> (CBB, unit) io" where
  "CBB_did_write d len =
     io_bind get_base (\<lambda>b cbb.
       let newlen = cb_len b + len
       in if length (cbb_chain cbb) < d then None
          else if d < length (cbb_chain cbb) \<or> newlen < cb_len b \<or> cb_cap b < newlen then Some (None, cbb)
          else io_ret () (cbb\<lparr>cbb_base := Some (b\<lparr>cb_len := newlen\<rparr>)\<rparr>))"

definition CBB_discard_child :: "nat \<Rightarrow> (CBB, unit) io" where
  "CBB_discard_child d cbb =
     (if length (cbb_chain cbb) \<le> d then io_ret () cbb
      else io_bind get_base (\<lambda>b cbb.
             io_ret () (cbb\<lparr>cbb_base := Some (b\<lparr>cb_len := cc_offset (cbb_chain cbb ! d)\<rparr>),
                            cbb_chain := take d (cbb_chain cbb)\<rparr>)) cbb)"

section \<open>ASN.1\<close>

fun add_u8s :: "malloc_fun \<Rightarrow> nat \<Rightarrow> u8 list \<Rightarrow> (CBB, unit) io" where
  "add_u8s malloc d [] = io_ret ()"
| "add_u8s malloc d (b # bs) = io_bind (CBB_add_u8 malloc d b) (\<lambda>_. add_u8s malloc d bs)"

function base128_len :: "u64 \<Rightarrow> nat" where
  "base128_len copy = (if 0 < copy then Suc (base128_len (drop_bit 7 copy)) else 0)"
  by pat_completeness auto
termination
  by (relation "measure unat") (simp_all add: unat_drop_bit word_less_nat_alt)

declare base128_len.simps [simp del]

definition base128_bytes :: "u64 \<Rightarrow> u8 list" where
  "base128_bytes v =
     (let len_len = (if base128_len v = 0 then 1 else base128_len v)
      in map (\<lambda>i. ucast (drop_bit (7 * i) v AND 0x7f) OR (if i \<noteq> 0 then 0x80 else 0))
             (rev [0..<len_len]))"

definition add_base128_integer :: "malloc_fun \<Rightarrow> nat \<Rightarrow> u64 \<Rightarrow> (CBB, unit) io" where
  "add_base128_integer malloc d v = add_u8s malloc d (base128_bytes v)"

definition CBB_add_asn1 :: "malloc_fun \<Rightarrow> nat \<Rightarrow> u32 \<Rightarrow> (CBB, unit) io" where
  "CBB_add_asn1 malloc d tag =
     io_bind (CBB_flush malloc d) (\<lambda>_.
     let tag_bits = ucast (drop_bit 24 tag) AND 0xe0;
         tag_number = tag AND CBS_ASN1_TAG_NUMBER_MASK
     in io_bind (if 0x1f \<le> tag_number
                 then io_bind (CBB_add_u8 malloc d (tag_bits OR 0x1f))
                        (\<lambda>_. add_base128_integer malloc d (ucast tag_number))
                 else CBB_add_u8 malloc d (tag_bits OR ucast tag_number)) (\<lambda>_.
        io_bind get_base (\<lambda>b.
        io_bind (CBB_add_u8 malloc d 0) (\<lambda>_.
        add_child d \<lparr>cc_offset = cb_len b, pending_len_len = 1, pending_is_asn1 = True\<rparr>))))"

text \<open>The bytes of an INTEGER: \<open>started\<close> as in the loop of \<open>CBB_add_asn1_uint64\<close>.\<close>

fun uint64_emit :: "bool \<Rightarrow> u8 list \<Rightarrow> u8 list" where
  "uint64_emit started [] = (if started then [] else [0])"
| "uint64_emit started (b # bs) =
     (if \<not> started then
        if b = 0 then uint64_emit False bs
        else (if b AND 0x80 \<noteq> 0 then [0] else []) @ b # uint64_emit True bs
      else b # uint64_emit True bs)"

definition CBB_add_asn1_uint64 :: "malloc_fun \<Rightarrow> nat \<Rightarrow> u64 \<Rightarrow> (CBB, unit) io" where
  "CBB_add_asn1_uint64 malloc d val =
     io_bind (CBB_add_asn1 malloc d CBS_ASN1_INTEGER) (\<lambda>_.
     io_bind (add_u8s malloc (Suc d)
                (uint64_emit False (map (\<lambda>i. ucast (drop_bit (8 * (7 - i)) val AND 0xff)) [0..<8])))
       (\<lambda>_. CBB_flush malloc d))"

text \<open>A negative \<open>int64_t\<close>: the little endian bytes, and the loop that finds the first one to write.\<close>

fun int64_start :: "u8 list \<Rightarrow> nat \<Rightarrow> nat" where
  "int64_start bytes 0 = 0"
| "int64_start bytes (Suc start) =
     (if bytes ! Suc start = 0xff \<and> bytes ! start AND 0x80 \<noteq> 0
      then int64_start bytes start else Suc start)"

definition CBB_add_asn1_int64 :: "malloc_fun \<Rightarrow> nat \<Rightarrow> u64 \<Rightarrow> (CBB, unit) io" where
  "CBB_add_asn1_int64 malloc d val =
     (if 0 \<le> sint val then CBB_add_asn1_uint64 malloc d val
      else let bytes = le_bytes 8 (unat val); start = int64_start bytes 7
           in io_bind (CBB_add_asn1 malloc d CBS_ASN1_INTEGER) (\<lambda>_.
              io_bind (add_u8s malloc (Suc d) (rev (take (Suc start) bytes)))
                (\<lambda>_. CBB_flush malloc d)))"

definition CBB_add_asn1_octet_string :: "malloc_fun \<Rightarrow> nat \<Rightarrow> u8 list \<Rightarrow> size_t \<Rightarrow> (CBB, unit) io" where
  "CBB_add_asn1_octet_string malloc d data data_len =
     io_bind (CBB_add_asn1 malloc d CBS_ASN1_OCTETSTRING) (\<lambda>_.
     io_bind (CBB_add_bytes malloc (Suc d) data data_len) (\<lambda>_. CBB_flush malloc d))"

definition CBB_add_asn1_bool :: "malloc_fun \<Rightarrow> nat \<Rightarrow> int \<Rightarrow> (CBB, unit) io" where
  "CBB_add_asn1_bool malloc d val =
     io_bind (CBB_add_asn1 malloc d CBS_ASN1_BOOLEAN) (\<lambda>_.
     io_bind (CBB_add_u8 malloc (Suc d) (if val \<noteq> 0 then 0xff else 0)) (\<lambda>_. CBB_flush malloc d))"

end
