(* ===== verification/Bs_Cbs_Spec.thy ===== *)
theory Bs_Cbs_Spec
  imports Bs_Cbs Bs_Mem_Props
begin

text \<open>
  What the parsing functions of \<open>cbs.c\<close> do on a \<open>CBS\<close> that lies within its memory, as functions
  of its bytes: no read out of bounds, big-endian integers, length prefixes and base-128 integers.
\<close>

section \<open>Spans of memory\<close>

definition wf_cbs :: "CBS \<Rightarrow> bool" where
  "wf_cbs s \<longleftrightarrow> unat (cbs_len s) \<le> length (cbs_data s)"

definition cbs_bytes :: "CBS \<Rightarrow> u8 list" where
  "cbs_bytes s = take (unat (cbs_len s)) (cbs_data s)"

definition cbs_drop :: "nat \<Rightarrow> CBS \<Rightarrow> CBS" where
  "cbs_drop k s = \<lparr>cbs_data = drop k (cbs_data s), cbs_len = cbs_len s - of_nat k\<rparr>"

text \<open>The first \<open>k\<close> bytes as a \<open>CBS\<close> of their own.\<close>

definition cbs_take :: "nat \<Rightarrow> CBS \<Rightarrow> CBS" where
  "cbs_take k s = CBS_init (cbs_data s) (of_nat k)"

lemma length_cbs_bytes: "wf_cbs s \<Longrightarrow> length (cbs_bytes s) = unat (cbs_len s)"
  by (simp add: wf_cbs_def cbs_bytes_def)

lemma of_nat_le_len:
  assumes "wf_cbs s" and "k \<le> length (cbs_bytes s)"
  shows "unat (of_nat k :: size_t) = k"
proof -
  have "k < 2 ^ LENGTH(64)"
    using assms unat_bound [of "cbs_len s"] length_cbs_bytes [OF assms(1)] by linarith
  then show ?thesis by (simp add: unat_of_nat_mod)
qed

lemma cbs_drop_len:
  assumes "wf_cbs s" and "k \<le> length (cbs_bytes s)"
  shows "unat (cbs_len (cbs_drop k s)) = unat (cbs_len s) - k"
  using of_nat_le_len [OF assms] assms length_cbs_bytes [OF assms(1)]
  by (simp add: cbs_drop_def unat_sub word_le_nat_alt)

lemma wf_cbs_drop: "wf_cbs s \<Longrightarrow> k \<le> length (cbs_bytes s) \<Longrightarrow> wf_cbs (cbs_drop k s)"
  using cbs_drop_len [of s k] by (simp add: wf_cbs_def cbs_drop_def)

lemma cbs_bytes_drop:
  "wf_cbs s \<Longrightarrow> k \<le> length (cbs_bytes s) \<Longrightarrow> cbs_bytes (cbs_drop k s) = drop k (cbs_bytes s)"
  using cbs_drop_len [of s k] by (simp add: cbs_bytes_def drop_take) (simp add: cbs_drop_def)

lemma cbs_drop_0 [simp]: "cbs_drop 0 s = s"
  by (simp add: cbs_drop_def)

lemma cbs_drop_drop [simp]: "cbs_drop j (cbs_drop k s) = cbs_drop (k + j) s"
  by (simp add: cbs_drop_def add.commute algebra_simps)

lemma wf_cbs_take: "wf_cbs s \<Longrightarrow> k \<le> length (cbs_bytes s) \<Longrightarrow> wf_cbs (cbs_take k s)"
  and cbs_bytes_take: "wf_cbs s \<Longrightarrow> k \<le> length (cbs_bytes s) \<Longrightarrow>
    cbs_bytes (cbs_take k s) = take k (cbs_bytes s)"
  using of_nat_le_len [of s k] length_cbs_bytes [of s]
  by (auto simp: wf_cbs_def cbs_take_def CBS_init_def cbs_bytes_def min_absorb1)

lemma cbs_bytes_init [simp]: "cbs_bytes (CBS_init m n) = take (unat n) m"
  by (simp add: cbs_bytes_def CBS_init_def)

lemma wf_cbs_init [simp]: "wf_cbs (CBS_init m n) \<longleftrightarrow> unat n \<le> length m"
  by (simp add: wf_cbs_def CBS_init_def)

lemma cbs_get_spec:
  assumes "wf_cbs s"
  shows "cbs_get n s =
    (if unat n \<le> length (cbs_bytes s) then Some (Some (cbs_data s), cbs_drop (unat n) s)
     else Some (None, s))"
  using assms by (simp add: cbs_get_def length_cbs_bytes word_less_nat_alt cbs_drop_def)

lemma take_cbs_data:
  "wf_cbs s \<Longrightarrow> k \<le> length (cbs_bytes s) \<Longrightarrow> take k (cbs_data s) = take k (cbs_bytes s)"
  by (simp add: cbs_bytes_def min_absorb1 length_cbs_bytes)

lemma mem_read_cbs_data:
  "wf_cbs s \<Longrightarrow> k \<le> length (cbs_bytes s) \<Longrightarrow> mem_read (cbs_data s) 0 k = Some (take k (cbs_bytes s))"
  using length_cbs_bytes [of s] by (simp add: take_cbs_data wf_cbs_def)

lemma CBS_get_u8_spec:
  assumes "wf_cbs s"
  shows "CBS_get_u8 s =
    (case cbs_bytes s of [] \<Rightarrow> Some (None, s) | b # bs \<Rightarrow> Some (Some b, cbs_drop 1 s))"
proof (cases "cbs_bytes s")
  case Nil
  then show ?thesis using cbs_get_spec [OF assms, of 1] by (simp add: CBS_get_u8_def)
next
  case (Cons b bs)
  then have "take 1 (cbs_data s) = [b]" using take_cbs_data [OF assms, of 1] by simp
  then obtain rest where "cbs_data s = b # rest" by (cases "cbs_data s") auto
  with Cons show ?thesis
    using cbs_get_spec [OF assms, of 1] by (simp add: CBS_get_u8_def io_ret_def)
qed

lemma CBS_get_bytes_spec:
  assumes "wf_cbs s"
  shows "CBS_get_bytes n s =
    (if unat n \<le> length (cbs_bytes s) then Some (Some (cbs_take (unat n) s), cbs_drop (unat n) s)
     else Some (None, s))"
  using cbs_get_spec [OF assms, of n] by (simp add: CBS_get_bytes_def io_ret_def cbs_take_def)

lemma CBS_skip_spec:
  assumes "wf_cbs s"
  shows "CBS_skip n s =
    (if unat n \<le> length (cbs_bytes s) then Some (Some (), cbs_drop (unat n) s) else Some (None, s))"
  using cbs_get_spec [OF assms, of n] by (simp add: CBS_skip_def io_ret_def)

section \<open>Big-endian integers\<close>

definition be_val :: "u8 list \<Rightarrow> nat" where
  "be_val bs = foldl (\<lambda>n b. n * 256 + unat b) 0 bs"

definition be_bytes :: "nat \<Rightarrow> nat \<Rightarrow> u8 list" where
  "be_bytes k n = rev (le_bytes k n)"

lemma length_be_bytes [simp]: "length (be_bytes k n) = k"
  by (simp add: be_bytes_def)

lemma be_val_snoc [simp]: "be_val (bs @ [b]) = be_val bs * 256 + unat b"
  by (simp add: be_val_def)

lemma be_val_rev: "be_val (rev bs) = le_val bs"
  by (induction bs) (simp_all add: be_val_def add.commute mult.commute)

lemma be_val_bytes: "be_val (be_bytes k n) = n mod 256 ^ k"
  by (simp add: be_bytes_def be_val_rev le_val_bytes)

lemma be_bytes_val: "be_bytes (length bs) (be_val bs) = bs"
  using le_bytes_val [of "rev bs"] be_val_rev [of "rev bs"] by (simp add: be_bytes_def)

lemma be_val_bound: "be_val bs < 256 ^ length bs"
  using le_val_bound [of "rev bs"] be_val_rev [of "rev bs"] by simp

lemma be_loop_foldl: "be_loop r bs = foldl (\<lambda>v b. push_bit 8 v OR ucast b) r bs"
  by (induction bs arbitrary: r) auto

lemma be_step:
  fixes v :: u64
  shows "push_bit 8 v OR ucast (b :: u8) = v * 256 + ucast b"
proof -
  have "unat (ucast b :: u64) < 2 ^ 8" using u8_bound [of b] by simp
  then show ?thesis
    using word_or_push_bit [of "ucast b" 8 v] by (simp add: or.commute push_bit_eq_mult add.commute)
qed

lemma be_loop_of_nat: "be_loop (of_nat n) bs = of_nat (foldl (\<lambda>n b. n * 256 + unat b) n bs)"
proof (induction bs arbitrary: n)
  case Nil
  then show ?case by simp
next
  case (Cons b bs)
  have "(of_nat n :: u64) * 256 + ucast b = of_nat (n * 256 + unat b)" by simp
  then show ?case using Cons [of "n * 256 + unat b"] by (simp add: be_step)
qed

lemma be_loop_0: "be_loop 0 bs = of_nat (be_val bs)"
  using be_loop_of_nat [of 0 bs] by (simp add: be_val_def)

lemma cbs_get_u_spec:
  assumes "wf_cbs s"
  shows "cbs_get_u n s =
    (if unat n \<le> length (cbs_bytes s)
     then Some (Some (of_nat (be_val (take (unat n) (cbs_bytes s)))), cbs_drop (unat n) s)
     else Some (None, s))"
  using cbs_get_spec [OF assms, of n] mem_read_cbs_data [OF assms, of "unat n"]
  by (simp add: cbs_get_u_def io_ret_def be_loop_0)

lemma unat_be_val:
  "length bs \<le> 8 \<Longrightarrow> unat (of_nat (be_val bs) :: u64) = be_val bs"
proof -
  assume "length bs \<le> 8"
  then have "(256::nat) ^ length bs \<le> 256 ^ 8" by (intro power_increasing) auto
  then have "be_val bs < 2 ^ 64" using be_val_bound [of bs] by simp
  then show ?thesis by (simp add: unat_of_nat_mod)
qed

lemma length_prefixed_spec:
  assumes "wf_cbs s" and "unat n \<le> 8"
  shows "cbs_get_length_prefixed n s =
    (let k = unat n; bs = cbs_bytes s; len = be_val (take k bs)
     in if length bs < k then Some (None, s)
        else if length bs < k + len then Some (None, cbs_drop k s)
        else Some (Some (cbs_take len (cbs_drop k s)), cbs_drop (k + len) s))"
proof (cases "length (cbs_bytes s) < unat n")
  case True
  then show ?thesis
    using cbs_get_u_spec [OF assms(1), of n] by (simp add: cbs_get_length_prefixed_def Let_def)
next
  case False
  let ?k = "unat n" and ?t = "cbs_drop (unat n) s"
  have t: "wf_cbs ?t" "cbs_bytes ?t = drop ?k (cbs_bytes s)"
    using False assms(1) by (simp_all add: wf_cbs_drop cbs_bytes_drop)
  have "unat (of_nat (be_val (take ?k (cbs_bytes s))) :: u64) = be_val (take ?k (cbs_bytes s))"
    using assms(2) False by (intro unat_be_val) simp
  then show ?thesis
    using cbs_get_u_spec [OF assms(1), of n] CBS_get_bytes_spec [OF t(1)] False t(2)
    by (auto simp: cbs_get_length_prefixed_def Let_def)
qed

section \<open>No read out of bounds\<close>

text \<open>\<open>cbs_safe m\<close>: within the memory of the \<open>CBS\<close>, \<open>m\<close> returns and leaves a \<open>CBS\<close> within it.\<close>

definition cbs_safe :: "'a parser \<Rightarrow> bool" where
  "cbs_safe m \<longleftrightarrow> (\<forall>s. wf_cbs s \<longrightarrow> (\<exists>r t. m s = Some (r, t) \<and> wf_cbs t))"

text \<open>\<open>cbs_safe_out\<close>: the value is a \<open>CBS\<close> within its memory too.\<close>

definition cbs_safe_out :: "('a \<Rightarrow> CBS option) \<Rightarrow> 'a parser \<Rightarrow> bool" where
  "cbs_safe_out out m \<longleftrightarrow>
     (\<forall>s. wf_cbs s \<longrightarrow> (\<exists>r t. m s = Some (r, t) \<and> wf_cbs t \<and>
        (\<forall>a c. r = Some a \<longrightarrow> out a = Some c \<longrightarrow> wf_cbs c)))"

lemma cbs_safeE: "cbs_safe m \<Longrightarrow> wf_cbs s \<Longrightarrow> \<exists>r t. m s = Some (r, t) \<and> wf_cbs t"
  by (simp add: cbs_safe_def)

lemma cbs_safe_outE:
  "cbs_safe_out out m \<Longrightarrow> wf_cbs s \<Longrightarrow>
   \<exists>r t. m s = Some (r, t) \<and> wf_cbs t \<and> (\<forall>a c. r = Some a \<longrightarrow> out a = Some c \<longrightarrow> wf_cbs c)"
  by (simp add: cbs_safe_out_def)

lemma cbs_safe_out_safe: "cbs_safe_out out m \<Longrightarrow> cbs_safe m"
  by (fastforce simp: cbs_safe_out_def cbs_safe_def)

lemma cbs_safe_ret [intro]: "cbs_safe (io_ret a)"
  by (simp add: cbs_safe_def io_ret_def)

lemma cbs_safe_fail [intro]: "cbs_safe (\<lambda>s. Some (None, s))"
  by (simp add: cbs_safe_def)

lemma cbs_safe_bind_out:
  assumes "cbs_safe_out out m" and "\<And>a. (\<And>c. out a = Some c \<Longrightarrow> wf_cbs c) \<Longrightarrow> cbs_safe (f a)"
  shows "cbs_safe (io_bind m f)"
  unfolding cbs_safe_def
proof (intro allI impI)
  fix s assume "wf_cbs s"
  then obtain r t where m: "m s = Some (r, t)" "wf_cbs t"
    and r: "\<forall>a c. r = Some a \<longrightarrow> out a = Some c \<longrightarrow> wf_cbs c"
    using cbs_safe_outE [OF assms(1)] by blast
  show "\<exists>r t. io_bind m f s = Some (r, t) \<and> wf_cbs t"
  proof (cases r)
    case None
    then show ?thesis using m by simp
  next
    case (Some a)
    then show ?thesis using m r assms(2) [of a] cbs_safeE [of "f a" t] by auto
  qed
qed

lemma cbs_safe_bind [intro]:
  "cbs_safe m \<Longrightarrow> (\<And>a. cbs_safe (f a)) \<Longrightarrow> cbs_safe (io_bind m f)"
  by (rule cbs_safe_bind_out [of "\<lambda>_. None"]) (simp_all add: cbs_safe_def cbs_safe_out_def)

lemma cbs_safe_out_bind:
  assumes "cbs_safe_out out m" and "\<And>a. (\<And>c. out a = Some c \<Longrightarrow> wf_cbs c) \<Longrightarrow> cbs_safe_out out' (f a)"
  shows "cbs_safe_out out' (io_bind m f)"
  unfolding cbs_safe_out_def
proof (intro allI impI)
  fix s assume "wf_cbs s"
  then obtain r t where m: "m s = Some (r, t)" "wf_cbs t"
    and r: "\<forall>a c. r = Some a \<longrightarrow> out a = Some c \<longrightarrow> wf_cbs c"
    using cbs_safe_outE [OF assms(1)] by blast
  show "\<exists>r t. io_bind m f s = Some (r, t) \<and> wf_cbs t \<and>
      (\<forall>a c. r = Some a \<longrightarrow> out' a = Some c \<longrightarrow> wf_cbs c)"
  proof (cases r)
    case None
    then show ?thesis using m by simp
  next
    case (Some a)
    then show ?thesis using m r assms(2) [of a] cbs_safe_outE [of out' "f a" t] by auto
  qed
qed

lemma cbs_safe_get_u8 [intro]: "cbs_safe CBS_get_u8"
  unfolding cbs_safe_def
  by (auto simp: CBS_get_u8_spec wf_cbs_drop split: list.split)

lemma cbs_safe_get_u [intro]: "cbs_safe (cbs_get_u n)"
  by (simp add: cbs_safe_def cbs_get_u_spec wf_cbs_drop)

lemma cbs_safe_get_bytes [intro]: "cbs_safe_out Some (CBS_get_bytes n)"
  by (simp add: cbs_safe_out_def CBS_get_bytes_spec wf_cbs_drop wf_cbs_take)

lemma cbs_safe_base128: "wf_cbs s \<Longrightarrow> \<exists>r t. base128_loop v s = Some (r, t) \<and> wf_cbs t"
proof (induction v s rule: base128_loop.induct)
  case (1 v s)
  obtain r t where u: "CBS_get_u8 s = Some (r, t)" "wf_cbs t"
    using cbs_safeE [OF cbs_safe_get_u8 "1.prems"] by blast
  show ?case
  proof (cases r)
    case None
    then show ?thesis using u by (simp add: base128_loop.simps [of v s])
  next
    case (Some b)
    then show ?thesis
      using u "1.IH" [of b t, OF _ _ _ refl] by (auto simp: base128_loop.simps [of v s] io_ret_def Let_def)
  qed
qed

lemma cbs_safe_parse_base128 [intro]: "cbs_safe parse_base128_integer"
  by (simp add: cbs_safe_def parse_base128_integer_def cbs_safe_base128)

end
