(* ===== verification/Bs_Der.thy ===== *)
theory Bs_Der
  imports Bs_Cbs_Spec
begin

text \<open>
  The distinguished encoding rules as a reference, and the parser of \<open>cbs.c\<close> against it: base-128
  integers, tags and lengths are accepted exactly when they are the (unique, minimal) encoding of
  the value returned.
\<close>

section \<open>Base-128 integers\<close>

fun b128_cont :: "nat \<Rightarrow> u8 list" where
  "b128_cont n = (if n = 0 then [] else b128_cont (n div 128) @ [of_nat (n mod 128 + 128)])"

declare b128_cont.simps [simp del]

definition b128 :: "nat \<Rightarrow> u8 list" where
  "b128 n = b128_cont (n div 128) @ [of_nat (n mod 128)]"

definition b128_val :: "nat \<Rightarrow> u8 list \<Rightarrow> nat" where
  "b128_val v bs = foldl (\<lambda>n b. n * 128 + unat b mod 128) v bs"

lemma b128_val_simps [simp]:
  "b128_val v [] = v"
  "b128_val v (b # bs) = b128_val (v * 128 + unat b mod 128) bs"
  "b128_val v (bs @ [b]) = b128_val v bs * 128 + unat b mod 128"
  by (simp_all add: b128_val_def)

lemma unat_cont_byte [simp]: "unat (of_nat (n mod 128 + 128) :: u8) = n mod 128 + 128"
  by (simp add: unat_of_nat_mod del: of_nat_add)

lemma unat_last_byte [simp]: "unat (of_nat (n mod 128) :: u8) = n mod 128"
  by (simp add: unat_of_nat_mod)

lemma b128_cont_0 [simp]: "b128_cont 0 = []"
  by (simp add: b128_cont.simps)

lemma b128_cont_Nil [simp]: "b128_cont n = [] \<longleftrightarrow> n = 0"
  by (subst b128_cont.simps) simp

lemma b128_cont_props:
  "list_all cont (b128_cont n) \<and> b128_val 0 (b128_cont n) = n \<and>
   (n \<noteq> 0 \<longrightarrow> hd (b128_cont n) \<noteq> 0x80)"
proof (induction n rule: b128_cont.induct)
  case (1 n)
  show ?case
  proof (cases "n = 0")
    case True
    then show ?thesis by simp
  next
    case False
    note ih = "1.IH" [OF False]
    have "cont (of_nat (n mod 128 + 128))" unfolding cont_def by (simp del: of_nat_add)
    moreover have "hd (b128_cont (n div 128) @ [of_nat (n mod 128 + 128)]) \<noteq> 0x80"
    proof (cases "n div 128 = 0")
      case True
      then have "n mod 128 \<noteq> 0" using False by presburger
      then have "unat (of_nat (n mod 128 + 128) :: u8) \<noteq> unat (0x80 :: u8)"
        by (simp del: of_nat_add)
      then show ?thesis using True by (metis append_Nil b128_cont_0 list.sel(1))
    next
      case nz: False
      then show ?thesis using ih by simp
    qed
    ultimately show ?thesis
      using ih False by (subst (1 2 3) b128_cont.simps) (simp del: of_nat_add)
  qed
qed

lemma cont_mod:
  assumes "cont x"
  shows "unat x mod 128 + 128 = unat x"
proof -
  have "128 \<le> unat x" using assms by (simp add: cont_def)
  moreover have "unat x - 128 < 128" using u8_bound [of x] by linarith
  ultimately show ?thesis by (simp add: le_mod_geq)
qed

lemma b128_cont_unique:
  "list_all cont cs \<Longrightarrow> cs = [] \<or> hd cs \<noteq> 0x80 \<Longrightarrow> cs = b128_cont (b128_val 0 cs)"
proof (induction cs rule: rev_induct)
  case Nil
  then show ?case by simp
next
  case (snoc x xs)
  have x: "cont x" "128 \<le> unat x" using snoc.prems by (auto simp: cont_def)
  have ux: "unat x mod 128 + 128 = unat x" by (rule cont_mod [OF x(1)])
  then have xb: "of_nat (unat x mod 128 + 128) = x" by (simp only: ux) simp
  have xs: "xs = b128_cont (b128_val 0 xs)"
    using snoc.prems by (intro snoc.IH) (auto simp: hd_append split: if_splits)
  let ?n = "b128_val 0 xs * 128 + unat x mod 128"
  have "?n \<noteq> 0"
  proof (cases "xs = []")
    case True
    then have "unat x \<noteq> unat (0x80 :: u8)" using snoc.prems(2) by (auto simp: word_unat_eq_iff)
    then show ?thesis using ux by simp
  next
    case False
    then have "b128_val 0 xs \<noteq> 0" using xs by (metis b128_cont_0)
    then show ?thesis by simp
  qed
  then have "b128_cont ?n = b128_cont (?n div 128) @ [of_nat (?n mod 128 + 128)]"
    by (subst b128_cont.simps) (simp del: of_nat_add)
  also have "?n div 128 = b128_val 0 xs" by simp
  also have "?n mod 128 = unat x mod 128" by simp
  finally show ?case using xs xb by simp
qed

text \<open>A base-128 encoding is minimal when it does not begin with the byte 0x80.\<close>

lemma b128_unique:
  assumes "list_all cont cs" and "\<not> cont l" and "hd (cs @ [l]) \<noteq> 0x80"
  shows "cs @ [l] = b128 (b128_val 0 (cs @ [l]))"
proof -
  have l: "unat l mod 128 = unat l" using assms(2) by (simp add: cont_def)
  have "cs = b128_cont (b128_val 0 cs)"
    using assms by (intro b128_cont_unique) (auto simp: hd_append split: if_splits)
  moreover have "unat l < 128" using assms(2) by (simp add: cont_def)
  ultimately show ?thesis by (simp add: b128_def l)
qed

lemma b128_props:
  "list_all cont (butlast (b128 n))" "\<not> cont (last (b128 n))" "b128_val 0 (b128 n) = n"
  "hd (b128 n) \<noteq> 0x80" "b128 n \<noteq> []"
proof -
  show "list_all cont (butlast (b128 n))" "b128_val 0 (b128 n) = n" "b128 n \<noteq> []"
    using b128_cont_props [of "n div 128"] by (simp_all add: b128_def)
  show "\<not> cont (last (b128 n))" by (simp add: b128_def cont_def)
  show "hd (b128 n) \<noteq> 0x80"
  proof (cases "n div 128 = 0")
    case True
    then have "unat (hd (b128 n)) = n mod 128"
      by (simp only: b128_def b128_cont_0 append_Nil list.sel unat_last_byte)
    moreover have "n mod 128 < 128" by simp
    ultimately have "unat (hd (b128 n)) \<noteq> unat (0x80 :: u8)" by simp
    then show ?thesis by (simp add: word_unat_eq_iff)
  next
    case False
    then show ?thesis using b128_cont_props [of "n div 128"] by (simp add: b128_def)
  qed
qed

lemma cont_run_snoc: "list_all cont cs \<Longrightarrow> \<not> cont l \<Longrightarrow> cont_run (cs @ l # rest) = length cs"
  by (induction cs) auto

lemma cont_run_split:
  "cont_run bs < length bs \<Longrightarrow>
   \<exists>cs l rest. bs = cs @ l # rest \<and> list_all cont cs \<and> \<not> cont l \<and> length cs = cont_run bs"
proof (induction bs)
  case Nil
  then show ?case by simp
next
  case (Cons b bs)
  show ?case
  proof (cases "cont b")
    case True
    then obtain cs l rest where "bs = cs @ l # rest" "list_all cont cs" "\<not> cont l" "length cs = cont_run bs"
      using Cons by auto
    then show ?thesis using True by (intro exI [of _ "b # cs"]) auto
  next
    case False
    then show ?thesis by (intro exI [of _ "[]"]) auto
  qed
qed

lemma b128_val_mono: "v \<le> b128_val v bs"
proof (induction bs arbitrary: v)
  case Nil
  then show ?case by simp
next
  case (Cons b bs)
  have "v \<le> v * 128 + unat b mod 128" by simp
  also have "\<dots> \<le> b128_val v (b # bs)" using Cons by simp
  finally show ?case .
qed

lemma base128_step:
  fixes v :: u64
  assumes "drop_bit (64 - 7) v = 0"
  shows "unat (push_bit 7 v OR ucast (b AND 0x7f :: u8)) = unat v * 128 + unat b mod 128"
proof -
  have "unat v div 2 ^ 57 = 0" using assms unat_drop_bit [of 57 v] by simp
  then have v: "unat v < 2 ^ 57" by (simp add: div_eq_0_iff)
  have "unat (ucast (b AND 0x7f) :: u64) = unat b mod 128"
    by (simp add: unat_ucast_mod unat_and_0x7F)
  then show ?thesis
    using unat_or_push_bit [of "ucast (b AND 0x7f) :: u64" 7 v] v by (simp add: or.commute)
qed

lemma base128_loop_iff:
  assumes "wf_cbs s"
  shows "base128_loop v s = Some (Some r, t) \<longleftrightarrow>
    (let bs = cbs_bytes s; k = cont_run bs
     in k < length bs \<and> t = cbs_drop (Suc k) s \<and> (v = 0 \<longrightarrow> hd bs \<noteq> 0x80) \<and>
        b128_val (unat v) (take (Suc k) bs) < 2 ^ 64 \<and>
        unat r = b128_val (unat v) (take (Suc k) bs))"
  using assms
proof (induction "cbs_bytes s" arbitrary: s v)
  case Nil
  then have "cbs_bytes s = []" by simp
  then show ?case
    using CBS_get_u8_spec [OF Nil.prems] by (simp add: base128_loop.simps [of v s])
next
  case (Cons b bs)
  have bs: "cbs_bytes s = b # bs" using Cons.hyps by simp
  let ?t = "cbs_drop 1 s"
  have t: "wf_cbs ?t" "cbs_bytes ?t = bs"
    using Cons.prems bs by (simp_all add: wf_cbs_drop cbs_bytes_drop)
  have g: "CBS_get_u8 s = Some (Some b, ?t)" using CBS_get_u8_spec [OF Cons.prems] bs by simp
  let ?v = "push_bit 7 v OR ucast (b AND 0x7f) :: u64"
  show ?case
  proof (cases "drop_bit (64 - 7) v = 0")
    case False
    then have "unat (drop_bit 57 v) \<noteq> 0" by (simp add: unat_eq_0)
    then have "2 ^ 57 \<le> unat v" unfolding unat_drop_bit by (metis div_less not_le)
    then have "2 ^ 64 \<le> unat v * 128 + unat b mod 128" by simp
    then have "\<not> b128_val (unat v) (take (Suc (cont_run (b # bs))) (b # bs)) < 2 ^ 64"
      using b128_val_mono [of "unat v * 128 + unat b mod 128"] by (simp add: not_less) (meson le_trans)
    then show ?thesis
      using g False bs by (simp add: base128_loop.simps [of v s] Let_def)
  next
    case True
    note u = base128_step [OF True, of b]
    show ?thesis
    proof (cases "v = 0 \<and> b = 0x80")
      case True
      then show ?thesis using g bs by (simp add: base128_loop.simps [of 0 s] Let_def)
    next
      case ok: False
      show ?thesis
      proof (cases "cont b")
        case False
        have "unat ?v < 2 ^ 64" using unat_bound [of ?v] by simp
        moreover have "r = ?v \<longleftrightarrow> unat r = unat v * 128 + unat b mod 128"
          unfolding u [symmetric] by (rule word_unat_eq_iff)
        ultimately show ?thesis
          using g True ok False bs u by (auto simp: base128_loop.simps [of v s] Let_def io_ret_def)
      next
        case c: True
        have "?v \<noteq> 0"
        proof
          assume "?v = 0"
          then have z: "unat v = 0" "unat b mod 128 = 0" using u by auto
          then have "unat b = 128" using cont_mod [OF c] by simp
          then show False using z ok by (auto simp: word_unat_eq_iff)
        qed
        then show ?thesis
          using Cons.hyps(1) [OF t(2) [symmetric] t(1), of ?v] g True ok c bs t(2) u
          by (auto simp: base128_loop.simps [of v s] Let_def)
      qed
    qed
  qed
qed

lemma cont_run_b128 [simp]: "Suc (cont_run (b128 n @ rest)) = length (b128 n)"
proof -
  have "b128 n @ rest = butlast (b128 n) @ last (b128 n) # rest"
    using b128_props(5) [of n] by (metis append.assoc append_Cons append_Nil append_butlast_last_id)
  then have "cont_run (b128 n @ rest) = length (butlast (b128 n))"
    using cont_run_snoc b128_props(1,2) by metis
  then show ?thesis using b128_props(5) [of n] by (cases "b128 n") auto
qed

lemma parse_base128_iff:
  assumes "wf_cbs s"
  shows "parse_base128_integer s = Some (Some r, t) \<longleftrightarrow>
    (\<exists>rest. cbs_bytes s = b128 (unat r) @ rest \<and> t = cbs_drop (length (b128 (unat r))) s)"
    (is "?l \<longleftrightarrow> ?r")
proof -
  let ?bs = "cbs_bytes s"
  note iff = base128_loop_iff [OF assms, of 0 r t]
  show ?thesis
  proof
    assume ?l
    then have k: "cont_run ?bs < length ?bs" and t: "t = cbs_drop (Suc (cont_run ?bs)) s"
      and h: "hd ?bs \<noteq> 0x80" and v: "unat r = b128_val 0 (take (Suc (cont_run ?bs)) ?bs)"
      using iff by (auto simp: parse_base128_integer_def Let_def)
    obtain cs l rest where bs: "?bs = cs @ l # rest" and c: "list_all cont cs" "\<not> cont l"
      and len: "length cs = cont_run ?bs"
      using cont_run_split [OF k] by blast
    have tk: "take (Suc (cont_run ?bs)) ?bs = cs @ [l]"
      unfolding len [symmetric] by (subst bs) simp
    have "hd (cs @ [l]) \<noteq> 0x80" using h bs by (cases cs) auto
    then have "cs @ [l] = b128 (b128_val 0 (cs @ [l]))" by (rule b128_unique [OF c])
    then have "cs @ [l] = b128 (unat r)" unfolding v tk .
    then have "?bs = b128 (unat r) @ rest" and "length (b128 (unat r)) = Suc (cont_run ?bs)"
      using bs len by (metis append.assoc append_Cons append_Nil) (metis \<open>cs @ [l] = b128 (unat r)\<close> len length_append_singleton)
    then show ?r using t by auto
  next
    assume ?r
    then obtain rest where bs: "?bs = b128 (unat r) @ rest"
      and t: "t = cbs_drop (length (b128 (unat r))) s" by blast
    have k: "Suc (cont_run ?bs) = length (b128 (unat r))" unfolding bs by simp
    have "take (Suc (cont_run ?bs)) ?bs = b128 (unat r)" unfolding k by (simp add: bs)
    moreover have "hd ?bs \<noteq> 0x80" using b128_props(4,5) [of "unat r"] by (simp add: bs)
    moreover have "cont_run ?bs < length ?bs" using k arg_cong [OF bs, of length] by simp
    ultimately show ?l
      using iff t k b128_props(3) [of "unat r"] unat_bound [of r]
      by (simp add: parse_base128_integer_def Let_def)
  qed
qed

section \<open>Tags\<close>

definition tag_num :: "u32 \<Rightarrow> nat" where
  "tag_num tag = unat tag mod 2 ^ 29"

definition tag_class :: "u32 \<Rightarrow> nat" where
  "tag_class tag = unat tag div 2 ^ 29"

definition der_tag :: "u32 \<Rightarrow> u8 list" where
  "der_tag tag =
     (if tag_num tag < 31 then [of_nat (tag_class tag * 32 + tag_num tag)]
      else of_nat (tag_class tag * 32 + 31) # b128 (tag_num tag))"

lemma tag_class_bound: "tag_class tag < 8"
  using unat_bound [of tag] by (simp add: tag_class_def div_less_iff_less_mult)

lemma unat_tag_parts: "unat tag = tag_class tag * 2 ^ 29 + tag_num tag"
  by (simp add: tag_class_def tag_num_def)

lemma tag_eqI:
  "unat tag = c * 2 ^ 29 + n \<Longrightarrow> n < 2 ^ 29 \<Longrightarrow> tag_class tag = c \<and> tag_num tag = n"
  by (simp add: tag_class_def tag_num_def)

lemma unat_lead: "unat (ucast (b :: u8) AND 0xe0 :: u32) = unat b div 32 * 32"
  by (rule u8_all [of "\<lambda>b. unat (ucast b AND 0xe0 :: u32) = unat b div 32 * 32"]) code_simp

lemma unat_low5: "unat (b AND 0x1f :: u8) = unat b mod 32"
  using unat_and_mask [of b 5] by (simp add: mask_eq_exp_minus_1)

lemma unat_tag_join:
  fixes t :: u32
  assumes "unat t < 2 ^ 29"
  shows "unat (push_bit 24 (ucast (b :: u8) AND 0xe0) OR t) = unat b div 32 * 2 ^ 29 + unat t"
proof -
  have c: "unat b div 32 < 8" using u8_bound [of b] by (simp add: div_less_iff_less_mult del: u8_bound)
  let ?c = "of_nat (unat b div 32) :: u32"
  have uc: "unat ?c = unat b div 32" using c by (simp add: unat_of_nat_mod)
  have "unat (push_bit 24 (ucast b AND 0xe0) :: u32) = unat (push_bit 29 ?c)"
    unfolding unat_push_bit unat_lead uc using c by simp
  then have "push_bit 24 (ucast b AND 0xe0) = push_bit 29 ?c" by (rule unat_eqI)
  then have "unat (t OR push_bit 24 (ucast b AND 0xe0)) = unat t + unat b div 32 * 2 ^ 29"
    using unat_or_push_bit [OF assms, of ?c] uc c by simp
  then show ?thesis by (simp add: or.commute add.commute)
qed

lemma der_tag_nonempty [simp]: "der_tag tag \<noteq> []"
  by (simp add: der_tag_def)

lemma byte_split: "of_nat (c * 32 + n) = (b :: u8) \<longleftrightarrow> unat b div 32 = c \<and> unat b mod 32 = n"
  if "c < 8" and "n < 32" for c n :: nat and b :: u8
proof -
  have u: "unat (of_nat (c * 32 + n) :: u8) = c * 32 + n"
    using that by (simp add: unat_of_nat_mod del: of_nat_add of_nat_mult)
  have "of_nat (c * 32 + n) = b \<longleftrightarrow> c * 32 + n = unat b"
    unfolding word_unat_eq_iff u by (rule refl)
  also have "\<dots> \<longleftrightarrow> unat b div 32 = c \<and> unat b mod 32 = n"
  proof
    assume e: "c * 32 + n = unat b"
    show "unat b div 32 = c \<and> unat b mod 32 = n" unfolding e [symmetric] using that by simp
  next
    assume "unat b div 32 = c \<and> unat b mod 32 = n"
    then show "c * 32 + n = unat b" using div_mult_mod_eq [of "unat b" 32] by simp
  qed
  finally show ?thesis .
qed

lemma parse_asn1_tag_iff:
  assumes "wf_cbs s"
  shows "parse_asn1_tag s = Some (Some tag, t) \<longleftrightarrow>
    (\<exists>rest. cbs_bytes s = der_tag tag @ rest \<and> t = cbs_drop (length (der_tag tag)) s)"
proof (cases "cbs_bytes s")
  case Nil
  then show ?thesis
    using CBS_get_u8_spec [OF assms] by (simp add: parse_asn1_tag_def)
next
  case (Cons b bs)
  let ?t = "cbs_drop 1 s" and ?c = "unat b div 32" and ?n = "unat b mod 32"
  let ?lead = "push_bit 24 (ucast b AND 0xe0) :: u32"
  have t: "wf_cbs ?t" "cbs_bytes ?t = bs"
    using Cons assms by (simp_all add: wf_cbs_drop cbs_bytes_drop)
  have g: "CBS_get_u8 s = Some (Some b, ?t)" using CBS_get_u8_spec [OF assms] Cons by simp
  have un: "unat (ucast (b AND 0x1f) :: u32) = ?n" by (simp add: unat_low5)
  have c: "?c < 8" using u8_bound [of b] by (simp add: div_less_iff_less_mult del: u8_bound)
  have n31: "(ucast (b AND 0x1f) :: u32) = 0x1f \<longleftrightarrow> ?n = 31" by (simp add: word_unat_eq_iff un)
  show ?thesis
  proof (cases "?n = 31")
    case False
    define tg where "tg = ?lead OR ucast (b AND 0x1f)"
    have "unat tg = ?c * 2 ^ 29 + ?n" using unat_tag_join [of "ucast (b AND 0x1f)" b] un by (simp add: tg_def)
    then have tgs: "tag_class tg = ?c" "tag_num tg = ?n" using tag_eqI [of tg ?c ?n] by auto
    have p: "parse_asn1_tag s = Some (Some tg, ?t)"
      using g False n31 by (simp add: parse_asn1_tag_def Let_def io_ret_def tg_def)
    have "?n < 31" using False mod_less_divisor [of 32 "unat b"] by linarith
    then have "der_tag tg = [b]"
      using byte_split [OF c, of ?n b] by (simp add: der_tag_def tgs del: of_nat_add of_nat_mult)
    moreover have "tg = tag" if "der_tag tag @ rest = b # bs" for rest
    proof -
      have "tag_num tag < 31 \<and> of_nat (tag_class tag * 32 + tag_num tag) = b"
        using that False byte_split [OF tag_class_bound [of tag], of 31 b]
        by (auto simp: der_tag_def split: if_splits simp del: of_nat_add of_nat_mult)
      then have "tag_class tag = ?c" "tag_num tag = ?n"
        using byte_split [OF tag_class_bound [of tag], of "tag_num tag" b] by auto
      then show ?thesis using tgs unat_tag_parts [of tag] unat_tag_parts [of tg]
        by (metis word_unat_eq_iff)
    qed
    ultimately show ?thesis using p Cons by auto
  next
    case True
    have p: "parse_asn1_tag s = Some (Some tag, t) \<longleftrightarrow>
      (\<exists>v. parse_base128_integer ?t = Some (Some v, t) \<and> 31 \<le> unat v \<and> unat v < 2 ^ 29
         \<and> tag = ?lead OR ucast v)"
    proof -
      have m: "ucast CBS_ASN1_TAG_NUMBER_MASK < (v :: u64) \<longleftrightarrow> \<not> unat v < 2 ^ 29" for v
        by (simp add: CBS_ASN1_TAG_NUMBER_MASK_def word_less_nat_alt not_less) linarith
      have n: "v < (0x1f :: u64) \<longleftrightarrow> \<not> 31 \<le> unat v" for v
        by (simp add: word_less_nat_alt not_le)
      show ?thesis
        using g True n31
        by (simp add: parse_asn1_tag_def Let_def io_bind_def io_ret_def m n split: option.split prod.split)
           auto
    qed
    have tg: "tag = ?lead OR ucast v \<longleftrightarrow> tag_class tag = ?c \<and> tag_num tag = unat v"
      if "unat v < 2 ^ 29" for v :: u64
    proof -
      have uv: "unat (ucast v :: u32) = unat v" using that by (simp add: unat_ucast_mod)
      have "unat (?lead OR ucast v) = ?c * 2 ^ 29 + unat v"
        using unat_tag_join [of "ucast v" b] uv that by simp
      then show ?thesis
        using tag_eqI [of tag ?c "unat v"] that unat_tag_parts [of tag] by (metis word_unat_eq_iff)
    qed
    have nb: "tag_num tag < 2 ^ 29" by (simp add: tag_num_def)
    have d: "der_tag tag @ rest = b # bs \<longleftrightarrow>
        31 \<le> tag_num tag \<and> tag_class tag = ?c \<and> b128 (tag_num tag) @ rest = bs" for rest
      using True byte_split [OF tag_class_bound [of tag], of 31 b]
        byte_split [OF tag_class_bound [of tag], of "tag_num tag" b]
      by (auto simp: der_tag_def simp del: of_nat_add of_nat_mult)
    have v: "\<exists>v :: u64. unat v = tag_num tag"
      using nb by (intro exI [of _ "of_nat (tag_num tag)"]) (simp add: unat_of_nat_mod)
    have len: "length (der_tag tag) = Suc (length (b128 (tag_num tag)))" if "31 \<le> tag_num tag"
      using that by (simp add: der_tag_def)
    show ?thesis
      unfolding p parse_base128_iff [OF t(1)] t(2) Cons
    proof
      assume "\<exists>v :: u64. (\<exists>rest. bs = b128 (unat v) @ rest \<and> t = cbs_drop (length (b128 (unat v))) ?t)
        \<and> 31 \<le> unat v \<and> unat v < 2 ^ 29 \<and> tag = ?lead OR ucast v"
      then obtain v :: u64 and rest where vr: "bs = b128 (unat v) @ rest" "t = cbs_drop (length (b128 (unat v))) ?t"
        "31 \<le> unat v" "unat v < 2 ^ 29" "tag = ?lead OR ucast v" by blast
      have n: "tag_class tag = ?c" "tag_num tag = unat v"
        using tg [OF vr(4)] vr(5) by blast+
      have "b # bs = der_tag tag @ rest" using d [of rest] vr(1,3) n by simp
      moreover have "t = cbs_drop (length (der_tag tag)) s"
        unfolding vr(2) using len vr(3) n by simp
      ultimately show "\<exists>rest. b # bs = der_tag tag @ rest \<and> t = cbs_drop (length (der_tag tag)) s"
        by blast
    next
      assume "\<exists>rest. b # bs = der_tag tag @ rest \<and> t = cbs_drop (length (der_tag tag)) s"
      then obtain rest where r: "der_tag tag @ rest = b # bs" "t = cbs_drop (length (der_tag tag)) s"
        by auto
      obtain v :: u64 where v: "unat v = tag_num tag" using v by blast
      have n: "31 \<le> tag_num tag" "tag_class tag = ?c" "b128 (tag_num tag) @ rest = bs"
        using d [of rest] r(1) by blast+
      have "tag = ?lead OR ucast v" using tg [of v] v n nb by simp
      then show "\<exists>v :: u64. (\<exists>rest. bs = b128 (unat v) @ rest \<and> t = cbs_drop (length (b128 (unat v))) ?t)
        \<and> 31 \<le> unat v \<and> unat v < 2 ^ 29 \<and> tag = ?lead OR ucast v"
        using n v nb r(2) len by (intro exI [of _ v]) auto
    qed
  qed
qed

end
