(* ===== verification/Bs_Der_Elem.thy ===== *)
theory Bs_Der_Elem
  imports Bs_Der
begin

text \<open>
  Lengths and elements: \<open>cbs_get_any_asn1_element\<close> in DER mode accepts exactly the elements whose
  tag and length are minimally encoded, and gives their extent.
\<close>

section \<open>Lengths\<close>

text \<open>The number of bytes of a length in the long form.\<close>

fun num_bytes :: "nat \<Rightarrow> nat" where
  "num_bytes n = (if n = 0 then 0 else Suc (num_bytes (n div 256)))"

declare num_bytes.simps [simp del]

lemma num_bytes_0 [simp]: "num_bytes 0 = 0"
  by (simp add: num_bytes.simps)

definition der_len :: "nat \<Rightarrow> u8 list" where
  "der_len n =
     (if n < 128 then [of_nat n]
      else of_nat (128 + num_bytes n) # be_bytes (num_bytes n) n)"

lemma num_bytes_iff:
  "0 < n \<Longrightarrow> num_bytes n = Suc k \<longleftrightarrow> 256 ^ k \<le> n \<and> n < 256 ^ Suc k"
proof (induction n arbitrary: k rule: num_bytes.induct)
  case (1 n)
  have u: "num_bytes n = Suc (num_bytes (n div 256))"
    using "1.prems" by (subst num_bytes.simps) simp
  show ?case
  proof (cases "n div 256 = 0")
    case True
    then have "num_bytes n = 1" "n < 256" using u by (auto simp: num_bytes.simps [of 0])
    moreover have "256 ^ k \<le> n \<longleftrightarrow> k = 0"
    proof (cases k)
      case 0
      then show ?thesis using "1.prems" by simp
    next
      case (Suc j)
      then have "256 \<le> (256::nat) ^ k" by simp
      then have "\<not> 256 ^ k \<le> n" using \<open>n < 256\<close> by linarith
      then show ?thesis using Suc by simp
    qed
    ultimately show ?thesis by (cases "k = 0") auto
  next
    case False
    show ?thesis
    proof (cases k)
      case 0
      have "num_bytes (n div 256) \<noteq> 0" using False by (subst num_bytes.simps) simp
      then show ?thesis using 0 u False by auto
    next
      case (Suc j)
      have "256 ^ j \<le> n div 256 \<longleftrightarrow> 256 ^ Suc j \<le> n"
        by (simp add: less_eq_div_iff_mult_less_eq mult.commute)
      moreover have "n div 256 < 256 ^ Suc j \<longleftrightarrow> n < 256 ^ Suc (Suc j)"
        by (simp add: div_less_iff_less_mult mult.commute)
      ultimately show ?thesis
        using "1.IH" [of j] "1.prems" False u Suc by simp
    qed
  qed
qed

lemma num_bytes_bound: "0 < n \<Longrightarrow> n < 256 ^ num_bytes n"
  using num_bytes_iff [of n "num_bytes n - 1"] num_bytes.simps [of n] by auto

lemma num_bytes_u32: "0 < n \<Longrightarrow> n < 2 ^ 32 \<Longrightarrow> num_bytes n \<le> 4"
proof (rule ccontr)
  assume n: "0 < n" "n < 2 ^ 32" and c: "\<not> num_bytes n \<le> 4"
  then obtain k where k: "num_bytes n = Suc k" "4 \<le> k" by (cases "num_bytes n") auto
  then have "(256::nat) ^ 4 \<le> 256 ^ k" by (intro power_increasing) auto
  also have "256 ^ k \<le> n" using num_bytes_iff [OF n(1)] k(1) by blast
  finally show False using n(2) by simp
qed

lemma num_bytes_pos: "0 < n \<Longrightarrow> 0 < num_bytes n"
  by (subst num_bytes.simps) simp

lemma der_len_nonempty [simp]: "der_len n \<noteq> []"
  by (simp add: der_len_def)

lemma length_der_len: "n < 2 ^ 32 \<Longrightarrow> length (der_len n) \<le> 5"
  using num_bytes_u32 [of n] by (simp add: der_len_def)

lemma num_bytes_7bit: "num_bytes n \<le> k \<Longrightarrow> n < 2 ^ (8 * k)"
proof (cases "n = 0")
  case False
  assume "num_bytes n \<le> k"
  then have "(256::nat) ^ num_bytes n \<le> 256 ^ k" by (intro power_increasing) auto
  then have "n < 256 ^ k" using num_bytes_bound [of n] False by linarith
  also have "(256::nat) ^ k = 2 ^ (8 * k)" by (simp add: power_mult)
  finally show ?thesis .
qed simp

lemma length_b128_cont: "n < 128 ^ k \<Longrightarrow> length (b128_cont n) \<le> k"
proof (induction k arbitrary: n)
  case 0
  then show ?case by simp
next
  case (Suc k)
  then have "n div 128 < 128 ^ k" by (simp add: div_less_iff_less_mult mult.commute)
  then show ?case using Suc.IH [of "n div 128"] by (subst b128_cont.simps) simp
qed

lemma length_der_tag: "length (der_tag tag) \<le> 6"
proof -
  have "tag_num tag div 128 < 128 ^ 4" by (simp add: tag_num_def div_less_iff_less_mult)
  then have "length (b128_cont (tag_num tag div 128)) \<le> 4" by (rule length_b128_cont)
  then show ?thesis by (simp add: der_tag_def b128_def)
qed

section \<open>Elements\<close>

definition der_hdr :: "u32 \<Rightarrow> nat \<Rightarrow> u8 list" where
  "der_hdr tag n = der_tag tag @ der_len n"

definition der :: "u32 \<Rightarrow> u8 list \<Rightarrow> u8 list" where
  "der tag body = der_hdr tag (length body) @ body"

lemma length_der_hdr: "n < 2 ^ 32 \<Longrightarrow> length (der_hdr tag n) \<le> 11"
  using length_der_len [of n] length_der_tag [of tag] by (simp add: der_hdr_def)

lemma unat_low7: "unat (b AND 0x7f :: u8) = unat b mod 128"
  by (rule unat_and_0x7F)

text \<open>The length part of the header, read after the tag.\<close>

lemma der_len_long_iff:
  assumes "cont b" and "length bs = unat b mod 128" and "unat b mod 128 \<le> 4"
  shows "b # bs = der_len (be_val bs) \<longleftrightarrow>
    128 \<le> be_val bs \<and> 256 ^ (length bs - 1) \<le> be_val bs"
proof -
  let ?n = "be_val bs"
  have b: "unat b = 128 + length bs" using cont_mod [OF assms(1)] assms(2) by simp
  then have bb: "of_nat (128 + length bs) = b" by (simp del: of_nat_add flip: b)
  show ?thesis
  proof (cases "?n < 128")
    case True
    have "der_len ?n = [of_nat ?n]" using True by (simp add: der_len_def)
    moreover have "unat (of_nat ?n :: u8) = ?n" using True by (simp add: unat_of_nat_mod)
    moreover have "128 \<le> unat b" using b by simp
    ultimately show ?thesis using True by auto
  next
    case False
    then have pos: "0 < ?n" by simp
    then have "bs \<noteq> []" by (auto simp: be_val_def)
    then obtain k where k: "length bs = Suc k" by (cases bs) auto
    have "b # bs = der_len ?n \<longleftrightarrow> num_bytes ?n = Suc k"
    proof
      assume "b # bs = der_len ?n"
      then have "bs = be_bytes (num_bytes ?n) ?n" using False by (simp add: der_len_def)
      then show "num_bytes ?n = Suc k" using k by (metis length_be_bytes)
    next
      assume n: "num_bytes ?n = Suc k"
      then show "b # bs = der_len ?n"
        using False bb k be_bytes_val [of bs] by (simp add: der_len_def del: of_nat_add)
    qed
    also have "\<dots> \<longleftrightarrow> 256 ^ k \<le> ?n"
      using num_bytes_iff [OF pos, of k] be_val_bound [of bs] k by simp
    finally show ?thesis using False k by simp
  qed
qed

lemma der_len_prefix:
  assumes "b # bs = der_len n @ rest" and "n < 2 ^ 32"
  shows "(\<not> cont b \<and> n = unat b \<and> rest = bs) \<or>
    (cont b \<and> unat b mod 128 = num_bytes n \<and> 0 < num_bytes n \<and> num_bytes n \<le> 4 \<and> 128 \<le> n \<and>
     num_bytes n \<le> length bs \<and> n = be_val (take (num_bytes n) bs) \<and> rest = drop (num_bytes n) bs)"
proof (cases "n < 128")
  case True
  then have "b = of_nat n" "bs = rest" using assms by (simp_all add: der_len_def)
  moreover have "unat (of_nat n :: u8) = n" using True by (simp add: unat_of_nat_mod)
  ultimately show ?thesis using True by (auto simp: cont_def)
next
  case False
  then have n: "0 < n" by simp
  note k = num_bytes_u32 [OF n assms(2)] num_bytes_pos [OF n] num_bytes_bound [OF n]
  have b: "b = of_nat (128 + num_bytes n)" and bs: "bs = be_bytes (num_bytes n) n @ rest"
    using False assms by (simp_all add: der_len_def)
  have "unat b = 128 + num_bytes n" unfolding b using k(1) by (subst unat_of_nat_mod) simp
  then show ?thesis using k False by (simp add: bs be_val_bytes cont_def)
qed

text \<open>What follows the tag: \<open>k\<close> is the length of the tag.\<close>

definition len_part :: "u32 \<Rightarrow> size_t \<Rightarrow> (u32 \<times> size_t \<times> size_t) parser" where
  "len_part tag whole_len =
     io_bind CBS_get_u8 (\<lambda>length_byte header.
       let header_len = whole_len - cbs_len header
       in if length_byte AND 0x80 = 0
          then io_ret (tag, ucast length_byte + header_len, header_len) header
          else
            let num_bytes = ucast (length_byte AND 0x7f)
            in if num_bytes = 0 \<or> 4 < num_bytes then Some (None, header)
               else io_bind (cbs_get_u num_bytes)
                      (\<lambda>len64 h.
                         if len64 < 128 then Some (None, h)
                         else if drop_bit (unat ((num_bytes - 1) * 8)) len64 = 0 then Some (None, h)
                         else if len64 + header_len + num_bytes < len64 then Some (None, h)
                         else io_ret (tag, len64 + (header_len + num_bytes), header_len + num_bytes) h)
                      header)"

lemma asn1_header_len_part:
  "asn1_header False whole_len = io_bind parse_asn1_tag (\<lambda>tag. len_part tag whole_len)"
  by (simp add: asn1_header_def len_part_def Let_def cong: if_cong)

lemma long_len_checks:
  fixes m :: size_t and k :: nat
  assumes m: "0 < unat m" "unat m \<le> 4" and l: "length bs = unat m" and k: "k \<le> 7"
  defines "len64 \<equiv> of_nat (be_val bs) :: u64"
  shows "len64 < 128 \<longleftrightarrow> be_val bs < 128"
    and "drop_bit (unat ((m - 1) * 8)) len64 = 0 \<longleftrightarrow> be_val bs < 256 ^ (unat m - 1)"
    and "\<not> len64 + of_nat k + m < len64"
    and "be_val bs < 2 ^ 32"
proof -
  have "(256::nat) ^ length bs \<le> 256 ^ 4" using m l by (intro power_increasing) auto
  then show b: "be_val bs < 2 ^ 32" using be_val_bound [of bs] by simp
  have u: "unat len64 = be_val bs" unfolding len64_def using m l by (intro unat_be_val) simp
  show "len64 < 128 \<longleftrightarrow> be_val bs < 128" by (simp add: word_less_nat_alt u)
  have "unat (m - 1) = unat m - 1" using m(1) by (simp add: unat_gt_0 unat_minus_one)
  then have "unat ((m - 1) * 8) = 8 * (unat m - 1)"
    using m(2) unat_word_ariths(2) [of "m - 1" 8] by simp
  moreover have "drop_bit (8 * j) len64 = 0 \<longleftrightarrow> be_val bs < 256 ^ j" for j
  proof -
    have "drop_bit (8 * j) len64 = 0 \<longleftrightarrow> unat (drop_bit (8 * j) len64) = 0" by (simp only: unat_eq_0)
    also have "\<dots> \<longleftrightarrow> be_val bs < 2 ^ (8 * j)"
      unfolding unat_drop_bit u by (simp add: div_eq_0_iff)
    finally show ?thesis by (simp add: power_mult)
  qed
  ultimately show "drop_bit (unat ((m - 1) * 8)) len64 = 0 \<longleftrightarrow> be_val bs < 256 ^ (unat m - 1)" by simp
  have "unat (of_nat k :: u64) = k" using k by (simp add: unat_of_nat_mod)
  then have "unat (len64 + of_nat k + m) = be_val bs + k + unat m"
    using b k m(2) u by (simp add: unat_word_ariths)
  then show "\<not> len64 + of_nat k + m < len64" by (simp add: word_less_nat_alt u)
qed

lemma len_part_iff:
  assumes wf: "wf_cbs s" and k: "k \<le> 6" "k \<le> length (cbs_bytes s)"
  shows "len_part tag (cbs_len s) (cbs_drop k s) = Some (Some (tag', len, hl), h) \<longleftrightarrow>
    tag' = tag \<and> (\<exists>n rest. n < 2 ^ 32 \<and> drop k (cbs_bytes s) = der_len n @ rest \<and>
      hl = of_nat (k + length (der_len n)) \<and> len = of_nat (k + length (der_len n) + n) \<and>
      h = cbs_drop (k + length (der_len n)) s)"
    (is "?l \<longleftrightarrow> ?r")
proof (cases "drop k (cbs_bytes s)")
  case Nil
  have t: "wf_cbs (cbs_drop k s)" "cbs_bytes (cbs_drop k s) = []"
    using wf k Nil by (simp_all add: wf_cbs_drop cbs_bytes_drop)
  then show ?thesis using Nil by (simp add: len_part_def CBS_get_u8_spec)
next
  case (Cons b bs)
  let ?h = "cbs_drop (Suc k) s"
  have t: "wf_cbs (cbs_drop k s)" "cbs_bytes (cbs_drop k s) = b # bs"
    using wf k Cons by (simp_all add: wf_cbs_drop cbs_bytes_drop)
  have sk: "Suc k \<le> length (cbs_bytes s)" using arg_cong [OF Cons, of length] by simp
  have h: "wf_cbs ?h" "cbs_bytes ?h = bs"
    using wf sk Cons by (simp_all add: wf_cbs_drop cbs_bytes_drop) (metis drop_Suc list.sel(3) tl_drop)
  have g: "CBS_get_u8 (cbs_drop k s) = Some (Some b, ?h)" using t by (simp add: CBS_get_u8_spec)
  have hl: "cbs_len s - cbs_len ?h = of_nat (Suc k)" by (simp add: cbs_drop_def)
  show ?thesis
  proof (cases "cont b")
    case False
    have l: "?l \<longleftrightarrow> tag' = tag \<and> hl = of_nat (Suc k) \<and> len = of_nat (unat b) + of_nat (Suc k) \<and> h = ?h"
      using g False by (auto simp: len_part_def Let_def io_ret_def hl)
    have d: "der_len (unat b) = [b]" using False by (simp add: der_len_def cont_def)
    have b: "unat b < 2 ^ 32" by (rule less_le_trans [OF u8_bound]) simp
    show ?thesis
    proof
      assume ?l
      then show ?r unfolding l Cons using d b
        by (intro conjI exI [of _ "unat b"] exI [of _ bs]) (auto simp: add.commute)
    next
      assume ?r
      then obtain n rest where n: "tag' = tag" "n < 2 ^ 32" "b # bs = der_len n @ rest"
        "hl = of_nat (k + length (der_len n))" "len = of_nat (k + length (der_len n) + n)"
        "h = cbs_drop (k + length (der_len n)) s"
        unfolding Cons by blast
      then have "n = unat b" using der_len_prefix [OF n(3,2)] False by blast
      then show ?l unfolding l using n d by (simp add: algebra_simps)
    qed
  next
    case True
    let ?m = "ucast (b AND 0x7f) :: size_t"
    have m: "unat ?m = unat b mod 128" by (simp add: unat_low7)
    show ?thesis
    proof (cases "0 < unat ?m \<and> unat ?m \<le> 4 \<and> unat ?m \<le> length bs")
      case False
      have "\<not> ?r"
      proof
        assume ?r
        then obtain n rest where n: "b # bs = der_len n @ rest" "n < 2 ^ 32" unfolding Cons by blast
        show False using der_len_prefix [OF n] True False m by linarith
      qed
      moreover have "\<not> ?l"
        using g True False h cbs_get_u_spec [OF h(1), of ?m]
        by (auto simp: len_part_def Let_def hl word_less_nat_alt unat_gt_0)
      ultimately show ?thesis by blast
    next
      case mm: True
      let ?bs = "take (unat ?m) bs" and ?n = "be_val (take (unat ?m) bs)"
      have lb: "length ?bs = unat ?m" using mm by simp
      note ck = long_len_checks [OF _ _ lb, of "Suc k"]
      have d: "b # ?bs = der_len ?n \<longleftrightarrow> 128 \<le> ?n \<and> 256 ^ (unat ?m - 1) \<le> ?n"
        using der_len_long_iff [OF True, of ?bs] lb mm m by simp
      have l: "?l \<longleftrightarrow> b # ?bs = der_len ?n \<and> tag' = tag \<and> hl = of_nat (Suc k) + ?m \<and>
          len = of_nat ?n + (of_nat (Suc k) + ?m) \<and> h = cbs_drop (Suc k + unat ?m) s"
        using g True mm h cbs_get_u_spec [OF h(1), of ?m] ck k(1) unfolding d
        by (auto simp: len_part_def Let_def hl word_less_nat_alt unat_gt_0 io_ret_def not_less)
      have len: "length (der_len ?n) = Suc (unat ?m)" if "b # ?bs = der_len ?n"
        using arg_cong [OF that, of length] lb by simp
      show ?thesis
      proof
        assume ?l
        then have r: "b # ?bs = der_len ?n" "tag' = tag" "hl = of_nat (Suc k) + ?m"
          "len = of_nat ?n + (of_nat (Suc k) + ?m)" "h = cbs_drop (Suc k + unat ?m) s"
          using l by blast+
        have "drop k (cbs_bytes s) = der_len ?n @ drop (unat ?m) bs"
          unfolding Cons r(1) [symmetric] by simp
        then show ?r using r len [OF r(1)] ck(4) mm k(1)
          by (intro conjI exI [of _ ?n] exI [of _ "drop (unat ?m) bs"]) (auto simp: add.commute)
      next
        assume ?r
        then obtain n rest where n: "tag' = tag" "n < 2 ^ 32" "b # bs = der_len n @ rest"
          "hl = of_nat (k + length (der_len n))" "len = of_nat (k + length (der_len n) + n)"
          "h = cbs_drop (k + length (der_len n)) s"
          unfolding Cons by blast
        then have "n = ?n" "rest = drop (unat ?m) bs"
          using der_len_prefix [OF n(3,2)] True m by auto
        then have e: "b # ?bs = der_len ?n" using n(3) by (metis append_Cons append_eq_append_conv append_take_drop_id)
        show ?l unfolding l using e len [OF e] n \<open>n = ?n\<close> by (simp add: algebra_simps)
      qed
    qed
  qed
qed

lemma header_iff:
  assumes wf: "wf_cbs s"
  shows "asn1_header False (cbs_len s) s = Some (Some (tag, len, hl), h) \<longleftrightarrow>
    (\<exists>n rest. n < 2 ^ 32 \<and> cbs_bytes s = der_hdr tag n @ rest \<and>
      hl = of_nat (length (der_hdr tag n)) \<and> len = of_nat (length (der_hdr tag n) + n) \<and>
      h = cbs_drop (length (der_hdr tag n)) s)"
    (is "?l \<longleftrightarrow> ?r")
proof -
  let ?k = "length (der_tag tag)"
  have "?l \<longleftrightarrow> (\<exists>tag0 t. parse_asn1_tag s = Some (Some tag0, t) \<and>
      len_part tag0 (cbs_len s) t = Some (Some (tag, len, hl), h))"
    by (simp add: asn1_header_len_part io_bind_Some_iff)
  also have "\<dots> \<longleftrightarrow> (\<exists>tag0 rest0. cbs_bytes s = der_tag tag0 @ rest0 \<and>
      len_part tag0 (cbs_len s) (cbs_drop (length (der_tag tag0)) s) = Some (Some (tag, len, hl), h))"
    unfolding parse_asn1_tag_iff [OF wf] by blast
  also have "\<dots> \<longleftrightarrow> (\<exists>rest0. cbs_bytes s = der_tag tag @ rest0 \<and>
      (\<exists>n rest. n < 2 ^ 32 \<and> rest0 = der_len n @ rest \<and>
        hl = of_nat (?k + length (der_len n)) \<and> len = of_nat (?k + length (der_len n) + n) \<and>
        h = cbs_drop (?k + length (der_len n)) s))"
  proof -
    have "len_part tag0 (cbs_len s) (cbs_drop (length (der_tag tag0)) s) = Some (Some (tag, len, hl), h)
      \<longleftrightarrow> tag = tag0 \<and> (\<exists>n rest. n < 2 ^ 32 \<and> rest0 = der_len n @ rest \<and>
        hl = of_nat (length (der_tag tag0) + length (der_len n)) \<and>
        len = of_nat (length (der_tag tag0) + length (der_len n) + n) \<and>
        h = cbs_drop (length (der_tag tag0) + length (der_len n)) s)"
      if "cbs_bytes s = der_tag tag0 @ rest0" for tag0 rest0
      using len_part_iff [OF wf length_der_tag [of tag0]] that by simp
    then show ?thesis by (metis (no_types, lifting))
  qed
  also have "\<dots> \<longleftrightarrow> ?r"
    unfolding der_hdr_def by (auto simp: ac_simps)
  finally show ?thesis .
qed

lemma element_iff:
  assumes wf: "wf_cbs s"
  shows "cbs_get_any_asn1_element False s = Some (Some (out, tag, hl), t) \<longleftrightarrow>
    (\<exists>body rest. length body < 2 ^ 32 \<and> cbs_bytes s = der tag body @ rest \<and>
      out = cbs_take (length (der tag body)) s \<and>
      hl = of_nat (length (der_hdr tag (length body))) \<and>
      t = cbs_drop (length (der tag body)) s)"
    (is "?l \<longleftrightarrow> ?r")
proof -
  have l: "?l \<longleftrightarrow> (\<exists>len h. asn1_header False (cbs_len s) s = Some (Some (tag, len, hl), h) \<and>
      CBS_get_bytes len s = Some (Some out, t))"
    by (auto simp: cbs_get_any_asn1_element_def io_bind_Some_iff io_ret_def
        split: option.split prod.split)
  have b: "CBS_get_bytes (of_nat k) s = Some (Some out, t) \<longleftrightarrow>
      k \<le> length (cbs_bytes s) \<and> out = cbs_take k s \<and> t = cbs_drop k s" if "k < 2 ^ 64" for k
    using that CBS_get_bytes_spec [OF wf, of "of_nat k"] by (auto simp: unat_of_nat_mod)
  show ?thesis
  proof
    assume ?l
    then obtain n rest where n: "n < 2 ^ 32" "cbs_bytes s = der_hdr tag n @ rest"
      "hl = of_nat (length (der_hdr tag n))"
      "CBS_get_bytes (of_nat (length (der_hdr tag n) + n)) s = Some (Some out, t)"
      unfolding l header_iff [OF wf] by blast
    have "length (der_hdr tag n) + n < 2 ^ 64" using length_der_hdr [OF n(1), of tag] n(1) by simp
    then have o: "length (der_hdr tag n) + n \<le> length (cbs_bytes s)"
      "out = cbs_take (length (der_hdr tag n) + n) s" "t = cbs_drop (length (der_hdr tag n) + n) s"
      using b n(4) by blast+
    then have nr: "n \<le> length rest" using n(2) by simp
    let ?body = "take n rest"
    have "cbs_bytes s = der tag ?body @ drop n rest" using n(2) nr by (simp add: der_def)
    moreover have "length (der tag ?body) = length (der_hdr tag n) + n" "length ?body = n"
      using nr by (simp_all add: der_def)
    ultimately show ?r using o n by (intro exI [of _ ?body] exI [of _ "drop n rest"]) simp
  next
    assume ?r
    then obtain body rest where r: "length body < 2 ^ 32" "cbs_bytes s = der tag body @ rest"
      "out = cbs_take (length (der tag body)) s" "hl = of_nat (length (der_hdr tag (length body)))"
      "t = cbs_drop (length (der tag body)) s" by blast
    let ?n = "length body"
    have e: "length (der tag body) = length (der_hdr tag ?n) + ?n" by (simp add: der_def)
    have lt: "length (der tag body) < 2 ^ 64" using length_der_hdr [OF r(1), of tag] r(1) e by simp
    have "asn1_header False (cbs_len s) s = Some (Some (tag, of_nat (length (der tag body)), hl),
        cbs_drop (length (der_hdr tag ?n)) s)"
      unfolding header_iff [OF wf] using r e
      by (intro exI [of _ ?n] exI [of _ "body @ rest"]) (simp add: der_def)
    moreover have "CBS_get_bytes (of_nat (length (der tag body))) s = Some (Some out, t)"
      using b [OF lt] r by simp
    ultimately show ?l unfolding l by blast
  qed
qed

end
