(* ===== verification/Bs_Asn1.thy ===== *)
theory Bs_Asn1
  imports Bs_Der_Elem
begin

text \<open>
  The typed parsers of \<open>cbs.c\<close> on top of elements: none reads out of bounds, and the unsigned
  INTEGERs accepted are exactly the minimal DER encodings of 64-bit values.
\<close>

section \<open>No read out of bounds\<close>

lemma cbs_safe_if [intro]: "cbs_safe m \<Longrightarrow> cbs_safe m' \<Longrightarrow> cbs_safe (\<lambda>s. if P s then m s else m' s)"
  by (simp add: cbs_safe_def)

lemma cbs_safe_None [intro]: "cbs_safe (\<lambda>s. Some (None, s))"
  by (simp add: cbs_safe_def)

lemma cbs_safe_parse_tag [intro]: "cbs_safe parse_asn1_tag"
proof -
  have "cbs_safe (\<lambda>s. if P then Some (None, s) else io_ret a s)" for P and a :: u32
    by (auto simp: cbs_safe_def io_ret_def)
  then show ?thesis
    unfolding parse_asn1_tag_def Let_def
    by (intro cbs_safe_bind cbs_safe_get_u8) (auto intro!: cbs_safe_bind)
qed

lemma cbs_safe_header [intro]: "cbs_safe (asn1_header ber_ok n)"
  unfolding asn1_header_def Let_def
proof (intro cbs_safe_bind cbs_safe_parse_tag cbs_safe_get_u8)
  fix tag and lb :: u8
  have u: "cbs_safe (io_bind (cbs_get_u k) (\<lambda>len64 h. if P len64 then Some (None, h)
      else if Q len64 then Some (None, h) else if R len64 hl then Some (None, h)
      else io_ret (f len64 hl) h))"
    for k P Q and R :: "u64 \<Rightarrow> size_t \<Rightarrow> bool" and f :: "u64 \<Rightarrow> size_t \<Rightarrow> u32 \<times> size_t \<times> size_t" and hl
    by (intro cbs_safe_bind cbs_safe_get_u cbs_safe_if cbs_safe_None cbs_safe_ret)
  show "cbs_safe (\<lambda>header.
    if lb AND 0x80 = 0 then io_ret (tag, ucast lb + (n - cbs_len header), n - cbs_len header) header
    else if ber_ok \<and> tag AND CBS_ASN1_CONSTRUCTED \<noteq> 0 \<and> (ucast (lb AND 0x7f) :: size_t) = 0
    then io_ret (tag, n - cbs_len header, n - cbs_len header) header
    else if (ucast (lb AND 0x7f) :: size_t) = 0 \<or> 4 < (ucast (lb AND 0x7f) :: size_t)
    then Some (None, header)
    else io_bind (cbs_get_u (ucast (lb AND 0x7f)))
      (\<lambda>len64 h. if len64 < 128 then Some (None, h)
        else if drop_bit (unat ((ucast (lb AND 0x7f) - 1 :: size_t) * 8)) len64 = 0 then Some (None, h)
        else if len64 + (n - cbs_len header) + ucast (lb AND 0x7f) < len64 then Some (None, h)
        else io_ret (tag, len64 + (n - cbs_len header + ucast (lb AND 0x7f)),
                     n - cbs_len header + ucast (lb AND 0x7f)) h) header)"
    unfolding cbs_safe_def
  proof (intro allI impI)
    fix s assume "wf_cbs s"
    then show "\<exists>r t. (if lb AND 0x80 = 0
      then io_ret (tag, ucast lb + (n - cbs_len s), n - cbs_len s) s
      else if ber_ok \<and> tag AND CBS_ASN1_CONSTRUCTED \<noteq> 0 \<and> (ucast (lb AND 0x7f) :: size_t) = 0
      then io_ret (tag, n - cbs_len s, n - cbs_len s) s
      else if (ucast (lb AND 0x7f) :: size_t) = 0 \<or> 4 < (ucast (lb AND 0x7f) :: size_t)
      then Some (None, s)
      else io_bind (cbs_get_u (ucast (lb AND 0x7f)))
        (\<lambda>len64 h. if len64 < 128 then Some (None, h)
          else if drop_bit (unat ((ucast (lb AND 0x7f) - 1 :: size_t) * 8)) len64 = 0 then Some (None, h)
          else if len64 + (n - cbs_len s) + ucast (lb AND 0x7f) < len64 then Some (None, h)
          else io_ret (tag, len64 + (n - cbs_len s + ucast (lb AND 0x7f)),
                       n - cbs_len s + ucast (lb AND 0x7f)) h) s) = Some (r, t) \<and> wf_cbs t"
      using cbs_safeE [OF u [of "ucast (lb AND 0x7f)" "\<lambda>len64. len64 < 128"
            "\<lambda>len64. drop_bit (unat ((ucast (lb AND 0x7f) - 1 :: size_t) * 8)) len64 = 0"
            "\<lambda>len64 hl. len64 + hl + ucast (lb AND 0x7f) < len64" "n - cbs_len s"
            "\<lambda>len64 hl. (tag, len64 + (hl + ucast (lb AND 0x7f)), hl + ucast (lb AND 0x7f))"]]
      by (auto simp: io_ret_def)
  qed
qed

lemma cbs_safe_element [intro]: "cbs_safe_out (\<lambda>(out, tag, hl). Some out) (cbs_get_any_asn1_element ber_ok)"
  unfolding cbs_safe_out_def
proof (intro allI impI)
  fix s assume wf: "wf_cbs s"
  obtain r h where h: "asn1_header ber_ok (cbs_len s) s = Some (r, h)"
    using cbs_safeE [OF cbs_safe_header wf] by blast
  show "\<exists>r t. cbs_get_any_asn1_element ber_ok s = Some (r, t) \<and> wf_cbs t \<and>
      (\<forall>a c. r = Some a \<longrightarrow> (\<lambda>(out, tag, hl). Some out) a = Some c \<longrightarrow> wf_cbs c)"
  proof (cases r)
    case None
    then show ?thesis using h wf by (simp add: cbs_get_any_asn1_element_def)
  next
    case (Some p)
    obtain tag len hl where p: "p = (tag, len, hl)" by (cases p)
    show ?thesis
      using cbs_safe_outE [OF cbs_safe_get_bytes [of len] wf] h Some p
      by (auto simp: cbs_get_any_asn1_element_def io_bind_def io_ret_def split: option.split)
  qed
qed

lemma cbs_safe_skip: "wf_cbs s \<Longrightarrow> \<exists>r t. CBS_skip n s = Some (r, t) \<and> wf_cbs t"
  by (simp add: CBS_skip_spec wf_cbs_drop)

lemma cbs_safe_skip_header [intro]:
  assumes "wf_cbs out"
  shows "cbs_safe_out Some (skip_header out hl)"
  unfolding cbs_safe_out_def
proof (intro allI impI)
  fix s assume "wf_cbs s"
  obtain r t where "CBS_skip hl out = Some (r, t)" "wf_cbs t" using cbs_safe_skip [OF assms] by blast
  then show "\<exists>r t. skip_header out hl s = Some (r, t) \<and> wf_cbs t \<and>
      (\<forall>a c. r = Some a \<longrightarrow> Some a = Some c \<longrightarrow> wf_cbs c)"
    using \<open>wf_cbs s\<close> by (cases r) (auto simp: skip_header_def io_ret_def)
qed

lemma cbs_safe_out_ret: "(\<And>c. out a = Some c \<Longrightarrow> wf_cbs c) \<Longrightarrow> cbs_safe_out out (io_ret a)"
  by (auto simp: cbs_safe_out_def io_ret_def)

lemma cbs_safe_out_None [intro]: "cbs_safe_out out (\<lambda>s. Some (None, s))"
  by (simp add: cbs_safe_out_def)

lemma cbs_safe_out_if:
  "cbs_safe_out out m \<Longrightarrow> cbs_safe_out out m' \<Longrightarrow> cbs_safe_out out (\<lambda>s. if P then m s else m' s)"
  by (simp add: cbs_safe_out_def)

lemma cbs_safe_get_asn1_gen: "cbs_safe_out Some (cbs_get_asn1 tag skip)"
  unfolding cbs_get_asn1_def CBS_get_any_asn1_element_def
proof (rule cbs_safe_out_bind [OF cbs_safe_element], goal_cases)
  case (1 a)
  obtain out tg hl where a: "a = (out, tg, hl)" by (cases a)
  then have "wf_cbs out" using 1 by simp
  then show ?case
    unfolding a prod.case
    by (intro cbs_safe_out_if cbs_safe_out_None cbs_safe_skip_header cbs_safe_out_ret) auto
qed

lemma cbs_safe_get_asn1 [intro]: "cbs_safe_out Some (CBS_get_asn1 tag)"
  unfolding CBS_get_asn1_def by (rule cbs_safe_get_asn1_gen)

lemma cbs_safe_peek: "wf_cbs s \<Longrightarrow> \<exists>b. CBS_peek_asn1_tag s tag = Some b"
  using cbs_safeE [OF cbs_safe_parse_tag, of s] by (auto simp: CBS_peek_asn1_tag_def)

lemma cbs_safe_optional [intro]: "cbs_safe_out id (CBS_get_optional_asn1 tag)"
  unfolding cbs_safe_out_def
proof (intro allI impI)
  fix s assume wf: "wf_cbs s"
  obtain b where b: "CBS_peek_asn1_tag s tag = Some b" using cbs_safe_peek [OF wf] by blast
  show "\<exists>r t. CBS_get_optional_asn1 tag s = Some (r, t) \<and> wf_cbs t \<and>
      (\<forall>a c. r = Some a \<longrightarrow> id a = Some c \<longrightarrow> wf_cbs c)"
  proof (cases b)
    case False
    then show ?thesis using b wf by (simp add: CBS_get_optional_asn1_def io_ret_def)
  next
    case True
    show ?thesis
      using cbs_safe_outE [OF cbs_safe_get_asn1 [of tag] wf] b True
      by (auto simp: CBS_get_optional_asn1_def io_bind_def io_ret_def split: option.split)
  qed
qed

text \<open>A function that reads the whole contents of an element.\<close>

lemma cbs_safe_contents:
  assumes "\<And>data. cbs_safe (f data)"
  shows "cbs_safe (io_bind (CBS_get_asn1 tag)
    (\<lambda>bytes cbs. case mem_read (cbs_data bytes) 0 (unat (cbs_len bytes)) of
        None \<Rightarrow> None | Some data \<Rightarrow> f data cbs))"
proof (rule cbs_safe_bind_out [OF cbs_safe_get_asn1], goal_cases)
  case (1 a)
  then have "wf_cbs a" by simp
  then have "mem_read (cbs_data a) 0 (unat (cbs_len a)) = Some (cbs_bytes a)"
    using mem_read_cbs_data [of a "unat (cbs_len a)"] length_cbs_bytes [of a] by simp
  then show ?case using assms by simp
qed

lemma cbs_safe_uint64 [intro]: "cbs_safe CBS_get_asn1_uint64"
  unfolding CBS_get_asn1_uint64_def
  by (rule cbs_safe_contents) (simp add: cbs_safe_def)

lemma cbs_safe_int64 [intro]: "cbs_safe CBS_get_asn1_int64"
  unfolding CBS_get_asn1_int64_def
  by (rule cbs_safe_contents) (simp add: cbs_safe_def Let_def io_ret_def)

lemma wf_cbs_data_nonempty: "wf_cbs c \<Longrightarrow> cbs_len c = 1 \<Longrightarrow> \<exists>b rest. cbs_data c = b # rest"
  by (cases "cbs_data c") (auto simp: wf_cbs_def)

lemma cbs_safe_bool [intro]: "cbs_safe CBS_get_asn1_bool"
  unfolding CBS_get_asn1_bool_def
proof (rule cbs_safe_bind_out [OF cbs_safe_get_asn1], goal_cases)
  case (1 a)
  then have "wf_cbs a" by simp
  then show ?case
    using wf_cbs_data_nonempty [of a] by (auto simp: cbs_safe_def io_ret_def)
qed

lemma cbs_safe_whole_child: "cbs_safe m \<Longrightarrow> wf_cbs c \<Longrightarrow> cbs_safe (whole_child m c)"
  using cbs_safeE [of m c] by (auto simp: cbs_safe_def whole_child_def io_ret_def split: option.split)

lemma cbs_safe_optional_uint64 [intro]: "cbs_safe (CBS_get_optional_asn1_uint64 tag d)"
  unfolding CBS_get_optional_asn1_uint64_def
  by (rule cbs_safe_bind_out [OF cbs_safe_optional])
     (auto split: option.split intro!: cbs_safe_whole_child)

lemma cbs_safe_optional_octet_string [intro]: "cbs_safe (CBS_get_optional_asn1_octet_string tag)"
  unfolding CBS_get_optional_asn1_octet_string_def
  by (rule cbs_safe_bind_out [OF cbs_safe_optional])
     (auto split: option.split intro!: cbs_safe_whole_child cbs_safe_bind cbs_safe_out_safe [OF cbs_safe_get_asn1])

lemma cbs_safe_optional_bool [intro]: "cbs_safe (CBS_get_optional_asn1_bool tag d)"
  unfolding CBS_get_optional_asn1_bool_def
proof (rule cbs_safe_bind_out [OF cbs_safe_optional], goal_cases)
  case (1 a)
  show ?case
  proof (cases a)
    case None
    then show ?thesis by (auto simp: cbs_safe_def io_ret_def)
  next
    case (Some c)
    then have "wf_cbs c" using 1 by simp
    then obtain r t where g: "CBS_get_asn1 CBS_ASN1_BOOLEAN c = Some (r, t)"
      and r: "\<forall>b. r = Some b \<longrightarrow> wf_cbs b"
      using cbs_safe_outE [OF cbs_safe_get_asn1] by blast
    show ?thesis
    proof (cases r)
      case None
      then show ?thesis using Some g by (simp add: cbs_safe_def)
    next
      case (Some b)
      then show ?thesis
        using \<open>a = Some c\<close> g r wf_cbs_data_nonempty [of b]
        by (auto simp: cbs_safe_def io_ret_def)
    qed
  qed
qed

lemma cbs_safe_bitstring:
  assumes "wf_cbs s"
  shows "\<exists>b. CBS_is_valid_asn1_bitstring s = Some b"
proof (cases "cbs_bytes s")
  case Nil
  then show ?thesis using CBS_get_u8_spec [OF assms] by (auto simp: CBS_is_valid_asn1_bitstring_def)
next
  case (Cons b bs)
  let ?t = "cbs_drop 1 s"
  have t: "wf_cbs ?t" using Cons assms by (simp add: wf_cbs_drop)
  have "unat (cbs_len ?t - 1) < length (cbs_data ?t)" if "cbs_len ?t \<noteq> 0"
    using t that by (simp add: wf_cbs_def unat_minus_one unat_gt_0) (metis Suc_pred le_simps(3) unat_gt_0)
  then show ?thesis
    using CBS_get_u8_spec [OF assms] Cons
    by (auto simp: CBS_is_valid_asn1_bitstring_def CBS_get_last_u8_def Let_def)
qed

lemma cbs_safe_has_bit:
  assumes "wf_cbs s"
  shows "\<exists>b. CBS_asn1_bitstring_has_bit s n = Some b"
proof -
  obtain b where "CBS_is_valid_asn1_bitstring s = Some b" using cbs_safe_bitstring [OF assms] by blast
  moreover have "unat (drop_bit 3 n + 1) < length (cbs_data s)"
    if "ucast (drop_bit 3 n + 1) < cbs_len s"
    using that assms by (simp add: wf_cbs_def word_less_nat_alt)
  ultimately show ?thesis by (cases b) (auto simp: CBS_asn1_bitstring_has_bit_def Let_def)
qed

section \<open>Elements with a given tag\<close>

lemma skip_header_iff:
  "skip_header out hl cbs = Some (Some c, t) \<longleftrightarrow> CBS_skip hl out = Some (Some (), c) \<and> t = cbs"
  by (auto simp: skip_header_def io_ret_def split: option.splits)

lemma CBS_get_asn1_iff:
  assumes wf: "wf_cbs s"
  shows "CBS_get_asn1 tag s = Some (Some out, t) \<longleftrightarrow>
    (\<exists>body rest. length body < 2 ^ 32 \<and> cbs_bytes s = der tag body @ rest \<and>
      out = cbs_drop (length (der_hdr tag (length body))) (cbs_take (length (der tag body)) s) \<and>
      t = cbs_drop (length (der tag body)) s)"
    (is "?l \<longleftrightarrow> ?r")
proof -
  have "?l \<longleftrightarrow> (\<exists>out0 hl. cbs_get_any_asn1_element False s = Some (Some (out0, tag, hl), t) \<and>
      (\<exists>c. CBS_skip hl out0 = Some (Some (), c) \<and> out = c))"
    by (auto simp: CBS_get_asn1_def cbs_get_asn1_def CBS_get_any_asn1_element_def io_bind_Some_iff
        skip_header_iff split: if_splits)
  also have "\<dots> \<longleftrightarrow> ?r"
  proof -
    have "CBS_skip (of_nat (length (der_hdr tag (length body)))) (cbs_take (length (der tag body)) s)
        = Some (Some (), cbs_drop (length (der_hdr tag (length body))) (cbs_take (length (der tag body)) s))"
      if "length body < 2 ^ 32" "cbs_bytes s = der tag body @ rest" for body rest
    proof -
      have w: "wf_cbs (cbs_take (length (der tag body)) s)"
        "cbs_bytes (cbs_take (length (der tag body)) s) = der tag body"
        using wf that by (simp_all add: wf_cbs_take cbs_bytes_take)
      have "unat (of_nat (length (der_hdr tag (length body))) :: size_t) = length (der_hdr tag (length body))"
        using length_der_hdr [OF that(1), of tag] by (subst unat_of_nat_mod) simp
      then show ?thesis using CBS_skip_spec [OF w(1)] w(2) by (simp add: der_def)
    qed
    note skip = this
    show ?thesis
      unfolding element_iff [OF wf]
    proof (rule iffI, goal_cases)
      case 1
      then obtain body rest where b: "length body < 2 ^ 32" "cbs_bytes s = der tag body @ rest"
        "CBS_skip (of_nat (length (der_hdr tag (length body)))) (cbs_take (length (der tag body)) s)
           = Some (Some (), out)"
        "t = cbs_drop (length (der tag body)) s" by blast
      then show ?case using skip [OF b(1,2)] by auto
    next
      case 2
      then obtain body rest where b: "length body < 2 ^ 32" "cbs_bytes s = der tag body @ rest"
        "out = cbs_drop (length (der_hdr tag (length body))) (cbs_take (length (der tag body)) s)"
        "t = cbs_drop (length (der tag body)) s" by blast
      then show ?case using skip [OF b(1,2)] by blast
    qed
  qed
  finally show ?thesis .
qed

lemma asn1_contents:
  assumes "wf_cbs s" and "length body < 2 ^ 32" and "cbs_bytes s = der tag body @ rest"
  defines "c \<equiv> cbs_drop (length (der_hdr tag (length body))) (cbs_take (length (der tag body)) s)"
  shows "wf_cbs c" "cbs_bytes c = body" "mem_read (cbs_data c) 0 (unat (cbs_len c)) = Some body"
proof -
  have w: "wf_cbs (cbs_take (length (der tag body)) s)"
    "cbs_bytes (cbs_take (length (der tag body)) s) = der tag body"
    using assms by (simp_all add: wf_cbs_take cbs_bytes_take)
  then show c: "wf_cbs c" "cbs_bytes c = body"
    unfolding c_def by (simp_all add: wf_cbs_drop cbs_bytes_drop der_def)
  show "mem_read (cbs_data c) 0 (unat (cbs_len c)) = Some body"
    using mem_read_cbs_data [OF c(1), of "unat (cbs_len c)"] length_cbs_bytes [OF c(1)] c(2) by simp
qed

section \<open>Unsigned integers\<close>

definition der_uint :: "nat \<Rightarrow> u8 list" where
  "der_uint n =
     (if n = 0 then [0]
      else let bs = be_bytes (num_bytes n) n in if cont (hd bs) then 0 # bs else bs)"

lemma be_val_Cons: "be_val (b # bs) = unat b * 256 ^ length bs + be_val bs"
proof (induction bs rule: rev_induct)
  case Nil
  then show ?case by (simp add: be_val_def)
next
  case (snoc x xs)
  then have "be_val ((b # xs) @ [x]) = (unat b * 256 ^ length xs + be_val xs) * 256 + unat x"
    by (simp only: be_val_snoc)
  then show ?case by (simp add: algebra_simps)
qed

lemma num_bytes_be_val: "b \<noteq> 0 \<Longrightarrow> num_bytes (be_val (b # bs)) = length (b # bs)"
proof -
  assume "b \<noteq> 0"
  then have "1 \<le> unat b" by (simp add: unat_gt_0 Suc_le_eq)
  then have "256 ^ length bs \<le> unat b * 256 ^ length bs" by (cases "unat b") simp_all
  then have lo: "256 ^ length bs \<le> be_val (b # bs)" unfolding be_val_Cons by linarith
  moreover have "be_val (b # bs) < 256 ^ Suc (length bs)" using be_val_bound [of "b # bs"] by simp
  moreover have "0 < be_val (b # bs)" using lo by (meson less_le_trans zero_less_numeral zero_less_power)
  ultimately show ?thesis using num_bytes_iff [of "be_val (b # bs)" "length bs"] by simp
qed

lemma be_bytes_be_val: "b \<noteq> 0 \<Longrightarrow> be_bytes (num_bytes (be_val (b # bs))) (be_val (b # bs)) = b # bs"
  using be_bytes_val [of "b # bs"] num_bytes_be_val [of b bs] by simp

lemma be_val_nonzero: "b \<noteq> 0 \<Longrightarrow> be_val (b # bs) \<noteq> 0"
  by (metis length_0_conv list.distinct(1) num_bytes.simps num_bytes_be_val)

lemma hd_be_bytes:
  assumes "n \<noteq> 0"
  shows "\<exists>b bs. be_bytes (num_bytes n) n = b # bs \<and> b \<noteq> 0"
proof -
  have k: "0 < num_bytes n" "n < 256 ^ num_bytes n" using assms num_bytes_pos num_bytes_bound by auto
  then obtain b bs where bs: "be_bytes (num_bytes n) n = b # bs"
    by (metis length_be_bytes length_greater_0_conv list.exhaust)
  have v: "be_val (b # bs) = n" using be_val_bytes [of "num_bytes n" n] k bs by simp
  have l: "num_bytes n = Suc (length bs)" using arg_cong [OF bs, of length] by simp
  have "b \<noteq> 0"
  proof
    assume "b = 0"
    then have "n < 256 ^ length bs" using v be_val_bound [of bs] by (simp add: be_val_Cons)
    then show False using num_bytes_iff [of n "length bs"] assms l by simp
  qed
  then show ?thesis using bs by blast
qed

lemma cont_0 [simp]: "\<not> cont 0"
  by (simp add: cont_def)

lemma der_uint_val: "be_val (der_uint n) = n"
proof (cases "n = 0")
  case True
  then show ?thesis by (simp add: der_uint_def be_val_def)
next
  case False
  then have "be_val (be_bytes (num_bytes n) n) = n"
    using num_bytes_bound [of n] by (simp add: be_val_bytes)
  then show ?thesis using False by (simp add: der_uint_def Let_def be_val_Cons)
qed

text \<open>The checks of \<open>CBS_get_asn1_uint64\<close> accept exactly the minimal encodings.\<close>

lemma der_uint_iff:
  "data \<noteq> [] \<and> \<not> cont (data ! 0) \<and> \<not> (data ! 0 = 0 \<and> 1 < length data \<and> \<not> cont (data ! 1))
   \<longleftrightarrow> data = der_uint (be_val data)"
proof (cases data)
  case Nil
  then show ?thesis by (auto simp: der_uint_def be_val_def)
next
  case (Cons b bs)
  show ?thesis
  proof (cases "b = 0")
    case False
    then show ?thesis
      using Cons be_bytes_be_val [of b bs] be_val_nonzero [of b bs] by (auto simp: der_uint_def Let_def)
  next
    case True
    then have v: "be_val data = be_val bs" using Cons by (simp add: be_val_Cons)
    show ?thesis
    proof (cases bs)
      case Nil
      then show ?thesis using Cons True by (simp add: der_uint_def be_val_def)
    next
      case c: (Cons b' bs')
      show ?thesis
      proof (cases "b' = 0")
        case False
        then show ?thesis
          using Cons True c v be_bytes_be_val [of b' bs'] be_val_nonzero [of b' bs']
          by (auto simp: der_uint_def Let_def)
      next
        case z: True
        have "data \<noteq> der_uint n" for n
          using hd_be_bytes [of n] Cons True c z by (cases "n = 0") (auto simp: der_uint_def Let_def)
        then show ?thesis using Cons True c z by auto
      qed
    qed
  qed
qed

lemma foldl_be_mono: "n \<le> foldl (\<lambda>n b. n * 256 + unat (b :: u8)) n bs"
proof (induction bs arbitrary: n)
  case Nil
  then show ?case by simp
next
  case (Cons b bs)
  have "n \<le> n * 256 + unat b" by simp
  also have "\<dots> \<le> foldl (\<lambda>n b. n * 256 + unat b) n (b # bs)" using Cons by simp
  finally show ?case .
qed

lemma uint64_loop_iff:
  "uint64_loop r bs = Some v \<longleftrightarrow>
   foldl (\<lambda>n b. n * 256 + unat b) (unat r) bs < 2 ^ 64 \<and>
   unat v = foldl (\<lambda>n b. n * 256 + unat b) (unat r) bs"
proof (induction bs arbitrary: r)
  case Nil
  then show ?case using unat_bound [of r] by (auto simp: word_unat_eq_iff)
next
  case (Cons b bs)
  show ?case
  proof (cases "drop_bit 56 r = 0")
    case True
    then have "unat (drop_bit 56 r) = 0" by simp
    then have r: "unat r < 2 ^ 56" unfolding unat_drop_bit by (simp add: div_eq_0_iff)
    have "unat (push_bit 8 r OR ucast b) = unat r * 256 + unat b"
      using unat_or_push_bit [of "ucast b :: u64" 8 r] r by (simp add: or.commute)
    then show ?thesis using True Cons by simp
  next
    case False
    then have "unat (drop_bit 56 r) \<noteq> 0" by (simp add: unat_eq_0)
    then have "2 ^ 56 \<le> unat r" unfolding unat_drop_bit by (metis div_less not_le)
    then have "2 ^ 64 \<le> unat r * 256 + unat b" by simp
    also have "\<dots> \<le> foldl (\<lambda>n b. n * 256 + unat b) (unat r * 256 + unat b) bs" by (rule foldl_be_mono)
    finally show ?thesis using False by simp
  qed
qed

lemma CBS_get_asn1_uint64_iff:
  assumes wf: "wf_cbs s"
  shows "CBS_get_asn1_uint64 s = Some (Some v, t) \<longleftrightarrow>
    (\<exists>rest. cbs_bytes s = der CBS_ASN1_INTEGER (der_uint (unat v)) @ rest \<and>
       t = cbs_drop (length (der CBS_ASN1_INTEGER (der_uint (unat v)))) s)"
    (is "?l \<longleftrightarrow> ?r")
proof -
  let ?T = CBS_ASN1_INTEGER
  have parse: "(if data = [] then Some (None, t)
      else if data ! 0 AND 0x80 \<noteq> 0 then Some (None, t)
      else if data ! 0 = 0 \<and> 1 < length data \<and> data ! 1 AND 0x80 = 0 then Some (None, t)
      else Some (uint64_loop 0 data, t)) = Some (Some v, t) \<longleftrightarrow> data = der_uint (unat v)" for data
  proof -
    have "uint64_loop 0 data = Some v \<longleftrightarrow> be_val data < 2 ^ 64 \<and> unat v = be_val data"
      using uint64_loop_iff [of 0 data v] by (simp add: be_val_def)
    moreover have "unat v < 2 ^ 64" using unat_bound [of v] by simp
    ultimately show ?thesis
      using der_uint_iff [of data] der_uint_val [of "unat v"] by auto
  qed
  have len: "length (der_uint (unat v)) < 2 ^ 32"
  proof -
    have "num_bytes (unat v) \<le> 8"
    proof (rule ccontr)
      assume "\<not> num_bytes (unat v) \<le> 8"
      then obtain k where k: "num_bytes (unat v) = Suc k" "8 \<le> k" by (cases "num_bytes (unat v)") auto
      then have "unat v \<noteq> 0" by (metis nat.distinct(1) num_bytes_0)
      then have "256 ^ k \<le> unat v" using num_bytes_iff [of "unat v" k] k by simp
      moreover have "(256::nat) ^ 8 \<le> 256 ^ k" using k by (intro power_increasing) auto
      moreover have "unat v < 2 ^ 64" using unat_bound [of v] by simp
      ultimately show False by simp
    qed
    then show ?thesis by (simp add: der_uint_def Let_def)
  qed
  have "?l \<longleftrightarrow> (\<exists>body rest. length body < 2 ^ 32 \<and> cbs_bytes s = der ?T body @ rest \<and>
      t = cbs_drop (length (der ?T body)) s \<and> body = der_uint (unat v))"
  proof
    assume ?l
    then obtain c u where c: "CBS_get_asn1 ?T s = Some (Some c, u)"
      and f: "(case mem_read (cbs_data c) 0 (unat (cbs_len c)) of
          None \<Rightarrow> None
        | Some data \<Rightarrow>
            if data = [] then Some (None, u)
            else if data ! 0 AND 0x80 \<noteq> 0 then Some (None, u)
            else if data ! 0 = 0 \<and> 1 < length data \<and> data ! 1 AND 0x80 = 0 then Some (None, u)
            else Some (uint64_loop 0 data, u)) = Some (Some v, t)"
      unfolding CBS_get_asn1_uint64_def io_bind_Some_iff by blast
    obtain body rest where b: "length body < 2 ^ 32" "cbs_bytes s = der ?T body @ rest"
      "c = cbs_drop (length (der_hdr ?T (length body))) (cbs_take (length (der ?T body)) s)"
      "u = cbs_drop (length (der ?T body)) s"
      using c unfolding CBS_get_asn1_iff [OF wf] by blast
    have m: "mem_read (cbs_data c) 0 (unat (cbs_len c)) = Some body"
      using asn1_contents(3) [OF wf b(1,2)] b(3) by simp
    then have "u = t" using f by (auto split: if_splits)
    then have "body = der_uint (unat v)" using f unfolding m \<open>u = t\<close> option.case parse by simp
    then show "\<exists>body rest. length body < 2 ^ 32 \<and> cbs_bytes s = der ?T body @ rest \<and>
      t = cbs_drop (length (der ?T body)) s \<and> body = der_uint (unat v)"
      using b \<open>u = t\<close> by blast
  next
    assume "\<exists>body rest. length body < 2 ^ 32 \<and> cbs_bytes s = der ?T body @ rest \<and>
      t = cbs_drop (length (der ?T body)) s \<and> body = der_uint (unat v)"
    then obtain body rest where b: "length body < 2 ^ 32" "cbs_bytes s = der ?T body @ rest"
      "t = cbs_drop (length (der ?T body)) s" "body = der_uint (unat v)" by blast
    let ?c = "cbs_drop (length (der_hdr ?T (length body))) (cbs_take (length (der ?T body)) s)"
    have c: "CBS_get_asn1 ?T s = Some (Some ?c, t)" unfolding CBS_get_asn1_iff [OF wf] using b by blast
    have "(case mem_read (cbs_data ?c) 0 (unat (cbs_len ?c)) of
          None \<Rightarrow> None
        | Some data \<Rightarrow>
            if data = [] then Some (None, t)
            else if data ! 0 AND 0x80 \<noteq> 0 then Some (None, t)
            else if data ! 0 = 0 \<and> 1 < length data \<and> data ! 1 AND 0x80 = 0 then Some (None, t)
            else Some (uint64_loop 0 data, t)) = Some (Some v, t)"
      unfolding asn1_contents(3) [OF wf b(1,2)] option.case parse by (rule b(4))
    then show ?l unfolding CBS_get_asn1_uint64_def io_bind_Some_iff using c by blast
  qed
  also have "\<dots> \<longleftrightarrow> ?r" using len by auto
  finally show ?thesis .
qed

end
