(* ===== verification/Bs_Cbb_Spec.thy ===== *)
theory Bs_Cbb_Spec
  imports Bs_Cbb Bs_Asn1
begin

text \<open>
  What the operations of \<open>cbb.c\<close> append to the buffer.  The contract \<open>appends\<close> says that an
  operation on the \<open>CBB\<close> at a given depth succeeds while there is room and adds exactly the given
  bytes; it is closed under sequencing, length prefixes and ASN.1 elements.
\<close>

section \<open>The buffer\<close>

definition malloc_total :: "malloc_fun \<Rightarrow> bool" where
  "malloc_total malloc \<longleftrightarrow> (\<forall>n. unat n < 2 ^ 63 \<longrightarrow> malloc n \<noteq> None)"

definition wf_buf :: "cbb_buffer \<Rightarrow> bool" where
  "wf_buf b \<longleftrightarrow> cb_buf b \<noteq> None \<and> length (the (cb_buf b)) = unat (cb_cap b) \<and>
     cb_len b \<le> cb_cap b \<and> unat (cb_cap b) + 8 < 2 ^ 63 \<and> \<not> cb_error b"

definition contents :: "cbb_buffer \<Rightarrow> u8 list" where
  "contents b = take (unat (cb_len b)) (the (cb_buf b))"

text \<open>The buffer can come to hold \<open>L\<close> bytes: it has the capacity, or it can grow.\<close>

definition room :: "malloc_fun \<Rightarrow> nat \<Rightarrow> cbb_buffer \<Rightarrow> bool" where
  "room malloc L b \<longleftrightarrow>
     L \<le> unat (cb_cap b) \<or>
     can_resize b \<and> alloc_ok malloc \<and> malloc_total malloc \<and> L < 2 ^ 61 \<and> unat (cb_cap b) \<le> 2 ^ 62"

definition holds :: "malloc_fun \<Rightarrow> nat \<Rightarrow> cbb_buffer \<Rightarrow> u8 list \<Rightarrow> bool" where
  "holds malloc L b c \<longleftrightarrow> wf_buf b \<and> room malloc L b \<and> contents b = c"

lemma length_contents: "wf_buf b \<Longrightarrow> length (contents b) = unat (cb_len b)"
  by (simp add: wf_buf_def contents_def word_le_nat_alt)

lemma wf_block_of:
  assumes "length m + 8 < 2 ^ 63"
  shows "wf_block (block_of m)" "payload_of (block_of m) = m"
  using assms by (simp_all add: wf_block_def block_of_def payload_of_def le_val_bytes)

lemma realloc_buf_Some:
  assumes "alloc_ok malloc" "malloc_total malloc" and "length m + 8 < 2 ^ 63" and "unat n + 8 < 2 ^ 63"
  shows "\<exists>m'. realloc_buf malloc (Some m) n = Some (Some m') \<and> length m' = unat n \<and>
    take (min (length m) (unat n)) m' = take (min (length m) (unat n)) m"
proof -
  have n: "unat n + 8 < 2 ^ 64" using assms(4) by simp
  have "unat (n + OPENSSL_MALLOC_PREFIX) < 2 ^ 63" using add_prefix [OF n] assms(4) by simp
  then obtain blk where "malloc (n + OPENSSL_MALLOC_PREFIX) = Some blk"
    using assms(2) by (auto simp: malloc_total_def)
  from OPENSSL_realloc_Some [OF assms(1) wf_block_of(1) [OF assms(3)] n this]
  show ?thesis using wf_block_of(2) [OF assms(3)] by (auto simp: realloc_buf_def Let_def)
qed

lemma cbb_buffer_add_room:
  assumes wf: "wf_buf b" and r: "room malloc L b" and n: "unat (cb_len b) + unat n \<le> L"
  shows "\<exists>b'. cbb_buffer_add malloc n b = Some (Some (unat (cb_len b)), b') \<and> wf_buf b' \<and>
    room malloc L b' \<and> unat (cb_len b') = unat (cb_len b) + unat n \<and>
    take (unat (cb_len b)) (the (cb_buf b')) = contents b"
proof -
  let ?len = "cb_len b" and ?cap = "cb_cap b"
  have cap: "unat ?cap + 8 < 2 ^ 63" "unat ?len \<le> unat ?cap"
    using wf by (auto simp: wf_buf_def word_le_nat_alt)
  have L: "L < 2 ^ 63" using r cap(1) by (auto simp: room_def)
  have nl: "unat (?len + n) = unat ?len + unat n" using n L by (simp add: unat_word_ariths)
  then have no: "\<not> ?len + n < ?len" by (simp add: word_less_nat_alt)
  show ?thesis
  proof (cases "?cap < ?len + n")
    case False
    let ?b = "b\<lparr>cb_len := ?len + n\<rparr>"
    have "cbb_buffer_add malloc n b = Some (Some (unat ?len), ?b)"
      using False no by (simp add: cbb_buffer_add_def cbb_buffer_reserve_def Let_def io_ret_def)
    moreover have "wf_buf ?b" "room malloc L ?b"
      using wf r False by (auto simp: wf_buf_def room_def not_less)
    ultimately show ?thesis using nl by (auto simp: contents_def)
  next
    case True
    let ?new = "if ?cap * 2 < ?cap \<or> ?cap * 2 < ?len + n then ?len + n else ?cap * 2"
    have "unat ?cap < L" using True nl n by (simp add: word_less_nat_alt)
    then have g: "can_resize b" "alloc_ok malloc" "malloc_total malloc" "L < 2 ^ 61" "unat ?cap \<le> 2 ^ 62"
      and small: "unat ?cap < 2 ^ 61"
      using r by (auto simp: room_def)
    have "unat (?cap * 2) = unat ?cap * 2" using small by (simp add: unat_word_ariths)
    then have new: "unat ?new \<le> 2 ^ 62" "unat ?len + unat n \<le> unat ?new"
      using small nl n g(4) by (auto simp: word_less_nat_alt not_less)
    obtain m where m: "cb_buf b = Some m" "length m = unat ?cap"
      using wf by (auto simp: wf_buf_def)
    obtain m' where m': "realloc_buf malloc (Some m) ?new = Some (Some m')" "length m' = unat ?new"
      "take (min (length m) (unat ?new)) m' = take (min (length m) (unat ?new)) m"
      using realloc_buf_Some [OF g(2,3), of m ?new] m(2) cap(1) new(1) by auto
    have keep: "take (unat ?len) m' = take (unat ?len) m"
    proof -
      have "unat ?len \<le> min (length m) (unat ?new)" using m(2) cap(2) new(2) by simp
      then show ?thesis using arg_cong [OF m'(3), of "take (unat ?len)"] by (simp add: min_absorb1)
    qed
    let ?b = "b\<lparr>cb_buf := Some m', cb_cap := ?new, cb_len := ?len + n\<rparr>"
    have "cbb_buffer_add malloc n b = Some (Some (unat ?len), ?b)"
      using True no g(1) m(1) m'(1)
      by (simp add: cbb_buffer_add_def cbb_buffer_reserve_def Let_def io_ret_def)
    moreover have "wf_buf ?b"
      using wf m'(2) new nl by (simp add: wf_buf_def word_le_nat_alt)
    moreover have "room malloc L ?b" using g new by (simp add: room_def)
    ultimately show ?thesis using nl keep m(1) by (auto simp: contents_def)
  qed
qed

text \<open>Overwriting bytes below \<open>cb_len\<close>.\<close>

lemma buf_store_wf:
  assumes wf: "wf_buf b" and r: "room malloc L b" and o: "off + length bs \<le> unat (cb_len b)"
  shows "\<exists>b'. buf_store off bs b = Some (Some (), b') \<and> wf_buf b' \<and> room malloc L b' \<and>
    cb_len b' = cb_len b \<and>
    contents b' = take off (contents b) @ bs @ drop (off + length bs) (contents b)"
proof (cases "bs = []")
  case True
  then show ?thesis using wf r by (auto simp: buf_store_def io_ret_def)
next
  case False
  obtain m where m: "cb_buf b = Some m" "length m = unat (cb_cap b)" using wf by (auto simp: wf_buf_def)
  have l: "unat (cb_len b) \<le> length m" using wf m by (auto simp: wf_buf_def word_le_nat_alt)
  let ?m = "take off m @ bs @ drop (off + length bs) m"
  let ?b = "b\<lparr>cb_buf := Some ?m\<rparr>"
  have "buf_store off bs b = Some (Some (), ?b)"
    using False m o l by (simp add: buf_store_def mem_write_def io_ret_def)
  moreover have "wf_buf ?b" "room malloc L ?b" using wf m r o l by (auto simp: wf_buf_def room_def)
  moreover have "contents ?b = take off (contents b) @ bs @ drop (off + length bs) (contents b)"
    using m o l by (simp add: contents_def drop_take min_absorb2)
  ultimately show ?thesis by auto
qed

lemma add_store_holds:
  assumes h: "holds malloc L b c" and n: "length c + length bs \<le> L"
  shows "\<exists>b'. io_bind (cbb_buffer_add malloc (of_nat (length bs))) (\<lambda>off. buf_store off bs) b
      = Some (Some (), b') \<and> holds malloc L b' (c @ bs)"
proof -
  have wf: "wf_buf b" and r: "room malloc L b" and c: "contents b = c" using h by (auto simp: holds_def)
  have lc: "unat (cb_len b) = length c" using length_contents [OF wf] c by simp
  have "L < 2 ^ 63" using r wf by (auto simp: room_def wf_buf_def)
  then have un: "unat (of_nat (length bs) :: size_t) = length bs" using n by (simp add: unat_of_nat_mod)
  obtain b' where b': "cbb_buffer_add malloc (of_nat (length bs)) b = Some (Some (length c), b')"
    "wf_buf b'" "room malloc L b'" "unat (cb_len b') = length c + length bs"
    "take (length c) (the (cb_buf b')) = c"
    using cbb_buffer_add_room [OF wf r, of "of_nat (length bs)"] n un lc c by auto
  have t: "take (length c) (contents b') = c" "length (contents b') = length c + length bs"
    using b'(4,5) length_contents [OF b'(2)] by (simp_all add: contents_def min_absorb1)
  obtain b'' where "buf_store (length c) bs b' = Some (Some (), b'')" "wf_buf b''" "room malloc L b''"
    "contents b'' = take (length c) (contents b') @ bs @ drop (length c + length bs) (contents b')"
    using buf_store_wf [OF b'(2,3), of "length c" bs] b'(4) by auto
  then show ?thesis using b'(1) t by (auto simp: holds_def)
qed

lemma be_store_eq: "be_store n v = (be_bytes n (unat v), drop_bit (8 * n) v)"
proof (induction n arbitrary: v)
  case 0
  then show ?case by (simp add: be_bytes_def)
next
  case (Suc n)
  have "be_bytes (Suc n) (unat v) = be_bytes n (unat v div 256) @ [of_nat (unat v mod 256)]"
    by (simp add: be_bytes_def)
  moreover have "(of_nat (unat v mod 256) :: u8) = ucast v"
    by (intro unat_eqI) (simp add: unat_of_nat_mod unat_ucast_mod)
  moreover have "unat (drop_bit 8 v) = unat v div 256" using unat_drop_bit [of 8 v] by simp
  ultimately show ?case by (simp add: Suc add.commute)
qed

lemma drop_bit_eq_0: "drop_bit (8 * n) (v :: u64) = 0 \<longleftrightarrow> unat v < 256 ^ n"
proof -
  have "drop_bit (8 * n) v = 0 \<longleftrightarrow> unat (drop_bit (8 * n) v) = 0" by (simp only: unat_eq_0)
  also have "\<dots> \<longleftrightarrow> unat v < 2 ^ (8 * n)" unfolding unat_drop_bit by (simp add: div_eq_0_iff)
  finally show ?thesis by (simp add: power_mult)
qed

lemma cbb_buffer_add_u_holds:
  assumes h: "holds malloc L b c" and n: "length c + unat n \<le> L" and v: "unat v < 256 ^ unat n"
    and nz: "n \<noteq> 0"
  shows "\<exists>b'. cbb_buffer_add_u malloc v n b = Some (Some (), b') \<and>
    holds malloc L b' (c @ be_bytes (unat n) (unat v))"
proof -
  have "cbb_buffer_add_u malloc v n b
      = io_bind (cbb_buffer_add malloc (of_nat (length (be_bytes (unat n) (unat v)))))
          (\<lambda>off. buf_store off (be_bytes (unat n) (unat v))) b"
    using nz v drop_bit_eq_0 [of "unat n" v]
    by (auto simp: cbb_buffer_add_u_def be_store_eq io_bind_def io_ret_def split: option.split)
  then show ?thesis
    using add_store_holds [OF h, of "be_bytes (unat n) (unat v)"] n by simp
qed

section \<open>Writing a pending length\<close>

lemma holds_len: "holds malloc L b c \<Longrightarrow> unat (cb_len b) = length c"
  using length_contents [of b] by (auto simp: holds_def)

lemma holds_bound: "holds malloc L b c \<Longrightarrow> L < 2 ^ 63"
  by (auto simp: holds_def room_def wf_buf_def)

lemma buf_store_holds:
  assumes h: "holds malloc L b c" and o: "off + length bs \<le> length c"
  shows "\<exists>b'. buf_store off bs b = Some (Some (), b') \<and>
    holds malloc L b' (take off c @ bs @ drop (off + length bs) c)"
  using buf_store_wf [of b malloc L off bs] h o holds_len [OF h] by (auto simp: holds_def)

lemma of_nat_small: "k < 2 ^ 63 \<Longrightarrow> unat (of_nat k :: size_t) = k"
  by (simp add: unat_of_nat_mod)

lemma pending_sizes:
  assumes h: "holds malloc L b (pre @ pad @ body)" and len: "length (pre @ pad @ body) \<le> L"
    and k: "length pad < 256" and c: "c = \<lparr>cc_offset = of_nat (length pre),
      pending_len_len = of_nat (length pad), pending_is_asn1 = a\<rparr>"
  shows "cc_offset c + ucast (pending_len_len c) = of_nat (length pre + length pad)"
    and "unat (cc_offset c) = length pre"
    and "unat (of_nat (length pre + length pad) :: size_t) = length pre + length pad"
    and "\<not> (of_nat (length pre + length pad) < cc_offset c)"
    and "\<not> cb_len b < of_nat (length pre + length pad)"
    and "cb_len b - of_nat (length pre + length pad) = of_nat (length body)"
    and "unat (of_nat (length body) :: size_t) = length body"
proof -
  have L: "L < 2 ^ 63" using holds_bound [OF h] .
  have lt: "length pre + length pad + length body < 2 ^ 63" using len L by simp
  have up: "unat (of_nat (length pad) :: u8) = length pad" using k by (simp add: unat_of_nat_mod)
  have "(ucast (of_nat (length pad) :: u8) :: size_t) = of_nat (length pad)"
    by (rule unat_eqI) (use k lt up in \<open>simp add: of_nat_small\<close>)
  then show "cc_offset c + ucast (pending_len_len c) = of_nat (length pre + length pad)"
    by (simp add: c)
  show o: "unat (cc_offset c) = length pre" using lt by (simp add: c of_nat_small)
  show s: "unat (of_nat (length pre + length pad) :: size_t) = length pre + length pad"
    using lt by (simp add: of_nat_small del: of_nat_add)
  show "\<not> (of_nat (length pre + length pad) < cc_offset c)"
    unfolding word_less_nat_alt o s by simp
  have b: "unat (cb_len b) = length pre + length pad + length body" using holds_len [OF h] by simp
  show "\<not> cb_len b < of_nat (length pre + length pad)"
    unfolding word_less_nat_alt s b by simp
  show "unat (of_nat (length body) :: size_t) = length body" using lt by (simp add: of_nat_small)
  have "cb_len b = of_nat (length pre + length pad + length body)"
    using b lt by (intro unat_eqI) (simp only: of_nat_small)
  then show "cb_len b - of_nat (length pre + length pad) = of_nat (length body)" by simp
qed

lemma write_prefix_plain:
  assumes h: "holds malloc L b (pre @ pad @ body)" and len: "length (pre @ pad @ body) \<le> L"
    and k: "length pad < 256" and body: "length body < 256 ^ length pad"
  shows "\<exists>b'. write_prefix malloc \<lparr>cc_offset = of_nat (length pre),
      pending_len_len = of_nat (length pad), pending_is_asn1 = False\<rparr> b = Some (Some (), b') \<and>
    holds malloc L b' (pre @ be_bytes (length pad) (length body) @ body)"
proof -
  let ?c = "\<lparr>cc_offset = of_nat (length pre), pending_len_len = of_nat (length pad),
    pending_is_asn1 = False\<rparr>"
  note s = pending_sizes [OF h len k, of ?c False, OF refl]
  have up: "unat (of_nat (length pad) :: u8) = length pad" using k by (simp add: unat_of_nat_mod)
  have z: "drop_bit (8 * length pad) (of_nat (length body) :: u64) = 0"
    unfolding drop_bit_eq_0 using body s(7) by simp
  obtain b' where b': "buf_store (length pre) (be_bytes (length pad) (length body)) b = Some (Some (), b')"
    "holds malloc L b' (pre @ be_bytes (length pad) (length body) @ body)"
    using buf_store_holds [OF h, of "length pre" "be_bytes (length pad) (length body)"] by auto
  have "write_prefix malloc ?c b = Some (Some (), b')"
    unfolding write_prefix_def s(1) Let_def
    using s(2,4,5,6,7) up z b'(1)
    by (simp add: io_bind_def io_ret_def be_store_eq del: of_nat_add)
  then show ?thesis using b'(2) by blast
qed

text \<open>The DER length by its first byte and the bytes that follow.\<close>

lemma asn1_len_len_spec:
  assumes "length body \<le> 0xfffffffe"
  shows "\<exists>k init. asn1_len_len (of_nat (length body)) = Some (of_nat (Suc k), init,
      if k = 0 then 0 else of_nat (length body)) \<and> k \<le> 4 \<and>
    (k \<noteq> 0 \<longrightarrow> length body < 256 ^ k) \<and> der_len (length body) = init # be_bytes k (length body)"
proof -
  let ?n = "length body"
  have n: "unat (of_nat ?n :: size_t) = ?n" using assms by (simp add: unat_of_nat_mod)
  have cmp: "a < (of_nat ?n :: size_t) \<longleftrightarrow> unat a < ?n" for a by (simp add: word_less_nat_alt n)
  have k: "num_bytes ?n = Suc j" if "256 ^ j \<le> ?n" "?n < 256 ^ Suc j" for j
  proof -
    have "0 < ?n" using that(1) by (meson less_le_trans zero_less_numeral zero_less_power)
    then show ?thesis using num_bytes_iff that by blast
  qed
  consider "?n < 128" | "128 \<le> ?n" "?n < 256" | "256 \<le> ?n" "?n < 65536"
    | "65536 \<le> ?n" "?n < 16777216" | "16777216 \<le> ?n" by linarith
  then show ?thesis
  proof cases
    case 1
    have "(ucast (of_nat ?n :: size_t) :: u8) = of_nat ?n"
      by (rule unat_eqI) (use 1 n in \<open>simp add: unat_ucast_mod unat_of_nat_mod\<close>)
    then show ?thesis
      using 1 by (intro exI [of _ 0] exI [of _ "of_nat ?n"])
        (simp add: asn1_len_len_def cmp der_len_def be_bytes_def)
  next
    case 2
    then show ?thesis using k [of 0] by (intro exI [of _ 1] exI [of _ "0x81"])
        (simp add: asn1_len_len_def cmp der_len_def)
  next
    case 3
    then have nb: "num_bytes ?n = 2" using k [of 1] by simp
    show ?thesis using 3 by (intro exI [of _ 2] exI [of _ "0x82"])
        (simp add: asn1_len_len_def cmp der_len_def nb)
  next
    case 4
    then have nb: "num_bytes ?n = 3" using k [of 2] by simp
    show ?thesis using 4 by (intro exI [of _ 3] exI [of _ "0x83"])
        (simp add: asn1_len_len_def cmp der_len_def nb)
  next
    case 5
    then have nb: "num_bytes ?n = 4" using k [of 3] assms by simp
    show ?thesis using 5 assms by (intro exI [of _ 4] exI [of _ "0x84"])
        (simp add: asn1_len_len_def cmp der_len_def nb)
  qed
qed

lemma buf_move_holds:
  assumes h: "holds malloc L b c" and o: "src + n \<le> length c" "dst + n \<le> length c"
  shows "\<exists>b'. buf_move dst src n b = Some (Some (), b') \<and>
    holds malloc L b' (take dst c @ take n (drop src c) @ drop (dst + n) c)"
proof (cases "n = 0")
  case True
  then show ?thesis using h by (simp add: buf_move_def io_ret_def)
next
  case False
  have wf: "wf_buf b" and c: "contents b = c" using h by (auto simp: holds_def)
  obtain m where m: "cb_buf b = Some m" "length m = unat (cb_cap b)" using wf by (auto simp: wf_buf_def)
  have l: "unat (cb_len b) \<le> length m" using wf m by (auto simp: wf_buf_def word_le_nat_alt)
  have "take n (drop src (take (length c) m)) = take n (drop src m)"
    using o(1) by (simp add: drop_take min_absorb1)
  moreover have "take (length c) m = c" using c m(1) holds_len [OF h] by (simp add: contents_def)
  ultimately have "take n (drop src m) = take n (drop src c)" by simp
  then have "mem_read m src n = Some (take n (drop src c))"
    using l o(1) holds_len [OF h] by (simp add: mem_read_def)
  then show ?thesis
    using False m(1) buf_store_holds [OF h, of dst "take n (drop src c)"] o by (simp add: buf_move_def)
qed

lemma write_prefix_asn1:
  assumes h: "holds malloc L b (pre @ [x] @ body)" and body: "length body \<le> 0xfffffffe"
    and len: "length (pre @ der_len (length body) @ body) \<le> L"
  shows "\<exists>b'. write_prefix malloc \<lparr>cc_offset = of_nat (length pre),
      pending_len_len = 1, pending_is_asn1 = True\<rparr> b = Some (Some (), b') \<and>
    holds malloc L b' (pre @ der_len (length body) @ body)"
proof -
  let ?c = "\<lparr>cc_offset = of_nat (length pre), pending_len_len = 1, pending_is_asn1 = True\<rparr>"
  let ?n = "length body" and ?cs = "of_nat (length pre + 1) :: size_t"
  obtain k init where kl: "asn1_len_len (of_nat ?n) = Some (of_nat (Suc k), init,
      if k = 0 then 0 else of_nat ?n)" and k: "k \<le> 4" and nk: "k \<noteq> 0 \<longrightarrow> ?n < 256 ^ k"
    and der: "der_len ?n = init # be_bytes k ?n"
    using asn1_len_len_spec [OF body] by blast
  have L: "L < 2 ^ 63" using holds_bound [OF h] .
  have tot: "length pre + Suc k + ?n \<le> L" using len der by simp
  then have "length (pre @ [x] @ body) \<le> L" by simp
  note s = pending_sizes [OF h this, of ?c True, simplified]
  have "unat (of_nat k :: u8) = k" using k by (simp add: unat_of_nat_mod)
  then have ku1: "unat (of_nat (Suc k) - 1 :: u8) = k" by simp
  have "unat (of_nat (Suc k) :: u8) = Suc k" using k by (subst unat_of_nat_mod) simp
  then have ku2: "(of_nat (Suc k) :: u8) \<noteq> 1 \<longleftrightarrow> k \<noteq> 0"
    unfolding word_unat_eq_iff by (simp only: unat_1) simp
  note ku = ku1 ku2
  let ?e = "ucast (of_nat (Suc k) - 1 :: u8) :: size_t"
  have e1: "unat ?e = k" using ku(1) by simp
  have "unat (of_nat k :: size_t) = k" using k by (simp add: of_nat_small)
  then have e2: "?e = of_nat k" using e1 by (intro unat_eqI) (simp only:)
  note e = e1 e2
  have pos: "unat ?cs = Suc (length pre)" "unat (?cs + ?e) = Suc (length pre) + k"
  proof -
    show "unat ?cs = Suc (length pre)" using tot L by (simp add: of_nat_small del: of_nat_add of_nat_Suc)
    have s: "?cs + ?e = of_nat (Suc (length pre) + k)" unfolding e(2) by simp
    show "unat (?cs + ?e) = Suc (length pre) + k"
      unfolding s by (rule of_nat_small) (use tot L in simp)
  qed
  text \<open>making space\<close>
  have "\<exists>b1 gap. (if (of_nat (Suc k) :: u8) \<noteq> 1
      then io_bind (cbb_buffer_add malloc ?e)
        (\<lambda>_. buf_move (unat (?cs + ?e)) (unat ?cs) (unat (if k = 0 then 0 else of_nat ?n :: size_t)))
      else io_ret ()) b = Some (Some (), b1) \<and> length gap = k \<and>
      holds malloc L b1 (pre @ x # gap @ body)"
  proof (cases "k = 0")
    case True
    then show ?thesis using h ku(2) by (auto simp: io_ret_def)
  next
    case False
    have wf: "wf_buf b" "room malloc L b" "contents b = pre @ [x] @ body" using h by (auto simp: holds_def)
    have lb: "unat (cb_len b) = length pre + Suc ?n" using holds_len [OF h] by simp
    obtain b0 where b0: "cbb_buffer_add malloc ?e b = Some (Some (unat (cb_len b)), b0)"
      "wf_buf b0" "room malloc L b0" "unat (cb_len b0) = unat (cb_len b) + k"
      "take (unat (cb_len b)) (the (cb_buf b0)) = contents b"
      using cbb_buffer_add_room [OF wf(1,2), of ?e] e(1) tot lb by auto
    have t: "take (unat (cb_len b)) (contents b0) = pre @ [x] @ body"
      using b0(4,5) wf(3) by (simp add: contents_def min_absorb1)
    have "length (contents b0) = length pre + Suc ?n + k"
      using length_contents [OF b0(2)] b0(4) lb by simp
    then obtain junk where c0: "contents b0 = pre @ [x] @ body @ junk" "length junk = k"
      using t lb by (metis (no_types, lifting) add_diff_cancel_left' append.assoc append_take_drop_id length_drop)
    have h0: "holds malloc L b0 (pre @ [x] @ body @ junk)" using b0 c0 by (simp add: holds_def)
    obtain b1 where b1: "buf_move (Suc (length pre) + k) (Suc (length pre)) ?n b0 = Some (Some (), b1)"
      "holds malloc L b1 (take (Suc (length pre) + k) (pre @ [x] @ body @ junk) @ body)"
      using buf_move_holds [OF h0, of "Suc (length pre)" ?n "Suc (length pre) + k"] c0(2) by auto
    have "take (Suc (length pre) + k) (pre @ [x] @ body @ junk) = pre @ x # take k (body @ junk)" by simp
    then show ?thesis
      using b0(1) b1 False ku(2) pos s(7) c0(2)
      by (intro exI [of _ b1] exI [of _ "take k (body @ junk)"]) simp
  qed
  then obtain b1 gap where g: "length gap = k" "holds malloc L b1 (pre @ x # gap @ body)"
    and m: "(if (of_nat (Suc k) :: u8) \<noteq> 1
      then io_bind (cbb_buffer_add malloc ?e)
        (\<lambda>_. buf_move (unat (?cs + ?e)) (unat ?cs) (unat (if k = 0 then 0 else of_nat ?n :: size_t)))
      else io_ret ()) b = Some (Some (), b1)" by blast
  text \<open>the length bytes\<close>
  obtain b2 where b2: "buf_store (length pre) [init] b1 = Some (Some (), b2)"
    "holds malloc L b2 (pre @ init # gap @ body)"
    using buf_store_holds [OF g(2), of "length pre" "[init]"] by auto
  obtain b3 where b3: "buf_store (Suc (length pre)) (be_bytes k ?n) b2 = Some (Some (), b3)"
    "holds malloc L b3 (pre @ init # be_bytes k ?n @ body)"
    using buf_store_holds [OF b2(2), of "Suc (length pre)" "be_bytes k ?n"] g(1) by auto
  have off: "unat (of_nat (length pre) + 1 :: size_t) = Suc (length pre)"
    using pos(1) by (simp add: add.commute)
  have rest: "be_store k (if k = 0 then 0 else of_nat ?n) = (be_bytes k ?n, 0)"
  proof (cases "k = 0")
    case True
    then show ?thesis by (simp add: be_bytes_def)
  next
    case False
    have "?n < 256 ^ k" using nk False by simp
    then have "drop_bit (8 * k) (of_nat ?n :: u64) = 0" unfolding drop_bit_eq_0 using s(7) by simp
    then show ?thesis using False s(7) by (simp add: be_store_eq)
  qed
  have "write_prefix malloc ?c b = Some (Some (), b3)"
  proof -
    have "length (pre @ [x] @ body) \<le> L" using tot by simp
    note s0 = pending_sizes [OF h this, of ?c True, simplified]
    have cs: "cc_offset ?c + ucast (pending_len_len ?c) = ?cs" by simp
    have f1: "\<not> ?cs < cc_offset ?c" using s0 by (simp add: add.commute)
    have f2: "\<not> cb_len b < ?cs" using s0 by (simp add: add.commute)
    have f3: "cb_len b - ?cs = of_nat ?n" using s0 by (simp add: add.commute)
    have f4: "unat (cc_offset ?c) = length pre" using s0 by simp
    have f5: "cc_offset ?c + 1 = of_nat (length pre) + 1" "pending_is_asn1 ?c" by simp_all
    show ?thesis
      unfolding write_prefix_def cs Let_def if_not_P [OF f1] f3
      by (simp only: f1 f2 f5 simp_thms if_False if_True kl option.case prod.case io_bind_def m
            f4 b2(1) io_ret_def off ku1 rest b3(1))
  qed
  then show ?thesis using b3(2) der by auto
qed

end
