(* ===== verification/Bs_Cbb_Writer.thy ===== *)
theory Bs_Cbb_Writer
  imports Bs_Cbb_Spec
begin

text \<open>
  The contract of a writer: an operation on the \<open>CBB\<close> at some depth that succeeds while there is
  room, adds exactly the given bytes and leaves the chain of open children as it was.  Sequencing,
  length prefixes and ASN.1 elements of writers are writers.
\<close>

section \<open>The contract\<close>

definition writing :: "malloc_fun \<Rightarrow> nat \<Rightarrow> CBB \<Rightarrow> cbb_child list \<Rightarrow> u8 list \<Rightarrow> bool" where
  "writing malloc L cbb chain c \<longleftrightarrow>
     (\<exists>b. cbb_base cbb = Some b \<and> holds malloc L b c) \<and> cbb_chain cbb = chain"

definition appends :: "malloc_fun \<Rightarrow> nat \<Rightarrow> (CBB, unit) io \<Rightarrow> u8 list \<Rightarrow> bool" where
  "appends malloc d m bs \<longleftrightarrow>
     (\<forall>L cbb chain c. writing malloc L cbb chain c \<longrightarrow> length chain = d \<longrightarrow>
        length c + length bs \<le> L \<longrightarrow>
        (\<exists>cbb'. m cbb = Some (Some (), cbb') \<and> writing malloc L cbb' chain (c @ bs)))"

lemma appendsE:
  "appends malloc d m bs \<Longrightarrow> writing malloc L cbb chain c \<Longrightarrow> length chain = d \<Longrightarrow>
   length c + length bs \<le> L \<Longrightarrow>
   \<exists>cbb'. m cbb = Some (Some (), cbb') \<and> writing malloc L cbb' chain (c @ bs)"
  by (simp add: appends_def)

lemma appends_ret: "appends malloc d (io_ret ()) []"
  by (simp add: appends_def io_ret_def)

lemma appends_bind:
  assumes "appends malloc d m xs" and "appends malloc d m' ys"
  shows "appends malloc d (io_bind m (\<lambda>_. m')) (xs @ ys)"
  unfolding appends_def
proof (intro allI impI)
  fix L cbb chain c
  assume w: "writing malloc L cbb chain c" "length chain = d" "length c + length (xs @ ys) \<le> L"
  then obtain cbb1 where m: "m cbb = Some (Some (), cbb1)" "writing malloc L cbb1 chain (c @ xs)"
    using appendsE [OF assms(1) w(1,2)] by auto
  obtain cbb2 where "m' cbb1 = Some (Some (), cbb2)" "writing malloc L cbb2 chain ((c @ xs) @ ys)"
    using appendsE [OF assms(2) m(2) w(2)] w(3) by auto
  then show "\<exists>cbb'. io_bind m (\<lambda>_. m') cbb = Some (Some (), cbb') \<and>
      writing malloc L cbb' chain (c @ xs @ ys)"
    using m(1) by auto
qed

text \<open>Flushing a \<open>CBB\<close> without children changes nothing.\<close>

lemma CBB_flush_idle:
  assumes "writing malloc L cbb chain c" and "length chain = d"
  shows "CBB_flush malloc d cbb = Some (Some (), cbb)"
  using assms by (auto simp: CBB_flush_def writing_def holds_def wf_buf_def)

lemma on_base_writing:
  assumes w: "writing malloc L cbb chain c"
    and m: "\<And>b. holds malloc L b c \<Longrightarrow> \<exists>b'. m b = Some (Some r, b') \<and> holds malloc L b' c'"
  shows "\<exists>cbb'. on_base m cbb = Some (Some r, cbb') \<and> writing malloc L cbb' chain c'"
proof -
  obtain b where b: "cbb_base cbb = Some b" "holds malloc L b c" "cbb_chain cbb = chain"
    using w by (auto simp: writing_def)
  obtain b' where "m b = Some (Some r, b')" "holds malloc L b' c'" using m [OF b(2)] by blast
  then show ?thesis
    using b by (intro exI [of _ "cbb\<lparr>cbb_base := Some b'\<rparr>"]) (simp add: on_base_def writing_def)
qed

lemma appends_base:
  assumes "\<And>L b c. holds malloc L b c \<Longrightarrow> length c + length bs \<le> L \<Longrightarrow>
    \<exists>b'. m b = Some (Some (), b') \<and> holds malloc L b' (c @ bs)"
  shows "appends malloc d (io_bind (CBB_flush malloc d) (\<lambda>_. on_base m)) bs"
  unfolding appends_def
proof (intro allI impI)
  fix L cbb chain c
  assume w: "writing malloc L cbb chain c" "length chain = d" "length c + length bs \<le> L"
  show "\<exists>cbb'. io_bind (CBB_flush malloc d) (\<lambda>_. on_base m) cbb = Some (Some (), cbb') \<and>
      writing malloc L cbb' chain (c @ bs)"
    using CBB_flush_idle [OF w(1,2)] on_base_writing [OF w(1) assms [OF _ w(3)]] by simp
qed

section \<open>Integers and bytes\<close>

lemma appends_uint:
  assumes "unat v < 256 ^ unat n" and "n \<noteq> 0"
  shows "appends malloc d (add_uint malloc n d v) (be_bytes (unat n) (unat v))"
  unfolding add_uint_def
  by (rule appends_base) (use cbb_buffer_add_u_holds assms in auto)

lemma appends_u8: "appends malloc d (CBB_add_u8 malloc d v) [v]"
proof -
  have "be_bytes 1 (unat v) = [v]" by (simp add: be_bytes_def)
  then show ?thesis
    using appends_uint [of "ucast v" 1 malloc d] by (simp add: CBB_add_u8_def)
qed

lemma appends_u16: "appends malloc d (CBB_add_u16 malloc d v) (be_bytes 2 (unat v))"
proof -
  have "unat (ucast v :: u64) = unat v" "unat v < 65536"
    using unat_bound [of v] by (simp_all add: unat_ucast_mod)
  then show ?thesis using appends_uint [of "ucast v" 2 malloc d] by (simp add: CBB_add_u16_def)
qed

lemma appends_u24:
  "unat v < 2 ^ 24 \<Longrightarrow> appends malloc d (CBB_add_u24 malloc d v) (be_bytes 3 (unat v))"
  using appends_uint [of "ucast v" 3 malloc d] by (simp add: CBB_add_u24_def)

lemma appends_u32: "appends malloc d (CBB_add_u32 malloc d v) (be_bytes 4 (unat v))"
proof -
  have "unat v < 4294967296" using unat_bound [of v] by simp
  then show ?thesis using appends_uint [of "ucast v" 4 malloc d] by (simp add: CBB_add_u32_def)
qed

lemma appends_u64: "appends malloc d (CBB_add_u64 malloc d v) (be_bytes 8 (unat v))"
proof -
  have "unat v < 18446744073709551616" using unat_bound [of v] by simp
  then show ?thesis using appends_uint [of v 8 malloc d] by (simp add: CBB_add_u64_def)
qed

lemma appends_u8s: "appends malloc d (add_u8s malloc d bs) bs"
proof (induction bs)
  case Nil
  then show ?case by (simp add: appends_ret)
next
  case (Cons b bs)
  then show ?case using appends_bind [OF appends_u8 Cons.IH, of b] by simp
qed

lemma appends_bytes:
  assumes "length data = unat n"
  shows "appends malloc d (CBB_add_bytes malloc d data n) data"
  unfolding CBB_add_bytes_def
proof (rule appends_base)
  fix L b c
  assume h: "holds malloc L b c" "length c + length data \<le> L"
  have n: "of_nat (length data) = n" using assms by simp
  show "\<exists>b'. io_bind (cbb_buffer_add malloc n)
      (\<lambda>off b. case mem_read data 0 (unat n) of None \<Rightarrow> None | Some bs \<Rightarrow> buf_store off bs b) b
        = Some (Some (), b') \<and> holds malloc L b' (c @ data)"
    using add_store_holds [OF h] assms n by simp
qed

section \<open>Children\<close>

lemma get_base_writing:
  assumes "writing malloc L cbb chain c"
  shows "\<exists>b. get_base cbb = Some (Some b, cbb) \<and> unat (cb_len b) = length c"
  using assms holds_len by (auto simp: get_base_def writing_def io_ret_def)

lemma CBB_flush_child:
  assumes w: "writing malloc L cbb (chain @ [ch]) c" and d: "length chain = d"
    and p: "pending_len_len ch \<noteq> 0"
    and m: "\<And>b. holds malloc L b c \<Longrightarrow>
      \<exists>b'. write_prefix malloc ch b = Some (Some (), b') \<and> holds malloc L b' c'"
  shows "\<exists>cbb'. CBB_flush malloc d cbb = Some (Some (), cbb') \<and> writing malloc L cbb' chain c'"
proof -
  obtain b where b: "cbb_base cbb = Some b" "holds malloc L b c" "cbb_chain cbb = chain @ [ch]"
    using w by (auto simp: writing_def)
  obtain b' where b': "write_prefix malloc ch b = Some (Some (), b')" "holds malloc L b' c'"
    using m [OF b(2)] by blast
  have "\<not> cb_error b" using b(2) by (simp add: holds_def wf_buf_def)
  then show ?thesis
    using b b' d p
    by (intro exI [of _ "cbb\<lparr>cbb_base := Some b', cbb_chain := chain\<rparr>"])
       (simp add: CBB_flush_def writing_def)
qed

section \<open>Tags\<close>

fun b128_digits :: "nat \<Rightarrow> nat" where
  "b128_digits n = (if n = 0 then 0 else Suc (b128_digits (n div 128)))"

declare b128_digits.simps [simp del]

lemma base128_len_digits: "base128_len v = b128_digits (unat v)"
proof (induction v rule: base128_len.induct)
  case (1 v)
  show ?case
  proof (cases "0 < v")
    case True
    moreover have "unat (drop_bit 7 v) = unat v div 128" using unat_drop_bit [of 7 v] by simp
    ultimately show ?thesis
      using "1.IH" by (simp add: base128_len.simps [of v] b128_digits.simps [of "unat v"] unat_gt_0)
  next
    case False
    then have "v = 0" by (simp flip: word_neq_0_conv)
    then show ?thesis by (simp add: base128_len.simps [of 0] b128_digits.simps [of 0])
  qed
qed

lemma rev_upt_Suc: "rev [0..<Suc k] = map Suc (rev [0..<k]) @ [0]"
proof -
  have "[0..<Suc k] = 0 # map Suc [0..<k]" by (simp add: upt_conv_Cons map_Suc_upt del: upt_Suc)
  then show ?thesis by (simp add: rev_map del: upt_Suc)
qed

lemma b128_cont_digits:
  "b128_cont n = map (\<lambda>i. of_nat (n div 128 ^ i mod 128 + 128)) (rev [0..<b128_digits n])"
proof (induction n rule: b128_cont.induct)
  case (1 n)
  show ?case
  proof (cases "n = 0")
    case True
    then show ?thesis by (simp add: b128_digits.simps)
  next
    case False
    have "b128_cont n = b128_cont (n div 128) @ [of_nat (n mod 128 + 128)]"
      using False by (subst b128_cont.simps) (simp del: of_nat_add)
    also have "b128_cont (n div 128)
        = map (\<lambda>i. of_nat (n div 128 ^ Suc i mod 128 + 128)) (rev [0..<b128_digits (n div 128)])"
      using "1.IH" [OF False] by (simp add: div_mult2_eq del: of_nat_add)
    finally show ?thesis
      using False
      by (simp add: b128_digits.simps [of n] rev_upt_Suc o_def del: of_nat_add upt_Suc)
  qed
qed

lemma base128_byte:
  fixes v :: u64
  shows "ucast (drop_bit (7 * i) v AND 0x7f) OR (if i \<noteq> 0 then 0x80 else 0)
    = (of_nat (unat v div 128 ^ i mod 128 + (if i \<noteq> 0 then 128 else 0)) :: u8)"
proof (rule unat_eqI)
  let ?b = "ucast (drop_bit (7 * i) v AND 0x7f) :: u8"
  have d: "unat (drop_bit (7 * i) v) = unat v div 128 ^ i"
    unfolding unat_drop_bit by (simp add: power_mult)
  have b: "unat ?b = unat v div 128 ^ i mod 128"
    by (simp add: unat_ucast_mod unat_and_0x7F d)
  then have "unat (?b OR 0x80) = unat v div 128 ^ i mod 128 + 128"
    using unat_or_push_bit [of ?b 7 1] by simp
  then show "unat (?b OR (if i \<noteq> 0 then 0x80 else 0))
      = unat (of_nat (unat v div 128 ^ i mod 128 + (if i \<noteq> 0 then 128 else 0)) :: u8)"
    using b by (cases "i = 0") (simp_all add: unat_of_nat_mod del: of_nat_add)
qed

lemma base128_bytes_eq: "base128_bytes v = b128 (unat v)"
proof -
  let ?f = "\<lambda>i. of_nat (unat v div 128 ^ i mod 128 + (if i \<noteq> 0 then 128 else 0)) :: u8"
  let ?k = "b128_digits (unat v div 128)"
  have "(if base128_len v = 0 then 1 else base128_len v) = Suc ?k"
    unfolding base128_len_digits
    by (simp add: b128_digits.simps [of "unat v"]) (simp add: b128_digits.simps)
  then have "base128_bytes v = map ?f (rev [0..<Suc ?k])"
    unfolding base128_bytes_def Let_def base128_byte by simp
  also have "\<dots> = map (\<lambda>i. of_nat (unat v div 128 div 128 ^ i mod 128 + 128)) (rev [0..<?k])
      @ [of_nat (unat v mod 128)]"
    unfolding rev_upt_Suc by (simp add: o_def div_mult2_eq del: of_nat_add upt_Suc)
  also have "\<dots> = b128 (unat v)" by (simp only: b128_def b128_cont_digits)
  finally show ?thesis .
qed

text \<open>The tag bytes that \<open>CBB_add_asn1\<close> writes.\<close>

definition tag_bytes :: "u32 \<Rightarrow> u8 list" where
  "tag_bytes tag =
     (let tag_bits = ucast (drop_bit 24 tag) AND 0xe0;
          tag_number = tag AND CBS_ASN1_TAG_NUMBER_MASK
      in if 0x1f \<le> tag_number
         then (tag_bits OR 0x1f) # base128_bytes (ucast tag_number)
         else [tag_bits OR ucast tag_number])"

lemma u8_lead_or:
  assumes "unat n < 32"
  shows "unat ((b :: u8) AND 0xe0 OR n) = unat b div 32 * 32 + unat n"
proof -
  have "b AND 0xe0 = push_bit 5 (drop_bit 5 b)"
    by (rule u8_all [of "\<lambda>b. b AND 0xe0 = push_bit 5 (drop_bit 5 b)"]) code_simp
  moreover have "unat (drop_bit 5 b) = unat b div 32" using unat_drop_bit [of 5 b] by simp
  moreover have "unat b div 32 * 32 < 256" using u8_bound [of b] by linarith
  ultimately show ?thesis
    using unat_or_push_bit [of n 5 "drop_bit 5 b"] assms by (simp add: or.commute add.commute)
qed

lemma unat_tag_number: "unat (tag AND CBS_ASN1_TAG_NUMBER_MASK) = tag_num tag"
  using unat_and_mask [of tag 29]
  by (simp add: CBS_ASN1_TAG_NUMBER_MASK_def mask_eq_exp_minus_1 tag_num_def)

lemma tag_class_byte: "unat (ucast (drop_bit 24 tag) :: u8) div 32 = tag_class tag"
proof -
  have "unat (drop_bit 24 tag) = unat tag div 2 ^ 24" by (rule unat_drop_bit)
  moreover have "unat tag div 2 ^ 24 < 256"
    using unat_bound [of tag] by (simp add: div_less_iff_less_mult)
  ultimately have "unat (ucast (drop_bit 24 tag) :: u8) = unat tag div 2 ^ 24"
    by (simp add: unat_ucast_mod)
  then show ?thesis by (simp add: tag_class_def flip: div_mult2_eq)
qed

lemma tag_bytes_eq: "tag_bytes tag = der_tag tag"
proof -
  let ?b = "ucast (drop_bit 24 tag) :: u8" and ?n = "tag AND CBS_ASN1_TAG_NUMBER_MASK"
  have n: "unat ?n = tag_num tag" by (rule unat_tag_number)
  have ge: "0x1f \<le> ?n \<longleftrightarrow> \<not> tag_num tag < 31" by (simp add: word_le_nat_alt n not_less)
  have lead: "?b AND 0xe0 OR x = of_nat (tag_class tag * 32 + unat x)" if "unat x < 32" for x
  proof (rule unat_eqI)
    have "tag_class tag * 32 + unat x < 256" using tag_class_bound [of tag] that by linarith
    then show "unat (?b AND 0xe0 OR x) = unat (of_nat (tag_class tag * 32 + unat x) :: u8)"
      using u8_lead_or [OF that, of ?b] tag_class_byte [of tag]
      by (simp add: unat_of_nat_mod del: of_nat_add of_nat_mult)
  qed
  show ?thesis
  proof (cases "tag_num tag < 31")
    case True
    then have "unat (ucast ?n :: u8) = tag_num tag" using n by (simp add: unat_ucast_mod)
    then show ?thesis
      using True ge lead [of "ucast ?n"]
      by (simp add: tag_bytes_def Let_def der_tag_def del: of_nat_add of_nat_mult)
  next
    case False
    then show ?thesis
      using ge n lead [of "0x1f"]
      by (simp add: tag_bytes_def Let_def der_tag_def base128_bytes_eq del: of_nat_add of_nat_mult)
  qed
qed

lemma CBB_add_asn1_eq:
  "CBB_add_asn1 malloc d tag =
     io_bind (CBB_flush malloc d) (\<lambda>_.
     io_bind (add_u8s malloc d (tag_bytes tag)) (\<lambda>_.
     io_bind get_base (\<lambda>b.
     io_bind (CBB_add_u8 malloc d 0) (\<lambda>_.
     add_child d \<lparr>cc_offset = cb_len b, pending_len_len = 1, pending_is_asn1 = True\<rparr>))))"
proof -
  have r: "io_bind m io_ret = m" for m :: "(CBB, unit) io"
    by (rule ext) (auto simp: io_bind_def io_ret_def split: option.split)
  show ?thesis
    by (simp add: CBB_add_asn1_def tag_bytes_def Let_def add_base128_integer_def r)
qed

lemma CBB_add_asn1_opens:
  assumes w: "writing malloc L cbb chain c" and d: "length chain = d"
    and l: "length c + length (der_tag tag) + 1 \<le> L"
  shows "\<exists>cbb'. CBB_add_asn1 malloc d tag cbb = Some (Some (), cbb') \<and>
    writing malloc L cbb' (chain @ [\<lparr>cc_offset = of_nat (length (c @ der_tag tag)),
      pending_len_len = 1, pending_is_asn1 = True\<rparr>]) (c @ der_tag tag @ [0])"
proof -
  obtain cbb1 where c1: "add_u8s malloc d (tag_bytes tag) cbb = Some (Some (), cbb1)"
    "writing malloc L cbb1 chain (c @ der_tag tag)"
    using appendsE [OF appends_u8s w d, of "tag_bytes tag"] l tag_bytes_eq by auto
  obtain b where b: "get_base cbb1 = Some (Some b, cbb1)" "unat (cb_len b) = length (c @ der_tag tag)"
    using get_base_writing [OF c1(2)] by blast
  obtain cbb2 where c2: "CBB_add_u8 malloc d 0 cbb1 = Some (Some (), cbb2)"
    "writing malloc L cbb2 chain ((c @ der_tag tag) @ [0])"
    using appendsE [OF appends_u8 c1(2) d, of 0] l by auto
  have "cb_len b = of_nat (length (c @ der_tag tag))"
    using arg_cong [OF b(2), of "of_nat :: nat \<Rightarrow> size_t"] by simp
  then show ?thesis
    using CBB_flush_idle [OF w d] c1(1) b(1) c2 d
    by (auto simp: CBB_add_asn1_eq add_child_def io_ret_def writing_def)
qed

text \<open>An ASN.1 element whose contents are written by a writer on the child.\<close>

lemma appends_element:
  assumes m: "appends malloc (Suc d) m body" and l: "length body \<le> 0xfffffffe"
  shows "appends malloc d (io_bind (CBB_add_asn1 malloc d tag) (\<lambda>_. io_bind m (\<lambda>_. CBB_flush malloc d)))
    (der tag body)"
  unfolding appends_def
proof (intro allI impI)
  fix L cbb chain c
  assume w: "writing malloc L cbb chain c" and d: "length chain = d"
    and L: "length c + length (der tag body) \<le> L"
  let ?pre = "c @ der_tag tag" and ?n = "length body"
  let ?ch = "\<lparr>cc_offset = of_nat (length ?pre), pending_len_len = 1, pending_is_asn1 = True\<rparr>"
  have ld: "1 \<le> length (der_len ?n)" by (cases "der_len ?n") auto
  have tot: "length ?pre + length (der_len ?n) + ?n \<le> L" using L by (simp add: der_def der_hdr_def)
  obtain cbb1 where c1: "CBB_add_asn1 malloc d tag cbb = Some (Some (), cbb1)"
    "writing malloc L cbb1 (chain @ [?ch]) (c @ der_tag tag @ [0])"
    using CBB_add_asn1_opens [OF w d, of tag] tot ld by auto
  obtain cbb2 where c2: "m cbb1 = Some (Some (), cbb2)"
    "writing malloc L cbb2 (chain @ [?ch]) ((c @ der_tag tag @ [0]) @ body)"
    using appendsE [OF m c1(2)] d tot ld by auto
  have p: "\<exists>b'. write_prefix malloc ?ch b = Some (Some (), b') \<and>
      holds malloc L b' (?pre @ der_len ?n @ body)"
    if "holds malloc L b ((c @ der_tag tag @ [0]) @ body)" for b
    using write_prefix_asn1 [of malloc L b ?pre 0 body] that l tot by simp
  obtain cbb3 where "CBB_flush malloc d cbb2 = Some (Some (), cbb3)"
    "writing malloc L cbb3 chain (?pre @ der_len ?n @ body)"
    using CBB_flush_child [OF c2(2) d _ p] by auto
  then show "\<exists>cbb'. io_bind (CBB_add_asn1 malloc d tag) (\<lambda>_. io_bind m (\<lambda>_. CBB_flush malloc d)) cbb
      = Some (Some (), cbb') \<and> writing malloc L cbb' chain (c @ der tag body)"
    using c1(1) c2(1) by (simp add: der_def der_hdr_def)
qed

text \<open>A length prefix of \<open>k\<close> bytes.\<close>

lemma appends_prefixed:
  assumes m: "appends malloc (Suc d) m body" and l: "length body < 256 ^ unat k" and k: "k \<noteq> 0"
  shows "appends malloc d (io_bind (cbb_add_length_prefixed malloc k d)
      (\<lambda>_. io_bind m (\<lambda>_. CBB_flush malloc d)))
    (be_bytes (unat k) (length body) @ body)"
  unfolding appends_def
proof (intro allI impI)
  fix L cbb chain c
  assume w: "writing malloc L cbb chain c" and d: "length chain = d"
    and L: "length c + length (be_bytes (unat k) (length body) @ body) \<le> L"
  let ?k = "unat k"
  let ?ch = "\<lparr>cc_offset = of_nat (length c), pending_len_len = of_nat (length (replicate ?k (0::u8))),
    pending_is_asn1 = False\<rparr>"
  have tot: "length c + ?k + length body \<le> L" using L by simp
  obtain b where b: "get_base cbb = Some (Some b, cbb)" "unat (cb_len b) = length c"
    using get_base_writing [OF w] by blast
  have off: "cb_len b = of_nat (length c)"
    using arg_cong [OF b(2), of "of_nat :: nat \<Rightarrow> size_t"] by simp
  have kw: "(ucast k :: size_t) = of_nat (length (replicate ?k (0::u8)))" by simp
  obtain cbb1 where c1: "on_base (io_bind (cbb_buffer_add malloc (ucast k))
      (\<lambda>off. buf_store off (replicate ?k 0))) cbb = Some (Some (), cbb1)"
    "writing malloc L cbb1 chain (c @ replicate ?k 0)"
    using on_base_writing [OF w, of _ "()" "c @ replicate ?k 0"] add_store_holds [of malloc L _ c "replicate ?k 0"]
      tot unfolding kw by force
  let ?cbb1 = "cbb1\<lparr>cbb_chain := chain @ [?ch]\<rparr>"
  have a: "cbb_add_length_prefixed malloc k d cbb = Some (Some (), ?cbb1)"
    using CBB_flush_idle [OF w d] b(1) c1 off d
    by (simp add: cbb_add_length_prefixed_def add_child_def io_ret_def writing_def)
  have w1: "writing malloc L ?cbb1 (chain @ [?ch]) (c @ replicate ?k 0)"
    using c1(2) by (simp add: writing_def)
  obtain cbb2 where c2: "m ?cbb1 = Some (Some (), cbb2)"
    "writing malloc L cbb2 (chain @ [?ch]) ((c @ replicate ?k 0) @ body)"
    using appendsE [OF m w1] d tot by auto
  have p: "\<exists>b'. write_prefix malloc ?ch b = Some (Some (), b') \<and>
      holds malloc L b' (c @ be_bytes ?k (length body) @ body)"
    if "holds malloc L b ((c @ replicate ?k 0) @ body)" for b
    using write_prefix_plain [of malloc L b c "replicate ?k 0" body] that l tot by simp
  have nz: "pending_len_len ?ch \<noteq> 0" using k by simp
  obtain cbb3 where "CBB_flush malloc d cbb2 = Some (Some (), cbb3)"
    "writing malloc L cbb3 chain (c @ be_bytes ?k (length body) @ body)"
    using CBB_flush_child [OF c2(2) d nz p] by auto
  then show "\<exists>cbb'. io_bind (cbb_add_length_prefixed malloc k d)
      (\<lambda>_. io_bind m (\<lambda>_. CBB_flush malloc d)) cbb = Some (Some (), cbb') \<and>
      writing malloc L cbb' chain (c @ be_bytes ?k (length body) @ body)"
    using a c2(1) by simp
qed

end
