(* ===== verification/Bs_Codec.thy ===== *)
theory Bs_Codec
  imports Bs_Cbb_Writer
begin

text \<open>
  The interface between \<open>cbb.c\<close> and \<open>cbs.c\<close>: a codec is a function that adds a value to a \<open>CBB\<close> and a
  function that gets it from a \<open>CBS\<close>, with the bytes in between.  Its instances are the integers,
  the DER INTEGERs and the BOOLEANs.
\<close>

section \<open>A whole string\<close>

definition build :: "malloc_fun \<Rightarrow> size_t \<Rightarrow> (CBB, unit) io \<Rightarrow> CBB \<Rightarrow> ((u8 list option \<times> size_t) option \<times> CBB) option" where
  "build malloc cap m = io_bind (CBB_init malloc cap) (\<lambda>_. io_bind m (\<lambda>_. CBB_finish malloc True 0))"

lemma OPENSSL_malloc_total:
  assumes "alloc_ok malloc" "malloc_total malloc" and "unat n + 8 < 2 ^ 63"
  shows "\<exists>blk. OPENSSL_malloc malloc n = Some (Some blk) \<and> length (payload_of blk) = unat n"
proof -
  have n: "unat n + 8 < 2 ^ 64" using assms(3) by simp
  have "unat (n + OPENSSL_MALLOC_PREFIX) < 2 ^ 63" using add_prefix [OF n] assms(3) by simp
  then obtain blk where "malloc (n + OPENSSL_MALLOC_PREFIX) = Some blk"
    using assms(2) by (auto simp: malloc_total_def)
  from OPENSSL_malloc_Some [OF assms(1) n this] show ?thesis by blast
qed

lemma CBB_init_writing:
  assumes "alloc_ok malloc" "malloc_total malloc" and "unat cap \<le> 2 ^ 62" and "L < 2 ^ 61"
  shows "\<exists>cbb'. CBB_init malloc cap cbb = Some (Some (), cbb') \<and> writing malloc L cbb' [] []"
proof -
  obtain blk where blk: "OPENSSL_malloc malloc cap = Some (Some blk)" "length (payload_of blk) = unat cap"
    using OPENSSL_malloc_total [OF assms(1,2), of cap] assms(3) by auto
  obtain blk' where "OPENSSL_malloc malloc SIZEOF_CBB_BUFFER = Some (Some blk')"
    using OPENSSL_malloc_total [OF assms(1,2), of SIZEOF_CBB_BUFFER] by (auto simp: SIZEOF_CBB_BUFFER_def)
  then show ?thesis
    using blk assms
    by (simp add: CBB_init_def cbb_init_def io_ret_def writing_def holds_def wf_buf_def room_def
        contents_def CBB_zero_def)
qed

lemma build_ok:
  assumes m: "appends malloc 0 m bs"
    and mal: "alloc_ok malloc" "malloc_total malloc" and cap: "unat cap \<le> 2 ^ 62" and len: "length bs < 2 ^ 61"
  shows "\<exists>buf cbb'. build malloc cap m cbb = Some (Some (Some buf, of_nat (length bs)), cbb') \<and>
    take (length bs) buf = bs \<and> cbb_base cbb' = None"
proof -
  obtain cbb1 where c1: "CBB_init malloc cap cbb = Some (Some (), cbb1)" "writing malloc (length bs) cbb1 [] []"
    using CBB_init_writing [OF mal cap len] by blast
  obtain cbb2 where c2: "m cbb1 = Some (Some (), cbb2)" "writing malloc (length bs) cbb2 [] bs"
    using appendsE [OF m c1(2)] by auto
  obtain b where b: "cbb_base cbb2 = Some b" "holds malloc (length bs) b bs"
    using c2(2) by (auto simp: writing_def)
  have l: "unat (cb_len b) = length bs" by (rule holds_len [OF b(2)])
  then have "cb_len b = of_nat (length bs)" by (metis of_nat_unat ucast_id)
  moreover obtain buf where "cb_buf b = Some buf" "take (length bs) buf = bs"
    using b(2) l by (auto simp: holds_def wf_buf_def contents_def)
  ultimately show ?thesis
    using c1(1) c2(1) CBB_flush_idle [OF c2(2)] b(1)
    by (auto simp: build_def CBB_finish_def get_base_def io_ret_def CBB_cleanup_def)
qed

section \<open>The interface\<close>

text \<open>A list of values, one after the other.\<close>

fun put_all :: "(malloc_fun \<Rightarrow> nat \<Rightarrow> 'a \<Rightarrow> (CBB, unit) io) \<Rightarrow> malloc_fun \<Rightarrow> nat \<Rightarrow> 'a list \<Rightarrow> (CBB, unit) io" where
  "put_all put malloc d [] = io_ret ()"
| "put_all put malloc d (a # as) = io_bind (put malloc d a) (\<lambda>_. put_all put malloc d as)"

fun get_all :: "'a parser \<Rightarrow> nat \<Rightarrow> 'a list parser" where
  "get_all get 0 = io_ret []"
| "get_all get (Suc n) = io_bind get (\<lambda>a. io_bind (get_all get n) (\<lambda>as. io_ret (a # as)))"

locale codec =
  fixes put :: "malloc_fun \<Rightarrow> nat \<Rightarrow> 'a \<Rightarrow> (CBB, unit) io"
    and get :: "'a parser"
    and enc :: "'a \<Rightarrow> u8 list"
    and valid :: "'a \<Rightarrow> bool"
  assumes put_enc: "valid a \<Longrightarrow> appends malloc d (put malloc d a) (enc a)"
    and get_enc: "valid a \<Longrightarrow> wf_cbs s \<Longrightarrow> cbs_bytes s = enc a @ rest \<Longrightarrow>
      get s = Some (Some a, cbs_drop (length (enc a)) s)"
begin

lemma put_all_appends:
  "list_all valid as \<Longrightarrow> appends malloc d (put_all put malloc d as) (concat (map enc as))"
proof (induction as)
  case Nil
  then show ?case by (simp add: appends_ret)
next
  case (Cons a as)
  then show ?case by (simp add: appends_bind put_enc)
qed

lemma get_all_enc:
  "list_all valid as \<Longrightarrow> wf_cbs s \<Longrightarrow> cbs_bytes s = concat (map enc as) @ rest \<Longrightarrow>
   get_all get (length as) s = Some (Some as, cbs_drop (length (concat (map enc as))) s)"
proof (induction as arbitrary: s)
  case Nil
  then show ?case by (simp add: io_ret_def)
next
  case (Cons a as)
  let ?t = "cbs_drop (length (enc a)) s"
  have g: "get s = Some (Some a, ?t)" using get_enc [of a s] Cons.prems by simp
  have "wf_cbs ?t" "cbs_bytes ?t = concat (map enc as) @ rest"
    using Cons.prems by (simp_all add: wf_cbs_drop cbs_bytes_drop)
  then show ?case using g Cons by (simp add: io_ret_def)
qed

text \<open>What a program builds with \<open>put\<close> is read back with \<open>get\<close>, up to the last byte.\<close>

lemma roundtrip:
  assumes "list_all valid as"
    and "alloc_ok malloc" "malloc_total malloc" "unat cap \<le> 2 ^ 62" "length (concat (map enc as)) < 2 ^ 61"
  shows "\<exists>buf n cbb' t. build malloc cap (put_all put malloc 0 as) cbb = Some (Some (Some buf, n), cbb') \<and>
    get_all get (length as) (CBS_init buf n) = Some (Some as, t) \<and> cbs_len t = 0"
proof -
  let ?bs = "concat (map enc as)"
  obtain buf cbb' where b: "build malloc cap (put_all put malloc 0 as) cbb
      = Some (Some (Some buf, of_nat (length ?bs)), cbb')" "take (length ?bs) buf = ?bs"
    using build_ok [OF put_all_appends [OF assms(1)] assms(2-5)] by blast
  let ?s = "CBS_init buf (of_nat (length ?bs))"
  have n: "unat (of_nat (length ?bs) :: size_t) = length ?bs" using assms(5) by (simp add: unat_of_nat_mod)
  have l: "length ?bs \<le> length buf" using b(2) by (metis length_take min.cobounded1)
  have s: "wf_cbs ?s" "cbs_bytes ?s = ?bs @ []" using n b(2) l by simp_all
  have "cbs_len (cbs_drop (length ?bs) ?s) = 0" by (simp add: cbs_drop_def CBS_init_def)
  then show ?thesis using b(1) get_all_enc [OF assms(1) s] by blast
qed

end
section \<open>Integers\<close>

lemma ucast_ucast_u64:
  "ucast (ucast (v :: u16) :: u64) = v" "ucast (ucast (w :: u32) :: u64) = w"
  by (rule bit_word_eqI; simp add: bit_simps)+

lemma all_less_upt: "(\<forall>i<n. P i) \<longleftrightarrow> list_all P [0..<n]"
  by (auto simp: list_all_iff)

lemma be_bytes_parse:
  assumes "wf_cbs s" "cbs_bytes s = be_bytes (unat k) n @ rest" and "n < 256 ^ unat k"
  shows "cbs_get_u k s = Some (Some (of_nat n), cbs_drop (unat k) s)"
  using cbs_get_u_spec [OF assms(1), of k] assms(2,3) by (simp add: be_val_bytes)

interpretation u8_codec: codec CBB_add_u8 CBS_get_u8 "\<lambda>v. [v]" "\<lambda>_. True"
proof
  fix a s rest
  assume "wf_cbs s" "cbs_bytes s = [a] @ rest"
  then show "CBS_get_u8 s = Some (Some a, cbs_drop (length [a]) s)"
    using CBS_get_u8_spec [of s] by simp
qed (rule appends_u8)

interpretation u16_codec: codec CBB_add_u16 CBS_get_u16 "\<lambda>v. be_bytes 2 (unat v)" "\<lambda>_. True"
proof
  fix a :: u16 and s rest
  assume "wf_cbs s" "cbs_bytes s = be_bytes 2 (unat a) @ rest"
  then show "CBS_get_u16 s = Some (Some a, cbs_drop (length (be_bytes 2 (unat a))) s)"
    using be_bytes_parse [of s 2 "unat a" rest] unat_bound [of a] by (simp add: CBS_get_u16_def io_ret_def ucast_ucast_u64)
qed (rule appends_u16)

interpretation u24_codec: codec CBB_add_u24 CBS_get_u24 "\<lambda>v. be_bytes 3 (unat v)" "\<lambda>v. unat v < 2 ^ 24"
proof
  fix a :: u32 and s rest
  assume "unat a < 2 ^ 24" "wf_cbs s" "cbs_bytes s = be_bytes 3 (unat a) @ rest"
  then show "CBS_get_u24 s = Some (Some a, cbs_drop (length (be_bytes 3 (unat a))) s)"
    using be_bytes_parse [of s 3 "unat a" rest] by (simp add: CBS_get_u24_def io_ret_def ucast_ucast_u64)
qed (rule appends_u24)

interpretation u32_codec: codec CBB_add_u32 CBS_get_u32 "\<lambda>v. be_bytes 4 (unat v)" "\<lambda>_. True"
proof
  fix a :: u32 and s rest
  assume "wf_cbs s" "cbs_bytes s = be_bytes 4 (unat a) @ rest"
  then show "CBS_get_u32 s = Some (Some a, cbs_drop (length (be_bytes 4 (unat a))) s)"
    using be_bytes_parse [of s 4 "unat a" rest] unat_bound [of a] by (simp add: CBS_get_u32_def io_ret_def ucast_ucast_u64)
qed (rule appends_u32)

interpretation u64_codec: codec CBB_add_u64 CBS_get_u64 "\<lambda>v. be_bytes 8 (unat v)" "\<lambda>_. True"
proof
  fix a :: u64 and s rest
  assume "wf_cbs s" "cbs_bytes s = be_bytes 8 (unat a) @ rest"
  then show "CBS_get_u64 s = Some (Some a, cbs_drop (length (be_bytes 8 (unat a))) s)"
    using be_bytes_parse [of s 8 "unat a" rest] unat_bound [of a] by (simp add: CBS_get_u64_def io_ret_def)
qed (rule appends_u64)

text \<open>The byte swaps, bit by bit.\<close>

lemma not_bit_beyond: "LENGTH('a::len) \<le> n \<Longrightarrow> \<not> bit (x :: 'a word) n"
  using bit_imp_le_length by (metis not_le)

lemma bit_bswap2: "bit (CRYPTO_bswap2 x) n \<longleftrightarrow> n < 16 \<and> bit x (n mod 8 + 8 * (1 - n div 8))"
proof -
  have "\<forall>n<16. bit (CRYPTO_bswap2 x) n \<longleftrightarrow> bit x (n mod 8 + 8 * (1 - n div 8))"
    unfolding all_less_upt by (simp add: CRYPTO_bswap2_def bit_simps upt_rec not_bit_beyond)
       (simp add: eval_nat_numeral)
  then show ?thesis using bit_imp_le_length [of "CRYPTO_bswap2 x" n] by auto
qed

lemma bit_bswap4: "bit (CRYPTO_bswap4 x) n \<longleftrightarrow> n < 32 \<and> bit x (n mod 8 + 8 * (3 - n div 8))"
proof -
  have "\<forall>n<32. bit (CRYPTO_bswap4 x) n \<longleftrightarrow> bit x (n mod 8 + 8 * (3 - n div 8))"
    unfolding all_less_upt by (simp add: CRYPTO_bswap4_def Let_def bit_simps upt_rec not_bit_beyond)
       (simp add: eval_nat_numeral)
  then show ?thesis using bit_imp_le_length [of "CRYPTO_bswap4 x" n] by auto
qed

lemma bit_bswap8: "bit (CRYPTO_bswap8 x) n \<longleftrightarrow> n < 64 \<and> bit x (n mod 8 + 8 * (7 - n div 8))"
proof -
  have "\<forall>n<64. bit (CRYPTO_bswap8 x) n \<longleftrightarrow> bit x (n mod 8 + 8 * (7 - n div 8))"
    unfolding all_less_upt by (simp add: CRYPTO_bswap8_def bit_simps bit_bswap4 upt_rec not_bit_beyond)
  then show ?thesis using bit_imp_le_length [of "CRYPTO_bswap8 x" n] by auto
qed

lemma bswap2_bswap2: "CRYPTO_bswap2 (CRYPTO_bswap2 x) = x"
proof (rule bit_word_eqI)
  fix n :: nat
  have "n mod 8 + 8 * (1 - n div 8) < 8 * 2" using mod_less_divisor [of 8 n] by linarith
  then show "n < LENGTH(16) \<Longrightarrow> bit (CRYPTO_bswap2 (CRYPTO_bswap2 x)) n = bit x n"
    by (simp add: bit_bswap2)
qed

lemma bswap4_bswap4: "CRYPTO_bswap4 (CRYPTO_bswap4 x) = x"
proof (rule bit_word_eqI)
  fix n :: nat
  have "n mod 8 + 8 * (3 - n div 8) < 8 * 4" using mod_less_divisor [of 8 n] by linarith
  then show "n < LENGTH(32) \<Longrightarrow> bit (CRYPTO_bswap4 (CRYPTO_bswap4 x)) n = bit x n"
    by (simp add: bit_bswap4)
qed

lemma bswap8_bswap8: "CRYPTO_bswap8 (CRYPTO_bswap8 x) = x"
proof (rule bit_word_eqI)
  fix n :: nat
  have "n mod 8 + 8 * (7 - n div 8) < 8 * 8" using mod_less_divisor [of 8 n] by linarith
  then show "n < LENGTH(64) \<Longrightarrow> bit (CRYPTO_bswap8 (CRYPTO_bswap8 x)) n = bit x n"
    by (simp add: bit_bswap8)
qed
text \<open>The \<open>le\<close> functions write and read the bytes in little endian order.\<close>

lemma nth_be_bytes: "i < k \<Longrightarrow> be_bytes k n ! i = le_bytes k n ! (k - 1 - i)"
  by (simp add: be_bytes_def rev_nth)

lemma be_bytes_bswap:
  fixes v w :: "'a::len word"
  assumes w: "\<And>n. bit w n \<longleftrightarrow> n < 8 * k \<and> bit v (n mod 8 + 8 * (k - 1 - n div 8))"
  shows "be_bytes k (unat w) = le_bytes k (unat v)"
proof (rule nth_equalityI)
  fix i
  assume "i < length (be_bytes k (unat w))"
  then have i: "i < k" by simp
  have "ucast (drop_bit (8 * (k - 1 - i)) w) = (ucast (drop_bit (8 * i) v) :: u8)"
  proof (rule bit_word_eqI)
    fix n :: nat
    assume n: "n < LENGTH(8)"
    then have d: "(n + 8 * (k - Suc i)) div 8 = k - Suc i" "(n + 8 * (k - Suc i)) mod 8 = n" by simp_all
    have "n + 8 * (k - Suc i) < 8 * k" using n i by simp
    moreover have "k - Suc (k - Suc i) = i" using i by simp
    ultimately show "bit (ucast (drop_bit (8 * (k - 1 - i)) w) :: u8) n = bit (ucast (drop_bit (8 * i) v) :: u8) n"
      using n d by (simp add: bit_simps w add.commute)
  qed
  then show "be_bytes k (unat w) ! i = le_bytes k (unat v) ! i"
    using i by (simp add: nth_be_bytes nth_le_bytes_word)
qed simp

interpretation u16le_codec: codec CBB_add_u16le CBS_get_u16le "\<lambda>v. le_bytes 2 (unat v)" "\<lambda>_. True"
proof -
  have e: "be_bytes 2 (unat (CRYPTO_bswap2 v)) = le_bytes 2 (unat v)" for v
    by (rule be_bytes_bswap) (simp add: bit_bswap2)
  show "codec CBB_add_u16le CBS_get_u16le (\<lambda>v. le_bytes 2 (unat v)) (\<lambda>_. True)"
  proof
    fix a malloc d
    show "appends malloc d (CBB_add_u16le malloc d a) (le_bytes 2 (unat a))"
      using appends_u16 [of malloc d "CRYPTO_bswap2 a"] by (simp add: CBB_add_u16le_def e)
  next
    fix a :: u16 and s rest
    assume "wf_cbs s" "cbs_bytes s = le_bytes 2 (unat a) @ rest"
    then show "CBS_get_u16le s = Some (Some a, cbs_drop (length (le_bytes 2 (unat a))) s)"
      using u16_codec.get_enc [where a = "CRYPTO_bswap2 a" and s = s and rest = rest]
      by (simp add: CBS_get_u16le_def e bswap2_bswap2 io_ret_def)
  qed
qed

interpretation u32le_codec: codec CBB_add_u32le CBS_get_u32le "\<lambda>v. le_bytes 4 (unat v)" "\<lambda>_. True"
proof -
  have e: "be_bytes 4 (unat (CRYPTO_bswap4 v)) = le_bytes 4 (unat v)" for v
    by (rule be_bytes_bswap) (simp add: bit_bswap4)
  show "codec CBB_add_u32le CBS_get_u32le (\<lambda>v. le_bytes 4 (unat v)) (\<lambda>_. True)"
  proof
    fix a malloc d
    show "appends malloc d (CBB_add_u32le malloc d a) (le_bytes 4 (unat a))"
      using appends_u32 [of malloc d "CRYPTO_bswap4 a"] by (simp add: CBB_add_u32le_def e)
  next
    fix a :: u32 and s rest
    assume "wf_cbs s" "cbs_bytes s = le_bytes 4 (unat a) @ rest"
    then show "CBS_get_u32le s = Some (Some a, cbs_drop (length (le_bytes 4 (unat a))) s)"
      using u32_codec.get_enc [where a = "CRYPTO_bswap4 a" and s = s and rest = rest]
      by (simp add: CBS_get_u32le_def e bswap4_bswap4 io_ret_def)
  qed
qed

interpretation u64le_codec: codec CBB_add_u64le CBS_get_u64le "\<lambda>v. le_bytes 8 (unat v)" "\<lambda>_. True"
proof -
  have e: "be_bytes 8 (unat (CRYPTO_bswap8 v)) = le_bytes 8 (unat v)" for v
    by (rule be_bytes_bswap) (simp add: bit_bswap8)
  show "codec CBB_add_u64le CBS_get_u64le (\<lambda>v. le_bytes 8 (unat v)) (\<lambda>_. True)"
  proof
    fix a malloc d
    show "appends malloc d (CBB_add_u64le malloc d a) (le_bytes 8 (unat a))"
      using appends_u64 [of malloc d "CRYPTO_bswap8 a"] by (simp add: CBB_add_u64le_def e)
  next
    fix a :: u64 and s rest
    assume "wf_cbs s" "cbs_bytes s = le_bytes 8 (unat a) @ rest"
    then show "CBS_get_u64le s = Some (Some a, cbs_drop (length (le_bytes 8 (unat a))) s)"
      using u64_codec.get_enc [where a = "CRYPTO_bswap8 a" and s = s and rest = rest]
      by (simp add: CBS_get_u64le_def CBS_get_u64_def e bswap8_bswap8 io_ret_def)
  qed
qed

section \<open>DER integers\<close>

text \<open>A getter that takes the contents of an element and goes on with them.\<close>

lemma get_contents:
  assumes "wf_cbs s" and "length body < 2 ^ 32" and "cbs_bytes s = der tag body @ rest"
  shows "io_bind (CBS_get_asn1 tag) (\<lambda>c cbs. case mem_read (cbs_data c) 0 (unat (cbs_len c)) of
      None \<Rightarrow> None | Some data \<Rightarrow> f data cbs) s = f body (cbs_drop (length (der tag body)) s)"
proof -
  let ?c = "cbs_drop (length (der_hdr tag (length body))) (cbs_take (length (der tag body)) s)"
  have "CBS_get_asn1 tag s = Some (Some ?c, cbs_drop (length (der tag body)) s)"
    unfolding CBS_get_asn1_iff [OF assms(1)] using assms by blast
  then show ?thesis using asn1_contents(3) [OF assms] by simp
qed

lemma uint64_emit_True: "uint64_emit True bs = bs"
  by (induction bs) auto

lemma be_val_emit: "be_val (uint64_emit False bs) = be_val bs"
proof (induction bs)
  case Nil
  then show ?case by (simp add: be_val_def)
next
  case (Cons b bs)
  then show ?case by (simp add: uint64_emit_True be_val_Cons)
qed

lemma emit_minimal:
  "let e = uint64_emit False bs
   in e \<noteq> [] \<and> \<not> cont (e ! 0) \<and> \<not> (e ! 0 = 0 \<and> 1 < length e \<and> \<not> cont (e ! 1))"
  by (induction bs) (auto simp: uint64_emit_True Let_def)

lemma uint64_emit_der: "uint64_emit False (be_bytes 8 (unat (v :: u64))) = der_uint (unat v)"
proof -
  have "unat v < 256 ^ 8" using unat_bound [of v] by simp
  then have "be_val (uint64_emit False (be_bytes 8 (unat v))) = unat v"
    by (simp add: be_val_emit be_val_bytes)
  moreover have "uint64_emit False (be_bytes 8 (unat v))
      = der_uint (be_val (uint64_emit False (be_bytes 8 (unat v))))"
    using emit_minimal [of "be_bytes 8 (unat v)"] unfolding Let_def by (rule iffD1 [OF der_uint_iff])
  ultimately show ?thesis by simp
qed

lemma length_der_uint: "length (der_uint (unat (v :: u64))) \<le> 9"
proof -
  have "length (uint64_emit b bs) \<le> Suc (length bs)" for b bs
    by (induction b bs rule: uint64_emit.induct) (auto simp: uint64_emit_True)
  from this [of False "be_bytes 8 (unat v)"] show ?thesis by (simp add: uint64_emit_der)
qed

lemma appends_asn1_uint64:
  "appends malloc d (CBB_add_asn1_uint64 malloc d v) (der CBS_ASN1_INTEGER (der_uint (unat v)))"
proof -
  have "map (\<lambda>i. ucast (drop_bit (8 * (7 - i)) v AND 0xff)) [0..<8] = be_bytes 8 (unat v)"
  proof (rule nth_equalityI)
    fix i
    assume "i < length (map (\<lambda>i. ucast (drop_bit (8 * (7 - i)) v AND 0xff) :: u8) [0..<8])"
    then have i: "i < 8" by simp
    have "ucast (w AND 0xff) = (ucast w :: u8)" for w :: u64
      using unat_and_mask [of w 8] by (intro unat_eqI) (simp add: unat_ucast_mod mask_eq_exp_minus_1)
    then show "map (\<lambda>i. ucast (drop_bit (8 * (7 - i)) v AND 0xff)) [0..<8] ! i = be_bytes 8 (unat v) ! i"
      using i by (simp add: nth_be_bytes nth_le_bytes_word)
  qed simp
  then show ?thesis
    using appends_element [OF appends_u8s, of "der_uint (unat v)" malloc d CBS_ASN1_INTEGER] length_der_uint [of v]
    by (simp add: CBB_add_asn1_uint64_def uint64_emit_der)
qed

interpretation asn1_uint64_codec:
  codec CBB_add_asn1_uint64 CBS_get_asn1_uint64 "\<lambda>v. der CBS_ASN1_INTEGER (der_uint (unat v))" "\<lambda>_. True"
proof
  fix a :: u64 and s rest
  assume "wf_cbs s" "cbs_bytes s = der CBS_ASN1_INTEGER (der_uint (unat a)) @ rest"
  then show "CBS_get_asn1_uint64 s
      = Some (Some a, cbs_drop (length (der CBS_ASN1_INTEGER (der_uint (unat a)))) s)"
    using CBS_get_asn1_uint64_iff by blast
qed (rule appends_asn1_uint64)

text \<open>Signed integers: the two's complement bytes from the first one that is needed.\<close>

definition der_int :: "u64 \<Rightarrow> u8 list" where
  "der_int v =
     (if 0 \<le> sint v then der_uint (unat v)
      else rev (take (Suc (int64_start (le_bytes 8 (unat v)) 7)) (le_bytes 8 (unat v))))"

lemma sint_nonneg_iff: "0 \<le> sint (v :: u64) \<longleftrightarrow> unat v < 2 ^ 63"
proof -
  have "0 \<le> sint v \<longleftrightarrow> \<not> bit v 63" by (simp add: sint_uint signed_take_bit_nonnegative_iff bit_uint_iff)
  also have "bit v 63 \<longleftrightarrow> bit (unat v) 63" by (simp add: bit_unsigned_iff)
  also have "bit (unat v) 63 \<longleftrightarrow> odd (unat v div 2 ^ 63)" by (rule bit_iff_odd)
  also have "odd (unat v div 2 ^ 63) \<longleftrightarrow> \<not> unat v < 2 ^ 63"
  proof -
    have "unat v div 2 ^ 63 < 2" using unat_bound [of v] by (simp add: div_less_iff_less_mult)
    then have "unat v div 2 ^ 63 = 0 \<or> unat v div 2 ^ 63 = 1" by linarith
    then show ?thesis by (auto simp: div_eq_0_iff)
  qed
  finally show ?thesis by simp
qed

lemma int64_start_props:
  "n < length bs \<Longrightarrow> cont (bs ! n) \<Longrightarrow> let k = int64_start bs n in
     k \<le> n \<and> cont (bs ! k) \<and> (\<forall>i. k < i \<longrightarrow> i \<le> n \<longrightarrow> bs ! i = 0xff) \<and>
     (0 < k \<longrightarrow> \<not> (bs ! k = 0xff \<and> cont (bs ! (k - 1))))"
proof (induction bs n rule: int64_start.induct)
  case (2 bs n)
  show ?case
  proof (cases "bs ! Suc n = 0xff \<and> cont (bs ! n)")
    case True
    let ?k = "int64_start bs n"
    have ih: "?k \<le> n" "cont (bs ! ?k)" "\<And>i. ?k < i \<Longrightarrow> i \<le> n \<Longrightarrow> bs ! i = 0xff"
      "0 < ?k \<Longrightarrow> \<not> (bs ! ?k = 0xff \<and> cont (bs ! (?k - 1)))"
      using "2.IH" True "2.prems" by (simp_all add: Let_def)
    have "bs ! i = 0xff" if "?k < i" "i \<le> Suc n" for i
      using ih(3) [of i] that True by (cases "i = Suc n") auto
    then show ?thesis using ih True by (simp add: Let_def)
  next
    case False
    then show ?thesis using 2 by (auto simp: Let_def)
  qed
qed auto

lemma der_int_length: "length (der_int v) \<le> 9"
  using length_der_uint [of v] by (auto simp: der_int_def)

lemma appends_asn1_int64:
  "appends malloc d (CBB_add_asn1_int64 malloc d v) (der CBS_ASN1_INTEGER (der_int v))"
proof (cases "0 \<le> sint v")
  case True
  then show ?thesis using appends_asn1_uint64 by (simp add: CBB_add_asn1_int64_def der_int_def)
next
  case False
  then show ?thesis
    using appends_element [OF appends_u8s, of "der_int v" malloc d CBS_ASN1_INTEGER] der_int_length [of v]
    by (simp add: CBB_add_asn1_int64_def der_int_def Let_def)
qed

text \<open>The rest of \<open>CBS_get_asn1_int64\<close> after the element is read.\<close>

definition int64_contents :: "u8 list \<Rightarrow> u64 parser" where
  "int64_contents data cbs =
     (let len = length data in
      if len = 0 \<or> 8 < len then Some (None, cbs)
      else if 1 < len \<and> data ! 0 = 0 \<and> data ! 1 AND 0x80 = 0 then Some (None, cbs)
      else if 1 < len \<and> data ! 0 = 0xff \<and> data ! 1 AND 0x80 \<noteq> 0 then Some (None, cbs)
      else let is_negative = data ! 0 AND 0x80 \<noteq> 0;
               u = rev data @ replicate (8 - len) (if is_negative then 0xff else 0)
           in io_ret (of_nat (le_val u)) cbs)"

lemma int64_contents_neg:
  assumes "\<not> 0 \<le> sint v"
  shows "int64_contents (der_int v) cbs = Some (Some v, cbs)"
proof -
  let ?bs = "le_bytes 8 (unat v)" and ?k = "int64_start (le_bytes 8 (unat v)) 7"
  have v: "2 ^ 63 \<le> unat v" "unat v < 256 ^ 8" using assms unat_bound [of v] by (simp_all add: sint_nonneg_iff)
  have "?bs ! 7 = of_nat (unat v div 256 ^ 7)" by (rule nth_le_bytes) simp
  moreover have "128 \<le> unat v div 256 ^ 7" "unat v div 256 ^ 7 < 256"
    using v by (simp_all add: less_eq_div_iff_mult_less_eq div_less_iff_less_mult)
  ultimately have "cont (?bs ! 7)" by (simp add: cont_def unat_of_nat_mod)
  then have k: "?k \<le> 7" "cont (?bs ! ?k)" "\<And>i. ?k < i \<Longrightarrow> i \<le> 7 \<Longrightarrow> ?bs ! i = 0xff"
    "0 < ?k \<Longrightarrow> \<not> (?bs ! ?k = 0xff \<and> cont (?bs ! (?k - 1)))"
    using int64_start_props [of 7 ?bs] by (auto simp: Let_def)
  let ?d = "take (Suc ?k) ?bs"
  have e: "der_int v = rev ?d" using assms by (simp add: der_int_def)
  have len: "length (rev ?d) = Suc ?k" using k(1) by simp
  have d0: "rev ?d ! 0 = ?bs ! ?k" using k(1) by (simp add: rev_nth)
  have d1: "0 < ?k \<Longrightarrow> rev ?d ! 1 = ?bs ! (?k - 1)" using k(1) by (simp add: rev_nth)
  have "?d @ replicate (7 - ?k) 0xff = ?bs"
  proof (rule nth_equalityI)
    fix i
    assume "i < length (?d @ replicate (7 - ?k) 0xff)"
    then show "(?d @ replicate (7 - ?k) 0xff) ! i = ?bs ! i"
      using k(1) k(3) [of i] by (auto simp: nth_append)
  qed (use k(1) in simp)
  moreover have "le_val ?bs = unat v" using v by (simp add: le_val_bytes)
  ultimately have "of_nat (le_val (?d @ replicate (7 - ?k) 0xff)) = v" by simp
  then show ?thesis
    using k len d0 d1 unfolding e int64_contents_def Let_def
    by (auto simp: io_ret_def simp del: rev_take)
qed

lemma length_emit: "bs \<noteq> [] \<Longrightarrow> \<not> cont (bs ! 0) \<Longrightarrow> length (uint64_emit False bs) \<le> length bs"
proof (cases bs)
  case (Cons b rest)
  have "length (uint64_emit False rest) \<le> Suc (length rest)"
    by (induction rest) (auto simp: uint64_emit_True)
  then show "\<not> cont (bs ! 0) \<Longrightarrow> length (uint64_emit False bs) \<le> length bs"
    using Cons by (simp add: uint64_emit_True)
qed simp

lemma le_val_zeros: "le_val (bs @ replicate n 0) = le_val bs"
proof (induction bs)
  case Nil
  then show ?case by (induction n) simp_all
qed simp

lemma int64_contents_pos:
  assumes "0 \<le> sint v"
  shows "int64_contents (der_int v) cbs = Some (Some v, cbs)"
proof -
  let ?d = "der_uint (unat v)"
  have v: "unat v < 2 ^ 63" "unat v < 256 ^ 8" using assms unat_bound [of v] by (simp_all add: sint_nonneg_iff)
  have min: "?d \<noteq> []" "\<not> cont (?d ! 0)" "\<not> (?d ! 0 = 0 \<and> 1 < length ?d \<and> \<not> cont (?d ! 1))"
    using der_uint_iff [of ?d] by (simp_all add: der_uint_val)
  have "be_bytes 8 (unat v) ! 0 = of_nat (unat v div 256 ^ 7)" by (simp add: nth_be_bytes nth_le_bytes)
  moreover have "unat v div 256 ^ 7 < 128" using v by (simp add: div_less_iff_less_mult)
  ultimately have "\<not> cont (be_bytes 8 (unat v) ! 0)" by (simp add: cont_def unat_of_nat_mod)
  then have "length ?d \<le> 8"
    using length_emit [of "be_bytes 8 (unat v)"] by (simp add: uint64_emit_der flip: length_0_conv)
  moreover have "le_val (rev ?d @ replicate n 0) = unat v" for n
    using be_val_rev [of "rev ?d"] by (simp add: le_val_zeros der_uint_val)
  moreover have "cont 0xff" by (simp add: cont_def)
  ultimately show ?thesis
    using min assms by (auto simp: der_int_def int64_contents_def Let_def io_ret_def)
qed

interpretation asn1_int64_codec:
  codec CBB_add_asn1_int64 CBS_get_asn1_int64 "\<lambda>v. der CBS_ASN1_INTEGER (der_int v)" "\<lambda>_. True"
proof
  fix a :: u64 and s rest
  assume s: "wf_cbs s" "cbs_bytes s = der CBS_ASN1_INTEGER (der_int a) @ rest"
  have l: "length (der_int a) < 2 ^ 32" using der_int_length [of a] by simp
  have "CBS_get_asn1_int64 s
      = int64_contents (der_int a) (cbs_drop (length (der CBS_ASN1_INTEGER (der_int a))) s)"
    using get_contents [OF s(1) l s(2), of int64_contents]
    unfolding CBS_get_asn1_int64_def int64_contents_def [abs_def] .
  then show "CBS_get_asn1_int64 s = Some (Some a, cbs_drop (length (der CBS_ASN1_INTEGER (der_int a))) s)"
    using int64_contents_neg int64_contents_pos by (cases "0 \<le> sint a") simp_all
qed (rule appends_asn1_int64)

section \<open>Booleans and strings\<close>

interpretation asn1_bool_codec:
  codec "\<lambda>malloc d v. CBB_add_asn1_bool malloc d (if v then 1 else 0)" CBS_get_asn1_bool
    "\<lambda>v. der CBS_ASN1_BOOLEAN [if v then 0xff else 0]" "\<lambda>_. True"
proof
  fix a malloc d
  show "appends malloc d (CBB_add_asn1_bool malloc d (if a then 1 else 0))
      (der CBS_ASN1_BOOLEAN [if a then 0xff else 0])"
    using appends_element [OF appends_u8, of "if a then 0xff else 0" malloc d CBS_ASN1_BOOLEAN]
    by (cases a) (simp_all add: CBB_add_asn1_bool_def)
next
  fix a s rest
  let ?body = "[if a then 0xff else 0] :: u8 list"
  assume s: "wf_cbs s" "cbs_bytes s = der CBS_ASN1_BOOLEAN ?body @ rest"
  let ?c = "cbs_drop (length (der_hdr CBS_ASN1_BOOLEAN (length ?body))) (cbs_take (length (der CBS_ASN1_BOOLEAN ?body)) s)"
  have b: "length ?body < 2 ^ 32" by simp
  have c: "wf_cbs ?c" "cbs_bytes ?c = ?body" by (rule asn1_contents [OF s(1) b s(2)])+
  have get: "CBS_get_asn1 CBS_ASN1_BOOLEAN s = Some (Some ?c, cbs_drop (length (der CBS_ASN1_BOOLEAN ?body)) s)"
    unfolding CBS_get_asn1_iff [OF s(1)] using s b by blast
  have l: "unat (cbs_len ?c) = 1" using length_cbs_bytes [OF c(1)] c(2) by simp
  then have "cbs_len ?c = 1" by (intro unat_eqI) simp
  moreover obtain r where "cbs_data ?c = (if a then 0xff else 0) # r"
    using c(2) l by (cases "cbs_data ?c") (auto simp: cbs_bytes_def)
  ultimately show "CBS_get_asn1_bool s = Some (Some a, cbs_drop (length (der CBS_ASN1_BOOLEAN ?body)) s)"
    using get by (simp add: CBS_get_asn1_bool_def io_ret_def)
qed

text \<open>Byte strings: the contents of an element or of a length-prefixed string are copied out.\<close>

definition copy_contents :: "CBS \<Rightarrow> u8 list parser" where
  "copy_contents c cbs = (case mem_read (cbs_data c) 0 (unat (cbs_len c)) of
      None \<Rightarrow> None | Some data \<Rightarrow> io_ret data cbs)"

lemma copy_contents_eq:
  "mem_read (cbs_data c) 0 (unat (cbs_len c)) = Some v \<Longrightarrow> copy_contents c t = Some (Some v, t)"
  by (simp only: copy_contents_def option.case io_ret_def)

interpretation asn1_octet_string_codec:
  codec "\<lambda>malloc d v. CBB_add_asn1_octet_string malloc d v (of_nat (length v))"
    "io_bind (CBS_get_asn1 CBS_ASN1_OCTETSTRING) copy_contents"
    "der CBS_ASN1_OCTETSTRING" "\<lambda>v. length v \<le> 0xfffffffe"
proof
  fix a :: "u8 list" and malloc d
  assume a: "length a \<le> 0xfffffffe"
  then have "length a = unat (of_nat (length a) :: size_t)" by (simp add: unat_of_nat_mod)
  then show "appends malloc d (CBB_add_asn1_octet_string malloc d a (of_nat (length a)))
      (der CBS_ASN1_OCTETSTRING a)"
    using appends_element [OF appends_bytes a, of "of_nat (length a)" malloc d CBS_ASN1_OCTETSTRING]
    by (simp add: CBB_add_asn1_octet_string_def)
next
  fix a s rest
  assume a: "length a \<le> 0xfffffffe" and s: "wf_cbs s" "cbs_bytes s = der CBS_ASN1_OCTETSTRING a @ rest"
  have "length a < 2 ^ 32" using a by simp
  from get_contents [OF s(1) this s(2), of io_ret]
  show "io_bind (CBS_get_asn1 CBS_ASN1_OCTETSTRING) copy_contents s
      = Some (Some a, cbs_drop (length (der CBS_ASN1_OCTETSTRING a)) s)"
    by (simp add: copy_contents_def [abs_def] io_ret_def)
qed

definition put_prefixed :: "u8 \<Rightarrow> malloc_fun \<Rightarrow> nat \<Rightarrow> u8 list \<Rightarrow> (CBB, unit) io" where
  "put_prefixed k malloc d v =
     io_bind (cbb_add_length_prefixed malloc k d)
       (\<lambda>_. io_bind (CBB_add_bytes malloc (Suc d) v (of_nat (length v))) (\<lambda>_. CBB_flush malloc d))"

lemma put_prefixed_appends:
  assumes "length v < 256 ^ unat k" and "k \<noteq> 0" "unat k \<le> 3"
  shows "appends malloc d (put_prefixed k malloc d v) (be_bytes (unat k) (length v) @ v)"
proof -
  have "(256::nat) ^ unat k \<le> 256 ^ 3" using assms(3) by (intro power_increasing) auto
  then have "length v = unat (of_nat (length v) :: size_t)" using assms(1) by (simp add: unat_of_nat_mod)
  then have "appends malloc (Suc d) (CBB_add_bytes malloc (Suc d) v (of_nat (length v))) v"
    by (rule appends_bytes)
  from appends_prefixed [OF this assms(1,2)] show ?thesis unfolding put_prefixed_def .
qed

lemma get_prefixed_copy:
  assumes "wf_cbs s" and "cbs_bytes s = be_bytes (unat n) (length v) @ v @ rest"
    and "length v < 256 ^ unat n" and "unat n \<le> 3"
  shows "io_bind (cbs_get_length_prefixed n) copy_contents s = Some (Some v, cbs_drop (unat n + length v) s)"
proof -
  let ?t = "cbs_drop (unat n) s"
  have t: "wf_cbs ?t" "cbs_bytes ?t = v @ rest" using assms by (simp_all add: wf_cbs_drop cbs_bytes_drop)
  have c: "wf_cbs (cbs_take (length v) ?t)" "cbs_bytes (cbs_take (length v) ?t) = v"
    using t by (simp_all add: wf_cbs_take cbs_bytes_take)
  have "cbs_get_length_prefixed n s = Some (Some (cbs_take (length v) ?t), cbs_drop (unat n + length v) s)"
    using length_prefixed_spec [OF assms(1), of n] assms(2-4) by (simp add: Let_def be_val_bytes)
  moreover have "mem_read (cbs_data (cbs_take (length v) ?t)) 0 (unat (cbs_len (cbs_take (length v) ?t))) = Some v"
    using mem_read_cbs_data [OF c(1), of "unat (cbs_len (cbs_take (length v) ?t))"] length_cbs_bytes [OF c(1)] c(2)
    by (simp only: order_refl if_True take_all)
  ultimately show ?thesis by (simp add: copy_contents_eq)
qed

interpretation u8_prefixed_codec:
  codec "put_prefixed 1" "io_bind CBS_get_u8_length_prefixed copy_contents"
    "\<lambda>v. be_bytes 1 (length v) @ v" "\<lambda>v. length v < 2 ^ 8"
proof
  show "length a < 2 ^ 8 \<Longrightarrow> appends malloc d (put_prefixed 1 malloc d a) (be_bytes 1 (length a) @ a)" for a malloc d
    using put_prefixed_appends [of a 1 malloc d] by simp
  show "length a < 2 ^ 8 \<Longrightarrow> wf_cbs s \<Longrightarrow> cbs_bytes s = (be_bytes 1 (length a) @ a) @ rest \<Longrightarrow>
      io_bind CBS_get_u8_length_prefixed copy_contents s
        = Some (Some a, cbs_drop (length (be_bytes 1 (length a) @ a)) s)" for a s rest
    using get_prefixed_copy [of s 1 a rest] by (simp add: CBS_get_u8_length_prefixed_def)
qed

interpretation u16_prefixed_codec:
  codec "put_prefixed 2" "io_bind CBS_get_u16_length_prefixed copy_contents"
    "\<lambda>v. be_bytes 2 (length v) @ v" "\<lambda>v. length v < 2 ^ 16"
proof
  show "length a < 2 ^ 16 \<Longrightarrow> appends malloc d (put_prefixed 2 malloc d a) (be_bytes 2 (length a) @ a)" for a malloc d
    using put_prefixed_appends [of a 2 malloc d] by simp
  show "length a < 2 ^ 16 \<Longrightarrow> wf_cbs s \<Longrightarrow> cbs_bytes s = (be_bytes 2 (length a) @ a) @ rest \<Longrightarrow>
      io_bind CBS_get_u16_length_prefixed copy_contents s
        = Some (Some a, cbs_drop (length (be_bytes 2 (length a) @ a)) s)" for a s rest
    using get_prefixed_copy [of s 2 a rest] by (simp add: CBS_get_u16_length_prefixed_def)
qed

interpretation u24_prefixed_codec:
  codec "put_prefixed 3" "io_bind CBS_get_u24_length_prefixed copy_contents"
    "\<lambda>v. be_bytes 3 (length v) @ v" "\<lambda>v. length v < 2 ^ 24"
proof
  show "length a < 2 ^ 24 \<Longrightarrow> appends malloc d (put_prefixed 3 malloc d a) (be_bytes 3 (length a) @ a)" for a malloc d
    using put_prefixed_appends [of a 3 malloc d] by simp
  show "length a < 2 ^ 24 \<Longrightarrow> wf_cbs s \<Longrightarrow> cbs_bytes s = (be_bytes 3 (length a) @ a) @ rest \<Longrightarrow>
      io_bind CBS_get_u24_length_prefixed copy_contents s
        = Some (Some a, cbs_drop (length (be_bytes 3 (length a) @ a)) s)" for a s rest
    using get_prefixed_copy [of s 3 a rest] by (simp add: CBS_get_u24_length_prefixed_def)
qed

end
