(* ===== verification/Bs_Cbb_Safe.thy ===== *)
theory Bs_Cbb_Safe
  imports Bs_Cbb_Writer
begin

text \<open>
  Memory safety of \<open>cbb.c\<close> when allocations may fail and operations are called in any order: an
  invariant of the buffer and of the chain of open children that every operation keeps, also when it
  fails.
\<close>

section \<open>The invariant\<close>

definition buf_inv :: "cbb_buffer \<Rightarrow> bool" where
  "buf_inv b \<longleftrightarrow>
     length (case cb_buf b of None \<Rightarrow> [] | Some m \<Rightarrow> m) = unat (cb_cap b) \<and>
     cb_len b \<le> cb_cap b \<and> unat (cb_cap b) + 8 < 2 ^ 63"

text \<open>The offsets of the children do not decrease, and none is beyond the end.\<close>

definition chain_inv :: "cbb_child list \<Rightarrow> nat \<Rightarrow> bool" where
  "chain_inv cs len \<longleftrightarrow> sorted (map (unat \<circ> cc_offset) cs) \<and>
     (\<forall>c\<in>set cs. unat (cc_offset c) \<le> len \<and> (pending_is_asn1 c \<longrightarrow> pending_len_len c = 1))"

definition cbb_inv :: "CBB \<Rightarrow> bool" where
  "cbb_inv cbb \<longleftrightarrow>
     (\<exists>b. cbb_base cbb = Some b \<and> buf_inv b \<and> chain_inv (cbb_chain cbb) (unat (cb_len b)))"

lemma chain_inv_mono: "chain_inv cs n \<Longrightarrow> n \<le> m \<Longrightarrow> chain_inv cs m"
  by (auto simp: chain_inv_def intro: le_trans)

lemma chain_inv_Nil [simp]: "chain_inv [] n"
  by (simp add: chain_inv_def)

lemma chain_inv_take: "chain_inv cs n \<Longrightarrow> chain_inv (take d cs) n"
  by (auto simp: chain_inv_def take_map [symmetric] sorted_wrt_take dest: in_set_takeD)

lemma chain_inv_drop: "chain_inv cs n \<Longrightarrow> chain_inv (drop d cs) n"
  by (auto simp: chain_inv_def drop_map [symmetric] sorted_wrt_drop dest: in_set_dropD)

lemma chain_inv_snoc:
  "chain_inv (cs @ [c]) n \<longleftrightarrow> chain_inv cs (unat (cc_offset c)) \<and> unat (cc_offset c) \<le> n \<and>
     (pending_is_asn1 c \<longrightarrow> pending_len_len c = 1)"
  by (auto simp: chain_inv_def sorted_append intro: le_trans)

section \<open>Operations on the buffer\<close>

text \<open>\<open>keeps m\<close>: \<open>m\<close> is defined, keeps the invariant and does not make the string shorter.\<close>

definition keeps :: "(cbb_buffer, 'a) io \<Rightarrow> bool" where
  "keeps m \<longleftrightarrow> (\<forall>b. buf_inv b \<longrightarrow>
     (\<exists>r b'. m b = Some (r, b') \<and> buf_inv b' \<and> cb_len b \<le> cb_len b' \<and>
        (r = None \<longrightarrow> cb_error b') \<and> (r \<noteq> None \<longrightarrow> cb_error b' = cb_error b)))"

lemma keepsE:
  "keeps m \<Longrightarrow> buf_inv b \<Longrightarrow> \<exists>r b'. m b = Some (r, b') \<and> buf_inv b' \<and> cb_len b \<le> cb_len b' \<and>
     (r = None \<longrightarrow> cb_error b') \<and> (r \<noteq> None \<longrightarrow> cb_error b' = cb_error b)"
  by (simp add: keeps_def)

lemma keeps_ret: "keeps (io_ret a)"
  by (simp add: keeps_def io_ret_def)

lemma keeps_fail: "keeps cbb_fail"
  by (simp add: keeps_def cbb_fail_def buf_inv_def)

lemma realloc_buf_safe:
  assumes "alloc_ok malloc" and "case buf of None \<Rightarrow> True | Some m \<Rightarrow> length m + 8 < 2 ^ 63"
    and "unat n + 8 < 2 ^ 64"
  shows "\<exists>r. realloc_buf malloc buf n = Some r \<and>
    (case r of None \<Rightarrow> True | Some m \<Rightarrow> length m = unat n \<and> unat n + 8 < 2 ^ 63)"
proof (cases "malloc (n + OPENSSL_MALLOC_PREFIX)")
  case None
  then show ?thesis
    by (cases buf) (simp_all add: realloc_buf_def OPENSSL_malloc_def block_of_def)
next
  case (Some blk)
  note m = OPENSSL_malloc_Some [OF assms(1,3) Some]
  have small: "unat n + 8 < 2 ^ 63"
    using assms(1) Some add_prefix [OF assms(3)] unfolding alloc_ok_def by metis
  show ?thesis
  proof (cases buf)
    case None
    then show ?thesis using m small by (simp add: realloc_buf_def)
  next
    case (Some old)
    have w: "wf_block (block_of old)" using wf_block_of assms(2) Some by simp
    from OPENSSL_realloc_Some [OF assms(1) w assms(3) \<open>malloc (n + OPENSSL_MALLOC_PREFIX) = Some blk\<close>]
    show ?thesis using Some small by (auto simp: realloc_buf_def)
  qed
qed

lemma cbb_buffer_reserve_safe:
  assumes mal: "alloc_ok malloc" and n: "unat n < 2 ^ 63" and b: "buf_inv b"
  shows "\<exists>r b'. cbb_buffer_reserve malloc n b = Some (r, b') \<and> buf_inv b' \<and> cb_len b' = cb_len b \<and>
    (case r of None \<Rightarrow> cb_error b'
     | Some off \<Rightarrow> cb_error b' = cb_error b \<and> off = unat (cb_len b) \<and>
         unat (cb_len b + n) = unat (cb_len b) + unat n \<and> cb_len b + n \<le> cb_cap b')"
proof -
  let ?new = "cb_len b + n"
  have l: "unat (cb_len b) \<le> unat (cb_cap b)" "unat (cb_cap b) + 8 < 2 ^ 63"
    using b by (simp_all add: buf_inv_def word_le_nat_alt)
  have new: "unat ?new = unat (cb_len b) + unat n" using l n by (simp add: unat_word_ariths)
  then have nov: "\<not> ?new < cb_len b" by (simp add: word_less_nat_alt)
  show ?thesis
  proof (cases "cb_cap b < ?new \<and> can_resize b")
    case False
    then show ?thesis
      using nov new b by (auto simp: cbb_buffer_reserve_def cbb_fail_def io_ret_def Let_def buf_inv_def not_less)
  next
    case True
    let ?cap = "cb_cap b * 2"
    let ?cap' = "if ?cap < cb_cap b \<or> ?cap < ?new then ?new else ?cap"
    have cap: "unat ?cap = 2 * unat (cb_cap b)" using l by (simp add: unat_word_ariths)
    have c: "unat ?cap' + 8 < 2 ^ 64" "unat ?new \<le> unat ?cap'"
      using cap new l n by (auto simp: word_less_nat_alt)
    have "case cb_buf b of None \<Rightarrow> True | Some m \<Rightarrow> length m + 8 < 2 ^ 63"
      using b by (auto simp: buf_inv_def split: option.splits)
    then obtain r where r: "realloc_buf malloc (cb_buf b) ?cap' = Some r"
      "case r of None \<Rightarrow> True | Some m \<Rightarrow> length m = unat ?cap' \<and> unat ?cap' + 8 < 2 ^ 63"
      using realloc_buf_safe [OF mal _ c(1)] by blast
    have e: "cbb_buffer_reserve malloc n b = (case r of None \<Rightarrow> cbb_fail b
        | Some newbuf \<Rightarrow> io_ret (unat (cb_len b)) (b\<lparr>cb_buf := Some newbuf, cb_cap := ?cap'\<rparr>))"
      using True nov r(1) by (simp add: cbb_buffer_reserve_def Let_def split: option.split)
    show ?thesis
    proof (cases r)
      case None
      then show ?thesis using e b by (simp add: cbb_fail_def buf_inv_def)
    next
      case (Some newbuf)
      have "cb_len b \<le> ?cap'" using c(2) new by (simp add: word_le_nat_alt)
      then have "buf_inv (b\<lparr>cb_buf := Some newbuf, cb_cap := ?cap'\<rparr>)"
        using r(2) Some by (simp add: buf_inv_def)
      moreover have "?new \<le> ?cap'" using c(2) by (simp add: word_le_nat_alt)
      ultimately show ?thesis using e Some new by (simp add: io_ret_def)
    qed
  qed
qed

lemma cbb_buffer_add_safe:
  assumes mal: "alloc_ok malloc" and n: "unat n < 2 ^ 63" and b: "buf_inv b"
  shows "\<exists>r b'. cbb_buffer_add malloc n b = Some (r, b') \<and> buf_inv b' \<and> cb_len b \<le> cb_len b' \<and>
    (case r of None \<Rightarrow> cb_error b'
     | Some off \<Rightarrow> cb_error b' = cb_error b \<and> off = unat (cb_len b) \<and>
         unat (cb_len b') = unat (cb_len b) + unat n)"
proof -
  obtain r b1 where r: "cbb_buffer_reserve malloc n b = Some (r, b1)" "buf_inv b1" "cb_len b1 = cb_len b"
    "case r of None \<Rightarrow> cb_error b1
     | Some off \<Rightarrow> cb_error b1 = cb_error b \<and> off = unat (cb_len b) \<and>
         unat (cb_len b + n) = unat (cb_len b) + unat n \<and> cb_len b + n \<le> cb_cap b1"
    using cbb_buffer_reserve_safe [OF assms] by blast
  show ?thesis
  proof (cases r)
    case None
    then show ?thesis using r by (simp add: cbb_buffer_add_def)
  next
    case (Some off)
    then show ?thesis
      using r by (simp add: cbb_buffer_add_def io_ret_def buf_inv_def word_le_nat_alt)
  qed
qed

lemma keeps_add: "alloc_ok malloc \<Longrightarrow> unat n < 2 ^ 63 \<Longrightarrow> keeps (cbb_buffer_add malloc n)"
  unfolding keeps_def using cbb_buffer_add_safe [of malloc n] by (fastforce split: option.splits)

lemma buf_store_safe:
  assumes b: "buf_inv b" and l: "off + length bs \<le> unat (cb_cap b)"
  shows "\<exists>b'. buf_store off bs b = Some (Some (), b') \<and> buf_inv b' \<and> cb_len b' = cb_len b \<and>
    cb_cap b' = cb_cap b \<and> cb_error b' = cb_error b"
proof (cases "bs = []")
  case True
  then show ?thesis using b by (simp add: buf_store_def io_ret_def)
next
  case False
  then obtain m where m: "cb_buf b = Some m" "length m = unat (cb_cap b)"
    using b l by (cases "cb_buf b") (auto simp: buf_inv_def)
  then obtain m' where "mem_write m off bs = Some m'" "length m' = length m"
    using l by (simp add: mem_write_def)
  then show ?thesis using False m b by (simp add: buf_store_def io_ret_def buf_inv_def)
qed

text \<open>Bytes stored where \<open>cbb_buffer_add\<close> made room for them, or anywhere before.\<close>

lemma add_store_safe:
  assumes "alloc_ok malloc" and "unat n < 2 ^ 63" and "length bs = unat n"
  shows "keeps (io_bind (cbb_buffer_add malloc n) (\<lambda>off. buf_store off bs))"
  unfolding keeps_def
proof (intro allI impI)
  fix b
  assume b: "buf_inv b"
  obtain r b1 where r: "cbb_buffer_add malloc n b = Some (r, b1)" "buf_inv b1" "cb_len b \<le> cb_len b1"
    "case r of None \<Rightarrow> cb_error b1
     | Some off \<Rightarrow> cb_error b1 = cb_error b \<and> off = unat (cb_len b) \<and>
         unat (cb_len b1) = unat (cb_len b) + unat n"
    using cbb_buffer_add_safe [OF assms(1,2) b] by blast
  show "\<exists>r b'. io_bind (cbb_buffer_add malloc n) (\<lambda>off. buf_store off bs) b = Some (r, b') \<and>
      buf_inv b' \<and> cb_len b \<le> cb_len b' \<and> (r = None \<longrightarrow> cb_error b') \<and> (r \<noteq> None \<longrightarrow> cb_error b' = cb_error b)"
  proof (cases r)
    case None
    then show ?thesis using r by simp
  next
    case (Some off)
    have "off + length bs \<le> unat (cb_cap b1)"
      using r(2,4) Some assms(3) by (simp add: buf_inv_def word_le_nat_alt)
    from buf_store_safe [OF r(2) this] show ?thesis using r Some by auto
  qed
qed

lemma keeps_bind:
  assumes "keeps m" and "\<And>a. keeps (f a)"
  shows "keeps (io_bind m f)"
  unfolding keeps_def
proof (intro allI impI)
  fix b
  assume "buf_inv b"
  then obtain r b1 where r: "m b = Some (r, b1)" "buf_inv b1" "cb_len b \<le> cb_len b1"
    "r = None \<longrightarrow> cb_error b1" "r \<noteq> None \<longrightarrow> cb_error b1 = cb_error b"
    using keepsE [OF assms(1)] by blast
  show "\<exists>r b'. io_bind m f b = Some (r, b') \<and> buf_inv b' \<and> cb_len b \<le> cb_len b' \<and>
      (r = None \<longrightarrow> cb_error b') \<and> (r \<noteq> None \<longrightarrow> cb_error b' = cb_error b)"
  proof (cases r)
    case None
    then show ?thesis using r by simp
  next
    case (Some a)
    then show ?thesis using r keepsE [OF assms(2) r(2), of a] by (auto intro: order_trans)
  qed
qed

lemma length_be_store: "length (fst (be_store n v)) = n"
  by (simp add: be_store_eq)

lemma keeps_add_u:
  assumes "alloc_ok malloc" and "unat n < 2 ^ 63"
  shows "keeps (cbb_buffer_add_u malloc v n)"
proof (cases "n = 0")
  case True
  then show ?thesis using keeps_ret [of "()"] by (simp add: cbb_buffer_add_u_def)
next
  case False
  let ?bs = "fst (be_store (unat n) v)" and ?v' = "snd (be_store (unat n) v)"
  have e: "cbb_buffer_add_u malloc v n = io_bind (io_bind (cbb_buffer_add malloc n) (\<lambda>off. buf_store off ?bs))
      (\<lambda>_. if ?v' \<noteq> 0 then cbb_fail else io_ret ())"
    using False by (cases "be_store (unat n) v") (simp add: cbb_buffer_add_u_def io_bind_assoc)
  show ?thesis
    unfolding e
    by (rule keeps_bind [OF add_store_safe [OF assms]]) (simp_all add: length_be_store keeps_fail keeps_ret)
qed

section \<open>Flushing\<close>

text \<open>Making room for a longer prefix moves the contents along, inside the buffer.\<close>

lemma buf_move_safe:
  assumes b: "buf_inv b" and "src + n \<le> unat (cb_cap b)" and "dst + n \<le> unat (cb_cap b)"
  shows "\<exists>b'. buf_move dst src n b = Some (Some (), b') \<and> buf_inv b' \<and> cb_len b' = cb_len b \<and>
    cb_cap b' = cb_cap b \<and> cb_error b' = cb_error b"
proof (cases "n = 0")
  case True
  then show ?thesis using b by (simp add: buf_move_def io_ret_def)
next
  case False
  then obtain m where m: "cb_buf b = Some m" "length m = unat (cb_cap b)"
    using assms by (cases "cb_buf b") (auto simp: buf_inv_def)
  then have "mem_read m src n = Some (take n (drop src m))" using assms(2) by (simp add: mem_read_def)
  moreover have "dst + length (take n (drop src m)) \<le> unat (cb_cap b)" using assms(2,3) m(2) by simp
  ultimately show ?thesis using buf_store_safe [OF b, of dst] False m(1) by (simp add: buf_move_def)
qed

text \<open>\<open>grown b r\<close>: the outcome \<open>r\<close> of an operation that \<open>keeps\<close> says to have on \<open>b\<close>.\<close>

definition grown :: "cbb_buffer \<Rightarrow> ('a option \<times> cbb_buffer) option \<Rightarrow> bool" where
  "grown b m \<longleftrightarrow> (\<exists>r b'. m = Some (r, b') \<and> buf_inv b' \<and> cb_len b \<le> cb_len b' \<and>
     (r = None \<longrightarrow> cb_error b') \<and> (r \<noteq> None \<longrightarrow> cb_error b' = cb_error b))"

lemma keeps_grown: "keeps m \<longleftrightarrow> (\<forall>b. buf_inv b \<longrightarrow> grown b (m b))"
  by (simp add: keeps_def grown_def)

lemma grown_fail: "buf_inv b' \<Longrightarrow> cb_len b \<le> cb_len b' \<Longrightarrow> grown b (cbb_fail b')"
  by (simp add: grown_def cbb_fail_def buf_inv_def)

lemma grown_ret:
  "buf_inv b' \<Longrightarrow> cb_len b \<le> cb_len b' \<Longrightarrow> cb_error b' = cb_error b \<Longrightarrow> grown b (io_ret a b')"
  by (simp add: grown_def io_ret_def)

lemma grown_bind:
  assumes "m b = Some (Some a, b')" and "buf_inv b'" "cb_len b \<le> cb_len b'" "cb_error b' = cb_error b"
    and "grown b' (f a b')"
  shows "grown b (io_bind m f b)"
  using assms by (auto simp: grown_def intro: order_trans)

text \<open>The loop that writes the length.\<close>

lemma store_len_safe:
  assumes b: "buf_inv b" and l: "off + n \<le> unat (cb_len b)"
  shows "grown b ((case be_store n rest of (bs, rest') \<Rightarrow>
    io_bind (buf_store off bs) (\<lambda>_. if rest' \<noteq> 0 then cbb_fail else io_ret ())) b)"
proof (cases "be_store n rest")
  case (Pair bs rest')
  then have "length bs = n" using length_be_store [of n rest] by simp
  then have "off + length bs \<le> unat (cb_cap b)" using b l by (simp add: buf_inv_def word_le_nat_alt)
  from buf_store_safe [OF b this] obtain b' where b': "buf_store off bs b = Some (Some (), b')" "buf_inv b'"
    "cb_len b' = cb_len b" "cb_error b' = cb_error b" by blast
  then show ?thesis
    unfolding Pair prod.case
    by (intro grown_bind [of "buf_store off bs" b "()" b']) (simp_all add: grown_fail grown_ret)
qed

lemma asn1_len_len_bounds:
  "asn1_len_len len = Some (n, initial, rest) \<Longrightarrow> n \<noteq> 0 \<and> unat n \<le> 5 \<and> (rest = len \<or> rest = 0)"
  by (auto simp: asn1_len_len_def split: if_splits)

text \<open>Room for the length bytes beyond the first.\<close>

lemma prefix_room_safe:
  fixes start :: size_t and n :: u8
  defines "e \<equiv> ucast (n - 1) :: size_t"
  assumes mal: "alloc_ok malloc" and b: "buf_inv b" and n: "n \<noteq> 0" "unat n \<le> 5"
    and rest: "unat start + unat rest \<le> unat (cb_len b)" and off: "unat off + 1 \<le> unat (cb_len b)"
  shows "\<exists>r b1. (if n \<noteq> 1 then io_bind (cbb_buffer_add malloc e)
        (\<lambda>_. buf_move (unat (start + e)) (unat start) (unat rest)) else io_ret ()) b = Some (r, b1) \<and>
    buf_inv b1 \<and> cb_len b \<le> cb_len b1 \<and>
    (case r of None \<Rightarrow> cb_error b1
     | Some _ \<Rightarrow> cb_error b1 = cb_error b \<and> unat off + unat n \<le> unat (cb_len b1))"
proof (cases "n = 1")
  case True
  then show ?thesis using b off by (simp add: io_ret_def)
next
  case False
  have e: "unat e = unat n - 1" using n by (simp add: e_def unat_minus_one)
  then have "unat e \<le> 5" using n by linarith
  then have "unat e < 2 ^ 63" by simp
  from cbb_buffer_add_safe [OF mal this b] obtain r b0
    where r: "cbb_buffer_add malloc e b = Some (r, b0)" "buf_inv b0" "cb_len b \<le> cb_len b0"
    "case r of None \<Rightarrow> cb_error b0
     | Some off \<Rightarrow> cb_error b0 = cb_error b \<and> off = unat (cb_len b) \<and>
         unat (cb_len b0) = unat (cb_len b) + unat e" by blast
  show ?thesis
  proof (cases r)
    case None
    then show ?thesis using r False by simp
  next
    case (Some off')
    have l: "unat (cb_len b0) = unat (cb_len b) + unat e" "unat (cb_len b0) \<le> unat (cb_cap b0)"
      using r Some by (simp_all add: buf_inv_def word_le_nat_alt)
    have dst: "unat (start + e) = unat start + unat e"
      using l r(2) rest by (simp add: unat_word_ariths buf_inv_def)
    obtain b1 where b1: "buf_move (unat (start + e)) (unat start) (unat rest) b0 = Some (Some (), b1)"
      "buf_inv b1" "cb_len b1 = cb_len b0" "cb_error b1 = cb_error b0"
      using buf_move_safe [OF r(2), of "unat start" "unat rest" "unat (start + e)"] rest l
      unfolding dst by auto
    have "unat off + unat n \<le> unat (cb_len b1)" using l(1) b1(3) e off n(1) by simp
    then show ?thesis using r b1 Some False by simp
  qed
qed

text \<open>The three steps of \<open>write_prefix\<close> for a child whose prefix starts inside the string.\<close>

lemma write_prefix_safe:
  assumes mal: "alloc_ok malloc" and a: "pending_is_asn1 c \<longrightarrow> pending_len_len c = 1"
  shows "keeps (write_prefix malloc c)"
  unfolding keeps_grown
proof (intro allI impI)
  fix b
  assume b: "buf_inv b"
  let ?start = "cc_offset c + ucast (pending_len_len c)" and ?k = "unat (pending_len_len c)"
  show "grown b (write_prefix malloc c b)"
  proof (cases "?start < cc_offset c \<or> cb_len b < ?start")
    case True
    then show ?thesis by (simp add: write_prefix_def Let_def grown_fail b)
  next
    case False
    have l: "cb_len b \<le> cb_cap b" "unat (cb_cap b) + 8 < 2 ^ 63" using b by (simp_all add: buf_inv_def)
    have start: "unat ?start = unat (cc_offset c) + ?k" "unat ?start \<le> unat (cb_len b)"
    proof -
      show "unat ?start \<le> unat (cb_len b)" using False by (simp add: word_le_nat_alt not_less)
      have "cc_offset c \<le> ?start" using False by (simp add: not_less)
      then show "unat ?start = unat (cc_offset c) + ?k"
        using no_plus_overflow_unat_size [of "cc_offset c" "ucast (pending_len_len c)"]
        by (simp add: word_size unat_word_ariths)
    qed
    let ?len = "cb_len b - ?start"
    have len: "unat ?len = unat (cb_len b) - unat ?start"
      using start(2) by (simp add: unat_sub word_le_nat_alt)
    show ?thesis
    proof (cases "pending_is_asn1 c")
      case False
      then have "write_prefix malloc c b = (case be_store ?k ?len of (bs, rest') \<Rightarrow>
          io_bind (buf_store (unat (cc_offset c)) bs) (\<lambda>_. if rest' \<noteq> 0 then cbb_fail else io_ret ())) b"
        using \<open>\<not> (?start < cc_offset c \<or> cb_len b < ?start)\<close>
        by (simp add: write_prefix_def Let_def io_ret_def)
      then show ?thesis using store_len_safe [OF b] start by simp
    next
      case True
      then have k: "?k = 1" using a by simp
      show ?thesis
      proof (cases "asn1_len_len ?len")
        case None
        then show ?thesis
          using True \<open>\<not> (?start < cc_offset c \<or> cb_len b < ?start)\<close>
          using grown_fail [OF b order_refl, where 'a = unit]
          by (simp add: write_prefix_def Let_def cbb_fail_def)
      next
        case (Some t)
        then obtain n initial rest where t: "asn1_len_len ?len = Some (n, initial, rest)" by (cases t) auto
        note n = asn1_len_len_bounds [OF t]
        let ?e = "ucast (n - 1) :: size_t"
        have rest: "unat ?start + unat rest \<le> unat (cb_len b)" using n len start(2) by auto
        have "unat (cc_offset c) + 1 \<le> unat (cb_len b)" using start k by linarith
        from prefix_room_safe [OF mal b _ _ rest this, of n] n
        obtain r b1 where m: "(if n \<noteq> 1 then io_bind (cbb_buffer_add malloc ?e)
            (\<lambda>_. buf_move (unat (?start + ?e)) (unat ?start) (unat rest)) else io_ret ()) b = Some (r, b1)"
          "buf_inv b1" "cb_len b \<le> cb_len b1"
          "case r of None \<Rightarrow> cb_error b1
           | Some _ \<Rightarrow> cb_error b1 = cb_error b \<and> unat (cc_offset c) + unat n \<le> unat (cb_len b1)"
          by blast
        have e0: "write_prefix malloc c b = io_bind
            (io_bind (if n \<noteq> 1 then io_bind (cbb_buffer_add malloc ?e)
                (\<lambda>_. buf_move (unat (?start + ?e)) (unat ?start) (unat rest)) else io_ret ())
              (\<lambda>_. io_bind (buf_store (unat (cc_offset c)) [initial])
                 (\<lambda>_. io_ret (cc_offset c + 1, n - 1, rest))))
            (\<lambda>(offset, len_len, rest). case be_store (unat len_len) rest of (bs, rest') \<Rightarrow>
               io_bind (buf_store (unat offset) bs) (\<lambda>_. if rest' \<noteq> 0 then cbb_fail else io_ret ())) b"
          using True t \<open>\<not> (?start < cc_offset c \<or> cb_len b < ?start)\<close>
          by (simp only: write_prefix_def Let_def if_False if_True option.case prod.case)
        show ?thesis
        proof (cases r)
          case None
          then show ?thesis using m unfolding e0 by (simp add: grown_def)
        next
          case (Some u)
          have fits: "unat (cc_offset c) + unat n \<le> unat (cb_len b1)" "cb_error b1 = cb_error b"
            using m(4) Some by simp_all
          have cap: "unat (cb_len b1) \<le> unat (cb_cap b1)" "unat (cb_cap b1) + 8 < 2 ^ 63"
            using m(2) by (simp_all add: buf_inv_def word_le_nat_alt)
          have n1: "1 \<le> unat n" using n by (simp add: unat_gt_0 Suc_le_eq)
          then have "unat (cc_offset c) + length [initial] \<le> unat (cb_cap b1)" using fits cap by simp
          from buf_store_safe [OF m(2) this] obtain b2 where b2:
            "buf_store (unat (cc_offset c)) [initial] b1 = Some (Some (), b2)" "buf_inv b2"
            "cb_len b2 = cb_len b1" "cb_error b2 = cb_error b1" by blast
          have o: "unat (cc_offset c + 1) = unat (cc_offset c) + 1"
            using fits cap n1 by (simp add: unat_word_ariths)
          have n': "unat (n - 1) = unat n - 1" using n by (simp add: unat_minus_one)
          have "unat (cc_offset c + 1) + unat (n - 1) \<le> unat (cb_len b2)" using o n' n1 fits b2(3) by simp
          note st = store_len_safe [OF b2(2) this, of rest]
          have inner: "io_bind (if n \<noteq> 1 then io_bind (cbb_buffer_add malloc ?e)
                (\<lambda>_. buf_move (unat (?start + ?e)) (unat ?start) (unat rest)) else io_ret ())
              (\<lambda>_. io_bind (buf_store (unat (cc_offset c)) [initial])
                 (\<lambda>_. io_ret (cc_offset c + 1, n - 1, rest))) b = Some (Some (cc_offset c + 1, n - 1, rest), b2)"
            using m(1) Some b2(1) by (simp add: io_ret_def)
          have le: "cb_len b \<le> cb_len b2" and er: "cb_error b2 = cb_error b" using m(3) b2 fits by simp_all
          show ?thesis
            unfolding e0
            by (rule grown_bind [where b = b and b' = b2 and a = "(cc_offset c + 1, n - 1, rest)"],
                rule inner, rule b2(2), rule le, rule er, simp only: prod.case st)
        qed
      qed
    qed
  qed
qed

lemma flush_chain_safe:
  assumes mal: "alloc_ok malloc" and "buf_inv b"
    and "\<forall>c\<in>set cs. pending_is_asn1 c \<longrightarrow> pending_len_len c = 1"
  shows "\<exists>ok cs' b'. flush_chain malloc cs b = Some (ok, cs', b') \<and> buf_inv b' \<and> cb_len b \<le> cb_len b' \<and>
    (\<exists>k. cs' = take k cs) \<and> (if ok then \<not> cb_error b \<and> \<not> cb_error b' else cb_error b')"
  using assms(2,3)
proof (induction cs arbitrary: b)
  case Nil
  then show ?case by simp
next
  case (Cons c cs)
  have p: "c # take k cs = take (Suc k) (c # cs)" for k by simp
  show ?case
  proof (cases "cb_error b \<or> pending_len_len c = 0")
    case True
    then have "flush_chain malloc (c # cs) b = Some (\<not> cb_error b, c # cs, b)" by (cases "cb_error b") simp_all
    moreover have "c # cs = take (length (c # cs)) (c # cs)" by simp
    ultimately show ?thesis using Cons.prems(1) by (metis order_refl)
  next
    case False
    then have go: "\<not> cb_error b" "pending_len_len c \<noteq> 0" by auto
    have "\<forall>c\<in>set cs. pending_is_asn1 c \<longrightarrow> pending_len_len c = 1" using Cons.prems(2) by simp
    from Cons.IH [OF Cons.prems(1) this] obtain ok cs' b1
      where f: "flush_chain malloc cs b = Some (ok, cs', b1)" "buf_inv b1" "cb_len b \<le> cb_len b1"
      and k: "\<exists>k. cs' = take k cs" and ok: "if ok then \<not> cb_error b \<and> \<not> cb_error b1 else cb_error b1"
      by blast
    obtain k where "cs' = take k cs" using k by blast
    then have pre: "c # cs' = take (Suc k) (c # cs)" by simp
    show ?thesis
    proof (cases ok)
      case False
      let ?b = "b1\<lparr>cb_error := True\<rparr>"
      have "flush_chain malloc (c # cs) b = Some (False, c # cs', ?b)" using f(1) go False by simp
      moreover have "buf_inv ?b" "cb_len b \<le> cb_len ?b" "cb_error ?b" using f(2,3) by (simp_all add: buf_inv_def)
      ultimately show ?thesis using pre by (metis (full_types))
    next
      case True
      have w: "keeps (write_prefix malloc c)" using write_prefix_safe [OF mal] Cons.prems(2) by simp
      obtain r b2 where b2: "write_prefix malloc c b1 = Some (r, b2)" "buf_inv b2" "cb_len b1 \<le> cb_len b2"
        "r = None \<longrightarrow> cb_error b2" "r \<noteq> None \<longrightarrow> cb_error b2 = cb_error b1"
        using keepsE [OF w f(2)] by blast
      have l: "cb_len b \<le> cb_len b2" using f(3) b2(3) by (rule order_trans)
      show ?thesis
      proof (cases r)
        case None
        let ?b = "b2\<lparr>cb_error := True\<rparr>"
        have "flush_chain malloc (c # cs) b = Some (False, c # cs', ?b)" using f(1) go True b2(1) None by simp
        moreover have "buf_inv ?b" "cb_len b \<le> cb_len ?b" "cb_error ?b" using b2(2) l by (simp_all add: buf_inv_def)
        ultimately show ?thesis using pre by (metis (full_types))
      next
        case (Some u)
        have "flush_chain malloc (c # cs) b = Some (True, [], b2)" using f(1) go True b2(1) Some by simp
        moreover have "\<not> cb_error b2" using b2(5) ok Some True by simp
        moreover have "[] = take 0 (c # cs)" by simp
        ultimately show ?thesis using b2(2) l go(1) by (metis (full_types))
      qed
    qed
  qed
qed

section \<open>Operations on a \<open>CBB\<close>\<close>

abbreviation cbb_err :: "CBB \<Rightarrow> bool" where
  "cbb_err cbb \<equiv> cb_error (the (cbb_base cbb))"

text \<open>
  \<open>cbb_safe k d e m\<close>: on a live \<open>CBB\<close> at depth \<open>d\<close> the operation \<open>m\<close> is defined and keeps the
  invariant; it leaves the first \<open>k\<close> children alone, sets the error flag when it fails, and when it
  succeeds the \<open>CBB\<close> at depth \<open>e\<close> is live.
\<close>

definition cbb_safe :: "nat \<Rightarrow> nat \<Rightarrow> nat \<Rightarrow> (CBB, 'a) io \<Rightarrow> bool" where
  "cbb_safe k d e m \<longleftrightarrow> (\<forall>cbb. cbb_inv cbb \<longrightarrow> d \<le> length (cbb_chain cbb) \<longrightarrow>
     (\<exists>r cbb'. m cbb = Some (r, cbb') \<and> cbb_inv cbb' \<and>
        take k (cbb_chain cbb') = take k (cbb_chain cbb) \<and>
        cb_len (the (cbb_base cbb)) \<le> cb_len (the (cbb_base cbb')) \<and>
        (r = None \<longrightarrow> cbb_err cbb') \<and>
        (r \<noteq> None \<longrightarrow> cbb_err cbb' = cbb_err cbb \<and> e \<le> length (cbb_chain cbb'))))"

lemma cbb_safeE:
  "cbb_safe k d e m \<Longrightarrow> cbb_inv cbb \<Longrightarrow> d \<le> length (cbb_chain cbb) \<Longrightarrow>
   \<exists>r cbb'. m cbb = Some (r, cbb') \<and> cbb_inv cbb' \<and>
        take k (cbb_chain cbb') = take k (cbb_chain cbb) \<and>
        cb_len (the (cbb_base cbb)) \<le> cb_len (the (cbb_base cbb')) \<and>
        (r = None \<longrightarrow> cbb_err cbb') \<and>
        (r \<noteq> None \<longrightarrow> cbb_err cbb' = cbb_err cbb \<and> e \<le> length (cbb_chain cbb'))"
  by (simp add: cbb_safe_def)

lemma take_take_eq: "take k xs = take k ys \<Longrightarrow> j \<le> k \<Longrightarrow> take j xs = take j ys"
  by (metis min_def take_take)

lemma cbb_safe_mono: "cbb_safe k d e m \<Longrightarrow> k' \<le> k \<Longrightarrow> d \<le> d' \<Longrightarrow> e' \<le> e \<Longrightarrow> cbb_safe k' d' e' m"
  unfolding cbb_safe_def by (meson le_trans take_take_eq)

lemma cbb_safe_ret: "cbb_safe d d d (io_ret a)"
  by (simp add: cbb_safe_def io_ret_def)

lemma cbb_safe_bind:
  assumes m: "cbb_safe k d e m" and f: "\<And>a. cbb_safe k e e' (f a)"
  shows "cbb_safe k d e' (io_bind m f)"
  unfolding cbb_safe_def
proof (intro allI impI)
  fix cbb
  assume "cbb_inv cbb" "d \<le> length (cbb_chain cbb)"
  from cbb_safeE [OF m this] obtain r cbb1 where 1: "m cbb = Some (r, cbb1)" "cbb_inv cbb1"
    "take k (cbb_chain cbb1) = take k (cbb_chain cbb)"
    "cb_len (the (cbb_base cbb)) \<le> cb_len (the (cbb_base cbb1))" "r = None \<longrightarrow> cbb_err cbb1"
    "r \<noteq> None \<longrightarrow> cbb_err cbb1 = cbb_err cbb \<and> e \<le> length (cbb_chain cbb1)" by blast
  show "\<exists>r cbb'. io_bind m f cbb = Some (r, cbb') \<and> cbb_inv cbb' \<and>
        take k (cbb_chain cbb') = take k (cbb_chain cbb) \<and>
        cb_len (the (cbb_base cbb)) \<le> cb_len (the (cbb_base cbb')) \<and>
        (r = None \<longrightarrow> cbb_err cbb') \<and>
        (r \<noteq> None \<longrightarrow> cbb_err cbb' = cbb_err cbb \<and> e' \<le> length (cbb_chain cbb'))"
  proof (cases r)
    case None
    then show ?thesis using 1 by simp
  next
    case (Some a)
    have "e \<le> length (cbb_chain cbb1)" using 1(6) Some by simp
    from cbb_safeE [OF f 1(2) this, of a] show ?thesis
      using 1 Some by (auto intro: order_trans)
  qed
qed

lemma cbb_safe_flush:
  assumes mal: "alloc_ok malloc"
  shows "cbb_safe d d d (CBB_flush malloc d)"
  unfolding cbb_safe_def
proof (intro allI impI)
  fix cbb
  assume inv: "cbb_inv cbb" and d: "d \<le> length (cbb_chain cbb)"
  obtain b where b: "cbb_base cbb = Some b" "buf_inv b" "chain_inv (cbb_chain cbb) (unat (cb_len b))"
    using inv by (auto simp: cbb_inv_def)
  have "\<forall>c\<in>set (drop d (cbb_chain cbb)). pending_is_asn1 c \<longrightarrow> pending_len_len c = 1"
    using b(3) by (auto simp: chain_inv_def dest: in_set_dropD)
  from flush_chain_safe [OF mal b(2) this] obtain ok cs' b' k
    where f: "flush_chain malloc (drop d (cbb_chain cbb)) b = Some (ok, cs', b')" "buf_inv b'"
      "cb_len b \<le> cb_len b'" "cs' = take k (drop d (cbb_chain cbb))"
      "if ok then \<not> cb_error b \<and> \<not> cb_error b' else cb_error b'" by blast
  have "take d (cbb_chain cbb) @ cs' = take (d + k) (cbb_chain cbb)" using f(4) by (simp add: take_add)
  moreover have "chain_inv (take (d + k) (cbb_chain cbb)) (unat (cb_len b'))"
    using chain_inv_mono [OF chain_inv_take [OF b(3)]] f(3) by (simp add: word_le_nat_alt)
  ultimately show "\<exists>r cbb'. CBB_flush malloc d cbb = Some (r, cbb') \<and> cbb_inv cbb' \<and>
        take d (cbb_chain cbb') = take d (cbb_chain cbb) \<and>
        cb_len (the (cbb_base cbb)) \<le> cb_len (the (cbb_base cbb')) \<and>
        (r = None \<longrightarrow> cbb_err cbb') \<and>
        (r \<noteq> None \<longrightarrow> cbb_err cbb' = cbb_err cbb \<and> d \<le> length (cbb_chain cbb'))"
    using f b(1) d by (auto simp: CBB_flush_def cbb_inv_def split: if_splits)
qed

lemma cbb_safe_on_base:
  assumes "keeps m"
  shows "cbb_safe d d d (on_base m)"
  unfolding cbb_safe_def
proof (intro allI impI)
  fix cbb
  assume inv: "cbb_inv cbb" and d: "d \<le> length (cbb_chain cbb)"
  obtain b where b: "cbb_base cbb = Some b" "buf_inv b" "chain_inv (cbb_chain cbb) (unat (cb_len b))"
    using inv by (auto simp: cbb_inv_def)
  obtain r b' where m: "m b = Some (r, b')" "buf_inv b'" "cb_len b \<le> cb_len b'"
    "r = None \<longrightarrow> cb_error b'" "r \<noteq> None \<longrightarrow> cb_error b' = cb_error b"
    using keepsE [OF assms b(2)] by blast
  have "chain_inv (cbb_chain cbb) (unat (cb_len b'))"
    using chain_inv_mono [OF b(3)] m(3) by (simp add: word_le_nat_alt)
  then show "\<exists>r cbb'. on_base m cbb = Some (r, cbb') \<and> cbb_inv cbb' \<and>
        take d (cbb_chain cbb') = take d (cbb_chain cbb) \<and>
        cb_len (the (cbb_base cbb)) \<le> cb_len (the (cbb_base cbb')) \<and>
        (r = None \<longrightarrow> cbb_err cbb') \<and>
        (r \<noteq> None \<longrightarrow> cbb_err cbb' = cbb_err cbb \<and> d \<le> length (cbb_chain cbb'))"
    using b(1) m d by (simp add: on_base_def cbb_inv_def)
qed

text \<open>Opening a child: \<open>m\<close> writes the pending prefix at the end of the string as it is.\<close>

lemma cbb_safe_open:
  assumes m: "\<And>b. cbb_safe d d d (m b)" and a: "a \<longrightarrow> n = 1"
  shows "cbb_safe d d (Suc d) (io_bind get_base (\<lambda>b. io_bind (m b) (\<lambda>_ :: unit.
    add_child d \<lparr>cc_offset = cb_len b, pending_len_len = n, pending_is_asn1 = a\<rparr>)))"
  unfolding cbb_safe_def
proof (intro allI impI)
  fix cbb
  assume inv: "cbb_inv cbb" and d: "d \<le> length (cbb_chain cbb)"
  obtain b where b: "cbb_base cbb = Some b" "buf_inv b" "chain_inv (cbb_chain cbb) (unat (cb_len b))"
    using inv by (auto simp: cbb_inv_def)
  let ?c = "\<lparr>cc_offset = cb_len b, pending_len_len = n, pending_is_asn1 = a\<rparr>"
  have g: "get_base cbb = Some (Some b, cbb)" using b(1) by (simp add: get_base_def io_ret_def)
  from cbb_safeE [OF m inv d, of b] obtain r cbb1 where 1: "m b cbb = Some (r, cbb1)" "cbb_inv cbb1"
    "take d (cbb_chain cbb1) = take d (cbb_chain cbb)"
    "cb_len (the (cbb_base cbb)) \<le> cb_len (the (cbb_base cbb1))" "r = None \<longrightarrow> cbb_err cbb1"
    "r \<noteq> None \<longrightarrow> cbb_err cbb1 = cbb_err cbb \<and> d \<le> length (cbb_chain cbb1)" by blast
  obtain b1 where b1: "cbb_base cbb1 = Some b1" "buf_inv b1" using 1(2) by (auto simp: cbb_inv_def)
  show "\<exists>r cbb'. io_bind get_base (\<lambda>b. io_bind (m b) (\<lambda>_.
        add_child d \<lparr>cc_offset = cb_len b, pending_len_len = n, pending_is_asn1 = a\<rparr>)) cbb = Some (r, cbb') \<and>
        cbb_inv cbb' \<and> take d (cbb_chain cbb') = take d (cbb_chain cbb) \<and>
        cb_len (the (cbb_base cbb)) \<le> cb_len (the (cbb_base cbb')) \<and>
        (r = None \<longrightarrow> cbb_err cbb') \<and>
        (r \<noteq> None \<longrightarrow> cbb_err cbb' = cbb_err cbb \<and> Suc d \<le> length (cbb_chain cbb'))"
  proof (cases r)
    case None
    then show ?thesis using g 1 by simp
  next
    case (Some u)
    have "chain_inv (take d (cbb_chain cbb) @ [?c]) (unat (cb_len b1))"
      unfolding chain_inv_snoc
      using chain_inv_take [OF b(3)] 1(4) b(1) b1(1) a by (simp add: word_le_nat_alt)
    then show ?thesis
      using g 1 Some b(1) b1 d by (simp add: add_child_def io_ret_def cbb_inv_def)
  qed
qed

section \<open>Every operation\<close>

lemma cbb_safe_flushed:
  "alloc_ok malloc \<Longrightarrow> keeps m \<Longrightarrow> cbb_safe d d d (io_bind (CBB_flush malloc d) (\<lambda>_. on_base m))"
  by (rule cbb_safe_bind [OF cbb_safe_flush cbb_safe_on_base])

lemma cbb_safe_uint:
  "alloc_ok malloc \<Longrightarrow> unat n < 2 ^ 63 \<Longrightarrow> cbb_safe d d d (add_uint malloc n d v)"
  unfolding add_uint_def by (intro cbb_safe_flushed keeps_add_u)

lemma cbb_safe_ints:
  assumes "alloc_ok malloc"
  shows "cbb_safe d d d (CBB_add_u8 malloc d v8)" "cbb_safe d d d (CBB_add_u16 malloc d v16)"
    "cbb_safe d d d (CBB_add_u24 malloc d v32)" "cbb_safe d d d (CBB_add_u32 malloc d v32)"
    "cbb_safe d d d (CBB_add_u64 malloc d v64)"
  unfolding CBB_add_u8_def CBB_add_u16_def CBB_add_u24_def CBB_add_u32_def CBB_add_u64_def
  by (rule cbb_safe_uint [OF assms], simp)+

lemma cbb_safe_u8s: "alloc_ok malloc \<Longrightarrow> cbb_safe d d d (add_u8s malloc d bs)"
  by (induction bs) (auto intro: cbb_safe_ret cbb_safe_bind [OF cbb_safe_ints(1)])

lemma cbb_safe_bytes:
  assumes "alloc_ok malloc" and "length data = unat n" and "unat n < 2 ^ 63"
  shows "cbb_safe d d d (CBB_add_bytes malloc d data n)"
proof -
  have "(\<lambda>off b. case mem_read data 0 (unat n) of None \<Rightarrow> None | Some bs \<Rightarrow> buf_store off bs b)
      = (\<lambda>off. buf_store off data)"
    using assms(2) by simp
  then show ?thesis
    unfolding CBB_add_bytes_def
    using cbb_safe_flushed [OF assms(1) add_store_safe [OF assms(1,3,2)]] by simp
qed

lemma cbb_safe_space: "alloc_ok malloc \<Longrightarrow> unat n < 2 ^ 63 \<Longrightarrow> cbb_safe d d d (CBB_add_space malloc d n)"
  unfolding CBB_add_space_def by (intro cbb_safe_flushed keeps_add)

lemma keeps_reserve:
  assumes "alloc_ok malloc" and "unat n < 2 ^ 63"
  shows "keeps (cbb_buffer_reserve malloc n)"
  unfolding keeps_def
proof (intro allI impI)
  fix b
  assume "buf_inv b"
  then obtain r b' where "cbb_buffer_reserve malloc n b = Some (r, b')" "buf_inv b'" "cb_len b' = cb_len b"
    "case r of None \<Rightarrow> cb_error b' | Some off \<Rightarrow> cb_error b' = cb_error b"
    using cbb_buffer_reserve_safe [OF assms, of b] by (auto split: option.splits)
  then show "\<exists>r b'. cbb_buffer_reserve malloc n b = Some (r, b') \<and> buf_inv b' \<and> cb_len b \<le> cb_len b' \<and>
      (r = None \<longrightarrow> cb_error b') \<and> (r \<noteq> None \<longrightarrow> cb_error b' = cb_error b)"
    by (auto split: option.splits)
qed

lemma cbb_safe_reserve: "alloc_ok malloc \<Longrightarrow> unat n < 2 ^ 63 \<Longrightarrow> cbb_safe d d d (CBB_reserve malloc d n)"
  unfolding CBB_reserve_def by (intro cbb_safe_flushed keeps_reserve)

lemma cbb_safe_prefixed:
  assumes mal: "alloc_ok malloc"
  shows "cbb_safe d d (Suc d) (cbb_add_length_prefixed malloc n d)"
proof -
  have "unat n < 2 ^ 63" by (rule less_trans [OF u8_bound]) simp
  then have "keeps (io_bind (cbb_buffer_add malloc (ucast n)) (\<lambda>off. buf_store off (replicate (unat n) 0)))"
    by (intro add_store_safe [OF mal]) simp_all
  from cbb_safe_open [OF cbb_safe_on_base [OF this], of False] show ?thesis
    unfolding cbb_add_length_prefixed_def by (intro cbb_safe_bind [OF cbb_safe_flush [OF mal]]) simp
qed

lemma cbb_safe_asn1:
  assumes mal: "alloc_ok malloc"
  shows "cbb_safe d d (Suc d) (CBB_add_asn1 malloc d tag)"
  unfolding CBB_add_asn1_eq
  by (intro cbb_safe_bind [OF cbb_safe_flush [OF mal]] cbb_safe_bind [OF cbb_safe_u8s [OF mal]]
      cbb_safe_open [OF cbb_safe_ints(1) [OF mal], of True 1]) simp

text \<open>An element with its contents.\<close>

lemma cbb_safe_element:
  assumes mal: "alloc_ok malloc" and m: "cbb_safe (Suc d) (Suc d) (Suc d) m"
  shows "cbb_safe d d d (io_bind (CBB_add_asn1 malloc d tag) (\<lambda>_. io_bind m (\<lambda>_ :: unit. CBB_flush malloc d)))"
proof -
  have "cbb_safe d (Suc d) (Suc d) m" by (rule cbb_safe_mono [OF m]) simp_all
  moreover have "cbb_safe d (Suc d) d (CBB_flush malloc d)"
    by (rule cbb_safe_mono [OF cbb_safe_flush [OF mal]]) simp_all
  ultimately show ?thesis by (intro cbb_safe_bind [OF cbb_safe_asn1 [OF mal]] cbb_safe_bind)
qed

lemma cbb_safe_asn1_uint64: "alloc_ok malloc \<Longrightarrow> cbb_safe d d d (CBB_add_asn1_uint64 malloc d w)"
  unfolding CBB_add_asn1_uint64_def by (intro cbb_safe_element cbb_safe_u8s)

lemma cbb_safe_asn1_int64: "alloc_ok malloc \<Longrightarrow> cbb_safe d d d (CBB_add_asn1_int64 malloc d w)"
  by (auto simp: CBB_add_asn1_int64_def Let_def intro: cbb_safe_asn1_uint64 cbb_safe_element cbb_safe_u8s)

lemma cbb_safe_asn1_octet_string:
  "alloc_ok malloc \<Longrightarrow> length data = unat n \<Longrightarrow> unat n < 2 ^ 63 \<Longrightarrow>
   cbb_safe d d d (CBB_add_asn1_octet_string malloc d data n)"
  unfolding CBB_add_asn1_octet_string_def by (intro cbb_safe_element cbb_safe_bytes)

lemma cbb_safe_asn1_bool: "alloc_ok malloc \<Longrightarrow> cbb_safe d d d (CBB_add_asn1_bool malloc d v)"
  unfolding CBB_add_asn1_bool_def by (intro cbb_safe_element cbb_safe_ints)

section \<open>The state machine\<close>

text \<open>The operations on a string being built; the first argument is the depth of the \<open>CBB\<close>.\<close>

datatype cbb_op =
    Op_flush (op_depth: nat)
  | Op_u8 (op_depth: nat) u8
  | Op_u16 (op_depth: nat) u16
  | Op_u24 (op_depth: nat) u32
  | Op_u32 (op_depth: nat) u32
  | Op_u64 (op_depth: nat) u64
  | Op_u16le (op_depth: nat) u16
  | Op_u32le (op_depth: nat) u32
  | Op_u64le (op_depth: nat) u64
  | Op_bytes (op_depth: nat) "u8 list"
  | Op_space (op_depth: nat) size_t
  | Op_reserve (op_depth: nat) size_t
  | Op_did_write (op_depth: nat) size_t
  | Op_discard (op_depth: nat)
  | Op_u8_prefixed (op_depth: nat)
  | Op_u16_prefixed (op_depth: nat)
  | Op_u24_prefixed (op_depth: nat)
  | Op_asn1 (op_depth: nat) u32
  | Op_asn1_uint64 (op_depth: nat) u64
  | Op_asn1_int64 (op_depth: nat) u64
  | Op_asn1_bool (op_depth: nat) int
  | Op_asn1_octet_string (op_depth: nat) "u8 list"

fun cbb_exec :: "malloc_fun \<Rightarrow> cbb_op \<Rightarrow> (CBB, unit) io" where
  "cbb_exec malloc (Op_flush d) = CBB_flush malloc d"
| "cbb_exec malloc (Op_u8 d v) = CBB_add_u8 malloc d v"
| "cbb_exec malloc (Op_u16 d v) = CBB_add_u16 malloc d v"
| "cbb_exec malloc (Op_u24 d v) = CBB_add_u24 malloc d v"
| "cbb_exec malloc (Op_u32 d v) = CBB_add_u32 malloc d v"
| "cbb_exec malloc (Op_u64 d v) = CBB_add_u64 malloc d v"
| "cbb_exec malloc (Op_u16le d v) = CBB_add_u16le malloc d v"
| "cbb_exec malloc (Op_u32le d v) = CBB_add_u32le malloc d v"
| "cbb_exec malloc (Op_u64le d v) = CBB_add_u64le malloc d v"
| "cbb_exec malloc (Op_bytes d bs) = CBB_add_bytes malloc d bs (of_nat (length bs))"
| "cbb_exec malloc (Op_space d n) = io_bind (CBB_add_space malloc d n) (\<lambda>_. io_ret ())"
| "cbb_exec malloc (Op_reserve d n) = io_bind (CBB_reserve malloc d n) (\<lambda>_. io_ret ())"
| "cbb_exec malloc (Op_did_write d n) = CBB_did_write d n"
| "cbb_exec malloc (Op_discard d) = CBB_discard_child d"
| "cbb_exec malloc (Op_u8_prefixed d) = CBB_add_u8_length_prefixed malloc d"
| "cbb_exec malloc (Op_u16_prefixed d) = CBB_add_u16_length_prefixed malloc d"
| "cbb_exec malloc (Op_u24_prefixed d) = CBB_add_u24_length_prefixed malloc d"
| "cbb_exec malloc (Op_asn1 d tag) = CBB_add_asn1 malloc d tag"
| "cbb_exec malloc (Op_asn1_uint64 d v) = CBB_add_asn1_uint64 malloc d v"
| "cbb_exec malloc (Op_asn1_int64 d v) = CBB_add_asn1_int64 malloc d v"
| "cbb_exec malloc (Op_asn1_bool d v) = CBB_add_asn1_bool malloc d v"
| "cbb_exec malloc (Op_asn1_octet_string d bs) = CBB_add_asn1_octet_string malloc d bs (of_nat (length bs))"

text \<open>Sizes that an object of C can have.\<close>

fun op_sizes :: "cbb_op \<Rightarrow> bool" where
  "op_sizes (Op_bytes d bs) \<longleftrightarrow> length bs < 2 ^ 63"
| "op_sizes (Op_asn1_octet_string d bs) \<longleftrightarrow> length bs < 2 ^ 63"
| "op_sizes (Op_space d n) \<longleftrightarrow> unat n < 2 ^ 63"
| "op_sizes (Op_reserve d n) \<longleftrightarrow> unat n < 2 ^ 63"
| "op_sizes _ \<longleftrightarrow> True"

fun op_writes :: "cbb_op \<Rightarrow> bool" where
  "op_writes (Op_did_write d n) \<longleftrightarrow> False"
| "op_writes (Op_discard d) \<longleftrightarrow> False"
| "op_writes _ \<longleftrightarrow> True"

lemma cbb_safe_exec:
  assumes mal: "alloc_ok malloc" and "op_sizes op" "op_writes op"
  shows "cbb_safe (op_depth op) (op_depth op) (op_depth op) (cbb_exec malloc op)"
proof -
  have n: "unat (of_nat (length bs) :: size_t) = length bs" if "length bs < 2 ^ 63" for bs :: "u8 list"
    using that by (simp add: of_nat_small)
  have p: "cbb_safe d d d (cbb_add_length_prefixed malloc k d)" for d k
    by (rule cbb_safe_mono [OF cbb_safe_prefixed [OF mal]]) simp_all
  have a: "cbb_safe d d d (CBB_add_asn1 malloc d tag)" for d tag
    by (rule cbb_safe_mono [OF cbb_safe_asn1 [OF mal]]) simp_all
  show ?thesis
    using assms
    by (cases op)
       (simp_all add: CBB_add_u8_length_prefixed_def CBB_add_u16_length_prefixed_def
          CBB_add_u24_length_prefixed_def CBB_add_u16le_def CBB_add_u32le_def CBB_add_u64le_def n p a
          cbb_safe_flush cbb_safe_ints cbb_safe_bytes cbb_safe_bind [OF cbb_safe_space cbb_safe_ret]
          cbb_safe_bind [OF cbb_safe_reserve cbb_safe_ret]
          cbb_safe_asn1_uint64 cbb_safe_asn1_int64 cbb_safe_asn1_bool cbb_safe_asn1_octet_string)
qed

lemma did_write_safe:
  assumes "cbb_inv cbb" and "d \<le> length (cbb_chain cbb)"
  shows "\<exists>r cbb'. CBB_did_write d n cbb = Some (r, cbb') \<and> cbb_inv cbb' \<and> cbb_err cbb' = cbb_err cbb"
proof -
  obtain b where b: "cbb_base cbb = Some b" "buf_inv b" "chain_inv (cbb_chain cbb) (unat (cb_len b))"
    using assms(1) by (auto simp: cbb_inv_def)
  show ?thesis
  proof (cases "d < length (cbb_chain cbb) \<or> cb_len b + n < cb_len b \<or> cb_cap b < cb_len b + n")
    case True
    then show ?thesis
      using b assms by (auto simp: CBB_did_write_def get_base_def io_ret_def Let_def)
  next
    case False
    let ?b = "b\<lparr>cb_len := cb_len b + n\<rparr>"
    have "cb_len b \<le> cb_len ?b" using False by (simp add: not_less)
    then have "chain_inv (cbb_chain cbb) (unat (cb_len ?b))"
      using chain_inv_mono [OF b(3)] by (simp add: word_le_nat_alt)
    moreover have "buf_inv ?b" using b(2) False by (simp add: buf_inv_def not_less)
    ultimately show ?thesis
      using b False assms by (simp add: CBB_did_write_def get_base_def io_ret_def Let_def cbb_inv_def)
  qed
qed

lemma discard_safe:
  assumes "cbb_inv cbb"
  shows "\<exists>cbb'. CBB_discard_child d cbb = Some (Some (), cbb') \<and> cbb_inv cbb' \<and> cbb_err cbb' = cbb_err cbb"
proof -
  obtain b where b: "cbb_base cbb = Some b" "buf_inv b" "chain_inv (cbb_chain cbb) (unat (cb_len b))"
    using assms(1) by (auto simp: cbb_inv_def)
  show ?thesis
  proof (cases "d < length (cbb_chain cbb)")
    case True
    let ?c = "cbb_chain cbb ! d"
    have "take d (cbb_chain cbb) @ [?c] = take (Suc d) (cbb_chain cbb)" using True by (simp add: take_Suc_conv_app_nth)
    then have c: "chain_inv (take d (cbb_chain cbb) @ [?c]) (unat (cb_len b))"
      using chain_inv_take [OF b(3)] by metis
    then have "cc_offset ?c \<le> cb_cap b"
      using b(2) unfolding chain_inv_snoc by (simp add: buf_inv_def word_le_nat_alt)
    then show ?thesis
      using True b c unfolding chain_inv_snoc
      by (simp add: CBB_discard_child_def get_base_def io_ret_def cbb_inv_def buf_inv_def)
  next
    case False
    then show ?thesis using assms by (simp add: CBB_discard_child_def io_ret_def)
  qed
qed

text \<open>One step: an operation on a live \<open>CBB\<close>, with whether it succeeded.\<close>

inductive cbb_step :: "malloc_fun \<Rightarrow> CBB \<Rightarrow> cbb_op \<Rightarrow> bool \<Rightarrow> CBB \<Rightarrow> bool" for malloc where
  "op_depth op \<le> length (cbb_chain cbb) \<Longrightarrow> op_sizes op \<Longrightarrow> cbb_exec malloc op cbb = Some (r, cbb') \<Longrightarrow>
   cbb_step malloc cbb op (r \<noteq> None) cbb'"

inductive cbb_run :: "malloc_fun \<Rightarrow> CBB \<Rightarrow> (cbb_op \<times> bool) list \<Rightarrow> CBB \<Rightarrow> bool" for malloc where
  run_Nil: "cbb_run malloc cbb [] cbb"
| run_snoc: "cbb_run malloc cbb tr cbb1 \<Longrightarrow> cbb_step malloc cbb1 op ok cbb2 \<Longrightarrow>
    cbb_run malloc cbb (tr @ [(op, ok)]) cbb2"

inductive_cases cbb_stepE: "cbb_step malloc cbb op ok cbb'"

lemma exec_safe:
  assumes mal: "alloc_ok malloc" and inv: "cbb_inv cbb" and op: "op_depth op \<le> length (cbb_chain cbb)" "op_sizes op"
  shows "\<exists>r cbb'. cbb_exec malloc op cbb = Some (r, cbb') \<and> cbb_inv cbb' \<and>
    (cbb_err cbb \<longrightarrow> cbb_err cbb') \<and> (r = None \<longrightarrow> op_writes op \<longrightarrow> cbb_err cbb')"
proof (cases "op_writes op")
  case True
  from cbb_safeE [OF cbb_safe_exec [OF mal op(2) True] inv op(1)] show ?thesis by (metis not_None_eq)
next
  case False
  then show ?thesis
    using did_write_safe [OF inv op(1)] discard_safe [OF inv] by (cases op) fastforce+
qed

lemma cbb_step_inv:
  assumes "alloc_ok malloc" and "cbb_inv cbb" and "cbb_step malloc cbb op ok cbb'"
  shows "cbb_inv cbb'" "cbb_err cbb \<Longrightarrow> cbb_err cbb'" "\<not> ok \<Longrightarrow> op_writes op \<Longrightarrow> cbb_err cbb'"
  using assms(3) exec_safe [OF assms(1,2), of op] by (auto elim!: cbb_stepE)

lemma cbb_run_inv:
  assumes "alloc_ok malloc" and "cbb_run malloc cbb tr cbb'" and "cbb_inv cbb"
  shows "cbb_inv cbb' \<and> ((\<exists>(op, ok)\<in>set tr. op_writes op \<and> \<not> ok) \<longrightarrow> cbb_err cbb')"
  using assms(2,3)
proof induction
  case (run_snoc cbb tr cbb1 op ok cbb2)
  then show ?case using cbb_step_inv [OF assms(1) _ run_snoc.hyps(2)] by auto
qed simp

end
