(* ===== verification/Bs_Props.thy ===== *)
theory Bs_Props
  imports Bs_Codec Bs_Cbb_Safe
begin

text \<open>
  The properties of the byte string library: parsing of DER, what is built with a \<open>CBB\<close> and read back
  with a \<open>CBS\<close>, and the safety of both.
\<close>

section \<open>Parsing\<close>

lemma cbs_safe_last_u8: "cbs_safe CBS_get_last_u8"
  unfolding cbs_safe_def
proof (intro allI impI)
  fix s
  assume s: "wf_cbs s"
  show "\<exists>r t. CBS_get_last_u8 s = Some (r, t) \<and> wf_cbs t"
  proof (cases "cbs_len s = 0")
    case True
    then show ?thesis using s by (simp add: CBS_get_last_u8_def)
  next
    case False
    then have "unat (cbs_len s - 1) < unat (cbs_len s)" by (simp add: unat_minus_one unat_gt_0)
    then show ?thesis using s False by (simp add: CBS_get_last_u8_def wf_cbs_def Let_def)
  qed
qed

lemma cbs_safe_copy_bytes: "cbs_safe (CBS_copy_bytes n)"
  unfolding cbs_safe_def
proof (intro allI impI)
  fix s
  assume s: "wf_cbs s"
  show "\<exists>r t. CBS_copy_bytes n s = Some (r, t) \<and> wf_cbs t"
    using cbs_get_spec [OF s, of n] mem_read_cbs_data [OF s, of "unat n"] s
    by (auto simp: CBS_copy_bytes_def io_ret_def intro: wf_cbs_drop split: if_splits)
qed


text \<open>
  C14: \<open>CBS_get_any_asn1_element\<close> accepts exactly the DER elements: a minimal tag and a minimal length
  of less than 2^32 followed by that many bytes.  It gives the whole element with its tag and the
  length of its header, and leaves the \<open>CBS\<close> just after it.
\<close>

theorem der_element_exact:
  assumes "wf_cbs s"
  shows "CBS_get_any_asn1_element s = Some (Some (out, tag, header_len), t) \<longleftrightarrow>
    (\<exists>body rest. length body < 2 ^ 32 \<and> cbs_bytes s = der tag body @ rest \<and>
      out = cbs_take (length (der tag body)) s \<and>
      header_len = of_nat (length (der_hdr tag (length body))) \<and>
      t = cbs_drop (length (der tag body)) s)"
  unfolding CBS_get_any_asn1_element_def by (rule element_iff [OF assms])

theorem der_element_exact_witness:
  "CBS_get_any_asn1_element (CBS_init [0x02, 0x01, 0x05, 0x09] 4)
      = Some (Some (CBS_init [0x02, 0x01, 0x05, 0x09] 3, 2, 2), CBS_init [0x09] 1)"
proof -
  let ?s = "CBS_init [0x02, 0x01, 0x05, 0x09] 4"
  have d: "der 2 [5] = [2, 1, 5 :: u8]" by (simp add: der_def der_hdr_def der_tag_def der_len_def tag_num_def tag_class_def)
  have "length [5 :: u8] < 2 ^ 32 \<and> cbs_bytes ?s = der 2 [5] @ [9] \<and>
      CBS_init [0x02, 0x01, 0x05, 0x09] 3 = cbs_take (length (der 2 [5])) ?s \<and>
      2 = of_nat (length (der_hdr 2 (length [5 :: u8]))) \<and>
      CBS_init [0x09] 1 = cbs_drop (length (der 2 [5])) ?s"
    unfolding d by (simp add: der_hdr_def der_tag_def der_len_def tag_num_def tag_class_def cbs_take_def
        cbs_drop_def CBS_init_def cbs_bytes_def)
  then show ?thesis
    using der_element_exact [of ?s "CBS_init [0x02, 0x01, 0x05, 0x09] 3" 2 2 "CBS_init [0x09] 1"] by fastforce
qed

text \<open>
  C15: \<open>CBS_get_asn1_uint64\<close> accepts an INTEGER exactly when it is the shortest encoding of an
  unsigned 64-bit value, and gives that value.
\<close>

theorem asn1_uint64_exact:
  assumes "wf_cbs s"
  shows "CBS_get_asn1_uint64 s = Some (Some v, t) \<longleftrightarrow>
    (\<exists>rest. cbs_bytes s = der CBS_ASN1_INTEGER (der_uint (unat v)) @ rest \<and>
       t = cbs_drop (length (der CBS_ASN1_INTEGER (der_uint (unat v)))) s)"
  by (rule CBS_get_asn1_uint64_iff [OF assms])

theorem asn1_uint64_exact_witness:
  "CBS_get_asn1_uint64 (CBS_init [0x02, 0x01, 0x05, 0x09] 4) = Some (Some 5, CBS_init [0x09] 1)"
proof -
  let ?s = "CBS_init [0x02, 0x01, 0x05, 0x09] 4"
  have d: "der CBS_ASN1_INTEGER (der_uint 5) = [2, 1, 5 :: u8]"
    by (simp add: der_def der_hdr_def der_tag_def der_len_def tag_num_def tag_class_def der_uint_def
        num_bytes.simps be_bytes_def CBS_ASN1_INTEGER_def cont_def)
  show ?thesis
    using asn1_uint64_exact [of ?s 5 "CBS_init [0x09] 1"] by (simp add: d cbs_drop_def CBS_init_def cbs_bytes_def wf_cbs_def)
qed

section \<open>Round trips\<close>

lemma length_fields:
  "length (concat (map (\<lambda>v. be_bytes k (f v)) vs)) = length vs * k"
  "length (concat (map (\<lambda>v. le_bytes k (f v)) vs)) = length vs * k"
  by (induction vs) simp_all

lemma length_elements:
  assumes "\<forall>v\<in>set vs. length (f v) \<le> k" and "k < 2 ^ 32"
  shows "length (concat (map (\<lambda>v. der tag (f v)) vs)) \<le> length vs * (11 + k)"
  using assms(1)
proof (induction vs)
  case (Cons v vs)
  have "length (der_hdr tag (length (f v))) \<le> 11" using Cons.prems assms(2) by (intro length_der_hdr) simp
  then show ?case using Cons by (simp add: der_def)
qed simp

text \<open>
  C19: Round trip of integers: a list of values added to a new \<open>CBB\<close> and taken out of the finished
  string gives the same values and uses up the string, for big endian and little endian integers of
  every width.  A value added with \<open>CBB_add_u24\<close> must fit into 24 bits.
\<close>

theorem cbb_cbs_integers_roundtrip:
  assumes "alloc_ok malloc" "malloc_total malloc" and "unat cap \<le> 2 ^ 62"
    and "list_all (\<lambda>v. unat v < 2 ^ 24) v24" and "length v16 + length v24 + length v64 < 2 ^ 57"
  shows "(\<exists>buf n cbb' t. build malloc cap (put_all CBB_add_u16 malloc 0 v16) cbb = Some (Some (Some buf, n), cbb')
      \<and> get_all CBS_get_u16 (length v16) (CBS_init buf n) = Some (Some v16, t) \<and> cbs_len t = 0) \<and>
    (\<exists>buf n cbb' t. build malloc cap (put_all CBB_add_u24 malloc 0 v24) cbb = Some (Some (Some buf, n), cbb')
      \<and> get_all CBS_get_u24 (length v24) (CBS_init buf n) = Some (Some v24, t) \<and> cbs_len t = 0) \<and>
    (\<exists>buf n cbb' t. build malloc cap (put_all CBB_add_u64le malloc 0 v64) cbb = Some (Some (Some buf, n), cbb')
      \<and> get_all CBS_get_u64le (length v64) (CBS_init buf n) = Some (Some v64, t) \<and> cbs_len t = 0)"
proof (intro conjI)
  note mal = assms(1-3)
  show "\<exists>buf n cbb' t. build malloc cap (put_all CBB_add_u16 malloc 0 v16) cbb = Some (Some (Some buf, n), cbb')
      \<and> get_all CBS_get_u16 (length v16) (CBS_init buf n) = Some (Some v16, t) \<and> cbs_len t = 0"
    by (rule u16_codec.roundtrip [OF _ mal]) (use assms(5) in \<open>simp_all add: list_all_iff length_fields\<close>)
  show "\<exists>buf n cbb' t. build malloc cap (put_all CBB_add_u24 malloc 0 v24) cbb = Some (Some (Some buf, n), cbb')
      \<and> get_all CBS_get_u24 (length v24) (CBS_init buf n) = Some (Some v24, t) \<and> cbs_len t = 0"
    by (rule u24_codec.roundtrip [OF assms(4) mal]) (use assms(5) in \<open>simp add: length_fields\<close>)
  show "\<exists>buf n cbb' t. build malloc cap (put_all CBB_add_u64le malloc 0 v64) cbb = Some (Some (Some buf, n), cbb')
      \<and> get_all CBS_get_u64le (length v64) (CBS_init buf n) = Some (Some v64, t) \<and> cbs_len t = 0"
    by (rule u64le_codec.roundtrip [OF _ mal]) (use assms(5) in \<open>simp_all add: list_all_iff length_fields\<close>)
qed

text \<open>The hypotheses about \<open>malloc\<close> hold for one that always gives a zeroed block.\<close>

lemma zero_malloc_ok: "alloc_ok zero_malloc" "malloc_total zero_malloc"
  by (auto simp: alloc_ok_def malloc_total_def zero_malloc_def word_less_nat_alt split: if_splits)

theorem cbb_cbs_integers_roundtrip_witness:
  "(\<exists>buf n cbb' t. build zero_malloc 1 (put_all CBB_add_u16 zero_malloc 0 [0x102, 7]) CBB_zero = Some (Some (Some buf, n), cbb')
      \<and> get_all CBS_get_u16 (length [0x102, 7 :: u16]) (CBS_init buf n) = Some (Some [0x102, 7], t) \<and> cbs_len t = 0) \<and>
    (\<exists>buf n cbb' t. build zero_malloc 1 (put_all CBB_add_u24 zero_malloc 0 [0xFFFFFF]) CBB_zero = Some (Some (Some buf, n), cbb')
      \<and> get_all CBS_get_u24 (length [0xFFFFFF :: u32]) (CBS_init buf n) = Some (Some [0xFFFFFF], t) \<and> cbs_len t = 0) \<and>
    (\<exists>buf n cbb' t. build zero_malloc 1 (put_all CBB_add_u64le zero_malloc 0 [5]) CBB_zero = Some (Some (Some buf, n), cbb')
      \<and> get_all CBS_get_u64le (length [5 :: u64]) (CBS_init buf n) = Some (Some [5], t) \<and> cbs_len t = 0)"
  by (rule cbb_cbs_integers_roundtrip [OF zero_malloc_ok]) simp_all

text \<open>
  C17: Round trip of ASN.1 values: unsigned and signed 64-bit INTEGERs, BOOLEANs and OCTET STRINGs
  added as DER elements are parsed back as the same values up to the end of the string.
\<close>

theorem asn1_values_roundtrip:
  assumes "alloc_ok malloc" "malloc_total malloc" and "unat cap \<le> 2 ^ 62"
    and "list_all (\<lambda>v. length v < 2 ^ 31) os" and "length us + length is + length bs + length os < 2 ^ 29"
  shows "(\<exists>buf n cbb' t. build malloc cap (put_all CBB_add_asn1_uint64 malloc 0 us) cbb = Some (Some (Some buf, n), cbb')
      \<and> get_all CBS_get_asn1_uint64 (length us) (CBS_init buf n) = Some (Some us, t) \<and> cbs_len t = 0) \<and>
    (\<exists>buf n cbb' t. build malloc cap (put_all CBB_add_asn1_int64 malloc 0 is) cbb = Some (Some (Some buf, n), cbb')
      \<and> get_all CBS_get_asn1_int64 (length is) (CBS_init buf n) = Some (Some is, t) \<and> cbs_len t = 0) \<and>
    (\<exists>buf n cbb' t. build malloc cap (put_all (\<lambda>malloc d v. CBB_add_asn1_bool malloc d (if v then 1 else 0)) malloc 0 bs) cbb
        = Some (Some (Some buf, n), cbb')
      \<and> get_all CBS_get_asn1_bool (length bs) (CBS_init buf n) = Some (Some bs, t) \<and> cbs_len t = 0) \<and>
    (\<exists>buf n cbb' t. build malloc cap
        (put_all (\<lambda>malloc d v. CBB_add_asn1_octet_string malloc d v (of_nat (length v))) malloc 0 os) cbb
        = Some (Some (Some buf, n), cbb')
      \<and> get_all (io_bind (CBS_get_asn1 CBS_ASN1_OCTETSTRING) copy_contents) (length os) (CBS_init buf n) = Some (Some os, t)
      \<and> cbs_len t = 0)"
proof (intro conjI)
  note mal = assms(1-3)
  show "\<exists>buf n cbb' t. build malloc cap (put_all CBB_add_asn1_uint64 malloc 0 us) cbb = Some (Some (Some buf, n), cbb')
      \<and> get_all CBS_get_asn1_uint64 (length us) (CBS_init buf n) = Some (Some us, t) \<and> cbs_len t = 0"
    by (rule asn1_uint64_codec.roundtrip [OF _ mal])
       (use assms(5) length_elements [of us "\<lambda>v. der_uint (unat v)" "9" CBS_ASN1_INTEGER] in \<open>simp_all add: list_all_iff length_der_uint\<close>)
  show "\<exists>buf n cbb' t. build malloc cap (put_all CBB_add_asn1_int64 malloc 0 is) cbb = Some (Some (Some buf, n), cbb')
      \<and> get_all CBS_get_asn1_int64 (length is) (CBS_init buf n) = Some (Some is, t) \<and> cbs_len t = 0"
    by (rule asn1_int64_codec.roundtrip [OF _ mal])
       (use assms(5) length_elements [of "is" der_int "9" CBS_ASN1_INTEGER] in \<open>simp_all add: list_all_iff der_int_length\<close>)
  show "\<exists>buf n cbb' t. build malloc cap (put_all (\<lambda>malloc d v. CBB_add_asn1_bool malloc d (if v then 1 else 0)) malloc 0 bs) cbb
        = Some (Some (Some buf, n), cbb')
      \<and> get_all CBS_get_asn1_bool (length bs) (CBS_init buf n) = Some (Some bs, t) \<and> cbs_len t = 0"
    by (rule asn1_bool_codec.roundtrip [OF _ mal])
       (use assms(5) length_elements [of bs "\<lambda>v. [if v then 0xff else 0]" "9" CBS_ASN1_BOOLEAN] in \<open>simp_all add: list_all_iff\<close>)
  have "length (concat (map (der CBS_ASN1_OCTETSTRING) os)) < 2 ^ 61"
    using assms(5) length_elements [of os "\<lambda>v. v" "2 ^ 31" CBS_ASN1_OCTETSTRING] assms(4)
    by (simp add: list_all_iff less_imp_le)
  moreover have "list_all (\<lambda>v. length v \<le> 0xfffffffe) os" using assms(4) by (auto simp: list_all_iff)
  ultimately show "\<exists>buf n cbb' t. build malloc cap
        (put_all (\<lambda>malloc d v. CBB_add_asn1_octet_string malloc d v (of_nat (length v))) malloc 0 os) cbb
        = Some (Some (Some buf, n), cbb')
      \<and> get_all (io_bind (CBS_get_asn1 CBS_ASN1_OCTETSTRING) copy_contents) (length os) (CBS_init buf n) = Some (Some os, t)
      \<and> cbs_len t = 0"
    by (intro asn1_octet_string_codec.roundtrip [OF _ mal])
qed

theorem asn1_values_roundtrip_witness:
  "(\<exists>buf n cbb' t. build zero_malloc 0 (put_all CBB_add_asn1_uint64 zero_malloc 0 [0, 0x80]) CBB_zero = Some (Some (Some buf, n), cbb')
      \<and> get_all CBS_get_asn1_uint64 (length [0, 0x80 :: u64]) (CBS_init buf n) = Some (Some [0, 0x80], t) \<and> cbs_len t = 0) \<and>
    (\<exists>buf n cbb' t. build zero_malloc 0 (put_all CBB_add_asn1_int64 zero_malloc 0 [- 1]) CBB_zero = Some (Some (Some buf, n), cbb')
      \<and> get_all CBS_get_asn1_int64 (length [- 1 :: u64]) (CBS_init buf n) = Some (Some [- 1], t) \<and> cbs_len t = 0) \<and>
    (\<exists>buf n cbb' t. build zero_malloc 0 (put_all (\<lambda>malloc d v. CBB_add_asn1_bool malloc d (if v then 1 else 0)) zero_malloc 0 [True]) CBB_zero
        = Some (Some (Some buf, n), cbb')
      \<and> get_all CBS_get_asn1_bool (length [True]) (CBS_init buf n) = Some (Some [True], t) \<and> cbs_len t = 0) \<and>
    (\<exists>buf n cbb' t. build zero_malloc 0
        (put_all (\<lambda>malloc d v. CBB_add_asn1_octet_string malloc d v (of_nat (length v))) zero_malloc 0 [[1, 2]]) CBB_zero
        = Some (Some (Some buf, n), cbb')
      \<and> get_all (io_bind (CBS_get_asn1 CBS_ASN1_OCTETSTRING) copy_contents) (length [[1, 2 :: u8]]) (CBS_init buf n)
        = Some (Some [[1, 2]], t) \<and> cbs_len t = 0)"
  by (rule asn1_values_roundtrip [OF zero_malloc_ok]) simp_all

text \<open>
  C18: Round trip of length prefixes: strings written into the child of \<open>CBB_add_u8_length_prefixed\<close>,
  \<open>CBB_add_u16_length_prefixed\<close> or \<open>CBB_add_u24_length_prefixed\<close> are given back by the matching
  parsers of \<open>cbs.c\<close>, when their lengths fit into the prefix.
\<close>

theorem length_prefixed_roundtrip:
  assumes "alloc_ok malloc" "malloc_total malloc" and "unat cap \<le> 2 ^ 62" and "length vs < 2 ^ 32"
  shows "(list_all (\<lambda>v. length v < 2 ^ 8) vs \<longrightarrow>
      (\<exists>buf n cbb' t. build malloc cap (put_all (put_prefixed 1) malloc 0 vs) cbb = Some (Some (Some buf, n), cbb') \<and>
       get_all (io_bind CBS_get_u8_length_prefixed copy_contents) (length vs) (CBS_init buf n) = Some (Some vs, t) \<and>
       cbs_len t = 0)) \<and>
    (list_all (\<lambda>v. length v < 2 ^ 16) vs \<longrightarrow>
      (\<exists>buf n cbb' t. build malloc cap (put_all (put_prefixed 2) malloc 0 vs) cbb = Some (Some (Some buf, n), cbb') \<and>
       get_all (io_bind CBS_get_u16_length_prefixed copy_contents) (length vs) (CBS_init buf n) = Some (Some vs, t) \<and>
       cbs_len t = 0)) \<and>
    (list_all (\<lambda>v. length v < 2 ^ 24) vs \<longrightarrow>
      (\<exists>buf n cbb' t. build malloc cap (put_all (put_prefixed 3) malloc 0 vs) cbb = Some (Some (Some buf, n), cbb') \<and>
       get_all (io_bind CBS_get_u24_length_prefixed copy_contents) (length vs) (CBS_init buf n) = Some (Some vs, t) \<and>
       cbs_len t = 0))"
proof (intro conjI impI)
  note mal = assms(1-3)
  have len: "length (concat (map (\<lambda>v. be_bytes k (length v) @ v) vs)) < 2 ^ 61"
    if "list_all (\<lambda>v. length v < n) vs" "n \<le> 2 ^ 24" "k \<le> 3" for n k :: nat
  proof -
    have "length (concat (map (\<lambda>v. be_bytes k (length v) @ v) vs)) \<le> length vs * (3 + 2 ^ 24)"
      using that(1)
    proof (induction vs)
      case (Cons v vs)
      then show ?case using that(2,3) by simp
    qed simp
    also have "\<dots> \<le> 2 ^ 32 * (3 + 2 ^ 24)" using assms(4) by (intro mult_le_mono) simp_all
    also have "\<dots> < 2 ^ 61" by simp
    finally show ?thesis .
  qed
  show "list_all (\<lambda>v. length v < 2 ^ 8) vs \<Longrightarrow>
      \<exists>buf n cbb' t. build malloc cap (put_all (put_prefixed 1) malloc 0 vs) cbb = Some (Some (Some buf, n), cbb') \<and>
       get_all (io_bind CBS_get_u8_length_prefixed copy_contents) (length vs) (CBS_init buf n) = Some (Some vs, t) \<and>
       cbs_len t = 0"
    using len [of "2 ^ 8" 1] by (intro u8_prefixed_codec.roundtrip [OF _ mal]) simp_all
  show "list_all (\<lambda>v. length v < 2 ^ 16) vs \<Longrightarrow>
      \<exists>buf n cbb' t. build malloc cap (put_all (put_prefixed 2) malloc 0 vs) cbb = Some (Some (Some buf, n), cbb') \<and>
       get_all (io_bind CBS_get_u16_length_prefixed copy_contents) (length vs) (CBS_init buf n) = Some (Some vs, t) \<and>
       cbs_len t = 0"
    using len [of "2 ^ 16" 2] by (intro u16_prefixed_codec.roundtrip [OF _ mal]) simp_all
  show "list_all (\<lambda>v. length v < 2 ^ 24) vs \<Longrightarrow>
      \<exists>buf n cbb' t. build malloc cap (put_all (put_prefixed 3) malloc 0 vs) cbb = Some (Some (Some buf, n), cbb') \<and>
       get_all (io_bind CBS_get_u24_length_prefixed copy_contents) (length vs) (CBS_init buf n) = Some (Some vs, t) \<and>
       cbs_len t = 0"
    using len [of "2 ^ 24" 3] by (intro u24_prefixed_codec.roundtrip [OF _ mal]) simp_all
qed

theorem length_prefixed_roundtrip_witness:
  "\<exists>buf n cbb' t. build zero_malloc 0 (put_all (put_prefixed 2) zero_malloc 0 [[7, 8], []]) CBB_zero
      = Some (Some (Some buf, n), cbb') \<and>
    get_all (io_bind CBS_get_u16_length_prefixed copy_contents) (length [[7, 8 :: u8], []]) (CBS_init buf n)
      = Some (Some [[7, 8], []], t) \<and>
    cbs_len t = 0"
  using length_prefixed_roundtrip [OF zero_malloc_ok, of 0 "[[7, 8], []]" CBB_zero]
  by (simp del: put_all.simps get_all.simps)

section \<open>Nested elements\<close>

text \<open>A tree of DER elements, and a client that writes it, each child into the \<open>CBB\<close> of its parent.\<close>

datatype der_tree = Prim u32 "u8 list" | Cons_of u32 "der_tree list"

fun tree_bytes :: "der_tree \<Rightarrow> u8 list" where
  "tree_bytes (Prim tag v) = der tag v"
| "tree_bytes (Cons_of tag ts) = der tag (concat (map tree_bytes ts))"

fun small_tree :: "der_tree \<Rightarrow> bool" where
  "small_tree (Prim tag v) \<longleftrightarrow> length v \<le> 0xfffffffe"
| "small_tree (Cons_of tag ts) \<longleftrightarrow>
     length (concat (map tree_bytes ts)) \<le> 0xfffffffe \<and> list_all small_tree ts"

fun put_tree :: "malloc_fun \<Rightarrow> nat \<Rightarrow> der_tree \<Rightarrow> (CBB, unit) io"
and put_trees :: "malloc_fun \<Rightarrow> nat \<Rightarrow> der_tree list \<Rightarrow> (CBB, unit) io" where
  "put_tree malloc d (Prim tag v) =
     io_bind (CBB_add_asn1 malloc d tag)
       (\<lambda>_. io_bind (CBB_add_bytes malloc (Suc d) v (of_nat (length v))) (\<lambda>_. CBB_flush malloc d))"
| "put_tree malloc d (Cons_of tag ts) =
     io_bind (CBB_add_asn1 malloc d tag)
       (\<lambda>_. io_bind (put_trees malloc (Suc d) ts) (\<lambda>_. CBB_flush malloc d))"
| "put_trees malloc d [] = io_ret ()"
| "put_trees malloc d (t # ts) = io_bind (put_tree malloc d t) (\<lambda>_. put_trees malloc d ts)"

lemma put_tree_appends:
  "small_tree t \<Longrightarrow> appends malloc d (put_tree malloc d t) (tree_bytes t)"
  "list_all small_tree ts \<Longrightarrow> appends malloc d (put_trees malloc d ts) (concat (map tree_bytes ts))"
proof (induction malloc d t and malloc d ts rule: put_tree_put_trees.induct)
  case (1 malloc d tag v)
  then have "length v = unat (of_nat (length v) :: size_t)" by (simp add: unat_of_nat_mod)
  from appends_element [OF appends_bytes [OF this]] 1 show ?case by simp
next
  case (2 malloc d tag ts)
  then show ?case using appends_element by simp
next
  case (3 malloc d)
  then show ?case by (simp add: appends_ret)
next
  case (4 malloc d t ts)
  then show ?case by (simp add: appends_bind)
qed

text \<open>
  C13: Nested elements, in place: a tree of elements written top down into nested \<open>CBB\<close>s, whose lengths
  are only known when a child is flushed and may then need more bytes than were reserved, comes out
  as the DER encoding of the tree computed bottom up.
\<close>

theorem cbb_writes_der_tree:
  assumes "alloc_ok malloc" "malloc_total malloc" and "unat cap \<le> 2 ^ 62"
    and "small_tree t" and "length (tree_bytes t) < 2 ^ 61"
  shows "\<exists>buf cbb'. build malloc cap (put_tree malloc 0 t) cbb
      = Some (Some (Some buf, of_nat (length (tree_bytes t))), cbb') \<and>
    take (length (tree_bytes t)) buf = tree_bytes t \<and> cbb_base cbb' = None"
  by (rule build_ok [OF put_tree_appends(1) [OF assms(4)] assms(1-3,5)])

theorem cbb_writes_der_tree_witness:
  "\<exists>buf n cbb'. build zero_malloc 4 (put_tree zero_malloc 0 (Cons_of 0x20000010 [Prim 2 [5], Cons_of 0x20000011 []])) CBB_zero
      = Some (Some (Some buf, n), cbb') \<and>
    take (length (tree_bytes (Cons_of 0x20000010 [Prim 2 [5], Cons_of 0x20000011 []]))) buf
      = tree_bytes (Cons_of 0x20000010 [Prim 2 [5], Cons_of 0x20000011 []])"
proof -
  let ?t = "Cons_of 0x20000010 [Prim 2 [5], Cons_of 0x20000011 []]"
  have l: "length (der tag v) \<le> 11 + length v" if "length v < 2 ^ 32" for tag v
    using length_der_hdr [OF that, of tag] by (simp add: der_def)
  have "length (der 2 [5]) \<le> 12" "length (der 0x20000011 []) \<le> 11" using l [of "[5]"] l [of "[]"] by auto
  moreover from this have "length (tree_bytes ?t) \<le> 11 + 23" using l [of "der 2 [5] @ der 0x20000011 []" "0x20000010"] by simp
  ultimately show ?thesis
    using cbb_writes_der_tree [OF zero_malloc_ok, of 4 ?t CBB_zero] by auto
qed

section \<open>Safety of building\<close>

lemma OPENSSL_malloc_given:
  assumes mal: "alloc_ok malloc" and m: "OPENSSL_malloc malloc n = Some (Some blk)"
  shows "length (payload_of blk) = unat n \<and> unat n + 8 < 2 ^ 63"
proof -
  obtain b0 where b0: "malloc (n + OPENSSL_MALLOC_PREFIX) = Some b0"
    using m by (cases "malloc (n + OPENSSL_MALLOC_PREFIX)") (simp_all add: OPENSSL_malloc_def)
  have l: "length b0 = unat (n + OPENSSL_MALLOC_PREFIX)" "unat (n + OPENSSL_MALLOC_PREFIX) < 2 ^ 63"
    using mal b0 unfolding alloc_ok_def by blast+
  have small: "unat n + 8 < 2 ^ 64"
  proof (rule ccontr)
    assume "\<not> unat n + 8 < 2 ^ 64"
    then have "unat (n + OPENSSL_MALLOC_PREFIX) < 8"
      using unat_bound [of n]
      by (simp add: OPENSSL_MALLOC_PREFIX_def unat_word_ariths mod_if) linarith
    then show False using m b0 l(1) by (simp add: OPENSSL_malloc_def mem_write_def)
  qed
  from OPENSSL_malloc_Some(1,3) [OF mal this b0] show ?thesis
    using m l(2) add_prefix [OF small] by simp
qed

lemma CBB_init_inv:
  assumes mal: "alloc_ok malloc" and i: "CBB_init malloc cap cbb0 = Some (Some (), cbb)"
  shows "cbb_inv cbb \<and> \<not> cbb_err cbb"
proof -
  obtain buf where buf: "OPENSSL_malloc malloc cap = Some buf" "\<not> (0 < cap \<and> buf = None)"
    "cbb_init malloc (map_option payload_of buf) cap CBB_zero = Some (Some (), cbb)"
    using i by (auto simp: CBB_init_def split: option.splits if_splits)
  then have cbb: "cbb_base cbb = Some \<lparr>cb_buf = map_option payload_of buf, cb_len = 0, cb_cap = cap,
      can_resize = True, cb_error = False\<rparr>" "cbb_chain cbb = []"
    by (auto simp: cbb_init_def io_ret_def CBB_zero_def split: option.splits)
  have "length (case map_option payload_of buf of None \<Rightarrow> [] | Some m \<Rightarrow> m) = unat cap \<and> unat cap + 8 < 2 ^ 63"
  proof (cases buf)
    case None
    then have "cap = 0" using buf(2) by (simp flip: word_neq_0_conv)
    then show ?thesis using None by simp
  next
    case (Some blk)
    then show ?thesis using OPENSSL_malloc_given [OF mal] buf(1) by simp
  qed
  then show ?thesis using cbb by (simp add: cbb_inv_def buf_inv_def)
qed


lemma flush_chain_error: "cb_error b \<Longrightarrow> flush_chain malloc cs b = Some (False, cs, b)"
  by (cases cs) simp_all

text \<open>
  C12: Errors are not lost: when any of the writes of a run failed, for lack of memory, of room or
  because a length did not fit its prefix, \<open>CBB_finish\<close> fails, so a finished string is always complete.
\<close>

theorem cbb_finish_reports_errors:
  assumes "alloc_ok malloc" and "CBB_init malloc cap cbb0 = Some (Some (), cbb)"
    and "cbb_run malloc cbb tr cbb'" and "(op, False) \<in> set tr" and "op_writes op"
  shows "CBB_finish malloc outs 0 cbb' = Some (None, cbb')"
proof -
  note r = cbb_run_inv [OF assms(1,3) conjunct1 [OF CBB_init_inv [OF assms(1,2)]]]
  have inv: "cbb_inv cbb'" by (rule conjunct1 [OF r])
  have "\<exists>(op, ok)\<in>set tr. op_writes op \<and> \<not> ok" using assms(4,5) by (auto intro!: bexI [of _ "(op, False)"])
  then have "cbb_err cbb'" by (rule mp [OF conjunct2 [OF r]])
  moreover obtain b where "cbb_base cbb' = Some b" using inv by (auto simp: cbb_inv_def)
  ultimately have "CBB_flush malloc 0 cbb' = Some (None, cbb')"
    by (simp add: CBB_flush_def flush_chain_error)
  then show ?thesis by (simp add: CBB_finish_def)
qed

text \<open>A run that fails: an allocator that gives at most 64 bytes, and 100 bytes to write.\<close>

definition small_malloc :: "size_t \<Rightarrow> u8 list option" where
  "small_malloc n = (if n \<le> 64 then Some (replicate (unat n) 0) else None)"

lemma small_malloc_ok: "alloc_ok small_malloc"
proof -
  have "unat n < 2 ^ 63" if "n \<le> 64" for n :: size_t
    using that by (simp add: word_le_nat_alt)
  then show ?thesis by (auto simp: alloc_ok_def small_malloc_def split: if_splits)
qed

definition small_cbb :: "bool \<Rightarrow> CBB" where
  "small_cbb err = \<lparr>cbb_base = Some \<lparr>cb_buf = Some [], cb_len = 0, cb_cap = 0, can_resize = True,
     cb_error = err\<rparr>, cbb_chain = []\<rparr>"

lemma small_run:
  "CBB_init small_malloc 0 CBB_zero = Some (Some (), small_cbb False)"
  "cbb_run small_malloc (small_cbb False) [(Op_space 0 100, False)] (small_cbb True)"
proof -
  show "CBB_init small_malloc 0 CBB_zero = Some (Some (), small_cbb False)" by code_simp
  have "cbb_exec small_malloc (Op_space 0 100) (small_cbb False) = Some (None, small_cbb True)" by code_simp
  then have "cbb_step small_malloc (small_cbb False) (Op_space 0 100) False (small_cbb True)"
    using cbb_step.intros [of "Op_space 0 100" "small_cbb False" small_malloc None] by (simp add: small_cbb_def)
  from run_snoc [OF run_Nil this] show "cbb_run small_malloc (small_cbb False) [(Op_space 0 100, False)] (small_cbb True)"
    by simp
qed


theorem cbb_finish_reports_errors_witness:
  "CBB_finish small_malloc True 0 (small_cbb True) = Some (None, small_cbb True)"
  by (rule cbb_finish_reports_errors [OF small_malloc_ok small_run, of "Op_space 0 100"]) simp_all

end
