(* ===== verification/Ldb_Coding.thy ===== *)
theory Ldb_Coding
  imports Varint
begin

text \<open>
  \<open>util/coding.cc\<close> and \<open>util/coding.h\<close> of leveldb.  A \<open>Slice\<close> and a \<open>std::string\<close> are the bytes they
  hold; the functions that append to \<open>*dst\<close> give the new string.  The pointer variants of the
  getters take the bytes from \<open>p\<close> to \<open>limit\<close> and give the value with the bytes from the returned
  pointer on, or \<open>None\<close> for \<open>nullptr\<close>.
\<close>

type_synonym slice = "u8 list"

section \<open>Fixed width\<close>

text \<open>The platforms of the application are little endian.\<close>

definition EncodeFixed32 :: "u32 \<Rightarrow> slice" where
  "EncodeFixed32 v = [ucast v, ucast (drop_bit 8 v), ucast (drop_bit 16 v), ucast (drop_bit 24 v)]"

definition EncodeFixed64 :: "u64 \<Rightarrow> slice" where
  "EncodeFixed64 v =
     [ucast v, ucast (drop_bit 8 v), ucast (drop_bit 16 v), ucast (drop_bit 24 v),
      ucast (drop_bit 32 v), ucast (drop_bit 40 v), ucast (drop_bit 48 v), ucast (drop_bit 56 v)]"

definition PutFixed32 :: "slice \<Rightarrow> u32 \<Rightarrow> slice" where
  "PutFixed32 dst value = dst @ EncodeFixed32 value"

definition PutFixed64 :: "slice \<Rightarrow> u64 \<Rightarrow> slice" where
  "PutFixed64 dst value = dst @ EncodeFixed64 value"

text \<open>A pointer with too few bytes behind it is the value \<open>None\<close>.\<close>

definition DecodeFixed32 :: "slice \<Rightarrow> u32 option" where
  "DecodeFixed32 ptr = (if length ptr < 4 then None else Some (of_nat (le_val (take 4 ptr))))"

definition DecodeFixed64 :: "slice \<Rightarrow> u64 option" where
  "DecodeFixed64 ptr = (if length ptr < 8 then None else Some (of_nat (le_val (take 8 ptr))))"

section \<open>Varints\<close>

definition EncodeVarint32 :: "u32 \<Rightarrow> slice" where
  "EncodeVarint32 v =
     (let B = 128
      in if v < push_bit 7 1 then [ucast v]
         else if v < push_bit 14 1 then [ucast (v OR B), ucast (drop_bit 7 v)]
         else if v < push_bit 21 1 then [ucast (v OR B), ucast (drop_bit 7 v OR B), ucast (drop_bit 14 v)]
         else if v < push_bit 28 1 then
           [ucast (v OR B), ucast (drop_bit 7 v OR B), ucast (drop_bit 14 v OR B), ucast (drop_bit 21 v)]
         else
           [ucast (v OR B), ucast (drop_bit 7 v OR B), ucast (drop_bit 14 v OR B), ucast (drop_bit 21 v OR B),
            ucast (drop_bit 28 v)])"

definition PutVarint32 :: "slice \<Rightarrow> u32 \<Rightarrow> slice" where
  "PutVarint32 dst v = dst @ EncodeVarint32 v"

function EncodeVarint64 :: "u64 \<Rightarrow> slice" where
  "EncodeVarint64 v = (if 128 \<le> v then ucast (v OR 128) # EncodeVarint64 (drop_bit 7 v) else [ucast v])"
  by pat_completeness auto
termination
  by (relation "measure unat") (auto simp: unat_drop_bit word_le_nat_alt)

declare EncodeVarint64.simps [simp del]

definition PutVarint64 :: "slice \<Rightarrow> u64 \<Rightarrow> slice" where
  "PutVarint64 dst v = dst @ EncodeVarint64 v"

text \<open>The size of a slice is converted to 32 bits.\<close>

definition PutLengthPrefixedSlice :: "slice \<Rightarrow> slice \<Rightarrow> slice" where
  "PutLengthPrefixedSlice dst value = PutVarint32 dst (of_nat (length value)) @ value"

function VarintLength_loop :: "nat \<Rightarrow> u64 \<Rightarrow> nat" where
  "VarintLength_loop len v = (if 128 \<le> v then VarintLength_loop (len + 1) (drop_bit 7 v) else len)"
  by pat_completeness auto
termination
  by (relation "measure (unat \<circ> snd)") (auto simp: unat_drop_bit word_le_nat_alt)

declare VarintLength_loop.simps [simp del]

definition VarintLength :: "u64 \<Rightarrow> nat" where
  "VarintLength v = VarintLength_loop 1 v"

fun varint32_ptr_loop :: "u32 \<Rightarrow> u32 \<Rightarrow> slice \<Rightarrow> (u32 \<times> slice) option" where
  "varint32_ptr_loop shift result [] = None"
| "varint32_ptr_loop shift result (b # p) =
     (if shift \<le> 28 then
        let byte = ucast b
        in if byte AND 128 \<noteq> 0
           then varint32_ptr_loop (shift + 7) (result OR push_bit (unat shift) (byte AND 127)) p
           else Some (result OR push_bit (unat shift) byte, p)
      else None)"

definition GetVarint32PtrFallback :: "slice \<Rightarrow> (u32 \<times> slice) option" where
  "GetVarint32PtrFallback p = varint32_ptr_loop 0 0 p"

definition GetVarint32Ptr :: "slice \<Rightarrow> (u32 \<times> slice) option" where
  "GetVarint32Ptr p =
     (case p of
        [] \<Rightarrow> GetVarint32PtrFallback p
      | b # q \<Rightarrow>
          let result = ucast b
          in if result AND 128 = 0 then Some (result, q) else GetVarint32PtrFallback p)"

fun varint64_ptr_loop :: "u32 \<Rightarrow> u64 \<Rightarrow> slice \<Rightarrow> (u64 \<times> slice) option" where
  "varint64_ptr_loop shift result [] = None"
| "varint64_ptr_loop shift result (b # p) =
     (if shift \<le> 63 then
        let byte = ucast b
        in if byte AND 128 \<noteq> 0
           then varint64_ptr_loop (shift + 7) (result OR push_bit (unat shift) (byte AND 127)) p
           else Some (result OR push_bit (unat shift) byte, p)
      else None)"

definition GetVarint64Ptr :: "slice \<Rightarrow> (u64 \<times> slice) option" where
  "GetVarint64Ptr p = varint64_ptr_loop 0 0 p"

text \<open>The getters on a \<open>Slice\<close>: the value, or \<open>None\<close> for false, and the slice afterwards.\<close>

definition GetVarint32 :: "slice \<Rightarrow> u32 option \<times> slice" where
  "GetVarint32 input = (case GetVarint32Ptr input of None \<Rightarrow> (None, input) | Some (v, q) \<Rightarrow> (Some v, q))"

definition GetVarint64 :: "slice \<Rightarrow> u64 option \<times> slice" where
  "GetVarint64 input = (case GetVarint64Ptr input of None \<Rightarrow> (None, input) | Some (v, q) \<Rightarrow> (Some v, q))"

definition GetLengthPrefixedSlicePtr :: "slice \<Rightarrow> (slice \<times> slice) option" where
  "GetLengthPrefixedSlicePtr p =
     (case GetVarint32Ptr p of
        None \<Rightarrow> None
      | Some (len, q) \<Rightarrow>
          if length q < unat len then None else Some (take (unat len) q, drop (unat len) q))"

definition GetLengthPrefixedSlice :: "slice \<Rightarrow> slice option \<times> slice" where
  "GetLengthPrefixedSlice input =
     (case GetVarint32 input of
        (Some len, input') \<Rightarrow>
          if unat len \<le> length input' then (Some (take (unat len) input'), drop (unat len) input')
          else (None, input')
      | (None, input') \<Rightarrow> (None, input'))"

section \<open>The codes\<close>

lemma EncodeFixed32_le: "EncodeFixed32 v = le_bytes 4 (unat v)"
  by (simp add: EncodeFixed32_def le_bytes_word upt_rec)

lemma EncodeFixed64_le: "EncodeFixed64 v = le_bytes 8 (unat v)"
  by (simp add: EncodeFixed64_def le_bytes_word upt_rec)

lemma length_EncodeFixed [simp]: "length (EncodeFixed32 v) = 4" "length (EncodeFixed64 w) = 8"
  by (simp_all add: EncodeFixed32_def EncodeFixed64_def)

lemma DecodeFixed32_Encode: "DecodeFixed32 (EncodeFixed32 v @ rest) = Some v"
proof -
  have "le_val (EncodeFixed32 v) = unat v"
    unfolding EncodeFixed32_le le_val_bytes using unat_bound [of v] by simp
  then show ?thesis by (simp add: DecodeFixed32_def)
qed

lemma DecodeFixed64_Encode: "DecodeFixed64 (EncodeFixed64 v @ rest) = Some v"
proof -
  have "le_val (EncodeFixed64 v) = unat v"
    unfolding EncodeFixed64_le le_val_bytes using unat_bound [of v] by simp
  then show ?thesis by (simp add: DecodeFixed64_def)
qed

lemma bit_128: "8 \<le> LENGTH('a) \<Longrightarrow> bit (128 :: 'a::len word) n \<longleftrightarrow> n = 7"
  using bit_exp_iff [of 7 n, where 'a = "'a word"] by auto

lemma ucast_or_128:
  assumes "8 \<le> LENGTH('a)"
  shows "(ucast (v OR 128) :: u8) = of_nat (unat (v :: 'a::len word) mod 128 + 128)"
proof -
  have m: "(127 :: 'a word) = mask 7" by (simp add: mask_eq_exp_minus_1)
  have b: "bit (128 :: 'a word) n \<longleftrightarrow> n = 7" "bit (128 :: u8) n \<longleftrightarrow> n = 7" "bit (128 :: nat) n \<longleftrightarrow> n = 7"
    "bit (128 :: int) n \<longleftrightarrow> n = 7" for n
    using bit_128 [of n, where 'a = 'a] bit_128 [of n, where 'a = 8] bit_exp_iff [of 7 n, where 'a = nat]
      bit_exp_iff [of 7 n, where 'a = int] assms
    by auto
  have "(ucast (v OR 128) :: u8) = ucast (v AND 127) OR 128"
    unfolding m using assms by (intro bit_word_eqI) (auto simp: bit_simps b)
  moreover have u: "unat (ucast (v AND 127) :: u8) = unat v mod 128"
    using unat_and_mask [of v 7] unfolding m by (simp add: unat_ucast_mod)
  moreover have "unat (ucast (v AND 127) OR 128 :: u8) = unat v mod 128 + 128"
    using unat_or_push_bit [of "ucast (v AND 127) :: u8" 7 1] u by simp
  ultimately show ?thesis
    by (intro unat_eqI) (simp add: unat_of_nat_mod del: of_nat_add)
qed

lemma EncodeVarint64_leb128: "EncodeVarint64 v = leb128 (unat v)"
proof (induction v rule: EncodeVarint64.induct)
  case (1 v)
  have d: "unat (drop_bit 7 v) = unat v div 128" using unat_drop_bit [of 7 v] by simp
  show ?case
    using 1 d
    by (simp add: EncodeVarint64.simps [of v] leb128.simps [of "unat v"] word_le_nat_alt not_le ucast_or_128
        del: of_nat_add)
qed

lemma EncodeVarint32_leb128: "EncodeVarint32 v = leb128 (unat v)"
proof -
  let ?n = "unat v"
  have d: "unat (drop_bit 7 v) = ?n div 128" "unat (drop_bit 14 v) = ?n div 16384"
    "unat (drop_bit 21 v) = ?n div 2097152" "unat (drop_bit 28 v) = ?n div 268435456"
    by (simp_all add: unat_drop_bit)
  have u: "ucast w = (of_nat (unat w) :: u8)" for w :: u32 by simp
  note u7 = u [of "drop_bit 7 v", unfolded d] u [of "drop_bit 14 v", unfolded d]
    u [of "drop_bit 21 v", unfolded d] u [of "drop_bit 28 v", unfolded d]
  have l: "leb128 n = (if n < 128 then [of_nat n] else of_nat (n mod 128 + 128) #
      (if n < 16384 then [of_nat (n div 128)] else of_nat (n div 128 mod 128 + 128) #
      (if n < 2097152 then [of_nat (n div 16384)] else of_nat (n div 16384 mod 128 + 128) #
      (if n < 268435456 then [of_nat (n div 2097152)] else of_nat (n div 2097152 mod 128 + 128) #
       [of_nat (n div 268435456)]))))" if "n < 4294967296" for n
  proof -
    have "n div 268435456 < 128" using that by (simp add: div_less_iff_less_mult)
    then show ?thesis
      by (simp add: leb128.simps [of n] leb128.simps [of "n div 128"] leb128.simps [of "n div 16384"]
          leb128.simps [of "n div 2097152"] leb128.simps [of "n div 268435456"] div_less_iff_less_mult
          del: of_nat_add flip: div_mult2_eq)
  qed
  have "?n < 4294967296" using unat_bound [of v] by simp
  then show ?thesis
    unfolding l [OF \<open>?n < 4294967296\<close>]
    by (simp add: EncodeVarint32_def Let_def word_less_nat_alt ucast_or_128 d u7 del: of_nat_add)
qed

lemma VarintLength_leb128: "VarintLength v = length (leb128 (unat v))"
proof -
  have "VarintLength_loop (Suc n) v = n + length (leb128 (unat v))" for n v
  proof (induction v arbitrary: n rule: EncodeVarint64.induct)
    case (1 v)
    have d: "unat (drop_bit 7 v) = unat v div 128" using unat_drop_bit [of 7 v] by simp
    show ?case
      using "1.IH" [of "Suc n"] d
      by (simp add: VarintLength_loop.simps [of "Suc n" v] leb128.simps [of "unat v"] word_le_nat_alt not_le)
  qed
  from this [of 0] show ?thesis by (simp add: VarintLength_def)
qed

text \<open>The getters read a varint of at most ten, or five, bytes.\<close>

lemma ucast_byte_128:
  assumes "8 \<le> LENGTH('a::len)"
  shows "(ucast (b :: u8) AND (128 :: 'a word) \<noteq> 0 \<longleftrightarrow> cont b) \<and>
    (\<not> cont b \<longrightarrow> ucast b = (ucast (b AND 0x7F) :: 'a word)) \<and>
    ucast b AND 127 = (ucast (b AND 0x7F) :: 'a word)"
proof -
  have m: "(127 :: 'a word) = mask 7" "(127 :: u8) = mask 7"
    by (simp_all add: mask_eq_exp_minus_1)
  have b: "bit (128 :: 'a word) n \<longleftrightarrow> n = 7" "bit (128 :: u8) n \<longleftrightarrow> n = 7" "bit (128 :: nat) n \<longleftrightarrow> n = 7"
    "bit (128 :: int) n \<longleftrightarrow> n = 7" for n
    using bit_128 [of n, where 'a = 'a] bit_128 [of n, where 'a = 8] bit_exp_iff [of 7 n, where 'a = nat]
      bit_exp_iff [of 7 n, where 'a = int] assms
    by auto
  have "ucast b AND (128 :: 'a word) = ucast (b AND 128)" "ucast b AND 127 = (ucast (b AND 0x7F) :: 'a word)"
    unfolding m using assms by (intro bit_word_eqI; auto simp: bit_simps b)+
  moreover have "ucast (b AND 128) = (0 :: 'a word) \<longleftrightarrow> b AND 128 = 0"
    using unat_ucast_u8 [OF assms, of "b AND 128"]
    by (subst (1 2) unat_eq_0 [symmetric]) (simp only:)
  moreover have "b AND 0x7F = b" if "\<not> cont b"
    using that by (intro unat_eqI) (simp add: unat_and_0x7F cont_def)
  ultimately show ?thesis by auto
qed

lemma varint64_ptr_loop_spec:
  assumes "j \<le> 10" and "unat r < 2 ^ (7 * j)"
  shows "varint64_ptr_loop (of_nat (7 * j)) r p =
    (let k = cont_run p
     in if 10 \<le> j + k \<or> k = length p then None
        else Some (r + of_nat (varint_val (take (Suc k) p) * 2 ^ (7 * j)), drop (Suc k) p))"
  using assms
proof (induction p arbitrary: j r)
  case Nil
  then show ?case by simp
next
  case (Cons b p)
  let ?s = "of_nat (7 * j) :: u32"
  have s: "unat ?s = 7 * j" "?s \<le> 63 \<longleftrightarrow> j < 10"
    using Cons.prems(1) by (auto simp: word_le_nat_alt unat_of_nat_mod simp del: of_nat_mult)
  have s7: "?s + 7 = of_nat (7 * Suc j)" by simp
  have b: "ucast b AND (128 :: u64) \<noteq> 0 \<longleftrightarrow> cont b" "\<not> cont b \<Longrightarrow> ucast b = (ucast (b AND 0x7F) :: u64)"
    "ucast b AND 127 = (ucast (b AND 0x7F) :: u64)"
    using ucast_byte_128 [of b, where 'a = 64] by auto
  let ?r = "r + of_nat (unat b mod 128 * 2 ^ (7 * j)) :: u64"
  have st: "r OR push_bit (7 * j) (ucast (b AND 0x7F)) = ?r" by (rule varint_step [OF Cons.prems(2)])
  show ?case
  proof (cases "cont b \<and> j < 10")
    case True
    have "unat ?r < 2 ^ (7 * Suc j)" using varint_step_bound [OF Cons.prems(2), of b] by (simp add: add.commute)
    from Cons.IH [OF _ this] True show ?thesis
      using s s7 b st by (simp add: Let_def algebra_simps power_add del: of_nat_mult)
  next
    case False
    then show ?thesis using s b st Cons.prems(1) by (auto simp: Let_def simp del: of_nat_mult)
  qed
qed

lemma GetVarint64_spec:
  "GetVarint64Ptr p =
    (let k = cont_run p
     in if 10 \<le> k \<or> k = length p then None
        else Some (of_nat (varint_val (take (Suc k) p)), drop (Suc k) p))"
  using varint64_ptr_loop_spec [of 0 0 p] by (simp add: GetVarint64Ptr_def Let_def)

lemma varint32_ptr_loop_spec:
  assumes "j \<le> 5" and "unat r < 2 ^ (7 * j)"
  shows "varint32_ptr_loop (of_nat (7 * j)) r p =
    (let k = cont_run p
     in if 5 \<le> j + k \<or> k = length p then None
        else Some (r + of_nat (varint_val (take (Suc k) p) * 2 ^ (7 * j)), drop (Suc k) p))"
  using assms
proof (induction p arbitrary: j r)
  case Nil
  then show ?case by simp
next
  case (Cons b p)
  let ?s = "of_nat (7 * j) :: u32"
  have s: "unat ?s = 7 * j" "?s \<le> 28 \<longleftrightarrow> j < 5"
    using Cons.prems(1) by (auto simp: word_le_nat_alt unat_of_nat_mod simp del: of_nat_mult)
  have s7: "?s + 7 = of_nat (7 * Suc j)" by simp
  have b: "ucast b AND (128 :: u32) \<noteq> 0 \<longleftrightarrow> cont b" "\<not> cont b \<Longrightarrow> ucast b = (ucast (b AND 0x7F) :: u32)"
    "ucast b AND 127 = (ucast (b AND 0x7F) :: u32)"
    using ucast_byte_128 [of b, where 'a = 32] by auto
  let ?r = "r + of_nat (unat b mod 128 * 2 ^ (7 * j)) :: u32"
  have st: "r OR push_bit (7 * j) (ucast (b AND 0x7F)) = ?r" by (rule varint_step [OF Cons.prems(2)])
  show ?case
  proof (cases "cont b \<and> j < 5")
    case True
    have "unat ?r < 2 ^ (7 * Suc j)" using varint_step_bound [OF Cons.prems(2), of b] by (simp add: add.commute)
    from Cons.IH [OF _ this] True show ?thesis
      using s s7 b st by (simp add: Let_def algebra_simps power_add del: of_nat_mult)
  next
    case False
    then show ?thesis using s b st Cons.prems(1) by (auto simp: Let_def simp del: of_nat_mult)
  qed
qed

text \<open>
  A value that does not fit 32 bits is not detected: only its low 32 bits are given.
\<close>

lemma GetVarint32_spec:
  "GetVarint32Ptr p =
    (let k = cont_run p
     in if 5 \<le> k \<or> k = length p then None
        else Some (of_nat (varint_val (take (Suc k) p)), drop (Suc k) p))"
proof -
  have f: "GetVarint32PtrFallback p =
    (let k = cont_run p
     in if 5 \<le> k \<or> k = length p then None
        else Some (of_nat (varint_val (take (Suc k) p)), drop (Suc k) p))" for p
    using varint32_ptr_loop_spec [of 0 0 p] by (simp add: GetVarint32PtrFallback_def Let_def)
  show ?thesis
  proof (cases p)
    case Nil
    then show ?thesis using f [of p] by (simp add: GetVarint32Ptr_def)
  next
    case (Cons b q)
    have "(ucast b :: u32) AND 128 = 0 \<longleftrightarrow> \<not> cont b" using ucast_byte_128 [of b, where 'a = 32] by auto
    then show ?thesis
      using Cons f [of p] by (auto simp: GetVarint32Ptr_def Let_def cont_def)
  qed
qed

lemma GetVarint32_Encode: "GetVarint32 (EncodeVarint32 v @ rest) = (Some v, rest)"
proof -
  have "cont_run (leb128 (unat v) @ rest) < 5"
    using cont_run_leb128 [of "unat v" rest] length_leb128_u32 [of v] by linarith
  moreover have "cont_run (leb128 (unat v) @ rest) \<noteq> length (leb128 (unat v) @ rest)"
    using cont_run_leb128 [of "unat v" rest] by simp
  ultimately show ?thesis
    by (simp add: GetVarint32_def EncodeVarint32_leb128 GetVarint32_spec Let_def)
qed

lemma GetVarint64_Encode: "GetVarint64 (EncodeVarint64 v @ rest) = (Some v, rest)"
proof -
  have "cont_run (leb128 (unat v) @ rest) < 10"
    using cont_run_leb128 [of "unat v" rest] length_leb128_u64 [of v] by linarith
  moreover have "cont_run (leb128 (unat v) @ rest) \<noteq> length (leb128 (unat v) @ rest)"
    using cont_run_leb128 [of "unat v" rest] by simp
  ultimately show ?thesis
    by (simp add: GetVarint64_def EncodeVarint64_leb128 GetVarint64_spec Let_def)
qed

lemma GetLengthPrefixedSlice_Put:
  "length v < 2 ^ 32 \<Longrightarrow> GetLengthPrefixedSlice (PutLengthPrefixedSlice [] v @ rest) = (Some v, rest)"
  by (simp add: GetLengthPrefixedSlice_def PutLengthPrefixedSlice_def PutVarint32_def GetVarint32_Encode
      unat_of_nat_mod)

lemma Put_append:
  "PutLengthPrefixedSlice dst v = dst @ PutLengthPrefixedSlice [] v"
  by (simp add: PutLengthPrefixedSlice_def PutVarint32_def)

end
