(* ===== verification/Ldb_Key.thy ===== *)
theory Ldb_Key
  imports Ldb_Coding "HOL-Library.List_Lexorder"
begin

text \<open>
  Keys of leveldb: the comparison of slices (\<open>include/leveldb/slice.h\<close>), the bytewise comparator
  (\<open>util/comparator.cc\<close>), and internal keys with their comparator (\<open>db/dbformat.h\<close>,
  \<open>db/dbformat.cc\<close>).
\<close>

section \<open>Slices\<close>

text \<open>\<open>memcmp\<close> on the first \<open>n\<close> bytes: the difference of the first two bytes that differ.\<close>

fun memcmp :: "slice \<Rightarrow> slice \<Rightarrow> nat \<Rightarrow> int" where
  "memcmp (a # as) (b # bs) (Suc n) = (if a = b then memcmp as bs n else int (unat a) - int (unat b))"
| "memcmp _ _ _ = 0"

definition Slice_compare :: "slice \<Rightarrow> slice \<Rightarrow> int" where
  "Slice_compare a b =
     (let min_len = (if length a < length b then length a else length b);
          r = memcmp a b min_len
      in if r = 0 then (if length a < length b then - 1 else if length b < length a then 1 else r) else r)"

definition Slice_starts_with :: "slice \<Rightarrow> slice \<Rightarrow> bool" where
  "Slice_starts_with s x \<longleftrightarrow> length x \<le> length s \<and> memcmp s x (length x) = 0"

section \<open>The bytewise comparator\<close>

fun diff_index :: "slice \<Rightarrow> slice \<Rightarrow> nat" where
  "diff_index (a # as) (b # bs) = (if a = b then Suc (diff_index as bs) else 0)"
| "diff_index _ _ = 0"

definition Bytewise_FindShortestSeparator :: "slice \<Rightarrow> slice \<Rightarrow> slice" where
  "Bytewise_FindShortestSeparator start limit =
     (let min_length = min (length start) (length limit); d = diff_index start limit
      in if min_length \<le> d then start
         else let diff_byte = start ! d
              in if diff_byte < 0xff \<and> unat diff_byte + 1 < unat (limit ! d)
                 then take d start @ [diff_byte + 1]
                 else start)"

fun Bytewise_FindShortSuccessor :: "slice \<Rightarrow> slice" where
  "Bytewise_FindShortSuccessor [] = []"
| "Bytewise_FindShortSuccessor (byte # key) =
     (if byte \<noteq> 0xff then [byte + 1] else byte # Bytewise_FindShortSuccessor key)"

section \<open>Internal keys\<close>

datatype ValueType = kTypeDeletion | kTypeValue

fun type_code :: "ValueType \<Rightarrow> u64" where
  "type_code kTypeDeletion = 0x0"
| "type_code kTypeValue = 0x1"

definition kValueTypeForSeek :: ValueType where
  "kValueTypeForSeek = kTypeValue"

definition kMaxSequenceNumber :: u64 where
  "kMaxSequenceNumber = push_bit 56 0x1 - 1"

record ParsedInternalKey =
  pk_user_key :: slice
  pk_sequence :: u64
  pk_type :: ValueType

definition PackSequenceAndType :: "u64 \<Rightarrow> ValueType \<Rightarrow> u64" where
  "PackSequenceAndType seq t = push_bit 8 seq OR type_code t"

definition AppendInternalKey :: "slice \<Rightarrow> ParsedInternalKey \<Rightarrow> slice" where
  "AppendInternalKey result key =
     PutFixed64 (result @ pk_user_key key) (PackSequenceAndType (pk_sequence key) (pk_type key))"

definition InternalKeyEncodingLength :: "ParsedInternalKey \<Rightarrow> nat" where
  "InternalKeyEncodingLength key = length (pk_user_key key) + 8"

text \<open>\<open>None\<close>: the function returns false.\<close>

definition ParseInternalKey :: "slice \<Rightarrow> ParsedInternalKey option" where
  "ParseInternalKey internal_key =
     (let n = length internal_key
      in if n < 8 then None
         else case DecodeFixed64 (drop (n - 8) internal_key) of
                None \<Rightarrow> None
              | Some num \<Rightarrow>
                  let c = ucast (num AND 0xff) :: u8
                  in if c \<le> 1
                     then Some \<lparr>pk_user_key = take (n - 8) internal_key, pk_sequence = drop_bit 8 num,
                                pk_type = (if c = 0 then kTypeDeletion else kTypeValue)\<rparr>
                     else None)"

definition ExtractUserKey :: "slice \<Rightarrow> slice" where
  "ExtractUserKey internal_key = take (length internal_key - 8) internal_key"

text \<open>The packed sequence number and type at the end of an internal key.\<close>

definition key_tag :: "slice \<Rightarrow> u64" where
  "key_tag k = (case DecodeFixed64 (drop (length k - 8) k) of None \<Rightarrow> 0 | Some num \<Rightarrow> num)"

text \<open>The internal comparator, over the comparator for user keys.\<close>

definition InternalKey_Compare :: "(slice \<Rightarrow> slice \<Rightarrow> int) \<Rightarrow> slice \<Rightarrow> slice \<Rightarrow> int" where
  "InternalKey_Compare user_compare akey bkey =
     (let r = user_compare (ExtractUserKey akey) (ExtractUserKey bkey)
      in if r = 0
         then (let anum = key_tag akey; bnum = key_tag bkey
               in if bnum < anum then - 1 else if anum < bnum then 1 else r)
         else r)"

definition InternalKey_FindShortestSeparator ::
  "(slice \<Rightarrow> slice \<Rightarrow> int) \<Rightarrow> (slice \<Rightarrow> slice \<Rightarrow> slice) \<Rightarrow> slice \<Rightarrow> slice \<Rightarrow> slice" where
  "InternalKey_FindShortestSeparator user_compare user_separator start limit =
     (let user_start = ExtractUserKey start; user_limit = ExtractUserKey limit;
          tmp = user_separator user_start user_limit
      in if length tmp < length user_start \<and> user_compare user_start tmp < 0
         then PutFixed64 tmp (PackSequenceAndType kMaxSequenceNumber kValueTypeForSeek)
         else start)"

definition InternalKey_FindShortSuccessor ::
  "(slice \<Rightarrow> slice \<Rightarrow> int) \<Rightarrow> (slice \<Rightarrow> slice) \<Rightarrow> slice \<Rightarrow> slice" where
  "InternalKey_FindShortSuccessor user_compare user_successor key =
     (let user_key = ExtractUserKey key; tmp = user_successor user_key
      in if length tmp < length user_key \<and> user_compare user_key tmp < 0
         then PutFixed64 tmp (PackSequenceAndType kMaxSequenceNumber kValueTypeForSeek)
         else key)"

section \<open>Lookup keys\<close>

record LookupKey =
  lk_start :: slice
  lk_kstart :: nat

definition LookupKey_new :: "slice \<Rightarrow> u64 \<Rightarrow> LookupKey" where
  "LookupKey_new user_key s =
     (let usize = length user_key; dst = EncodeVarint32 (of_nat (usize + 8))
      in \<lparr>lk_start = dst @ user_key @ EncodeFixed64 (PackSequenceAndType s kValueTypeForSeek),
          lk_kstart = length dst\<rparr>)"

definition memtable_key :: "LookupKey \<Rightarrow> slice" where
  "memtable_key k = lk_start k"

definition internal_key :: "LookupKey \<Rightarrow> slice" where
  "internal_key k = drop (lk_kstart k) (lk_start k)"

definition lookup_user_key :: "LookupKey \<Rightarrow> slice" where
  "lookup_user_key k = take (length (lk_start k) - lk_kstart k - 8) (drop (lk_kstart k) (lk_start k))"

section \<open>The contract of a comparator\<close>

text \<open>
  What the rest of leveldb relies on (\<open>include/leveldb/comparator.h\<close>): a total order on the keys
  that are \<open>valid\<close>, whose separators lie between two keys and whose successors are not smaller.
\<close>

locale comparator =
  fixes valid :: "slice \<Rightarrow> bool"
    and cmp :: "slice \<Rightarrow> slice \<Rightarrow> int"
    and separator :: "slice \<Rightarrow> slice \<Rightarrow> slice"
    and successor :: "slice \<Rightarrow> slice"
  assumes cmp_eq: "valid a \<Longrightarrow> valid b \<Longrightarrow> cmp a b = 0 \<longleftrightarrow> a = b"
    and cmp_swap: "valid a \<Longrightarrow> valid b \<Longrightarrow> cmp a b < 0 \<longleftrightarrow> 0 < cmp b a"
    and cmp_trans: "valid a \<Longrightarrow> valid b \<Longrightarrow> valid c \<Longrightarrow> cmp a b < 0 \<Longrightarrow> cmp b c < 0 \<Longrightarrow> cmp a c < 0"
    and valid_separator: "valid a \<Longrightarrow> valid b \<Longrightarrow> valid (separator a b)"
    and separator_ge: "valid a \<Longrightarrow> valid b \<Longrightarrow> cmp a (separator a b) \<le> 0"
    and separator_less: "valid a \<Longrightarrow> valid b \<Longrightarrow> cmp a b < 0 \<Longrightarrow> cmp (separator a b) b < 0"
    and separator_id: "valid a \<Longrightarrow> valid b \<Longrightarrow> \<not> cmp a b < 0 \<Longrightarrow> separator a b = a"
    and valid_successor: "valid a \<Longrightarrow> valid (successor a)"
    and successor_ge: "valid a \<Longrightarrow> cmp a (successor a) \<le> 0"
begin

lemma cmp_self [simp]: "valid a \<Longrightarrow> cmp a a = 0"
  by (simp add: cmp_eq)

lemma cmp_total: "valid a \<Longrightarrow> valid b \<Longrightarrow> a \<noteq> b \<Longrightarrow> cmp a b < 0 \<or> cmp b a < 0"
  using cmp_eq [of a b] cmp_swap [of b a] by linarith

lemma cmp_le_less_trans:
  "valid a \<Longrightarrow> valid b \<Longrightarrow> valid c \<Longrightarrow> cmp a b \<le> 0 \<Longrightarrow> cmp b c < 0 \<Longrightarrow> cmp a c < 0"
  by (metis cmp_eq cmp_trans order_le_less)

end

section \<open>The bytewise comparator is one\<close>

text \<open>\<open>Slice_compare\<close> is the lexicographic order on bytes.\<close>

lemma byte_diff:
  fixes a b :: u8
  shows "int (unat a) - int (unat b) < 0 \<longleftrightarrow> a < b" "0 < int (unat a) - int (unat b) \<longleftrightarrow> b < a"
    "int (unat a) - int (unat b) = 0 \<longleftrightarrow> a = b"
proof -
  have "int i - int j < 0 \<longleftrightarrow> i < j" "0 < int i - int j \<longleftrightarrow> j < i" "int i - int j = 0 \<longleftrightarrow> i = j" for i j :: nat
    by linarith+
  note g = this
  show "int (unat a) - int (unat b) < 0 \<longleftrightarrow> a < b" "0 < int (unat a) - int (unat b) \<longleftrightarrow> b < a"
    "int (unat a) - int (unat b) = 0 \<longleftrightarrow> a = b"
    unfolding g word_less_nat_alt word_unat_eq_iff by (rule refl)+
qed

lemma Slice_compare_Cons:
  "Slice_compare (a # as) (b # bs) = (if a = b then Slice_compare as bs else int (unat a) - int (unat b))"
proof (cases "a = b")
  case False
  then have "int (unat a) - int (unat b) \<noteq> 0" unfolding byte_diff .
  then show ?thesis
    using False by (simp only: Slice_compare_def Let_def length_Cons Suc_less_eq if_distrib memcmp.simps if_False)
      simp
qed (simp add: Slice_compare_def Let_def)

lemma Slice_compare_order:
  "Slice_compare a b < 0 \<longleftrightarrow> a < b" "0 < Slice_compare a b \<longleftrightarrow> b < a" "Slice_compare a b = 0 \<longleftrightarrow> a = b"
proof (induction a b rule: diff_index.induct [case_names Cons Left Right])
  case (Cons a as b bs)
  have "(Slice_compare (a # as) (b # bs) < 0 \<longleftrightarrow> a # as < b # bs) \<and>
    (0 < Slice_compare (a # as) (b # bs) \<longleftrightarrow> b # bs < a # as) \<and>
    (Slice_compare (a # as) (b # bs) = 0 \<longleftrightarrow> a # as = b # bs)"
  proof (cases "a = b")
    case True
    then show ?thesis using Cons by (simp add: Slice_compare_Cons)
  next
    case False
    then show ?thesis
      using byte_diff [of a b] by (simp only: Slice_compare_Cons if_False Cons_less_Cons list.inject) auto
  qed
  then show "Slice_compare (a # as) (b # bs) < 0 \<longleftrightarrow> a # as < b # bs"
    "0 < Slice_compare (a # as) (b # bs) \<longleftrightarrow> b # bs < a # as"
    "Slice_compare (a # as) (b # bs) = 0 \<longleftrightarrow> a # as = b # bs" by blast+
next
  case (Left b)
  show "Slice_compare [] b < 0 \<longleftrightarrow> [] < b" "0 < Slice_compare [] b \<longleftrightarrow> b < []" "Slice_compare [] b = 0 \<longleftrightarrow> [] = b"
    by (cases b; simp add: Slice_compare_def)+
next
  case (Right a)
  show "Slice_compare a [] < 0 \<longleftrightarrow> a < []" "0 < Slice_compare a [] \<longleftrightarrow> [] < a" "Slice_compare a [] = 0 \<longleftrightarrow> a = []"
    by (cases a; simp add: Slice_compare_def)+
qed

lemma Slice_compare_le: "Slice_compare a b \<le> 0 \<longleftrightarrow> a \<le> b"
  using Slice_compare_order [of a b] by (metis not_le not_less)

lemma Separator_simps:
  "Bytewise_FindShortestSeparator [] limit = []"
  "Bytewise_FindShortestSeparator start [] = start"
  "Bytewise_FindShortestSeparator (a # as) (b # bs) =
     (if a = b then a # Bytewise_FindShortestSeparator as bs
      else if a < 0xff \<and> unat a + 1 < unat b then [a + 1] else a # as)"
  by (auto simp: Bytewise_FindShortestSeparator_def Let_def)

lemma byte_Suc: "(a :: u8) < 0xff \<Longrightarrow> a < a + 1 \<and> unat (a + 1) = unat a + 1"
  by (simp add: word_less_nat_alt unat_word_ariths)

lemma Separator_ge: "a \<le> Bytewise_FindShortestSeparator a b"
proof (induction a b rule: diff_index.induct)
  case (1 x xs y ys)
  then show ?case using byte_Suc [of x] by (auto simp: Separator_simps)
qed (simp_all add: Separator_simps)

lemma Separator_less: "a < b \<Longrightarrow> Bytewise_FindShortestSeparator a b < b"
proof (induction a b rule: diff_index.induct)
  case (1 x xs y ys)
  have "x + 1 < y" if "x < 0xff" "unat x + 1 < unat y"
    using that byte_Suc [of x] by (simp add: word_less_nat_alt)
  then show ?case using 1 by (auto simp: Separator_simps)
qed (simp_all add: Separator_simps)

lemma Separator_id: "\<not> a < b \<Longrightarrow> Bytewise_FindShortestSeparator a b = a"
proof (induction a b rule: diff_index.induct)
  case (1 x xs y ys)
  have "x < y" if "unat x + 1 < unat y" using that by (simp add: word_less_nat_alt)
  then show ?case using 1 by (auto simp: Separator_simps)
qed (simp_all add: Separator_simps)

lemma Successor_ge: "a \<le> Bytewise_FindShortSuccessor a"
proof (induction a)
  case (Cons b a)
  have "b < 0xff" if "b \<noteq> 0xff" using that word_le_less_eq [of b "0xff"] by (simp add: word_le_nat_alt)
  then show ?case using Cons byte_Suc [of b] by auto
qed simp

text \<open>A user comparator is the one given in the options; it gives the comparator of internal keys.\<close>

locale user_comparator = comparator

lemma key_split: "8 \<le> length k \<Longrightarrow> k = ExtractUserKey k @ EncodeFixed64 (key_tag k)"
proof -
  assume k: "8 \<le> length k"
  let ?t = "drop (length k - 8) k"
  have "EncodeFixed64 (of_nat (le_val ?t)) = le_bytes (length ?t) (le_val ?t)"
    using le_val_bound [of ?t] k by (simp add: EncodeFixed64_le unat_of_nat_mod)
  also have "\<dots> = ?t" by (rule le_bytes_val)
  finally show ?thesis
    using k by (simp add: ExtractUserKey_def key_tag_def DecodeFixed64_def)
qed

lemma Extract_Put [simp]: "ExtractUserKey (PutFixed64 u t) = u" "ExtractUserKey (u @ EncodeFixed64 t) = u"
  by (simp_all add: ExtractUserKey_def PutFixed64_def)

lemma key_tag_Put [simp]: "key_tag (PutFixed64 u t) = t" "key_tag (u @ EncodeFixed64 t) = t"
  using DecodeFixed64_Encode [of t "[]"] by (simp_all add: key_tag_def PutFixed64_def)

lemma length_PutFixed64 [simp]: "length (PutFixed64 u t) = length u + 8"
  by (simp add: PutFixed64_def)

context user_comparator
begin

definition ivalid :: "slice \<Rightarrow> bool" where
  "ivalid k \<longleftrightarrow> 8 \<le> length k \<and> valid (ExtractUserKey k)"

lemma ivalid_eq: "ivalid a \<Longrightarrow> ivalid b \<Longrightarrow> a = b \<longleftrightarrow> ExtractUserKey a = ExtractUserKey b \<and> key_tag a = key_tag b"
  using key_split [of a] key_split [of b] unfolding ivalid_def by metis

lemma icmp:
  assumes "ivalid a" "ivalid b"
  shows "InternalKey_Compare cmp a b < 0 \<longleftrightarrow>
      cmp (ExtractUserKey a) (ExtractUserKey b) < 0 \<or> ExtractUserKey a = ExtractUserKey b \<and> key_tag b < key_tag a"
    "0 < InternalKey_Compare cmp a b \<longleftrightarrow>
      cmp (ExtractUserKey b) (ExtractUserKey a) < 0 \<or> ExtractUserKey a = ExtractUserKey b \<and> key_tag a < key_tag b"
    "InternalKey_Compare cmp a b = 0 \<longleftrightarrow> a = b"
  using assms cmp_eq [of "ExtractUserKey a" "ExtractUserKey b"] cmp_swap [of "ExtractUserKey b" "ExtractUserKey a"]
    ivalid_eq [OF assms]
  by (auto simp: InternalKey_Compare_def Let_def ivalid_def)

lemma isep:
  assumes "ivalid a" "ivalid b"
  shows "InternalKey_FindShortestSeparator cmp separator a b = a \<or>
    cmp (ExtractUserKey a) (ExtractUserKey b) < 0 \<and>
    (\<exists>tmp. tmp = separator (ExtractUserKey a) (ExtractUserKey b) \<and> cmp (ExtractUserKey a) tmp < 0 \<and>
      InternalKey_FindShortestSeparator cmp separator a b
        = PutFixed64 tmp (PackSequenceAndType kMaxSequenceNumber kValueTypeForSeek))"
  using assms separator_id [of "ExtractUserKey a" "ExtractUserKey b"]
  by (auto simp: InternalKey_FindShortestSeparator_def Let_def ivalid_def)

lemma internal_comparator:
  "comparator ivalid (InternalKey_Compare cmp) (InternalKey_FindShortestSeparator cmp separator)
    (InternalKey_FindShortSuccessor cmp successor)"
proof
  fix a b c
  show "ivalid a \<Longrightarrow> ivalid b \<Longrightarrow> InternalKey_Compare cmp a b = 0 \<longleftrightarrow> a = b" by (rule icmp(3))
  show "ivalid a \<Longrightarrow> ivalid b \<Longrightarrow> InternalKey_Compare cmp a b < 0 \<longleftrightarrow> 0 < InternalKey_Compare cmp b a"
    using icmp(1) [of a b] icmp(2) [of b a] by auto
  show "InternalKey_Compare cmp a c < 0" if "ivalid a" "ivalid b" "ivalid c"
    "InternalKey_Compare cmp a b < 0" "InternalKey_Compare cmp b c < 0"
    using that icmp(1) [of a b] icmp(1) [of b c] icmp(1) [of a c]
      cmp_trans [of "ExtractUserKey a" "ExtractUserKey b" "ExtractUserKey c"]
    by (auto simp: ivalid_def intro: less_trans)
  show v: "ivalid (InternalKey_FindShortestSeparator cmp separator a b)" if "ivalid a" "ivalid b"
    using isep [OF that] that valid_separator by (auto simp: ivalid_def)
  show "InternalKey_Compare cmp a (InternalKey_FindShortestSeparator cmp separator a b) \<le> 0" if "ivalid a" "ivalid b"
    using isep [OF that] that v [OF that] icmp(1,3) [OF that(1) v [OF that]]
    by (auto simp: less_le)
  show "InternalKey_Compare cmp (InternalKey_FindShortestSeparator cmp separator a b) b < 0"
    if "ivalid a" "ivalid b" "InternalKey_Compare cmp a b < 0"
    using isep [OF that(1,2)] that v [OF that(1,2)] icmp(1) [OF v [OF that(1,2)] that(2)]
      separator_less [of "ExtractUserKey a" "ExtractUserKey b"]
    by (auto simp: ivalid_def)
  show "InternalKey_FindShortestSeparator cmp separator a b = a"
    if "ivalid a" "ivalid b" "\<not> InternalKey_Compare cmp a b < 0"
    using isep [OF that(1,2)] that(3) icmp(1) [OF that(1,2)] by auto
  show s: "ivalid (InternalKey_FindShortSuccessor cmp successor a)" if "ivalid a"
    using that valid_successor by (auto simp: InternalKey_FindShortSuccessor_def Let_def ivalid_def)
  show "InternalKey_Compare cmp a (InternalKey_FindShortSuccessor cmp successor a) \<le> 0" if "ivalid a"
  proof (cases "InternalKey_FindShortSuccessor cmp successor a = a")
    case True
    then show ?thesis using icmp(3) [OF that that] by simp
  next
    case False
    then have "cmp (ExtractUserKey a) (successor (ExtractUserKey a)) < 0"
      "ExtractUserKey (InternalKey_FindShortSuccessor cmp successor a) = successor (ExtractUserKey a)"
      by (auto simp: InternalKey_FindShortSuccessor_def Let_def split: if_splits)
    then show ?thesis using icmp(1) [OF that s [OF that]] by auto
  qed
qed

end

sublocale user_comparator \<subseteq> internal: comparator ivalid "InternalKey_Compare cmp"
  "InternalKey_FindShortestSeparator cmp separator" "InternalKey_FindShortSuccessor cmp successor"
  by (rule internal_comparator)

interpretation bytewise: user_comparator "\<lambda>_. True" Slice_compare Bytewise_FindShortestSeparator
  Bytewise_FindShortSuccessor
  by unfold_locales
    (auto simp: Slice_compare_order Slice_compare_le Separator_ge Separator_less Separator_id Successor_ge)

end
