(* ===== verification/Ldb_Bloom.thy ===== *)
theory Ldb_Bloom
  imports Ldb_Key
begin

text \<open>
  The hash function (\<open>util/hash.cc\<close>), the Bloom filter (\<open>util/bloom.cc\<close>) and the filter policy for
  internal keys (\<open>db/dbformat.cc\<close>) of leveldb.
\<close>

section \<open>Hashing\<close>

text \<open>The loop over four bytes at a time: the hash and the bytes that remain.\<close>

function hash_loop :: "u32 \<Rightarrow> slice \<Rightarrow> u32 \<times> slice" where
  "hash_loop h data =
     (case DecodeFixed32 data of
        None \<Rightarrow> (h, data)
      | Some w \<Rightarrow>
          let h1 = (h + w) * 0xc6a4a793
          in hash_loop (h1 XOR drop_bit 16 h1) (drop 4 data))"
  by pat_completeness auto
termination
  by (relation "measure (length \<circ> snd)") (auto simp: DecodeFixed32_def split: if_splits)

declare hash_loop.simps [simp del]

definition hash_tail :: "u32 \<Rightarrow> slice \<Rightarrow> u32" where
  "hash_tail h data =
     (let m = 0xc6a4a793; r = 24;
          h3 = (if length data = 3 then h + push_bit 16 (ucast (data ! 2)) else h);
          h2 = (if 2 \<le> length data then h3 + push_bit 8 (ucast (data ! 1)) else h3);
          h1 = (h2 + ucast (data ! 0)) * m
      in if data = [] then h else h1 XOR drop_bit r h1)"

definition Hash :: "slice \<Rightarrow> u32 \<Rightarrow> u32" where
  "Hash data seed =
     (case hash_loop (seed XOR (of_nat (length data) * 0xc6a4a793)) data of (h, rest) \<Rightarrow> hash_tail h rest)"

section \<open>Bloom filters\<close>

definition BloomHash :: "slice \<Rightarrow> u32" where
  "BloomHash key = Hash key 0xbc9f1d34"

record BloomFilterPolicy =
  bits_per_key :: size_t
  bloom_k :: size_t

text \<open>\<open>raw\<close> is the number of probes \<open>bits_per_key * 0.69\<close> rounded down.\<close>

definition BloomFilterPolicy_new :: "size_t \<Rightarrow> size_t \<Rightarrow> BloomFilterPolicy" where
  "BloomFilterPolicy_new bits raw =
     (let k = (if raw < 1 then 1 else raw)
      in \<lparr>bits_per_key = bits, bloom_k = (if 30 < k then 30 else k)\<rparr>)"

definition bloom_delta :: "u32 \<Rightarrow> u32" where
  "bloom_delta h = drop_bit 17 h OR push_bit 15 h"

text \<open>\<open>h % bits\<close> is computed in \<open>size_t\<close> and stored in 32 bits.\<close>

definition bloom_bitpos :: "u32 \<Rightarrow> size_t \<Rightarrow> u32" where
  "bloom_bitpos h bits = ucast ((ucast h :: size_t) mod bits)"

fun set_probes :: "nat \<Rightarrow> u32 \<Rightarrow> u32 \<Rightarrow> size_t \<Rightarrow> u8 list \<Rightarrow> u8 list" where
  "set_probes 0 h delta bits array = array"
| "set_probes (Suc j) h delta bits array =
     (let bitpos = bloom_bitpos h bits; i = unat (bitpos div 8)
      in set_probes j (h + delta) delta bits (array[i := array ! i OR push_bit (unat (bitpos mod 8)) 1]))"

fun test_probes :: "nat \<Rightarrow> u32 \<Rightarrow> u32 \<Rightarrow> size_t \<Rightarrow> u8 list \<Rightarrow> bool" where
  "test_probes 0 h delta bits array = True"
| "test_probes (Suc j) h delta bits array =
     (let bitpos = bloom_bitpos h bits
      in if array ! unat (bitpos div 8) AND push_bit (unat (bitpos mod 8)) 1 = 0 then False
         else test_probes j (h + delta) delta bits array)"

definition bloom_bits :: "BloomFilterPolicy \<Rightarrow> nat \<Rightarrow> size_t" where
  "bloom_bits p n = (let bits = of_nat n * bits_per_key p in if bits < 64 then 64 else bits)"

fun add_keys :: "nat \<Rightarrow> size_t \<Rightarrow> slice list \<Rightarrow> u8 list \<Rightarrow> u8 list" where
  "add_keys k bits [] array = array"
| "add_keys k bits (key # keys) array =
     add_keys k bits keys (set_probes k (BloomHash key) (bloom_delta (BloomHash key)) bits array)"

definition Bloom_CreateFilter :: "BloomFilterPolicy \<Rightarrow> slice list \<Rightarrow> slice \<Rightarrow> slice" where
  "Bloom_CreateFilter p keys dst =
     (let bytes = (bloom_bits p (length keys) + 7) div 8;
          bits = bytes * 8
      in dst @ add_keys (unat (bloom_k p)) bits keys (replicate (unat bytes) 0) @ [ucast (bloom_k p)])"

text \<open>The last \<open>char\<close> is the number of probes; it is signed, and above 30 when it is negative.\<close>

definition Bloom_KeyMayMatch :: "slice \<Rightarrow> slice \<Rightarrow> bool" where
  "Bloom_KeyMayMatch key bloom_filter =
     (let len = length bloom_filter
      in if len < 2 then False
         else let bits = of_nat (len - 1) * 8;
                  k = scast (bloom_filter ! (len - 1)) :: size_t
              in if 30 < k then True
                 else test_probes (unat k) (BloomHash key) (bloom_delta (BloomHash key)) bits bloom_filter)"

section \<open>Filters on internal keys\<close>

definition InternalFilter_CreateFilter :: "(slice list \<Rightarrow> slice \<Rightarrow> slice) \<Rightarrow> slice list \<Rightarrow> slice \<Rightarrow> slice" where
  "InternalFilter_CreateFilter user_create keys dst = user_create (map ExtractUserKey keys) dst"

definition InternalFilter_KeyMayMatch :: "(slice \<Rightarrow> slice \<Rightarrow> bool) \<Rightarrow> slice \<Rightarrow> slice \<Rightarrow> bool" where
  "InternalFilter_KeyMayMatch user_match key f = user_match (ExtractUserKey key) f"

section \<open>The contract of a filter policy\<close>

text \<open>
  The filter for a list of keys matches every key of the list (\<open>include/leveldb/filter_policy.h\<close>);
  the filter is what is appended to the string.
\<close>

locale filter_policy =
  fixes ok :: "slice list \<Rightarrow> bool"
    and create :: "slice list \<Rightarrow> slice \<Rightarrow> slice"
    and may_match :: "slice \<Rightarrow> slice \<Rightarrow> bool"
  assumes create_append: "create keys dst = dst @ create keys []"
    and no_false_negative: "ok keys \<Longrightarrow> key \<in> set keys \<Longrightarrow> may_match key (create keys [])"
begin

lemma internal_no_false_negative:
  assumes "ok (map ExtractUserKey keys)" and "key \<in> set keys"
  shows "InternalFilter_KeyMayMatch may_match key
    (drop (length dst) (InternalFilter_CreateFilter create keys dst))"
  using no_false_negative [OF assms(1), of "ExtractUserKey key"] create_append assms(2)
  by (metis (no_types, lifting) InternalFilter_CreateFilter_def InternalFilter_KeyMayMatch_def
      append_eq_conv_conj image_eqI list.set_map)

end

section \<open>No false negatives\<close>

lemma length_set_probes [simp]: "length (set_probes j h d bits a) = length a"
  by (induction j arbitrary: h a) (simp_all add: Let_def)

lemma length_add_keys [simp]: "length (add_keys k bits keys a) = length a"
  by (induction keys arbitrary: a) simp_all

text \<open>Bits are only ever set.\<close>

definition covers :: "u8 list \<Rightarrow> u8 list \<Rightarrow> bool" where
  "covers a b \<longleftrightarrow> length a = length b \<and> (\<forall>i<length a. \<forall>n. bit (a ! i) n \<longrightarrow> bit (b ! i) n)"

lemma covers_refl: "covers a a"
  by (simp add: covers_def)

lemma covers_trans: "covers a b \<Longrightarrow> covers b c \<Longrightarrow> covers a c"
  by (simp add: covers_def)

lemma covers_set: "covers a (a[i := a ! i OR x])"
  by (cases "i < length a") (auto simp: covers_def nth_list_update bit_or_iff)

lemma covers_set_probes: "covers a (set_probes j h d bits a)"
proof (induction j arbitrary: h a)
  case (Suc j)
  show ?case
    unfolding set_probes.simps Let_def by (rule covers_trans [OF covers_set Suc])
qed (simp add: covers_refl)

lemma covers_add_keys: "covers a (add_keys k bits keys a)"
proof (induction keys arbitrary: a)
  case (Cons key keys)
  show ?case unfolding add_keys.simps by (rule covers_trans [OF covers_set_probes Cons])
qed (simp add: covers_refl)

lemma test_probes_covers:
  assumes "covers a b" and "\<And>h. unat (bloom_bitpos h bits div 8) < length a" and "test_probes j h d bits a"
  shows "test_probes j h d bits b"
  using assms(3)
proof (induction j arbitrary: h)
  case (Suc j)
  have "unat (bloom_bitpos h bits mod 8) < 8" by (simp add: unat_mod)
  then show ?case
    using Suc assms(1,2) by (auto simp: Let_def and_exp_eq_0_iff_not_bit covers_def split: if_splits)
qed simp

lemma test_set_probes:
  assumes "\<And>h. unat (bloom_bitpos h bits div 8) < length a"
  shows "test_probes j h d bits (set_probes j h d bits a)"
  using assms
proof (induction j arbitrary: h a)
  case (Suc j)
  let ?i = "unat (bloom_bitpos h bits div 8)" and ?n = "unat (bloom_bitpos h bits mod 8)"
  let ?a = "a[?i := a ! ?i OR push_bit ?n 1]"
  have n: "?n < 8" by (simp add: unat_mod)
  have "bit (?a ! ?i) ?n" using Suc.prems n by (simp add: bit_simps)
  moreover have "covers ?a (set_probes j (h + d) d bits ?a)" by (rule covers_set_probes)
  ultimately have "bit (set_probes j (h + d) d bits ?a ! ?i) ?n" using Suc.prems by (simp add: covers_def)
  moreover have "test_probes j (h + d) d bits (set_probes j (h + d) d bits ?a)"
    using Suc.prems by (intro Suc.IH) simp
  ultimately show ?case using n by (simp add: Let_def and_exp_eq_0_iff_not_bit)
qed simp

lemma test_add_keys:
  assumes "\<And>h. unat (bloom_bitpos h bits div 8) < length a" and "key \<in> set keys"
  shows "test_probes k (BloomHash key) (bloom_delta (BloomHash key)) bits (add_keys k bits keys a)"
  using assms
proof (induction keys arbitrary: a)
  case (Cons x keys)
  let ?a = "set_probes k (BloomHash x) (bloom_delta (BloomHash x)) bits a"
  show ?case
  proof (cases "key = x")
    case True
    have "test_probes k (BloomHash x) (bloom_delta (BloomHash x)) bits ?a"
      by (rule test_set_probes [OF Cons.prems(1)])
    from test_probes_covers [OF covers_add_keys _ this] show ?thesis
      using True Cons.prems(1) by simp
  next
    case False
    then show ?thesis using Cons.IH [of ?a] Cons.prems by simp
  qed
qed simp

definition bloom_size_ok :: "BloomFilterPolicy \<Rightarrow> slice list \<Rightarrow> bool" where
  "bloom_size_ok p keys \<longleftrightarrow> unat (bloom_k p) \<le> 30 \<and> length keys * unat (bits_per_key p) < 2 ^ 60"

lemma test_probes_cong: "(\<And>h. unat (bloom_bitpos h bits div 8) < length a) \<Longrightarrow>
  test_probes j h d bits (a @ rest) = test_probes j h d bits a"
  by (induction j arbitrary: h) (simp_all add: Let_def nth_append)

lemma Bloom_no_false_negative:
  assumes "bloom_size_ok p keys" and "key \<in> set keys"
  shows "Bloom_KeyMayMatch key (Bloom_CreateFilter p keys [])"
proof -
  let ?bits0 = "bloom_bits p (length keys)"
  let ?bytes = "(?bits0 + 7) div 8"
  let ?a = "add_keys (unat (bloom_k p)) (?bytes * 8) keys (replicate (unat ?bytes) 0)"
  have n: "unat (of_nat (length keys) * bits_per_key p :: size_t) = length keys * unat (bits_per_key p)"
  proof (cases "unat (bits_per_key p) = 0")
    case True
    then show ?thesis by (simp add: unat_eq_0)
  next
    case False
    then have "length keys * 1 \<le> length keys * unat (bits_per_key p)" by (intro mult_le_mono2) simp
    also have "\<dots> < 2 ^ 60" using assms(1) by (simp add: bloom_size_ok_def)
    finally have "length keys < 2 ^ 64" by simp
    then show ?thesis using assms(1) by (simp add: unat_word_ariths unat_of_nat_mod bloom_size_ok_def)
  qed
  have b0: "64 \<le> unat ?bits0" "unat ?bits0 < 2 ^ 60"
    using n assms(1) by (auto simp: bloom_bits_def Let_def word_less_nat_alt bloom_size_ok_def)
  then have bytes: "unat ?bytes = (unat ?bits0 + 7) div 8" by (simp add: unat_div unat_word_ariths)
  have sz: "8 \<le> unat ?bytes" "unat ?bytes < 2 ^ 58" using b0 unfolding bytes
    by (simp_all add: div_less_iff_less_mult less_eq_div_iff_mult_less_eq)
  have bits: "unat (?bytes * 8) = unat ?bytes * 8" using sz by (simp add: unat_word_ariths)
  have pos: "unat (bloom_bitpos h (?bytes * 8) div 8) < unat ?bytes" for h
  proof -
    have "unat (bloom_bitpos h (?bytes * 8)) \<le> unat ((ucast h :: size_t) mod (?bytes * 8))"
      by (simp add: bloom_bitpos_def unat_ucast_mod)
    also have "\<dots> < unat ?bytes * 8" using bits sz by (simp add: unat_mod)
    finally show ?thesis by (simp add: unat_div div_less_iff_less_mult)
  qed
  let ?f = "?a @ [ucast (bloom_k p)]"
  have f: "Bloom_CreateFilter p keys [] = ?f" by (simp add: Bloom_CreateFilter_def Let_def)
  have len: "length ?f = Suc (unat ?bytes)" by simp
  have k: "unat (bloom_k p) \<le> 30" using assms(1) by (simp add: bloom_size_ok_def)
  have last: "?f ! unat ?bytes = ucast (bloom_k p)" by (simp add: nth_append)
  have "list_all (\<lambda>n. scast (ucast (of_nat n :: size_t) :: u8) = (of_nat n :: size_t)) [0..<31]" by code_simp
  moreover have "unat (bloom_k p) \<in> set [0..<31]" using k by simp
  ultimately have "scast (ucast (of_nat (unat (bloom_k p)) :: size_t) :: u8) = (of_nat (unat (bloom_k p)) :: size_t)"
    unfolding list_all_iff by (rule bspec)
  then have kk: "scast (ucast (bloom_k p) :: u8) = bloom_k p" by simp
  have bb: "of_nat (unat ?bytes) * 8 = ?bytes * 8" by simp
  have "test_probes (unat (bloom_k p)) (BloomHash key) (bloom_delta (BloomHash key)) (?bytes * 8) ?f"
    using test_add_keys [OF _ assms(2), of "?bytes * 8" "replicate (unat ?bytes) 0"] pos
    by (subst test_probes_cong) simp_all
  then show ?thesis
    unfolding f Bloom_KeyMayMatch_def Let_def len diff_Suc_1 last kk bb using sz by simp
qed

interpretation bloom: filter_policy "bloom_size_ok p" "Bloom_CreateFilter p" Bloom_KeyMayMatch for p
  by unfold_locales (simp_all add: Bloom_no_false_negative, simp add: Bloom_CreateFilter_def Let_def)

end
