(* ===== verification/Ldb_Key_Props.thy ===== *)
theory Ldb_Key_Props
  imports Ldb_Bloom
begin

text \<open>
  The properties of leveldb's coding, keys, comparators and filters.
\<close>

lemma type_code_le: "type_code t = (case t of kTypeDeletion \<Rightarrow> 0 | kTypeValue \<Rightarrow> 1)"
  by (cases t) simp_all

text \<open>The packed sequence number and type: the number above the type.\<close>

lemma unat_PackSequenceAndType:
  assumes "s \<le> kMaxSequenceNumber"
  shows "unat (PackSequenceAndType s t) = 256 * unat s + unat (type_code t)"
proof -
  have m: "kMaxSequenceNumber = 0xffffffffffffff" by (simp add: kMaxSequenceNumber_def)
  have s: "unat s < 2 ^ 56" using assms unfolding m by (simp add: word_le_nat_alt)
  have c: "unat (type_code t) < 2 ^ 8" by (cases t) simp_all
  have p: "unat (push_bit 8 s) = 256 * unat s" using s by (simp add: push_bit_eq_mult unat_word_ariths)
  have "PackSequenceAndType s t = type_code t + push_bit 8 s"
    using word_or_push_bit [OF c, of s] by (simp add: PackSequenceAndType_def or.commute)
  then show ?thesis using p s c by (simp add: unat_word_ariths)
qed

lemma PackSequenceAndType_less:
  assumes "s \<le> kMaxSequenceNumber" "s' \<le> kMaxSequenceNumber"
  shows "PackSequenceAndType s t < PackSequenceAndType s' t' \<longleftrightarrow>
    s < s' \<or> s = s' \<and> t = kTypeDeletion \<and> t' = kTypeValue"
proof -
  have "s = s' \<longleftrightarrow> unat s = unat s'" by (rule word_unat_eq_iff)
  then show ?thesis
    using unat_PackSequenceAndType [OF assms(1), of t] unat_PackSequenceAndType [OF assms(2), of t']
    by (cases t; cases t') (auto simp: word_less_nat_alt)
qed

text \<open>
  C24: Parsing an internal key that \<open>AppendInternalKey\<close> wrote for a sequence number of at most
  \<open>kMaxSequenceNumber\<close> gives the parsed key back; the appended key has the announced length, and
  its user key is extracted without parsing.
\<close>

theorem internal_key_roundtrip:
  assumes "pk_sequence k \<le> kMaxSequenceNumber"
  shows "AppendInternalKey dst k = dst @ AppendInternalKey [] k \<and>
    length (AppendInternalKey [] k) = InternalKeyEncodingLength k \<and>
    ParseInternalKey (AppendInternalKey [] k) = Some k \<and>
    ExtractUserKey (AppendInternalKey [] k) = pk_user_key k"
proof -
  let ?w = "PackSequenceAndType (pk_sequence k) (pk_type k)"
  note u = unat_PackSequenceAndType [OF assms, of "pk_type k"]
  have c: "unat (type_code (pk_type k)) < 256" by (cases "pk_type k") simp_all
  have lo: "(ucast (?w AND 0xff) :: u8) = of_nat (unat (type_code (pk_type k)))"
    unfolding byte_of using c by (intro unat_eqI) (simp add: unat_ucast_mod u unat_of_nat_mod)
  have hi: "drop_bit 8 ?w = pk_sequence k"
    using c by (intro unat_eqI) (simp add: unat_drop_bit u)
  have d: "DecodeFixed64 (EncodeFixed64 ?w) = Some ?w" using DecodeFixed64_Encode [of ?w "[]"] by simp
  have "ParseInternalKey (AppendInternalKey [] k) = Some k"
    by (cases k, cases "pk_type k")
      (use lo hi d in \<open>simp_all add: ParseInternalKey_def AppendInternalKey_def PutFixed64_def Let_def\<close>)
  then show ?thesis
    by (simp add: AppendInternalKey_def PutFixed64_def InternalKeyEncodingLength_def)
qed

theorem internal_key_roundtrip_witness:
  "ParseInternalKey (AppendInternalKey [] \<lparr>pk_user_key = [0x62, 0x6f], pk_sequence = 7, pk_type = kTypeDeletion\<rparr>)
    = Some \<lparr>pk_user_key = [0x62, 0x6f], pk_sequence = 7, pk_type = kTypeDeletion\<rparr>"
  using internal_key_roundtrip [of "\<lparr>pk_user_key = [0x62, 0x6f], pk_sequence = 7, pk_type = kTypeDeletion\<rparr>" "[]"]
  by (simp add: kMaxSequenceNumber_def)

text \<open>
  C25: Internal keys are ordered by increasing user key and, for one user key, by decreasing sequence
  number, a value before a deletion: a scan meets the newest entry of a user key first.
\<close>

theorem internal_key_order:
  assumes "pk_sequence a \<le> kMaxSequenceNumber" "pk_sequence b \<le> kMaxSequenceNumber"
  shows "InternalKey_Compare Slice_compare (AppendInternalKey [] a) (AppendInternalKey [] b) < 0 \<longleftrightarrow>
    pk_user_key a < pk_user_key b \<or>
    pk_user_key a = pk_user_key b \<and>
      (pk_sequence b < pk_sequence a \<or>
       pk_sequence a = pk_sequence b \<and> pk_type a = kTypeValue \<and> pk_type b = kTypeDeletion)"
  using PackSequenceAndType_less [OF assms(2,1), of "pk_type b" "pk_type a"]
  by (auto simp: bytewise.icmp(1) bytewise.ivalid_def AppendInternalKey_def Slice_compare_order)

theorem internal_key_order_witness:
  "InternalKey_Compare Slice_compare
     (AppendInternalKey [] \<lparr>pk_user_key = [0x61], pk_sequence = 9, pk_type = kTypeDeletion\<rparr>)
     (AppendInternalKey [] \<lparr>pk_user_key = [0x61], pk_sequence = 4, pk_type = kTypeValue\<rparr>) < 0"
  using internal_key_order [of "\<lparr>pk_user_key = [0x61], pk_sequence = 9, pk_type = kTypeDeletion\<rparr>"
      "\<lparr>pk_user_key = [0x61], pk_sequence = 4, pk_type = kTypeValue\<rparr>"]
  by (simp add: kMaxSequenceNumber_def)

text \<open>
  C26: The key that a table stores in its index between two blocks: the separator of two internal keys
  in order lies between them, the first included, and the successor of an internal key is not smaller
  than it.
\<close>

theorem internal_separator_between:
  assumes "8 \<le> length a" "8 \<le> length b" and "InternalKey_Compare Slice_compare a b < 0"
  shows "InternalKey_Compare Slice_compare a
      (InternalKey_FindShortestSeparator Slice_compare Bytewise_FindShortestSeparator a b) \<le> 0 \<and>
    InternalKey_Compare Slice_compare
      (InternalKey_FindShortestSeparator Slice_compare Bytewise_FindShortestSeparator a b) b < 0 \<and>
    InternalKey_Compare Slice_compare a
      (InternalKey_FindShortSuccessor Slice_compare Bytewise_FindShortSuccessor a) \<le> 0"
proof -
  have v: "bytewise.ivalid a" "bytewise.ivalid b" using assms by (simp_all add: bytewise.ivalid_def)
  show ?thesis
    using bytewise.internal.separator_ge [OF v] bytewise.internal.separator_less [OF v assms(3)]
      bytewise.internal.successor_ge [OF v(1)]
    by simp
qed

theorem internal_separator_between_witness:
  "InternalKey_Compare Slice_compare [0x61, 0x62, 1, 0, 0, 0, 0, 0, 0, 0]
     (InternalKey_FindShortestSeparator Slice_compare Bytewise_FindShortestSeparator
       [0x61, 0x62, 1, 0, 0, 0, 0, 0, 0, 0] [0x63, 1, 0, 0, 0, 0, 0, 0, 0]) \<le> 0"
proof -
  have "InternalKey_Compare Slice_compare [0x61, 0x62, 1, 0, 0, 0, 0, 0, 0, 0] [0x63, 1, 0, 0, 0, 0, 0, 0, 0] < 0"
    by (simp add: bytewise.icmp(1) bytewise.ivalid_def ExtractUserKey_def Slice_compare_order)
  then show ?thesis
    using internal_separator_between [of "[0x61, 0x62, 1, 0, 0, 0, 0, 0, 0, 0]" "[0x63, 1, 0, 0, 0, 0, 0, 0, 0]"]
    by simp
qed

text \<open>
  C27: A filter has no false negatives: the Bloom filter built from the internal keys of a block
  matches every internal key with the user key of one of them, whatever its sequence number.
\<close>

theorem filter_no_false_negative:
  assumes "bloom_size_ok p (map ExtractUserKey keys)" and "k \<in> set keys" and "ExtractUserKey k' = ExtractUserKey k"
  shows "InternalFilter_KeyMayMatch Bloom_KeyMayMatch k'
    (InternalFilter_CreateFilter (Bloom_CreateFilter p) keys [])"
  using bloom.no_false_negative [OF assms(1), of "ExtractUserKey k"] assms(2,3)
  by (simp add: InternalFilter_KeyMayMatch_def InternalFilter_CreateFilter_def)

theorem filter_no_false_negative_witness:
  "InternalFilter_KeyMayMatch Bloom_KeyMayMatch [0x62, 1, 5, 0, 0, 0, 0, 0, 0]
    (InternalFilter_CreateFilter (Bloom_CreateFilter (BloomFilterPolicy_new 10 6)) [[0x61, 1, 1, 0, 0, 0, 0, 0, 0],
      [0x62, 1, 2, 0, 0, 0, 0, 0, 0]] [])"
  by (rule filter_no_false_negative [of _ _ "[0x62, 1, 2, 0, 0, 0, 0, 0, 0]"])
    (simp_all add: bloom_size_ok_def BloomFilterPolicy_new_def ExtractUserKey_def)

lemma VarintLength_EncodeVarint64: "VarintLength v = length (EncodeVarint64 v)"
  by (simp add: VarintLength_leb128 EncodeVarint64_leb128)

text \<open>
  C28: The codes of \<open>util/coding.cc\<close>: fixed-width integers, varints and length-prefixed strings
  that are appended to a string are read back, and leave the bytes after them; \<open>VarintLength\<close> is
  the length of the varint.
\<close>

theorem ldb_coding_roundtrip:
  assumes "length s < 2 ^ 32"
  shows "DecodeFixed32 (PutFixed32 [] v @ rest) = Some v \<and>
    DecodeFixed64 (PutFixed64 [] w @ rest) = Some w \<and>
    GetVarint32 (PutVarint32 [] v @ rest) = (Some v, rest) \<and>
    GetVarint64 (PutVarint64 [] w @ rest) = (Some w, rest) \<and>
    length (PutVarint64 [] w) = VarintLength w \<and>
    GetLengthPrefixedSlice (PutLengthPrefixedSlice [] s @ rest) = (Some s, rest)"
  using GetLengthPrefixedSlice_Put [OF assms, of rest]
  by (simp add: PutFixed32_def PutFixed64_def PutVarint32_def PutVarint64_def DecodeFixed32_Encode
      DecodeFixed64_Encode GetVarint32_Encode GetVarint64_Encode VarintLength_EncodeVarint64)

theorem ldb_coding_roundtrip_witness:
  "GetLengthPrefixedSlice (PutLengthPrefixedSlice [] [1, 2, 3] @ [9]) = (Some [1, 2, 3], [9])"
  using ldb_coding_roundtrip [of "[1, 2, 3]" 0 "[9]"] by simp

text \<open>
  A lookup key holds one string that is at once the key of the memtable, a length-prefixed
  internal key, the internal key that sorts before every entry of the user key that is not newer than
  the snapshot, and the user key.
\<close>

theorem lookup_key_views:
  assumes "length u < 2 ^ 32 - 8" and "s \<le> kMaxSequenceNumber"
  shows "GetLengthPrefixedSlice (memtable_key (LookupKey_new u s)) = (Some (internal_key (LookupKey_new u s)), []) \<and>
    internal_key (LookupKey_new u s)
      = AppendInternalKey [] \<lparr>pk_user_key = u, pk_sequence = s, pk_type = kValueTypeForSeek\<rparr> \<and>
    lookup_user_key (LookupKey_new u s) = u"
proof -
  let ?t = "EncodeFixed64 (PackSequenceAndType s kValueTypeForSeek)"
  have "PutLengthPrefixedSlice [] (u @ ?t) = EncodeVarint32 (of_nat (length u + 8)) @ u @ ?t"
    by (simp add: PutLengthPrefixedSlice_def PutVarint32_def)
  then show ?thesis
    using GetLengthPrefixedSlice_Put [of "u @ ?t" "[]"] assms(1)
    by (simp add: memtable_key_def internal_key_def lookup_user_key_def LookupKey_new_def Let_def
        AppendInternalKey_def PutFixed64_def)
qed

theorem lookup_key_views_witness: "lookup_user_key (LookupKey_new [0x61, 0x62] 5) = [0x61, 0x62]"
  using lookup_key_views [of "[0x61, 0x62]" 5] by (simp add: kMaxSequenceNumber_def)

end
