(* ===== verification/Ldb_Status.thy ===== *)
theory Ldb_Status
  imports Ldb_Coding
begin

text \<open>
  The results of leveldb's operations (\<open>include/leveldb/status.h\<close>, \<open>util/status.cc\<close>): a success, or
  one block with the length of a message, a code and the message.
\<close>

definition bytes :: "string \<Rightarrow> slice" where
  "bytes s = map of_char s"

text \<open>The decimal digits of a number, as \<open>snprintf\<close> writes them.\<close>

fun decimal :: "nat \<Rightarrow> slice" where
  "decimal n = (if n < 10 then [of_nat (48 + n)] else decimal (n div 10) @ [of_nat (48 + n mod 10)])"

declare decimal.simps [simp del]

section \<open>Statuses\<close>

text \<open>\<open>state_\<close>: a null pointer, or the block.\<close>

type_synonym Status = "slice option"

datatype Code = kOk | kNotFound | kCorruption | kNotSupported | kInvalidArgument | kIOError

fun code_byte :: "Code \<Rightarrow> u8" where
  "code_byte kOk = 0"
| "code_byte kNotFound = 1"
| "code_byte kCorruption = 2"
| "code_byte kNotSupported = 3"
| "code_byte kInvalidArgument = 4"
| "code_byte kIOError = 5"

definition Status_OK :: Status where
  "Status_OK = None"

definition Status_ok :: "Status \<Rightarrow> bool" where
  "Status_ok s \<longleftrightarrow> s = None"

definition Status_new :: "Code \<Rightarrow> slice \<Rightarrow> slice \<Rightarrow> Status" where
  "Status_new code msg msg2 =
     (let len1 = of_nat (length msg) :: u32;
          len2 = of_nat (length msg2) :: u32;
          size = len1 + (if len2 \<noteq> 0 then 2 + len2 else 0)
      in Some (EncodeFixed32 size @ [code_byte code] @ take (unat len1) msg @
           (if len2 \<noteq> 0 then bytes '': '' @ take (unat len2) msg2 else [])))"

definition NotFound :: "slice \<Rightarrow> slice \<Rightarrow> Status" where
  "NotFound = Status_new kNotFound"

definition Corruption :: "slice \<Rightarrow> slice \<Rightarrow> Status" where
  "Corruption = Status_new kCorruption"

definition NotSupported :: "slice \<Rightarrow> slice \<Rightarrow> Status" where
  "NotSupported = Status_new kNotSupported"

definition InvalidArgument :: "slice \<Rightarrow> slice \<Rightarrow> Status" where
  "InvalidArgument = Status_new kInvalidArgument"

definition IOError :: "slice \<Rightarrow> slice \<Rightarrow> Status" where
  "IOError = Status_new kIOError"

definition status_code :: "Status \<Rightarrow> u8" where
  "status_code s = (case s of None \<Rightarrow> code_byte kOk | Some state \<Rightarrow> state ! 4)"

definition IsNotFound :: "Status \<Rightarrow> bool" where
  "IsNotFound s \<longleftrightarrow> status_code s = code_byte kNotFound"

definition IsCorruption :: "Status \<Rightarrow> bool" where
  "IsCorruption s \<longleftrightarrow> status_code s = code_byte kCorruption"

definition CopyState :: "slice \<Rightarrow> slice option" where
  "CopyState state = (case DecodeFixed32 state of None \<Rightarrow> None | Some n \<Rightarrow> mem_read state 0 (unat (n + 5)))"

text \<open>\<open>None\<close>: a read past the end of the block.  A code outside the enumeration is printed as a number.\<close>

definition code_prefix :: "u8 \<Rightarrow> slice" where
  "code_prefix c =
     (if c = code_byte kOk then bytes ''OK''
      else if c = code_byte kNotFound then bytes ''NotFound: ''
      else if c = code_byte kCorruption then bytes ''Corruption: ''
      else if c = code_byte kNotSupported then bytes ''Not implemented: ''
      else if c = code_byte kInvalidArgument then bytes ''Invalid argument: ''
      else if c = code_byte kIOError then bytes ''IO error: ''
      else bytes ''Unknown code('' @ (if sint c < 0 then bytes ''-'' else []) @ decimal (nat \<bar>sint c\<bar>) @ bytes ''): '')"

definition Status_ToString :: "Status \<Rightarrow> slice option" where
  "Status_ToString s =
     (case s of
        None \<Rightarrow> Some (bytes ''OK'')
      | Some state \<Rightarrow>
          (case DecodeFixed32 state of
             None \<Rightarrow> None
           | Some len \<Rightarrow> map_option ((@) (code_prefix (state ! 4))) (mem_read state 5 (unat len))))"

lemma Status_ok_simps [simp]: "Status_ok Status_OK" "\<not> Status_ok (Status_new c m m')"
  by (simp_all add: Status_ok_def Status_OK_def Status_new_def Let_def)

lemma Status_OK_ok [simp]: "Status_ok s \<longleftrightarrow> s = Status_OK"
  by (simp add: Status_ok_def Status_OK_def)

lemma error_not_OK [simp]: "NotFound m m' \<noteq> Status_OK" "Corruption m m' \<noteq> Status_OK" "IOError m m' \<noteq> Status_OK"
  "InvalidArgument m m' \<noteq> Status_OK" "NotSupported m m' \<noteq> Status_OK"
  by (simp_all add: NotFound_def Corruption_def IOError_def InvalidArgument_def NotSupported_def Status_OK_def
      Status_new_def Let_def)

lemma length_bytes [simp]: "length (bytes s) = length s"
  by (simp add: bytes_def)

text \<open>The block holds the code and the messages, and copying it keeps it.\<close>

lemma Status_new_view:
  assumes "length msg + length msg2 + 7 < 2 ^ 32"
  shows "status_code (Status_new c msg msg2) = code_byte c"
    and "Status_ToString (Status_new c msg msg2)
      = Some (code_prefix (code_byte c) @ msg @ (if msg2 = [] then [] else bytes '': '' @ msg2))"
    and "CopyState (the (Status_new c msg msg2)) = Status_new c msg msg2"
proof -
  let ?m = "msg @ (if msg2 = [] then [] else bytes '': '' @ msg2)"
  have l: "unat (of_nat (length msg) :: u32) = length msg" "unat (of_nat (length msg2) :: u32) = length msg2"
    using assms by (simp_all add: unat_of_nat_mod)
  have z: "(of_nat (length msg2) :: u32) = 0 \<longleftrightarrow> msg2 = []"
    using l(2) by (metis length_0_conv unat_eq_zero of_nat_0)
  have s: "of_nat (length msg) + (if (of_nat (length msg2) :: u32) \<noteq> 0 then 2 + of_nat (length msg2) else 0)
      = (of_nat (length ?m) :: u32)"
    unfolding z by simp
  have v: "Status_new c msg msg2 = Some (EncodeFixed32 (of_nat (length ?m)) @ code_byte c # ?m)"
    unfolding Status_new_def Let_def s using z l by simp
  have n: "unat (of_nat (length ?m) :: u32) = length ?m" "unat (of_nat (length ?m) + 5 :: u32) = length ?m + 5"
    using assms by (simp_all add: unat_of_nat_mod unat_word_ariths)
  show "status_code (Status_new c msg msg2) = code_byte c"
    by (simp add: v status_code_def nth_append)
  show "Status_ToString (Status_new c msg msg2) = Some (code_prefix (code_byte c) @ ?m)"
    unfolding v Status_ToString_def option.case DecodeFixed32_Encode n
    by (simp add: mem_read_def nth_append)
  show "CopyState (the (Status_new c msg msg2)) = Status_new c msg msg2"
    unfolding v CopyState_def option.sel option.case DecodeFixed32_Encode n by simp
qed

end
