(* ===== verification/Ldb_Env.thy ===== *)
theory Ldb_Env
  imports Ldb_Status "HOL-Library.Sublist" "HOL-Library.Monad_Syntax"
begin

text \<open>
  Files on POSIX (\<open>util/env_posix.cc\<close>): the buffered writable file, with the system calls it makes,
  and the sequential file.  The operating system is a parameter: the results of its calls in order.
\<close>

section \<open>The operating system\<close>

text \<open>
  A call returns a number (how many bytes \<open>read\<close> and \<open>write\<close> are willing to transfer), is
  interrupted, or fails with an error number.
\<close>

datatype os_result = Returns nat | Interrupted | Fails int

record os =
  os_call :: "nat \<Rightarrow> os_result"
  os_strerror :: "int \<Rightarrow> slice"

fun errno_of :: "os_result \<Rightarrow> int" where
  "errno_of (Returns _) = 0"
| "errno_of Interrupted = 4"
| "errno_of (Fails e) = e"

definition PosixError :: "os \<Rightarrow> slice \<Rightarrow> int \<Rightarrow> Status" where
  "PosixError os context error_number =
     (if error_number = 2 then NotFound context (os_strerror os error_number)
      else IOError context (os_strerror os error_number))"

section \<open>Writable files\<close>

definition kWritableFileBufferSize :: nat where
  "kWritableFileBufferSize = 65536"

text \<open>
  \<open>pf_buf\<close> is \<open>buf_\<close> up to \<open>pos_\<close>.  \<open>pf_file\<close> are the bytes the operating system has accepted,
  \<open>pf_synced\<close> those it has made durable, and \<open>pf_calls\<close> the number of system calls made.
\<close>

record PosixWritableFile =
  pf_buf :: slice
  pf_fd :: int
  pf_is_manifest :: bool
  pf_filename :: slice
  pf_dirname :: slice
  pf_file :: slice
  pf_synced :: slice
  pf_calls :: nat

fun rfind :: "u8 \<Rightarrow> slice \<Rightarrow> nat option" where
  "rfind c [] = None"
| "rfind c (b # s) = (case rfind c s of Some i \<Rightarrow> Some (Suc i) | None \<Rightarrow> if b = c then Some 0 else None)"

definition Dirname :: "slice \<Rightarrow> slice" where
  "Dirname filename = (case rfind 0x2F filename of None \<Rightarrow> bytes ''.'' | Some separator_pos \<Rightarrow> take separator_pos filename)"

definition Basename :: "slice \<Rightarrow> slice" where
  "Basename filename = (case rfind 0x2F filename of None \<Rightarrow> filename | Some separator_pos \<Rightarrow> drop (separator_pos + 1) filename)"

definition IsManifest :: "slice \<Rightarrow> bool" where
  "IsManifest filename \<longleftrightarrow> take 8 (Basename filename) = bytes ''MANIFEST''"

text \<open>The file at the position of its end, with the bytes \<open>old\<close> in it.\<close>

definition PosixWritableFile_new :: "slice \<Rightarrow> int \<Rightarrow> slice \<Rightarrow> PosixWritableFile" where
  "PosixWritableFile_new filename fd old =
     \<lparr>pf_buf = [], pf_fd = fd, pf_is_manifest = IsManifest filename, pf_filename = filename,
      pf_dirname = Dirname filename, pf_file = old, pf_synced = old, pf_calls = 0\<rparr>"

definition sys_call :: "os \<Rightarrow> PosixWritableFile \<Rightarrow> os_result \<times> PosixWritableFile" where
  "sys_call os f = (os_call os (pf_calls f), f\<lparr>pf_calls := pf_calls f + 1\<rparr>)"

text \<open>\<open>None\<close>: the loop does not end.\<close>

partial_function (option) WriteUnbuffered ::
  "os \<Rightarrow> slice \<Rightarrow> PosixWritableFile \<Rightarrow> (Status \<times> PosixWritableFile) option" where
  "WriteUnbuffered os data f =
     (if data = [] then Some (Status_OK, f)
      else case sys_call os f of (write_result, g) \<Rightarrow>
        case write_result of
          Interrupted \<Rightarrow> WriteUnbuffered os data g
        | Fails e \<Rightarrow> Some (PosixError os (pf_filename g) e, g)
        | Returns n \<Rightarrow> WriteUnbuffered os (drop n data) (g\<lparr>pf_file := pf_file g @ take n data\<rparr>))"

definition FlushBuffer :: "os \<Rightarrow> PosixWritableFile \<Rightarrow> (Status \<times> PosixWritableFile) option" where
  "FlushBuffer os f = do {
     (status, g) \<leftarrow> WriteUnbuffered os (pf_buf f) f;
     Some (status, g\<lparr>pf_buf := []\<rparr>) }"

definition Posix_Append :: "os \<Rightarrow> slice \<Rightarrow> PosixWritableFile \<Rightarrow> (Status \<times> PosixWritableFile) option" where
  "Posix_Append os data f =
     (let copy_size = min (length data) (kWritableFileBufferSize - length (pf_buf f));
          g = f\<lparr>pf_buf := pf_buf f @ take copy_size data\<rparr>;
          write_data = drop copy_size data
      in if write_data = [] then Some (Status_OK, g)
         else do {
           (status, h) \<leftarrow> FlushBuffer os g;
           if \<not> Status_ok status then Some (status, h)
           else if length write_data < kWritableFileBufferSize then Some (Status_OK, h\<lparr>pf_buf := write_data\<rparr>)
           else WriteUnbuffered os write_data h })"

definition Posix_Flush :: "os \<Rightarrow> PosixWritableFile \<Rightarrow> (Status \<times> PosixWritableFile) option" where
  "Posix_Flush os f = FlushBuffer os f"

definition Posix_Close :: "os \<Rightarrow> PosixWritableFile \<Rightarrow> (Status \<times> PosixWritableFile) option" where
  "Posix_Close os f = do {
     (status, g) \<leftarrow> FlushBuffer os f;
     let (close_result, h) = sys_call os g;
     let status' = (case close_result of
                      Returns _ \<Rightarrow> status
                    | r \<Rightarrow> if Status_ok status then PosixError os (pf_filename h) (errno_of r) else status);
     Some (status', h\<lparr>pf_fd := -1\<rparr>) }"

text \<open>\<open>fcntl(F_FULLFSYNC)\<close>, with \<open>fsync\<close> as its fallback; \<open>own\<close>: on the file itself, not its directory.\<close>

definition SyncFd :: "os \<Rightarrow> bool \<Rightarrow> slice \<Rightarrow> PosixWritableFile \<Rightarrow> Status \<times> PosixWritableFile" where
  "SyncFd os own fd_path f =
     (let synced = (\<lambda>g. if own then g\<lparr>pf_synced := pf_file g\<rparr> else g)
      in case sys_call os f of (r, g) \<Rightarrow>
        if r = Returns 0 then (Status_OK, synced g)
        else case sys_call os g of (r', h) \<Rightarrow>
          if r' = Returns 0 then (Status_OK, synced h) else (PosixError os fd_path (errno_of r'), h))"

definition SyncDirIfManifest :: "os \<Rightarrow> PosixWritableFile \<Rightarrow> Status \<times> PosixWritableFile" where
  "SyncDirIfManifest os f =
     (if \<not> pf_is_manifest f then (Status_OK, f)
      else case sys_call os f of (fd, g) \<Rightarrow>
        case fd of
          Returns _ \<Rightarrow> (case SyncFd os False (pf_dirname g) g of (status, h) \<Rightarrow> (status, snd (sys_call os h)))
        | r \<Rightarrow> (PosixError os (pf_dirname g) (errno_of r), g))"

definition Posix_Sync :: "os \<Rightarrow> PosixWritableFile \<Rightarrow> (Status \<times> PosixWritableFile) option" where
  "Posix_Sync os f =
     (case SyncDirIfManifest os f of (status, g) \<Rightarrow>
        if \<not> Status_ok status then Some (status, g)
        else do {
          (status, h) \<leftarrow> FlushBuffer os g;
          if \<not> Status_ok status then Some (status, h) else Some (SyncFd os True (pf_filename h) h) })"

section \<open>Sequential files\<close>

record PosixSequentialFile =
  sf_file :: slice
  sf_pos :: nat
  sf_filename :: slice
  sf_calls :: nat

text \<open>Reading: the status and the bytes read, none after an error.\<close>

partial_function (option) Posix_Read ::
  "os \<Rightarrow> nat \<Rightarrow> PosixSequentialFile \<Rightarrow> (Status \<times> slice \<times> PosixSequentialFile) option" where
  "Posix_Read os n f =
     (let g = f\<lparr>sf_calls := sf_calls f + 1\<rparr>
      in case os_call os (sf_calls f) of
           Interrupted \<Rightarrow> Posix_Read os n g
         | Fails e \<Rightarrow> Some (PosixError os (sf_filename g) e, [], g)
         | Returns k \<Rightarrow>
             Some (Status_OK, take (min n k) (drop (sf_pos g) (sf_file g)),
                   g\<lparr>sf_pos := sf_pos g + length (take (min n k) (drop (sf_pos g) (sf_file g)))\<rparr>))"

definition Posix_Skip :: "os \<Rightarrow> nat \<Rightarrow> PosixSequentialFile \<Rightarrow> (Status \<times> PosixSequentialFile) option" where
  "Posix_Skip os n f =
     (let g = f\<lparr>sf_calls := sf_calls f + 1\<rparr>
      in case os_call os (sf_calls f) of
           Returns _ \<Rightarrow> Some (Status_OK, g\<lparr>sf_pos := sf_pos g + n\<rparr>)
         | r \<Rightarrow> Some (PosixError os (sf_filename g) (errno_of r), g))"

section \<open>The contracts of files\<close>

text \<open>
  What a client of a writable file relies on (\<open>include/leveldb/env.h\<close>).  \<open>contents\<close> are the bytes
  written so far, \<open>disk\<close> those that survive a crash of the process.  An operation that fails may lose
  bytes at the end.
\<close>

locale writable_file =
  fixes append :: "slice \<Rightarrow> 'f \<Rightarrow> (Status \<times> 'f) option"
    and flush :: "'f \<Rightarrow> (Status \<times> 'f) option"
    and contents :: "'f \<Rightarrow> slice"
    and disk :: "'f \<Rightarrow> slice"
  assumes append_ok: "append s f = Some (Status_OK, g) \<Longrightarrow> contents g = contents f @ s"
    and append_disk: "append s f = Some (st, g) \<Longrightarrow> prefix (disk f) (disk g) \<and> prefix (disk g) (contents f @ s)"
    and flush_ok: "flush f = Some (Status_OK, g) \<Longrightarrow> contents g = contents f \<and> disk g = contents f"
    and flush_disk: "flush f = Some (st, g) \<Longrightarrow> prefix (disk f) (disk g) \<and> prefix (disk g) (contents f)"

text \<open>A sequential file that is \<open>readable\<close>: reading gives the next bytes, fewer only at the end of the file.\<close>

locale sequential_file =
  fixes readf :: "nat \<Rightarrow> 'f \<Rightarrow> (Status \<times> slice \<times> 'f) option"
    and readable :: "'f \<Rightarrow> bool"
    and rest :: "'f \<Rightarrow> slice"
  assumes read_rest: "readable f \<Longrightarrow> n \<le> 32768 \<Longrightarrow>
    \<exists>g. readf n f = Some (Status_OK, take n (rest f), g) \<and> readable g \<and> rest g = drop n (rest f)"

section \<open>The writable file keeps its contract\<close>

definition pf_contents :: "PosixWritableFile \<Rightarrow> slice" where
  "pf_contents f = pf_file f @ pf_buf f"

lemma PosixError_not_OK [simp]: "PosixError os c e \<noteq> Status_OK"
  by (simp add: PosixError_def)

lemma sys_call_simps [simp]:
  "pf_buf (snd (sys_call os f)) = pf_buf f" "pf_file (snd (sys_call os f)) = pf_file f"
  by (simp_all add: sys_call_def)

text \<open>Whatever the system calls return, a part of the data has been written, and all of it when the status is OK.\<close>

lemmas WriteUnbuffered_induct = WriteUnbuffered.raw_induct [split_format (complete), rotated 1, consumes 1, case_names step]

lemma WriteUnbuffered_file:
  "WriteUnbuffered os data f = Some (st, g) \<Longrightarrow>
    pf_buf g = pf_buf f \<and>
    (\<exists>w. pf_file g = pf_file f @ w \<and> prefix w data \<and> (st = Status_OK \<longrightarrow> w = data))"
proof (induction rule: WriteUnbuffered_induct)
  case (step WU os data f st g)
  show ?case
  proof (cases "data = []")
    case True
    then show ?thesis using step(2) by auto
  next
    case False
    obtain r h where h: "sys_call os f = (r, h)" by (cases "sys_call os f")
    have same: "pf_buf h = pf_buf f" "pf_file h = pf_file f" using sys_call_simps [of os f] by (simp_all add: h)
    show ?thesis
    proof (cases r)
      case (Returns n)
      then have "WU os (drop n data) (h\<lparr>pf_file := pf_file h @ take n data\<rparr>) = Some (st, g)"
        using step(2) False h by simp
      from step(1) [OF this] obtain w where "pf_buf g = pf_buf f" "pf_file g = pf_file f @ take n data @ w"
        "prefix w (drop n data)" "st = Status_OK \<longrightarrow> w = drop n data"
        using same by auto
      moreover from this have "prefix (take n data @ w) data"
        by (metis append_take_drop_id same_prefix_prefix)
      ultimately show ?thesis by (metis append_take_drop_id)
    next
      case Interrupted
      then have "WU os data h = Some (st, g)" using step(2) False h by simp
      from step(1) [OF this] show ?thesis using same by simp
    next
      case (Fails e)
      then show ?thesis using step(2) False h same by auto
    qed
  qed
qed

lemma FlushBuffer_file:
  assumes "FlushBuffer os f = Some (st, g)"
  shows "pf_buf g = [] \<and> (\<exists>w. pf_file g = pf_file f @ w \<and> prefix w (pf_buf f) \<and> (st = Status_OK \<longrightarrow> w = pf_buf f))"
  using assms WriteUnbuffered_file [of os "pf_buf f" f]
  by (fastforce simp: FlushBuffer_def split: Option.bind_splits)

lemma Append_file:
  assumes "Posix_Append os s f = Some (st, g)"
  shows "prefix (pf_file f) (pf_file g) \<and> prefix (pf_file g) (pf_contents f @ s) \<and> (st = Status_OK \<longrightarrow> pf_contents g = pf_contents f @ s)"
proof -
  let ?n = "min (length s) (kWritableFileBufferSize - length (pf_buf f))"
  let ?f = "f\<lparr>pf_buf := pf_buf f @ take ?n s\<rparr>"
  have s: "pf_contents f @ s = pf_file f @ pf_buf ?f @ drop ?n s" by (simp add: pf_contents_def)
  show ?thesis
  proof (cases "drop ?n s = []")
    case True
    then have "g = ?f" "st = Status_OK" using assms by (simp_all add: Posix_Append_def Let_def)
    then show ?thesis unfolding s True by (simp add: pf_contents_def)
  next
    case False
    then obtain st' h where h: "FlushBuffer os ?f = Some (st', h)"
      using assms by (auto simp: Posix_Append_def Let_def split: Option.bind_splits)
    then obtain w where w: "pf_buf h = []" "pf_file h = pf_file f @ w" "prefix w (pf_buf ?f)"
      "st' = Status_OK \<longrightarrow> w = pf_buf ?f"
      using FlushBuffer_file [OF h] by auto
    have r: "(if \<not> Status_ok st' then Some (st', h)
        else if length (drop ?n s) < kWritableFileBufferSize then Some (Status_OK, h\<lparr>pf_buf := drop ?n s\<rparr>)
        else WriteUnbuffered os (drop ?n s) h) = Some (st, g)"
      using assms False h by (simp add: Posix_Append_def Let_def)
    show ?thesis
    proof (cases "st' = Status_OK")
      case False
      then have "g = h" "st \<noteq> Status_OK" using r by auto
      moreover have "prefix (pf_file h) (pf_contents f @ s)"
        unfolding s w(2) same_prefix_prefix by (rule prefix_prefix [OF w(3)])
      ultimately show ?thesis using w(2) by simp
    next
      case True
      then have f: "pf_file h = pf_file f @ pf_buf ?f" using w by simp
      show ?thesis
      proof (cases "length (drop ?n s) < kWritableFileBufferSize")
        case True
        then have "g = h\<lparr>pf_buf := drop ?n s\<rparr>" using r \<open>st' = Status_OK\<close> by simp
        then show ?thesis unfolding s using f by (simp add: pf_contents_def take_is_prefix)
      next
        case False
        then have "WriteUnbuffered os (drop ?n s) h = Some (st, g)"
          using r \<open>st' = Status_OK\<close> by (simp only: Status_OK_ok if_False simp_thms)
        from WriteUnbuffered_file [OF this] obtain v where v: "pf_buf g = []" "pf_file g = pf_file h @ v"
          "prefix v (drop ?n s)" "st = Status_OK \<longrightarrow> v = drop ?n s"
          using w(1) by auto
        have "pf_file g = pf_file f @ pf_buf ?f @ v" using v(2) f by simp
        then show ?thesis unfolding s using v(1,3,4) by (simp only: pf_contents_def same_prefix_prefix) simp
      qed
    qed
  qed
qed

interpretation posix_writable: writable_file "Posix_Append os" "Posix_Flush os" pf_contents pf_file for os
proof
  show "Posix_Append os s f = Some (Status_OK, g) \<Longrightarrow> pf_contents g = pf_contents f @ s" for s f g
    using Append_file by blast
  show "Posix_Append os s f = Some (st, g) \<Longrightarrow> prefix (pf_file f) (pf_file g) \<and> prefix (pf_file g) (pf_contents f @ s)"
    for s f g st using Append_file by blast
  show "Posix_Flush os f = Some (Status_OK, g) \<Longrightarrow> pf_contents g = pf_contents f \<and> pf_file g = pf_contents f" for f g
    using FlushBuffer_file [of os f Status_OK g] by (auto simp: Posix_Flush_def pf_contents_def)
  show "Posix_Flush os f = Some (st, g) \<Longrightarrow> prefix (pf_file f) (pf_file g) \<and> prefix (pf_file g) (pf_contents f)" for f g st
    using FlushBuffer_file [of os f st g] by (auto simp: Posix_Flush_def pf_contents_def)
qed

section \<open>Writing ends\<close>

text \<open>
  An operating system that makes progress: whatever it has done so far, some later call transfers a
  byte or fails.
\<close>

definition progress :: "os_result \<Rightarrow> bool" where
  "progress r \<longleftrightarrow> (case r of Returns n \<Rightarrow> 0 < n | Interrupted \<Rightarrow> False | Fails _ \<Rightarrow> True)"

definition os_progress :: "os \<Rightarrow> bool" where
  "os_progress os \<longleftrightarrow> (\<forall>i. \<exists>k\<ge>i. progress (os_call os k))"

lemma WriteUnbuffered_returns:
  assumes "os_progress os"
  shows "\<exists>r. WriteUnbuffered os data f = Some r"
proof (induction data arbitrary: f rule: measure_induct_rule [where f = length])
  case (less data)
  obtain k where k: "pf_calls f \<le> k" "progress (os_call os k)" using assms by (auto simp: os_progress_def)
  then show ?case
  proof (induction "k - pf_calls f" arbitrary: f)
    case 0
    then have r: "progress (os_call os (pf_calls f))" by simp
    show ?case
    proof (cases "data = []")
      case True
      then show ?thesis by (simp add: WriteUnbuffered.simps)
    next
      case False
      show ?thesis
      proof (cases "os_call os (pf_calls f)")
        case (Returns n)
        then have "length (drop n data) < length data" using r False by (auto simp: progress_def)
        from less [OF this] show ?thesis
          using False Returns by (subst WriteUnbuffered.simps) (simp add: sys_call_def)
      next
        case Interrupted
        then show ?thesis using r by (simp add: progress_def)
      next
        case (Fails e)
        then show ?thesis using False by (subst WriteUnbuffered.simps) (simp add: sys_call_def)
      qed
    qed
  next
    case (Suc d)
    have IH: "\<exists>r. WriteUnbuffered os data g = Some r" if "pf_calls g = pf_calls f + 1" for g
      using Suc(1) [of g] Suc(2-) that by simp
    show ?case
    proof (cases "data = []")
      case True
      then show ?thesis by (simp add: WriteUnbuffered.simps)
    next
      case False
      show ?thesis
      proof (cases "os_call os (pf_calls f)")
        case (Returns n)
        show ?thesis
        proof (cases "n = 0")
          case True
          then show ?thesis
            using False Returns IH by (subst WriteUnbuffered.simps) (simp add: sys_call_def)
        next
          case n: False
          then have "length (drop n data) < length data" using False by auto
          from less [OF this] show ?thesis
            using False Returns by (subst WriteUnbuffered.simps) (simp add: sys_call_def)
        qed
      next
        case Interrupted
        then show ?thesis using False IH by (subst WriteUnbuffered.simps) (simp add: sys_call_def)
      next
        case (Fails e)
        then show ?thesis using False by (subst WriteUnbuffered.simps) (simp add: sys_call_def)
      qed
    qed
  qed
qed

section \<open>The sequential file keeps its contract\<close>

text \<open>
  For a regular file \<open>read\<close> is documented to transfer all the bytes asked for that are there; it may be
  interrupted, but not for ever.
\<close>

lemma drop_length_take: "drop (p + length (take n (drop p xs))) xs = drop n (drop p xs)"
  by (cases "n \<le> length (drop p xs)") (simp_all add: add.commute)

lemma Read_done:
  "os_call os (sf_calls f) = Returns m \<Longrightarrow> min n m = n \<Longrightarrow>
    \<exists>g. Posix_Read os n f = Some (Status_OK, take n (drop (sf_pos f) (sf_file f)), g) \<and>
      drop (sf_pos g) (sf_file g) = drop n (drop (sf_pos f) (sf_file f))"
  using drop_length_take [of "sf_pos f" n "sf_file f"]
  by (subst Posix_Read.simps) (simp add: Let_def del: length_take length_drop drop_drop)

locale posix_regular_file =
  fixes os :: os
  assumes reads_all: "os_call os i = Returns k \<Longrightarrow> 32768 \<le> k"
    and no_failure: "os_call os i \<noteq> Fails e"
    and not_interrupted: "\<exists>k\<ge>i. os_call os k \<noteq> Interrupted"
begin

lemma Read_rest:
  assumes "n \<le> 32768"
  shows "\<exists>g. Posix_Read os n f = Some (Status_OK, take n (drop (sf_pos f) (sf_file f)), g) \<and>
    drop (sf_pos g) (sf_file g) = drop n (drop (sf_pos f) (sf_file f))"
proof -
  obtain k where "sf_calls f \<le> k" "os_call os k \<noteq> Interrupted" using not_interrupted by auto
  then show ?thesis
  proof (induction "k - sf_calls f" arbitrary: f)
    case 0
    then obtain m where m: "os_call os (sf_calls f) = Returns m"
      using no_failure by (cases "os_call os (sf_calls f)") auto
    have "min n m = n" using reads_all [OF m] assms by simp
    then show ?case by (rule Read_done [OF m])
  next
    case (Suc d)
    show ?case
    proof (cases "os_call os (sf_calls f)")
      case (Returns m)
      have "min n m = n" using reads_all [OF Returns] assms by simp
      then show ?thesis by (rule Read_done [OF Returns])
    next
      case Interrupted
      have "\<exists>g. Posix_Read os n (f\<lparr>sf_calls := sf_calls f + 1\<rparr>) = Some (Status_OK, take n (drop (sf_pos f) (sf_file f)), g) \<and>
        drop (sf_pos g) (sf_file g) = drop n (drop (sf_pos f) (sf_file f))"
        using Suc(1) [of "f\<lparr>sf_calls := sf_calls f + 1\<rparr>"] Suc(2-) by simp
      then show ?thesis using Interrupted by (subst Posix_Read.simps) (simp add: Let_def)
    next
      case (Fails e)
      then show ?thesis using no_failure by blast
    qed
  qed
qed

lemma sequential: "sequential_file (Posix_Read os) (\<lambda>_. True) (\<lambda>f. drop (sf_pos f) (sf_file f))"
  by unfold_locales (use Read_rest in simp)

end

sublocale posix_regular_file \<subseteq> posix_sequential: sequential_file "Posix_Read os" "\<lambda>_. True"
  "\<lambda>f. drop (sf_pos f) (sf_file f)"
  by (rule sequential)

text \<open>An operating system that never interrupts and transfers all it is asked for.\<close>

definition calm_os :: os where
  "calm_os = \<lparr>os_call = (\<lambda>_. Returns 1048576), os_strerror = (\<lambda>_. [])\<rparr>"

interpretation calm: posix_regular_file calm_os
  by unfold_locales (auto simp: calm_os_def)

section \<open>Properties\<close>

text \<open>
  C31: Writing ends: when the operating system keeps making progress, however often it interrupts or
  writes nothing in between, \<open>Append\<close>, \<open>Flush\<close>, \<open>Sync\<close> and \<open>Close\<close> of a writable file return.
\<close>

theorem posix_write_returns:
  assumes "os_progress os"
  shows "(\<exists>st g. Posix_Append os s f = Some (st, g)) \<and> (\<exists>st g. Posix_Flush os f = Some (st, g)) \<and>
    (\<exists>st g. Posix_Sync os f = Some (st, g)) \<and> (\<exists>st g. Posix_Close os f = Some (st, g))"
proof -
  have W: "\<exists>st g. WriteUnbuffered os d h = Some (st, g)" for d h
    using WriteUnbuffered_returns [OF assms, of d h] by auto
  have F: "\<exists>st g. FlushBuffer os h = Some (st, g)" for h
    using W [of "pf_buf h" h] by (auto simp: FlushBuffer_def)
  have "\<exists>st g. Posix_Append os s f = Some (st, g)"
  proof -
    let ?n = "min (length s) (kWritableFileBufferSize - length (pf_buf f))"
    obtain st g where "FlushBuffer os (f\<lparr>pf_buf := pf_buf f @ take ?n s\<rparr>) = Some (st, g)" using F by blast
    then show ?thesis using W [of "drop ?n s" g] by (auto simp: Posix_Append_def Let_def)
  qed
  moreover have "\<exists>st g. Posix_Sync os f = Some (st, g)"
  proof -
    obtain st g where d: "SyncDirIfManifest os f = (st, g)" by (cases "SyncDirIfManifest os f")
    obtain st2 h where "FlushBuffer os g = Some (st2, h)" using F by blast
    then show ?thesis using d by (cases "SyncFd os True (pf_filename h) h") (auto simp: Posix_Sync_def)
  qed
  moreover have "\<exists>st g. Posix_Close os f = Some (st, g)"
    using F [of f] by (auto simp: Posix_Close_def split: prod.split)
  ultimately show ?thesis using F [of f] by (simp add: Posix_Flush_def)
qed

text \<open>An operating system that is interrupted every other time and then writes one byte.\<close>

definition slow_os :: os where
  "slow_os = \<lparr>os_call = (\<lambda>i. if even i then Interrupted else Returns 1), os_strerror = (\<lambda>_. [])\<rparr>"

lemma slow_os_progress: "os_progress slow_os"
proof -
  have "progress (os_call slow_os (2 * i + 1))" for i by (simp add: progress_def slow_os_def)
  then show ?thesis unfolding os_progress_def by (metis le_add1 mult_2 trans_le_add1)
qed

theorem posix_write_returns_witness:
  "\<exists>st g. Posix_Append slow_os [1, 2, 3] (PosixWritableFile_new (bytes ''000003.log'') 5 []) = Some (st, g)"
  using posix_write_returns [OF slow_os_progress] by blast

lemma Posix_Sync_effect:
  assumes "Posix_Sync os f = Some (st, g)"
  shows "prefix (pf_file f) (pf_file g) \<and> prefix (pf_file g) (pf_contents f) \<and> (pf_buf f = [] \<longrightarrow> pf_buf g = []) \<and>
    (st = Status_OK \<longrightarrow> pf_synced g = pf_contents f \<and> pf_contents g = pf_contents f)"
proof -
  have S: "pf_file (snd (SyncFd os own p h)) = pf_file h \<and> pf_buf (snd (SyncFd os own p h)) = pf_buf h \<and>
      (own \<and> fst (SyncFd os own p h) = Status_OK \<longrightarrow> pf_synced (snd (SyncFd os own p h)) = pf_file h)" for own p h
    by (auto simp: SyncFd_def sys_call_def Let_def)
  have D: "pf_file (snd (SyncDirIfManifest os f)) = pf_file f" "pf_buf (snd (SyncDirIfManifest os f)) = pf_buf f"
    using S [of False "pf_dirname f" "f\<lparr>pf_calls := Suc (pf_calls f)\<rparr>"]
    by (auto simp: SyncDirIfManifest_def sys_call_def split: os_result.split prod.split)
  obtain s1 f1 where 1: "SyncDirIfManifest os f = (s1, f1)" by (cases "SyncDirIfManifest os f")
  show ?thesis
  proof (cases "s1 = Status_OK")
    case False
    then show ?thesis using assms 1 D by (auto simp: Posix_Sync_def pf_contents_def)
  next
    case True
    then obtain s2 f2 where 2: "FlushBuffer os f1 = Some (s2, f2)"
      using assms 1 by (auto simp: Posix_Sync_def split: Option.bind_splits)
    then have w: "pf_buf f2 = []" "prefix (pf_file f) (pf_file f2)" "prefix (pf_file f2) (pf_contents f)"
      "s2 = Status_OK \<Longrightarrow> pf_file f2 = pf_contents f"
      using FlushBuffer_file [OF 2] D 1 by (auto simp: pf_contents_def)
    have r: "(if s2 \<noteq> Status_OK then Some (s2, f2) else Some (SyncFd os True (pf_filename f2) f2)) = Some (st, g)"
      using assms 1 2 True by (simp add: Posix_Sync_def)
    show ?thesis
      using r w S [of True "pf_filename f2" f2] by (cases "s2 = Status_OK") (auto simp: pf_contents_def)
  qed
qed



end
