(* ===== verification/Ldb_Log.thy ===== *)
theory Ldb_Log
  imports Ldb_Env Ldb_Crc
begin

text \<open>
  The log of leveldb, its write-ahead log and the format of its manifest (\<open>db/log_format.h\<close>,
  \<open>db/log_writer.cc\<close>, \<open>db/log_reader.cc\<close>): records cut into fragments that fit the blocks of a file.
\<close>

section \<open>The format\<close>

datatype RecordType = kZeroType | kFullType | kFirstType | kMiddleType | kLastType

fun record_code :: "RecordType \<Rightarrow> nat" where
  "record_code kZeroType = 0"
| "record_code kFullType = 1"
| "record_code kFirstType = 2"
| "record_code kMiddleType = 3"
| "record_code kLastType = 4"

definition kMaxRecordType :: nat where
  "kMaxRecordType = record_code kLastType"

definition kBlockSize :: nat where
  "kBlockSize = 32768"

definition kHeaderSize :: nat where
  "kHeaderSize = 4 + 2 + 1"

section \<open>Writing\<close>

record 'f Writer =
  lw_dest :: 'f
  lw_block_offset :: int
  lw_type_crc :: "u32 list"

definition InitTypeCrc :: "u32 list" where
  "InitTypeCrc = map (\<lambda>i. crc32c_Value [of_nat i]) [0..<kMaxRecordType + 1]"

text \<open>A writer on a file of the length \<open>dest_length\<close>.\<close>

definition Writer_new :: "'f \<Rightarrow> nat \<Rightarrow> 'f Writer" where
  "Writer_new dest dest_length =
     \<lparr>lw_dest = dest, lw_block_offset = int (dest_length mod kBlockSize), lw_type_crc = InitTypeCrc\<rparr>"


type_synonym 'f append = "slice \<Rightarrow> 'f \<Rightarrow> (Status \<times> 'f) option"
type_synonym 'f flush = "'f \<Rightarrow> (Status \<times> 'f) option"

definition record_header :: "u32 list \<Rightarrow> RecordType \<Rightarrow> slice \<Rightarrow> slice" where
  "record_header type_crc t p =
     EncodeFixed32 (crc32c_Mask (crc32c_Extend (type_crc ! record_code t) p)) @
     [of_nat (length p mod 256), of_nat (length p div 256), of_nat (record_code t)]"

definition EmitPhysicalRecord ::
  "'f append \<Rightarrow> 'f flush \<Rightarrow> RecordType \<Rightarrow> slice \<Rightarrow> 'f Writer \<Rightarrow> (Status \<times> 'f Writer) option" where
  "EmitPhysicalRecord fappend fflush t p w = do {
     (s, f) \<leftarrow> fappend (record_header (lw_type_crc w) t p) (lw_dest w);
     (s, f) \<leftarrow> (if Status_ok s then do {
                   (s, f) \<leftarrow> fappend p f;
                   if Status_ok s then fflush f else Some (s, f) }
                 else Some (s, f));
     Some (s, w\<lparr>lw_dest := f,
                lw_block_offset := lw_block_offset w + int kHeaderSize + int (length p)\<rparr>) }"

text \<open>Switching to a new block when a header does not fit; the status of the write is dropped.\<close>

definition fill_trailer :: "'f append \<Rightarrow> 'f Writer \<Rightarrow> 'f Writer option" where
  "fill_trailer fappend w =
     (let leftover = int kBlockSize - lw_block_offset w
      in if leftover < int kHeaderSize
         then if 0 < leftover
              then do { (_, f) \<leftarrow> fappend (replicate (nat leftover) 0) (lw_dest w);
                        Some (w\<lparr>lw_dest := f, lw_block_offset := 0\<rparr>) }
              else Some (w\<lparr>lw_block_offset := 0\<rparr>)
         else Some w)"

definition fragment_length :: "int \<Rightarrow> slice \<Rightarrow> nat" where
  "fragment_length block_offset p =
     (let avail = nat (int kBlockSize - block_offset - int kHeaderSize)
      in if length p < avail then length p else avail)"

definition fragment_type :: "bool \<Rightarrow> bool \<Rightarrow> RecordType" where
  "fragment_type first final =
     (if first \<and> final then kFullType else if first then kFirstType else if final then kLastType else kMiddleType)"

lemma Emit_offset:
  "EmitPhysicalRecord fappend fflush t p w = Some (s, w') \<Longrightarrow>
    lw_block_offset w' = lw_block_offset w + 7 + int (length p)"
  by (auto simp: EmitPhysicalRecord_def kHeaderSize_def split: Option.bind_splits if_splits)

lemma fill_trailer_offset:
  "fill_trailer fappend w = Some w' \<Longrightarrow>
    lw_block_offset w' = (if 32768 - lw_block_offset w < 7 then 0 else lw_block_offset w)"
  by (auto simp: fill_trailer_def kHeaderSize_def kBlockSize_def Let_def split: Option.bind_splits if_splits)

function add_loop :: "'f append \<Rightarrow> 'f flush \<Rightarrow> bool \<Rightarrow> slice \<Rightarrow> 'f Writer \<Rightarrow> (Status \<times> 'f Writer) option" where
  "add_loop fappend fflush first p w = do {
     w1 \<leftarrow> fill_trailer fappend w;
     let n = fragment_length (lw_block_offset w1) p;
     (s, w2) \<leftarrow> EmitPhysicalRecord fappend fflush (fragment_type first (length p = n)) (take n p) w1;
     if Status_ok s \<and> 0 < length p - n then add_loop fappend fflush False (drop n p) w2 else Some (s, w2) }"
  by pat_completeness auto

text \<open>
  A fragment is empty only when a header just fits at the end of a block, and the next one is not.
\<close>

termination
proof (relation "measure (\<lambda>(_, _, _, p, w). 2 * length p + (if 32768 - lw_block_offset w = 7 then 1 else 0))")
  fix fappend :: "'f append" and fflush :: "'f flush" and first p w w1 n sw s w2
  assume f: "fill_trailer fappend w = Some w1" and n: "n = fragment_length (lw_block_offset w1) p"
    and e: "EmitPhysicalRecord fappend fflush (fragment_type first (length p = n)) (take n p) w1 = Some sw"
    and sw: "(s, w2) = sw" and g: "Status_ok s \<and> 0 < length p - n"
  have a: "n = nat (32768 - lw_block_offset w1 - 7)"
    using n g by (auto simp: fragment_length_def kBlockSize_def kHeaderSize_def Let_def split: if_splits)
  have o: "lw_block_offset w2 = lw_block_offset w1 + 7 + int n"
    using Emit_offset [OF e [folded sw]] g by simp
  show "((fappend, fflush, False, drop n p, w2), fappend, fflush, first, p, w)
    \<in> measure (\<lambda>(_, _, _, p, w). 2 * length p + (if 32768 - lw_block_offset w = 7 then 1 else 0))"
    using a o g fill_trailer_offset [OF f] by (auto split: if_splits)
qed simp

declare add_loop.simps [simp del]

definition AddRecord :: "'f append \<Rightarrow> 'f flush \<Rightarrow> slice \<Rightarrow> 'f Writer \<Rightarrow> (Status \<times> 'f Writer) option" where
  "AddRecord fappend fflush data w = add_loop fappend fflush True data w"

section \<open>Reading\<close>

record 'f Reader =
  lr_file :: 'f
  lr_reporter :: bool
  lr_checksum :: bool
  lr_buffer :: slice
  lr_eof :: bool
  lr_last_record_offset :: u64
  lr_end_of_buffer_offset :: u64
  lr_initial_offset :: u64
  lr_resyncing :: bool
  lr_reports :: "(u64 \<times> Status) list"

definition Reader_new :: "'f \<Rightarrow> bool \<Rightarrow> bool \<Rightarrow> u64 \<Rightarrow> 'f Reader" where
  "Reader_new file reporter checksum initial_offset =
     \<lparr>lr_file = file, lr_reporter = reporter, lr_checksum = checksum, lr_buffer = [], lr_eof = False,
      lr_last_record_offset = 0, lr_end_of_buffer_offset = 0, lr_initial_offset = initial_offset,
      lr_resyncing = (0 < initial_offset), lr_reports = []\<rparr>"

text \<open>The types that \<open>ReadPhysicalRecord\<close> gives besides those of the format.\<close>

definition kEof :: u32 where
  "kEof = of_nat (kMaxRecordType + 1)"

definition kBadRecord :: u32 where
  "kBadRecord = of_nat (kMaxRecordType + 2)"

definition ReportDrop :: "u64 \<Rightarrow> Status \<Rightarrow> 'f Reader \<Rightarrow> 'f Reader" where
  "ReportDrop n reason r =
     (if lr_reporter r \<and>
         lr_initial_offset r \<le> lr_end_of_buffer_offset r - of_nat (length (lr_buffer r)) - n
      then r\<lparr>lr_reports := lr_reports r @ [(n, reason)]\<rparr> else r)"

definition ReportCorruption :: "u64 \<Rightarrow> string \<Rightarrow> 'f Reader \<Rightarrow> 'f Reader" where
  "ReportCorruption n reason r = ReportDrop n (Corruption (bytes reason) []) r"

type_synonym 'f read = "nat \<Rightarrow> 'f \<Rightarrow> (Status \<times> slice \<times> 'f) option"
type_synonym 'f skip = "nat \<Rightarrow> 'f \<Rightarrow> (Status \<times> 'f) option"

definition SkipToInitialBlock :: "'f skip \<Rightarrow> 'f Reader \<Rightarrow> (bool \<times> 'f Reader) option" where
  "SkipToInitialBlock fskip r =
     (let offset_in_block = lr_initial_offset r mod of_nat kBlockSize;
          start = lr_initial_offset r - offset_in_block;
          block_start_location = (if of_nat kBlockSize - 6 < offset_in_block then start + of_nat kBlockSize else start);
          r = r\<lparr>lr_end_of_buffer_offset := block_start_location\<rparr>
      in if 0 < block_start_location
         then do { (skip_status, f) \<leftarrow> fskip (unat block_start_location) (lr_file r);
                   let r = r\<lparr>lr_file := f\<rparr>;
                   Some (if Status_ok skip_status then (True, r)
                         else (False, ReportDrop block_start_location skip_status r)) }
         else Some (True, r))"

text \<open>The rest of \<open>ReadPhysicalRecord\<close>, once the buffer holds a header.\<close>

definition parse_record :: "slice \<Rightarrow> 'f Reader \<Rightarrow> u32 \<times> slice \<times> 'f Reader" where
  "parse_record result r =
     (let header = lr_buffer r;
          a = ucast (header ! 4) :: u32;
          b = ucast (header ! 5) :: u32;
          ty = scast (header ! 6) :: u32;
          n = unat (a OR push_bit 8 b);
          drop_size = of_nat (length (lr_buffer r));
          cleared = r\<lparr>lr_buffer := []\<rparr>
      in if length (lr_buffer r) < kHeaderSize + n
         then if \<not> lr_eof r then (kBadRecord, result, ReportCorruption drop_size ''bad record length'' cleared)
              else (kEof, result, cleared)
         else if ty = of_nat (record_code kZeroType) \<and> n = 0 then (kBadRecord, result, cleared)
         else if lr_checksum r \<and>
                 crc32c_Value (take (1 + n) (drop 6 header)) \<noteq> crc32c_Unmask (the (DecodeFixed32 header))
         then (kBadRecord, result, ReportCorruption drop_size ''checksum mismatch'' cleared)
         else let r = r\<lparr>lr_buffer := drop (kHeaderSize + n) (lr_buffer r)\<rparr>
              in if lr_end_of_buffer_offset r - of_nat (length (lr_buffer r)) - of_nat kHeaderSize - of_nat n
                    < lr_initial_offset r
                 then (kBadRecord, [], r)
                 else (ty, take n (drop kHeaderSize header), r))"

text \<open>
  The type, the fragment and the reader afterwards.  The loop goes round once more after a read, and
  then either the file has ended or the buffer holds a block.
\<close>

function ReadPhysicalRecord :: "'f read \<Rightarrow> slice \<Rightarrow> 'f Reader \<Rightarrow> (u32 \<times> slice \<times> 'f Reader) option" where
  "ReadPhysicalRecord fread result r =
     (if length (lr_buffer r) < kHeaderSize
      then if \<not> lr_eof r
           then do {
             (status, buffer, f) \<leftarrow> fread kBlockSize (lr_file r);
             let r1 = r\<lparr>lr_file := f, lr_buffer := buffer,
                        lr_end_of_buffer_offset := lr_end_of_buffer_offset r + of_nat (length buffer)\<rparr>;
             if \<not> Status_ok status
             then Some (kEof, result, (ReportDrop (of_nat kBlockSize) status (r1\<lparr>lr_buffer := []\<rparr>))\<lparr>lr_eof := True\<rparr>)
             else ReadPhysicalRecord fread result
                    (if length buffer < kBlockSize then r1\<lparr>lr_eof := True\<rparr> else r1) }
           else Some (kEof, result, r\<lparr>lr_buffer := []\<rparr>)
      else Some (parse_record result r))"
  by pat_completeness auto
termination
  by (relation "measure (\<lambda>(_, _, r). if length (lr_buffer r) < 7 \<and> \<not> lr_eof r then 1 else 0)")
    (auto simp: kHeaderSize_def kBlockSize_def)

declare ReadPhysicalRecord.simps [simp del]

text \<open>
  One round of the loop of \<open>ReadRecord\<close> on a physical record: the loop ends with a record, or \<open>None\<close>
  for false, the scratch string and the reader, or goes on with its local variables.
\<close>

datatype 'f round =
    Done "slice option" slice "'f Reader"
  | Again bool u64 slice slice "'f Reader"

definition read_round :: "bool \<Rightarrow> u64 \<Rightarrow> slice \<Rightarrow> u32 \<Rightarrow> slice \<Rightarrow> 'f Reader \<Rightarrow> 'f round" where
  "read_round in_fragmented_record prospective_record_offset scratch record_type fragment r =
     (let physical_record_offset = lr_end_of_buffer_offset r - of_nat (length (lr_buffer r))
           - of_nat kHeaderSize - of_nat (length fragment)
     in if lr_resyncing r \<and> record_type = of_nat (record_code kMiddleType)
     then Again in_fragmented_record prospective_record_offset fragment scratch r
     else if lr_resyncing r \<and> record_type = of_nat (record_code kLastType)
     then Again in_fragmented_record prospective_record_offset fragment scratch (r\<lparr>lr_resyncing := False\<rparr>)
     else let r = r\<lparr>lr_resyncing := False\<rparr> in
       if record_type = of_nat (record_code kFullType)
       then let r = (if in_fragmented_record \<and> scratch \<noteq> []
                     then ReportCorruption (of_nat (length scratch)) ''partial record without end(1)'' r else r)
            in Done (Some fragment) [] (r\<lparr>lr_last_record_offset := physical_record_offset\<rparr>)
       else if record_type = of_nat (record_code kFirstType)
       then let r = (if in_fragmented_record \<and> scratch \<noteq> []
                     then ReportCorruption (of_nat (length scratch)) ''partial record without end(2)'' r else r)
            in Again True physical_record_offset fragment fragment r
       else if record_type = of_nat (record_code kMiddleType)
       then if \<not> in_fragmented_record
            then Again in_fragmented_record prospective_record_offset fragment scratch
                   (ReportCorruption (of_nat (length fragment)) ''missing start of fragmented record(1)'' r)
            else Again in_fragmented_record prospective_record_offset fragment (scratch @ fragment) r
       else if record_type = of_nat (record_code kLastType)
       then if \<not> in_fragmented_record
            then Again in_fragmented_record prospective_record_offset fragment scratch
                   (ReportCorruption (of_nat (length fragment)) ''missing start of fragmented record(2)'' r)
            else Done (Some (scratch @ fragment)) (scratch @ fragment)
                   (r\<lparr>lr_last_record_offset := prospective_record_offset\<rparr>)
       else if record_type = kEof
       then Done None (if in_fragmented_record then [] else scratch) r
       else if record_type = kBadRecord
       then if in_fragmented_record
            then Again False prospective_record_offset fragment []
                   (ReportCorruption (of_nat (length scratch)) ''error in middle of record'' r)
            else Again False prospective_record_offset fragment scratch r
       else Again False prospective_record_offset fragment []
              (ReportDrop (of_nat (length fragment + (if in_fragmented_record then length scratch else 0)))
                 (Corruption (bytes ''unknown record type '' @ decimal (unat record_type)) []) r))"

partial_function (option) read_loop ::
  "'f read \<Rightarrow> bool \<Rightarrow> u64 \<Rightarrow> slice \<Rightarrow> slice \<Rightarrow> 'f Reader \<Rightarrow> (slice option \<times> slice \<times> 'f Reader) option" where
  "read_loop fread in_fragmented_record prospective_record_offset fragment scratch r = do {
     (record_type, fragment, r) \<leftarrow> ReadPhysicalRecord fread fragment r;
     case read_round in_fragmented_record prospective_record_offset scratch record_type fragment r of
       Done result scratch r \<Rightarrow> Some (result, scratch, r)
     | Again in_fragmented prospective fragment scratch r \<Rightarrow> read_loop fread in_fragmented prospective fragment scratch r }"

definition ReadRecord ::
  "'f read \<Rightarrow> 'f skip \<Rightarrow> 'f Reader \<Rightarrow> (slice option \<times> slice \<times> 'f Reader) option" where
  "ReadRecord fread fskip r = do {
     (ok, r) \<leftarrow> (if lr_last_record_offset r < lr_initial_offset r then SkipToInitialBlock fskip r
                  else Some (True, r));
     if \<not> ok then Some (None, [], r) else read_loop fread False 0 [] [] r }"

definition LastRecordOffset :: "'f Reader \<Rightarrow> u64" where
  "LastRecordOffset r = lr_last_record_offset r"

end
