(* ===== verification/Ldb_Log_Spec.thy ===== *)
theory Ldb_Log_Spec
  imports Ldb_Log
begin

text \<open>
  What a log file holds: the bytes of a list of records, at an absolute position of the file, and the
  proof that the writer of \<open>Ldb_Log\<close> writes them.
\<close>

section \<open>The bytes of a log\<close>

definition phys :: "RecordType \<Rightarrow> slice \<Rightarrow> slice" where
  "phys t d = EncodeFixed32 (crc32c_Mask (crc32c 0 (of_nat (record_code t) # d))) @
     [of_nat (length d mod 256), of_nat (length d div 256), of_nat (record_code t)] @ d"

definition pad :: "nat \<Rightarrow> nat" where
  "pad pos = (if 32768 - pos mod 32768 < 7 then 32768 - pos mod 32768 else 0)"

definition avail :: "nat \<Rightarrow> nat" where
  "avail pos = 32768 - (pos + pad pos) mod 32768 - 7"

lemma pad_room: "7 \<le> 32768 - (pos + pad pos) mod 32768"
proof (cases "32768 - pos mod 32768 < 7")
  case True
  then have "pos + (32768 - pos mod 32768) = pos div 32768 * 32768 + 32768"
    using div_mult_mod_eq [of pos 32768] mod_less_divisor [of 32768 pos] by linarith
  then have "(pos + pad pos) mod 32768 = (pos div 32768 * 32768 + 32768) mod 32768"
    using True by (simp only: pad_def if_True)
  then show ?thesis by simp
next
  case False
  then show ?thesis by (simp add: pad_def)
qed

lemma avail_le: "(pos + pad pos) mod 32768 + 7 + avail pos = 32768"
  using pad_room [of pos] by (simp add: avail_def)

text \<open>The fragments of a record, and the zeros at the end of a block between them.\<close>

function record_bytes :: "nat \<Rightarrow> bool \<Rightarrow> slice \<Rightarrow> slice" where
  "record_bytes pos first d =
     (let n = min (length d) (avail pos)
      in replicate (pad pos) 0 @ phys (fragment_type first (length d = n)) (take n d) @
         (if length d = n then [] else record_bytes (pos + pad pos + 7 + n) False (drop n d)))"
  by pat_completeness auto
termination
proof (relation "measure (\<lambda>(pos, _, d). 2 * length d + (if avail pos = 0 then 1 else 0))")
  fix pos :: nat and first :: bool and d :: slice and n
  assume n: "n = min (length d) (avail pos)" "length d \<noteq> n"
  then have m: "n = avail pos" "n < length d" by auto
  show "((pos + pad pos + 7 + n, False, drop n d), pos, first, d)
    \<in> measure (\<lambda>(pos, _, d). 2 * length d + (if avail pos = 0 then 1 else 0))"
  proof (cases "avail pos = 0")
    case True
    then have "(pos + pad pos) mod 32768 + 7 = 32768" using avail_le [of pos] by simp
    then have "(pos + pad pos + 7) mod 32768 = 0" using mod_add_left_eq [of "pos + pad pos" 32768 7] by simp
    then have "avail (pos + pad pos + 7) \<noteq> 0" by (simp add: avail_def pad_def)
    then show ?thesis using m True by simp
  qed (use m in auto)
qed simp

declare record_bytes.simps [simp del]

fun log_bytes :: "nat \<Rightarrow> slice list \<Rightarrow> slice" where
  "log_bytes pos [] = []"
| "log_bytes pos (d # ds) = record_bytes pos True d @ log_bytes (pos + length (record_bytes pos True d)) ds"

lemma length_phys [simp]: "length (phys t d) = 7 + length d"
  by (simp add: phys_def)

lemma log_bytes_append:
  "log_bytes pos (ds @ es) = log_bytes pos ds @ log_bytes (pos + length (log_bytes pos ds)) es"
  by (induction ds arbitrary: pos) (simp_all add: add.assoc)

section \<open>The writer writes them\<close>

lemma type_crc: "InitTypeCrc ! record_code t = crc32c 0 [of_nat (record_code t)]"
  by (cases t) (simp_all add: InitTypeCrc_def crc32c_Value_def crc32c_Extend_eq kMaxRecordType_def)

lemma record_header_phys: "record_header InitTypeCrc t p @ p = phys t p"
  using crc32c_append [of 0 "[of_nat (record_code t)]" p]
  by (simp add: record_header_def phys_def type_crc crc32c_Extend_eq)

text \<open>The block offset of a writer at a position of the file; at the end of a block it may be the block size.\<close>

definition writer_at :: "nat \<Rightarrow> 'f Writer \<Rightarrow> bool" where
  "writer_at pos w \<longleftrightarrow> lw_type_crc w = InitTypeCrc \<and>
     (lw_block_offset w = int (pos mod 32768) \<or> lw_block_offset w = 32768 \<and> pos mod 32768 = 0)"

text \<open>A file that a log is written to also takes a few bytes after a flush, without a system call.\<close>

locale log_file = writable_file +
  fixes room :: "'f \<Rightarrow> bool"
  assumes flush_room: "flush f = Some (Status_OK, g) \<Longrightarrow> room g"
    and room_append: "room f \<Longrightarrow> length s \<le> 6 \<Longrightarrow> append s f = Some (st, g) \<Longrightarrow> st = Status_OK"
begin

lemma Emit_OK:
  assumes "EmitPhysicalRecord append flush t p w = Some (Status_OK, w')" and "writer_at pos w"
    and "pos mod 32768 + 7 + length p \<le> 32768" and "lw_block_offset w < 32768"
  shows "contents (lw_dest w') = contents (lw_dest w) @ phys t p \<and> disk (lw_dest w') = contents (lw_dest w') \<and>
    room (lw_dest w') \<and> writer_at (pos + 7 + length p) w'"
proof -
  have c: "lw_type_crc w = InitTypeCrc" "lw_block_offset w = int (pos mod 32768)"
    using assms(2,4) by (auto simp: writer_at_def)
  obtain f g h where f: "append (record_header InitTypeCrc t p) (lw_dest w) = Some (Status_OK, f)"
    "append p f = Some (Status_OK, g)" "flush g = Some (Status_OK, h)"
    "w' = w\<lparr>lw_dest := h, lw_block_offset := lw_block_offset w + 7 + int (length p)\<rparr>"
    using assms(1) c(1)
    by (auto simp: EmitPhysicalRecord_def kHeaderSize_def split: Option.bind_splits if_splits)
  have o: "lw_block_offset w' = int (pos mod 32768 + (7 + length p))" using f(4) c(2) by simp
  have "int (pos mod 32768 + (7 + length p)) = int ((pos + (7 + length p)) mod 32768) \<or>
    int (pos mod 32768 + (7 + length p)) = 32768 \<and> (pos + (7 + length p)) mod 32768 = 0"
  proof (cases "pos mod 32768 + (7 + length p) = 32768")
    case True
    then show ?thesis using mod_add_left_eq [of pos 32768 "7 + length p"] unfolding True by simp
  next
    case False
    then have "(pos mod 32768 + (7 + length p)) mod 32768 = pos mod 32768 + (7 + length p)"
      using assms(3) by (intro mod_less) simp
    then show ?thesis using mod_add_left_eq [of pos 32768 "7 + length p"] by simp
  qed
  then have "writer_at (pos + 7 + length p) w'" using o f(4) c(1) by (simp add: writer_at_def add.assoc)
  then show ?thesis
    using append_ok [OF f(1)] append_ok [OF f(2)] flush_ok [OF f(3)] flush_room [OF f(3)] f(4)
      record_header_phys [of t p]
    by simp
qed

text \<open>Whatever the status, the disk holds no more than the fragment.\<close>

lemma Emit_disk:
  assumes "EmitPhysicalRecord append flush t p w = Some (st, w')" and "lw_type_crc w = InitTypeCrc"
  shows "prefix (disk (lw_dest w)) (disk (lw_dest w')) \<and>
    prefix (disk (lw_dest w')) (contents (lw_dest w) @ phys t p)"
proof -
  let ?h = "record_header InitTypeCrc t p"
  obtain s f where f: "append ?h (lw_dest w) = Some (s, f)"
    using assms by (auto simp: EmitPhysicalRecord_def split: Option.bind_splits)
  note p = record_header_phys [of t p, symmetric]
  show ?thesis
  proof (cases "s = Status_OK")
    case False
    then have "lw_dest w' = f" using assms f by (auto simp: EmitPhysicalRecord_def)
    then show ?thesis using append_disk [OF f] unfolding p by (metis append.assoc prefix_prefix)
  next
    case True
    then obtain s2 g where g: "append p f = Some (s2, g)"
      using assms f by (auto simp: EmitPhysicalRecord_def split: Option.bind_splits)
    note cf = append_ok [OF f [unfolded True]]
    show ?thesis
    proof (cases "s2 = Status_OK")
      case False
      then have "lw_dest w' = g" using assms f g True by (auto simp: EmitPhysicalRecord_def)
      then show ?thesis using append_disk [OF f] append_disk [OF g] cf unfolding p
        by (auto intro: prefix_order.trans)
    next
      case ok: True
      then obtain s3 h where h: "flush g = Some (s3, h)" "lw_dest w' = h"
        using assms f g True by (auto simp: EmitPhysicalRecord_def split: Option.bind_splits)
      then show ?thesis
        using append_disk [OF f] append_disk [OF g] flush_disk [OF h(1)] append_ok [OF g [unfolded ok]] cf
        unfolding p by (auto intro: prefix_order.trans)
    qed
  qed
qed

lemma fill_trailer_disk: "fill_trailer append w = Some w1 \<Longrightarrow> prefix (disk (lw_dest w)) (disk (lw_dest w1))"
  using append_disk by (fastforce simp: fill_trailer_def Let_def split: Option.bind_splits if_splits)

lemma fill_trailer_pad:
  assumes "fill_trailer append w = Some w1" and "writer_at pos w" and "room (lw_dest w)"
  shows "contents (lw_dest w1) = contents (lw_dest w) @ replicate (pad pos) 0 \<and> writer_at (pos + pad pos) w1 \<and>
    lw_block_offset w1 = int ((pos + pad pos) mod 32768)"
proof -
  have m: "pos mod 32768 < 32768" by simp
  show ?thesis
  proof (cases "lw_block_offset w = 32768")
    case True
    then have p: "pos mod 32768 = 0" using assms(2) m by (auto simp: writer_at_def)
    then have "pad pos = 0" by (simp add: pad_def)
    then show ?thesis
      using assms True p by (auto simp: fill_trailer_def kBlockSize_def kHeaderSize_def writer_at_def)
  next
    case False
    then have o: "lw_block_offset w = int (pos mod 32768)" "lw_type_crc w = InitTypeCrc"
      using assms(2) by (auto simp: writer_at_def)
    show ?thesis
    proof (cases "32768 - pos mod 32768 < 7")
      case False
      then have "int kBlockSize - lw_block_offset w \<ge> int kHeaderSize"
        using o m by (simp add: kBlockSize_def kHeaderSize_def)
      then show ?thesis using assms False o by (auto simp: fill_trailer_def pad_def Let_def)
    next
      case True
      define k where "k = 32768 - pos mod 32768"
      have l: "int kBlockSize - lw_block_offset w = int k" using o m by (simp add: kBlockSize_def k_def)
      have k: "int k < int kHeaderSize" "0 < int k" "k \<le> 6" using True m by (simp_all add: kHeaderSize_def k_def)
      then obtain st f where f: "append (replicate k 0) (lw_dest w) = Some (st, f)"
        "w1 = w\<lparr>lw_dest := f, lw_block_offset := 0\<rparr>"
        using assms(1) unfolding fill_trailer_def l Let_def by (auto split: Option.bind_splits)
      have "st = Status_OK" using room_append [OF assms(3) _ f(1)] k(3) by simp
      then have "contents f = contents (lw_dest w) @ replicate k 0" using append_ok f(1) by blast
      moreover have "pad pos = k" using True by (simp add: pad_def k_def)
      moreover have "(pos + k) mod 32768 = 0"
      proof -
        have "pos + k = pos div 32768 * 32768 + 32768"
          using div_mult_mod_eq [of pos 32768] m unfolding k_def by linarith
        then show ?thesis by simp
      qed
      ultimately show ?thesis using f(2) o(2) by (simp add: writer_at_def)
    qed
  qed
qed

lemma fragment_length_avail:
  "lw_block_offset w1 = int ((pos + pad pos) mod 32768) \<Longrightarrow>
    fragment_length (lw_block_offset w1) p = min (length p) (avail pos)"
  by (simp add: fragment_length_def kBlockSize_def kHeaderSize_def avail_def Let_def min_def nat_diff_distrib')

text \<open>A record whose status is OK is on disk; otherwise the disk holds a part of it.\<close>

lemma add_loop_bytes:
  assumes "add_loop append flush first p w = Some (st, w')" and "writer_at pos w" and "room (lw_dest w)"
  shows "prefix (disk (lw_dest w)) (disk (lw_dest w')) \<and>
    prefix (disk (lw_dest w')) (contents (lw_dest w) @ record_bytes pos first p) \<and>
    (st = Status_OK \<longrightarrow> contents (lw_dest w') = contents (lw_dest w) @ record_bytes pos first p \<and>
       disk (lw_dest w') = contents (lw_dest w') \<and> room (lw_dest w') \<and>
       writer_at (pos + length (record_bytes pos first p)) w')"
  using assms
proof (induction pos first p arbitrary: w rule: record_bytes.induct)
  case (1 pos first p)
  let ?n = "min (length p) (avail pos)"
  let ?pos = "pos + pad pos"
  let ?t = "fragment_type first (length p = ?n)"
  note u = "1.prems"(1) [unfolded add_loop.simps [of append flush first p w]]
  obtain w1 where w1: "fill_trailer append w = Some w1"
    using u by (auto split: Option.bind_splits)
  note t = fill_trailer_pad [OF w1 "1.prems"(2,3)]
  note n = fragment_length_avail [of w1 pos p, OF conjunct2 [OF conjunct2 [OF t]]]
  obtain s w2 where w2: "EmitPhysicalRecord append flush ?t (take ?n p) w1 = Some (s, w2)"
    and r: "(if Status_ok s \<and> 0 < length p - ?n then add_loop append flush False (drop ?n p) w2
      else Some (s, w2)) = Some (st, w')"
    using u [unfolded w1 bind.bind_lunit Let_def n] by (auto split: Option.bind_splits)
  have crc: "lw_type_crc w1 = InitTypeCrc" using t by (simp add: writer_at_def)
  have fits: "?pos mod 32768 + 7 + length (take ?n p) \<le> 32768" using avail_le [of pos] by simp
  have lt: "lw_block_offset w1 < 32768" using t by simp
  let ?rest = "if length p = ?n then [] else record_bytes (?pos + 7 + ?n) False (drop ?n p)"
  have b: "contents (lw_dest w) @ record_bytes pos first p
      = (contents (lw_dest w1) @ phys ?t (take ?n p)) @ ?rest"
    using t by (subst record_bytes.simps) (simp add: Let_def)
  have len: "pos + length (record_bytes pos first p) = ?pos + 7 + ?n + length ?rest"
    by (subst record_bytes.simps) (simp add: Let_def min_def)
  have disk: "prefix (disk (lw_dest w)) (disk (lw_dest w2))"
    using fill_trailer_disk [OF w1] Emit_disk [OF w2 crc] prefix_order.trans by blast
  show ?case
  proof (cases "s = Status_OK")
    case False
    then have "st \<noteq> Status_OK" "w' = w2" using r by auto
    moreover have "prefix (disk (lw_dest w2)) (contents (lw_dest w) @ record_bytes pos first p)"
      unfolding b by (rule prefix_prefix [OF conjunct2 [OF Emit_disk [OF w2 crc]]])
    ultimately show ?thesis using disk by simp
  next
    case True
    note e = Emit_OK [OF w2 [unfolded True] _ fits lt]
    have e: "contents (lw_dest w2) = contents (lw_dest w1) @ phys ?t (take ?n p)"
      "disk (lw_dest w2) = contents (lw_dest w2)" "room (lw_dest w2)" "writer_at (?pos + 7 + ?n) w2"
      using e t by (simp_all add: min_def split: if_splits)
    show ?thesis
    proof (cases "length p = ?n")
      case last: True
      then have "st = Status_OK" "w' = w2" using r True by auto
      then show ?thesis using e last disk unfolding b len by simp
    next
      case more: False
      then have m: "min (length p) (avail pos) = avail pos" "length p \<noteq> avail pos" by auto
      then have "Status_ok s \<and> 0 < length p - ?n" using True by simp
      then have "add_loop append flush False (drop ?n p) w2 = Some (st, w')" using r by (simp only: if_True simp_thms)
      from "1.IH" [OF refl more this e(4,3)] show ?thesis
        using e(1) m disk unfolding b len by (auto simp: add.assoc intro: prefix_order.trans)
    qed
  qed
qed

end

interpretation posix_log: log_file "Posix_Append os" "Posix_Flush os" pf_contents pf_file "\<lambda>f. pf_buf f = []" for os
proof
  show "Posix_Flush os f = Some (Status_OK, g) \<Longrightarrow> pf_buf g = []" for f g
    using FlushBuffer_file [of os f Status_OK g] by (simp add: Posix_Flush_def)
  show "st = Status_OK" if "pf_buf f = []" "length s \<le> 6" "Posix_Append os s f = Some (st, g)" for f s st g
    using that by (simp add: Posix_Append_def Let_def kWritableFileBufferSize_def)
qed

end
