(* ===== verification/Ldb_Log_Read.thy ===== *)
theory Ldb_Log_Read
  imports Ldb_Log_Spec
begin

text \<open>
  Reading a log, whole or cut off anywhere: the reader of \<open>Ldb_Log\<close> gives the records that are
  complete and nothing else.
\<close>

section \<open>One physical record\<close>

lemma length_field:
  assumes "n < 65536"
  shows "unat ((ucast (of_nat (n mod 256) :: u8) :: u32) OR push_bit 8 (ucast (of_nat (n div 256) :: u8))) = n"
proof -
  have "n div 256 < 256" using assms by (simp add: div_less_iff_less_mult)
  then have d: "unat (of_nat (n div 256) :: u8) = n div 256" by (simp add: unat_of_nat_mod)
  have m: "unat (of_nat (n mod 256) :: u8) = n mod 256" by (simp add: unat_of_nat_mod)
  have "unat (ucast (of_nat (n mod 256) :: u8) :: u32) < 2 ^ 8" by simp
  then show ?thesis using unat_or_byte [of "ucast (of_nat (n mod 256) :: u8) :: u32" 8 "of_nat (n div 256)"] d m by simp
qed

lemma code_field: "(scast (of_nat (record_code t) :: u8) :: u32) = of_nat (record_code t)"
  by (cases t) simp_all

lemma nth_phys:
  "(phys t d @ s) ! 4 = of_nat (length d mod 256)" "(phys t d @ s) ! 5 = of_nat (length d div 256)"
  "(phys t d @ s) ! 6 = of_nat (record_code t)"
  "drop 6 (phys t d @ s) = of_nat (record_code t) # d @ s" "drop 7 (phys t d @ s) = d @ s"
  "DecodeFixed32 (phys t d @ s) = Some (crc32c_Mask (crc32c 0 (of_nat (record_code t) # d)))"
  by (simp_all add: phys_def nth_append DecodeFixed32_Encode)

lemma drop_phys: "drop (7 + length d) (phys t d @ s) = s"
  by (metis append_eq_conv_conj length_phys)

lemma code_zero: "(of_nat (record_code t) :: u32) = 0 \<longleftrightarrow> t = kZeroType"
  by (cases t) simp_all

lemma parse_phys:
  assumes "lr_buffer r = phys t d @ s" and "length d < 65536" and "t \<noteq> kZeroType" and "lr_initial_offset r = 0"
  shows "parse_record res r = (of_nat (record_code t), d, r\<lparr>lr_buffer := s\<rparr>)"
  using assms(3,4)
  by (simp add: parse_record_def Let_def assms(1) nth_phys length_field [OF assms(2)] code_field code_zero drop_phys
      kHeaderSize_def crc32c_Value_def crc32c_Extend_eq crc32c_Unmask_Mask del: drop_append)

text \<open>A record that the end of the file has cut off.\<close>

lemma parse_cut:
  assumes "lr_buffer r = take m (phys t d)" and "7 \<le> m" and "m < 7 + length d" and "length d < 65536" and "lr_eof r"
  shows "parse_record res r = (kEof, res, r\<lparr>lr_buffer := []\<rparr>)"
proof -
  have "take m (phys t d) ! i = (phys t d @ []) ! i" if "i < 7" for i
    using that assms(2) by simp
  then have n: "lr_buffer r ! 4 = of_nat (length d mod 256)" "lr_buffer r ! 5 = of_nat (length d div 256)"
    using nth_phys(1,2) [of t d "[]"] by (simp_all add: assms(1))
  have "length (lr_buffer r) < 7 + length d" using assms(3) by (simp add: assms(1))
  then show ?thesis
    using assms(5) by (simp add: parse_record_def Let_def n length_field [OF assms(4)] kHeaderSize_def)
qed

section \<open>One round of the loop\<close>

lemma record_code_simps [simp]:
  "(of_nat (record_code t) :: u32) = of_nat (record_code u) \<longleftrightarrow> t = u"
  by (cases t; cases u) simp_all

lemma round_fragment:
  assumes "\<not> lr_resyncing r" and "in_frag = (\<not> first)" and "first \<Longrightarrow> sc = []"
  shows "\<exists>off off' sc'. read_round in_frag off0 sc (of_nat (record_code (fragment_type first final))) d r =
    (if final then Done (Some (sc @ d)) sc' (r\<lparr>lr_resyncing := False, lr_last_record_offset := off\<rparr>)
     else Again True off' d (sc @ d) (r\<lparr>lr_resyncing := False\<rparr>))"
  using assms by (cases first; cases final) (auto simp: read_round_def fragment_type_def Let_def)

lemma round_eof: "\<not> lr_resyncing r \<Longrightarrow>
  \<exists>sc'. read_round in_frag off sc kEof d r = Done None sc' (r\<lparr>lr_resyncing := False\<rparr>)"
  by (simp add: read_round_def Let_def kEof_def kMaxRecordType_def)

section \<open>Where a reader is in the file\<close>

text \<open>The position \<open>pos\<close> is in the last of \<open>k\<close> blocks, or at its end.\<close>

definition in_last_block :: "nat \<Rightarrow> nat \<Rightarrow> bool" where
  "in_last_block k pos \<longleftrightarrow> (k - 1) * 32768 \<le> pos \<and> pos \<le> k * 32768"

lemma last_block_split:
  assumes "in_last_block k pos" and "pos < k * 32768"
  shows "pos = (k - 1) * 32768 + pos mod 32768" and "(k - 1) * 32768 + 32768 = k * 32768"
proof -
  have k: "0 < k" using assms(2) by (cases k) auto
  then have "pos div 32768 = k - 1"
    using assms by (intro div_nat_eqI) (auto simp: in_last_block_def algebra_simps)
  then show "pos = (k - 1) * 32768 + pos mod 32768" using div_mult_mod_eq [of pos 32768] by simp
  show "(k - 1) * 32768 + 32768 = k * 32768" using k by (simp add: diff_mult_distrib)
qed

lemma pad_end:
  assumes "in_last_block k pos" and "pos < k * 32768" and "pad pos \<noteq> 0"
  shows "pos + pad pos = k * 32768 \<and> pad pos < 7"
proof -
  have "pad pos = 32768 - pos mod 32768" "pad pos < 7" using assms(3) by (auto simp: pad_def split: if_splits)
  then show ?thesis
    using last_block_split [OF assms(1,2)] mod_less_divisor [of 32768 pos] by linarith
qed

lemma pad_pad: "pad (pos + pad pos) = 0" "avail (pos + pad pos) = avail pos"
proof -
  show "pad (pos + pad pos) = 0" using pad_room [of pos] by (auto simp: pad_def)
  then show "avail (pos + pad pos) = avail pos" by (simp add: avail_def)
qed

lemma block_room:
  assumes "in_last_block k pos" and "pos < k * 32768" and "n \<le> avail pos" and "pad pos = 0"
  shows "pos + 7 + n \<le> k * 32768"
proof -
  have "pos mod 32768 + 7 + n \<le> 32768" using avail_le [of pos] assms(3,4) by simp
  then show ?thesis using last_block_split [OF assms(1,2)] by linarith
qed

context sequential_file
begin

text \<open>
  The reader has read \<open>k\<close> blocks of the file with the contents \<open>S\<close>, and the next byte it parses is at
  \<open>pos\<close>.  It has been opened at the start of the file and has not reported anything.
\<close>

definition reader_at :: "slice \<Rightarrow> nat \<Rightarrow> nat \<Rightarrow> 'f Reader \<Rightarrow> bool" where
  "reader_at S k pos r \<longleftrightarrow> readable (lr_file r) \<and> rest (lr_file r) = drop (k * 32768) S \<and>
     lr_buffer r = drop pos (take (k * 32768) S) \<and> (lr_eof r \<longleftrightarrow> length S < k * 32768) \<and>
     lr_initial_offset r = 0 \<and> \<not> lr_resyncing r \<and> lr_reports r = [] \<and> pos \<le> k * 32768"

lemma refill:
  assumes "reader_at S k pos r" and "length (lr_buffer r) < 7" and "k * 32768 \<le> length S"
  shows "\<exists>r'. ReadPhysicalRecord readf res r = ReadPhysicalRecord readf res r' \<and> reader_at S (Suc k) (k * 32768) r'"
proof -
  let ?b = "take 32768 (drop (k * 32768) S)"
  have r: "readable (lr_file r)" "rest (lr_file r) = drop (k * 32768) S" "\<not> lr_eof r"
    using assms(1,3) by (auto simp: reader_at_def)
  obtain f where f: "readf 32768 (lr_file r) = Some (Status_OK, ?b, f)" "readable f"
    "rest f = drop 32768 (drop (k * 32768) S)"
    using read_rest [OF r(1), of 32768] r(2) by auto
  have b: "length ?b < 32768 \<longleftrightarrow> length S < Suc k * 32768" by auto
  let ?r = "r\<lparr>lr_file := f, lr_buffer := ?b, lr_end_of_buffer_offset := lr_end_of_buffer_offset r + of_nat (length ?b)\<rparr>"
  let ?r' = "if length ?b < 32768 then ?r\<lparr>lr_eof := True\<rparr> else ?r"
  have "ReadPhysicalRecord readf res r = ReadPhysicalRecord readf res ?r'"
    using assms(2) r(3) f(1)
    by (subst ReadPhysicalRecord.simps) (simp add: kHeaderSize_def kBlockSize_def Let_def)
  moreover have "reader_at S (Suc k) (k * 32768) ?r'"
    using assms(1) r(3) f(2,3) b by (auto simp: reader_at_def drop_take add.commute)
  ultimately show ?thesis by blast
qed

lemma buffered_phys:
  assumes "reader_at S k pos r" and "pos + 7 + length d \<le> k * 32768" and "drop pos S = phys t d @ s"
    and "length d < 65536" and "t \<noteq> kZeroType"
  shows "\<exists>r'. ReadPhysicalRecord readf res r = Some (of_nat (record_code t), d, r') \<and>
    reader_at S k (pos + 7 + length d) r'"
proof -
  let ?m = "k * 32768 - pos"
  have b: "lr_buffer r = take ?m (phys t d @ s)"
    using assms(1,3) by (simp add: reader_at_def drop_take)
  also have "\<dots> = phys t d @ take (?m - (7 + length d)) s" using assms(2) by simp
  finally have b: "lr_buffer r = phys t d @ take (?m - (7 + length d)) s" .
  have "ReadPhysicalRecord readf res r = Some (parse_record res r)"
    using b by (subst ReadPhysicalRecord.simps) (simp add: kHeaderSize_def)
  also have "parse_record res r = (of_nat (record_code t), d, r\<lparr>lr_buffer := take (?m - (7 + length d)) s\<rparr>)"
    using assms(1) by (intro parse_phys [OF b assms(4,5)]) (simp add: reader_at_def)
  finally have "ReadPhysicalRecord readf res r
    = Some (of_nat (record_code t), d, r\<lparr>lr_buffer := take (?m - (7 + length d)) s\<rparr>)" .
  moreover have "take (?m - (7 + length d)) s = drop (pos + 7 + length d) (take (k * 32768) S)"
  proof -
    have "drop (7 + length d) (drop pos S) = s" unfolding assms(3) by simp
    then have "s = drop (pos + 7 + length d) S" by (simp add: add.commute add.left_commute)
    then show ?thesis by (simp add: drop_take add.assoc)
  qed
  then have "reader_at S k (pos + 7 + length d) (r\<lparr>lr_buffer := take (?m - (7 + length d)) s\<rparr>)"
    using assms(1,2) by (simp add: reader_at_def)
  ultimately show ?thesis by blast
qed

lemma buffered_cut:
  assumes "reader_at S k pos r" and "length S < k * 32768" and "drop pos S = take m (phys t d)"
    and "m < 7 + length d" and "length d < 65536"
  shows "\<exists>r'. ReadPhysicalRecord readf res r = Some (kEof, res, r') \<and> lr_reports r' = [] \<and> \<not> lr_resyncing r'"
proof -
  have b: "lr_buffer r = take m (phys t d)" "lr_eof r" "lr_reports r = []" "\<not> lr_resyncing r"
    using assms(1,2,3) by (auto simp: reader_at_def)
  show ?thesis
  proof (cases "m < 7")
    case True
    then have "length (lr_buffer r) < 7" by (simp add: b(1))
    then show ?thesis using b(2-4) by (subst ReadPhysicalRecord.simps) (simp add: kHeaderSize_def)
  next
    case False
    then have "parse_record res r = (kEof, res, r\<lparr>lr_buffer := []\<rparr>)"
      using assms(4,5) b by (intro parse_cut) simp_all
    moreover have "\<not> length (lr_buffer r) < 7" using False assms(4) b by simp
    ultimately show ?thesis using b(3,4) by (subst ReadPhysicalRecord.simps) (simp add: kHeaderSize_def)
  qed
qed

text \<open>
  The next record after the padding at \<open>pos\<close>, when \<open>pos\<close> is in the last block read or at its end: the
  padding is dropped with the rest of the buffer.
\<close>

lemma advance:
  assumes "reader_at S k pos r" and "in_last_block k pos" and "pos + pad pos \<le> length S"
  shows "\<exists>k' r'. ReadPhysicalRecord readf res r = ReadPhysicalRecord readf res r' \<and>
    reader_at S k' (pos + pad pos) r' \<and> in_last_block k' (pos + pad pos) \<and> pos + pad pos < k' * 32768"
proof (cases "pos < k * 32768 \<and> pad pos = 0")
  case True
  then show ?thesis using assms by auto
next
  case False
  have e: "pos + pad pos = k * 32768 \<and> length (lr_buffer r) < 7"
  proof (cases "pos < k * 32768")
    case True
    then have "pos + pad pos = k * 32768" "pad pos < 7" using False pad_end [OF assms(2)] by auto
    then show ?thesis using assms(1) by (auto simp: reader_at_def)
  next
    case no: False
    then have "pos = k * 32768" using assms(2) by (simp add: in_last_block_def)
    then show ?thesis using assms(1) by (simp add: reader_at_def pad_def)
  qed
  then obtain r' where "ReadPhysicalRecord readf res r = ReadPhysicalRecord readf res r'"
    "reader_at S (Suc k) (k * 32768) r'"
    using refill [OF assms(1)] assms(3) by auto
  moreover have "in_last_block (Suc k) (k * 32768)" by (simp add: in_last_block_def)
  ultimately show ?thesis using e by (intro exI [of _ "Suc k"]) auto
qed

lemma read_phys:
  assumes "reader_at S k pos r" and "in_last_block k pos" and "drop pos S = replicate (pad pos) 0 @ phys t d @ s"
    and "length d \<le> avail pos" and "t \<noteq> kZeroType"
  shows "\<exists>k' r'. ReadPhysicalRecord readf res r = Some (of_nat (record_code t), d, r') \<and>
    reader_at S k' (pos + pad pos + 7 + length d) r' \<and> in_last_block k' (pos + pad pos + 7 + length d)"
proof -
  have "length (drop pos S) = pad pos + 7 + length d + length s" unfolding assms(3) by simp
  then have "pos + pad pos \<le> length S" by simp
  from advance [OF assms(1,2) this] obtain k' r' where a:
    "ReadPhysicalRecord readf res r = ReadPhysicalRecord readf res r'" "reader_at S k' (pos + pad pos) r'"
    "in_last_block k' (pos + pad pos)" "pos + pad pos < k' * 32768" by blast
  have room: "pos + pad pos + 7 + length d \<le> k' * 32768"
    using block_room [OF a(3,4)] assms(4) pad_pad [of pos] by simp
  have room_last: "in_last_block k' (pos + pad pos + 7 + length d)"
    using room a(3) by (auto simp: in_last_block_def)
  have "drop (pos + pad pos) S = phys t d @ s"
    using assms(3) by (metis add.commute append_eq_conv_conj drop_drop length_replicate)
  moreover have "length d < 65536" using assms(4) by (simp add: avail_def)
  ultimately show ?thesis
    using buffered_phys [OF a(2) room _ _ assms(5), of s res] a(1) room_last by metis
qed

lemma read_cut:
  assumes "reader_at S k pos r" and "in_last_block k pos" and "pos \<le> length S"
    and "drop pos S = take m (replicate (pad pos) 0 @ phys t d)" and "m < pad pos + 7 + length d"
    and "length d \<le> avail pos"
  shows "\<exists>r'. ReadPhysicalRecord readf res r = Some (kEof, res, r') \<and> lr_reports r' = [] \<and> \<not> lr_resyncing r'"
proof -
  have "length (drop pos S) = m" unfolding assms(4) using assms(5) by simp
  then have len: "length S = pos + m" using assms(3) by simp
  show ?thesis
  proof (cases "pad pos \<le> m")
    case True
    from advance [OF assms(1,2), of res] len True obtain k' r' where a:
      "ReadPhysicalRecord readf res r = ReadPhysicalRecord readf res r'" "reader_at S k' (pos + pad pos) r'"
      "in_last_block k' (pos + pad pos)" "pos + pad pos < k' * 32768" by auto
    have "pos + pad pos + 7 + length d \<le> k' * 32768"
      using block_room [OF a(3,4)] assms(6) pad_pad [of pos] by simp
    then have "length S < k' * 32768" using len assms(5) by simp
    moreover have "drop (pad pos) (drop pos S) = take (m - pad pos) (phys t d)"
      unfolding assms(4) using True by (simp add: min_def)
    then have "drop (pos + pad pos) S = take (m - pad pos) (phys t d)" by (simp add: add.commute)
    moreover have "m - pad pos < 7 + length d" "length d < 65536" using assms(5,6) True by (auto simp: avail_def)
    ultimately show ?thesis using buffered_cut [OF a(2)] a(1) by metis
  next
    case False
    then have "pad pos \<noteq> 0" by simp
    then have "pos \<noteq> k * 32768" by (auto simp: pad_def)
    then have "pos < k * 32768" using assms(2) by (simp add: in_last_block_def)
    note e = pad_end [OF assms(2) this \<open>pad pos \<noteq> 0\<close>]
    have "length (lr_buffer r) < 7" "lr_eof r" "lr_reports r = []" "\<not> lr_resyncing r"
      using assms(1) e len False by (auto simp: reader_at_def)
    then show ?thesis by (subst ReadPhysicalRecord.simps) (simp add: kHeaderSize_def)
  qed
qed

section \<open>Records\<close>

lemma reader_at_fields:
  "reader_at S k pos (r\<lparr>lr_resyncing := False, lr_last_record_offset := off\<rparr>) = reader_at S k pos r"
  "reader_at S k pos (r\<lparr>lr_resyncing := False\<rparr>) = reader_at S k pos r" if "\<not> lr_resyncing r"
  using that by (simp_all add: reader_at_def)

lemma fragment_type_nonzero: "fragment_type first final \<noteq> kZeroType"
  by (simp add: fragment_type_def)

lemma read_loop_record:
  assumes "drop pos S = record_bytes pos first d @ s" and "reader_at S k pos r" and "in_last_block k pos"
    and "in_frag = (\<not> first)" and "first \<Longrightarrow> sc = []"
  shows "\<exists>k' sc' r'. read_loop readf in_frag off fr sc r = Some (Some (sc @ d), sc', r') \<and>
    reader_at S k' (pos + length (record_bytes pos first d)) r' \<and>
    in_last_block k' (pos + length (record_bytes pos first d))"
  using assms
proof (induction pos first d arbitrary: k r in_frag off fr sc rule: record_bytes.induct)
  case (1 pos first d)
  define n where "n = min (length d) (avail pos)"
  have n: "length (take n d) = n" "n \<le> avail pos" by (simp_all add: n_def)
  let ?final = "length d = n"
  let ?t = "fragment_type first ?final"
  let ?pos = "pos + pad pos + 7 + n"
  let ?more = "if ?final then [] else record_bytes ?pos False (drop n d)"
  have b: "record_bytes pos first d = replicate (pad pos) 0 @ phys ?t (take n d) @ ?more"
    by (subst record_bytes.simps) (simp add: Let_def n_def)
  have "drop pos S = replicate (pad pos) 0 @ phys ?t (take n d) @ (?more @ s)"
    using "1.prems"(1) unfolding b by simp
  from read_phys [OF "1.prems"(2,3) this _ fragment_type_nonzero, of fr, unfolded n, OF n(2)] obtain k1 r1 where p:
    "ReadPhysicalRecord readf fr r = Some (of_nat (record_code ?t), take n d, r1)"
    "reader_at S k1 ?pos r1" "in_last_block k1 ?pos" by blast
  have nr: "\<not> lr_resyncing r1" using p(2) by (simp add: reader_at_def)
  obtain off1 off2 sc1 where round: "read_round in_frag off sc (of_nat (record_code ?t)) (take n d) r1 =
    (if ?final then Done (Some (sc @ take n d)) sc1 (r1\<lparr>lr_resyncing := False, lr_last_record_offset := off1\<rparr>)
     else Again True off2 (take n d) (sc @ take n d) (r1\<lparr>lr_resyncing := False\<rparr>))"
    using round_fragment [OF nr "1.prems"(4,5)] by blast
  have len: "pos + length (record_bytes pos first d) = ?pos + length ?more"
    unfolding b using n(1) by simp
  show ?case
  proof (cases ?final)
    case True
    then have d: "take n d = d" by simp
    have "read_loop readf in_frag off fr sc r
      = Some (Some (sc @ d), sc1, r1\<lparr>lr_resyncing := False, lr_last_record_offset := off1\<rparr>)"
      using round True d p(1) by (subst read_loop.simps) simp
    moreover have "?more = []" using True by (rule if_P)
    ultimately show ?thesis
      using p(2,3) unfolding len by (auto simp: reader_at_fields [OF nr])
  next
    case False
    have m: "?more = record_bytes ?pos False (drop n d)" using False by (rule if_not_P)
    have "drop (pad pos + (7 + n)) (drop pos S) = ?more @ s"
      using "1.prems"(1) n(1) unfolding b by simp
    then have "drop ?pos S = record_bytes ?pos False (drop n d) @ s" unfolding m by (simp add: ac_simps)
    from "1.IH" [OF n_def False this _ p(3), of "r1\<lparr>lr_resyncing := False\<rparr>" True "sc @ take n d" off2 "take n d"]
    obtain k2 sc2 r2 where i: "read_loop readf True off2 (take n d) (sc @ take n d) (r1\<lparr>lr_resyncing := False\<rparr>)
        = Some (Some ((sc @ take n d) @ drop n d), sc2, r2)"
      "reader_at S k2 (?pos + length ?more) r2" "in_last_block k2 (?pos + length ?more)"
      using p(2) reader_at_fields(2) [OF nr] unfolding m by auto
    have "read_loop readf in_frag off fr sc r = Some (Some (sc @ d), sc2, r2)"
      using round False p(1) i(1) by (subst read_loop.simps) simp
    then show ?thesis using i(2,3) unfolding len by blast
  qed
qed

text \<open>A record that is not there to its end is not given, and not reported.\<close>

lemma read_loop_cut:
  assumes "drop pos S = take m (record_bytes pos first d)" and "m < length (record_bytes pos first d)"
    and "pos \<le> length S" and "reader_at S k pos r" and "in_last_block k pos"
    and "in_frag = (\<not> first)" and "first \<Longrightarrow> sc = []"
  shows "\<exists>sc' r'. read_loop readf in_frag off fr sc r = Some (None, sc', r') \<and> lr_reports r' = []"
  using assms
proof (induction pos first d arbitrary: m k r in_frag off fr sc rule: record_bytes.induct)
  case (1 pos first d)
  define n where "n = min (length d) (avail pos)"
  have n: "length (take n d) = n" "n \<le> avail pos" by (simp_all add: n_def)
  let ?final = "length d = n"
  let ?t = "fragment_type first ?final"
  let ?pos = "pos + pad pos + 7 + n"
  let ?frag = "replicate (pad pos) 0 @ phys ?t (take n d)"
  let ?more = "if ?final then [] else record_bytes ?pos False (drop n d)"
  have b: "record_bytes pos first d = ?frag @ ?more"
    by (subst record_bytes.simps) (simp add: Let_def n_def)
  have fl: "length ?frag = pad pos + 7 + n" using n(1) by simp
  show ?case
  proof (cases "m < pad pos + 7 + n")
    case True
    then have "drop pos S = take m ?frag" using "1.prems"(1) fl unfolding b by simp
    from read_cut [OF "1.prems"(4,5,3) this, unfolded n, OF True n(2), of fr] obtain r1 where p:
      "ReadPhysicalRecord readf fr r = Some (kEof, fr, r1)" "lr_reports r1 = []" "\<not> lr_resyncing r1" by blast
    obtain sc1 where "read_round in_frag off sc kEof fr r1 = Done None sc1 (r1\<lparr>lr_resyncing := False\<rparr>)"
      using round_eof [OF p(3)] by blast
    then show ?thesis using p(1,2) by (subst read_loop.simps) simp
  next
    case False
    let ?m = "m - (pad pos + 7 + n)"
    have "take m ?frag = ?frag" using fl False by (intro take_all) linarith
    then have S: "drop pos S = ?frag @ take ?m ?more"
      using "1.prems"(1) unfolding b take_append fl by (simp only:)
    have nf: "\<not> ?final"
    proof
      assume "?final"
      then have "?more = []" by (rule if_P)
      then show False using "1.prems"(2) False fl unfolding b by simp
    qed
    have more: "?more = record_bytes ?pos False (drop n d)" using nf by (rule if_not_P)
    have "drop pos S = replicate (pad pos) 0 @ phys ?t (take n d) @ take ?m ?more"
      unfolding S by (simp only: append_assoc)
    from read_phys [OF "1.prems"(4,5) this _ fragment_type_nonzero, of fr, unfolded n, OF n(2)]
    obtain k1 r1 where p:
      "ReadPhysicalRecord readf fr r = Some (of_nat (record_code ?t), take n d, r1)"
      "reader_at S k1 ?pos r1" "in_last_block k1 ?pos" by blast
    have nr: "\<not> lr_resyncing r1" using p(2) by (simp add: reader_at_def)
    obtain off2 where round: "read_round in_frag off sc (of_nat (record_code ?t)) (take n d) r1 =
      Again True off2 (take n d) (sc @ take n d) (r1\<lparr>lr_resyncing := False\<rparr>)"
      using round_fragment [OF nr "1.prems"(6,7), of off ?final "take n d"] nf by auto
    have "drop (pad pos + (7 + n)) (drop pos S) = take ?m ?more" unfolding S using fl by simp
    then have d: "drop ?pos S = take ?m (record_bytes ?pos False (drop n d))" unfolding more by (simp add: ac_simps)
    have lt: "?m < length (record_bytes ?pos False (drop n d))"
      using "1.prems"(2) False fl unfolding b more by simp
    have "length (drop pos S) = m" using "1.prems"(1,2) by simp
    then have "?pos \<le> length S" using False by simp
    from "1.IH" [OF n_def nf d lt this _ p(3), of "r1\<lparr>lr_resyncing := False\<rparr>" True "sc @ take n d" off2 "take n d"]
    obtain sc2 r2 where "read_loop readf True off2 (take n d) (sc @ take n d) (r1\<lparr>lr_resyncing := False\<rparr>)
        = Some (None, sc2, r2)" "lr_reports r2 = []"
      using p(2) reader_at_fields(2) [OF nr] by auto
    then show ?thesis
      using round p(1) by (subst read_loop.simps) simp
  qed
qed

end

end
