(* ===== verification/Ldb_Log_Props.thy ===== *)
theory Ldb_Log_Props
  imports Ldb_Log_Read
begin

text \<open>
  The log of leveldb end to end, on POSIX files: recovery after a crash at any point, and that reading
  ends on every file.
\<close>

section \<open>Reading until the end\<close>

text \<open>
  The loop of a client of the reader, such as \<open>DBImpl::RecoverLogFile\<close>: the records until the reader
  returns false, \<open>n\<close> calls at most.
\<close>

fun read_all :: "'f read \<Rightarrow> 'f skip \<Rightarrow> nat \<Rightarrow> 'f Reader \<Rightarrow> (slice list \<times> 'f Reader) option" where
  "read_all fread fskip 0 r = Some ([], r)"
| "read_all fread fskip (Suc n) r = do {
     (result, _, r) \<leftarrow> ReadRecord fread fskip r;
     case result of
       None \<Rightarrow> Some ([], r)
     | Some d \<Rightarrow> do { (ds, r) \<leftarrow> read_all fread fskip n r; Some (d # ds, r) } }"

text \<open>The same, for the calls one by one: the records, and no report of a corruption on the way.\<close>

inductive reads :: "'f read \<Rightarrow> 'f skip \<Rightarrow> 'f Reader \<Rightarrow> slice list \<Rightarrow> 'f Reader \<Rightarrow> bool"
  for fread :: "'f read" and fskip :: "'f skip"
  where
    reads_end: "ReadRecord fread fskip r = Some (None, sc, r') \<Longrightarrow> lr_reports r' = [] \<Longrightarrow> reads fread fskip r [] r'"
  | reads_record: "ReadRecord fread fskip r = Some (Some d, sc, r1) \<Longrightarrow> lr_reports r1 = [] \<Longrightarrow>
      reads fread fskip r1 ds r' \<Longrightarrow> reads fread fskip r (d # ds) r'"

lemma reads_read_all:
  "reads fread fskip r ds r' \<Longrightarrow> length ds < m \<Longrightarrow> read_all fread fskip m r = Some (ds, r') \<and> lr_reports r' = []"
proof (induction arbitrary: m rule: reads.induct)
  case (reads_end r sc r')
  then show ?case by (cases m) simp_all
next
  case (reads_record r d sc r1 ds r')
  then show ?case by (cases m) simp_all
qed

text \<open>The records of a log that end before \<open>n\<close>.\<close>

fun complete :: "nat \<Rightarrow> nat \<Rightarrow> slice list \<Rightarrow> slice list" where
  "complete n pos [] = []"
| "complete n pos (d # ds) =
     (let l = length (record_bytes pos True d) in if pos + l \<le> n then d # complete n (pos + l) ds else [])"

lemma prefix_complete: "prefix (complete n pos ds) ds"
  by (induction n pos ds rule: complete.induct) (simp_all add: Let_def)

lemma complete_append:
  "pos + length (log_bytes pos ds) \<le> n \<Longrightarrow>
    complete n pos (ds @ es) = ds @ complete n (pos + length (log_bytes pos ds)) es"
  by (induction ds arbitrary: pos) (simp_all add: Let_def add.assoc)

context sequential_file
begin

lemma ReadRecord_start: "reader_at S k pos r \<Longrightarrow> ReadRecord readf fskip r = read_loop readf False 0 [] [] r"
  by (simp add: ReadRecord_def reader_at_def)

lemma reads_complete:
  assumes "drop pos S = take (n - pos) (log_bytes pos ds)" and "pos \<le> n" and "reader_at S k pos r"
    and "in_last_block k pos" and "pos \<le> length S"
  shows "\<exists>r'. reads readf fskip r (complete n pos ds) r'"
  using assms
proof (induction ds arbitrary: pos k r)
  case Nil
  then have "drop pos S = take 0 (record_bytes pos True [])" by simp
  from read_loop_cut [OF this _ Nil(5,3,4), of False "[]" 0 "[]"] obtain sc r' where
    "read_loop readf False 0 [] [] r = Some (None, sc, r')" "lr_reports r' = []"
    by (auto simp: record_bytes.simps [of pos True "[]"] Let_def)
  then show ?case using ReadRecord_start [OF Nil(3)] by (auto intro: reads_end)
next
  case (Cons d ds)
  let ?b = "record_bytes pos True d"
  show ?case
  proof (cases "pos + length ?b \<le> n")
    case True
    have S: "drop pos S = ?b @ take (n - pos - length ?b) (log_bytes (pos + length ?b) ds)"
      using Cons.prems(1) True by simp
    from read_loop_record [OF this Cons.prems(3,4), of False "[]" 0 "[]"] obtain k' sc r1 where r1:
      "read_loop readf False 0 [] [] r = Some (Some d, sc, r1)" "reader_at S k' (pos + length ?b) r1"
      "in_last_block k' (pos + length ?b)" by auto
    have "drop (length ?b) (drop pos S) = take (n - (pos + length ?b)) (log_bytes (pos + length ?b) ds)"
      unfolding S by simp
    then have d: "drop (pos + length ?b) S = take (n - (pos + length ?b)) (log_bytes (pos + length ?b) ds)"
      by (simp add: add.commute)
    have "length ?b \<le> length (drop pos S)" unfolding S by simp
    then have "pos + length ?b \<le> length S" using Cons.prems(5) by simp
    from Cons.IH [OF d True r1(2,3) this] obtain r' where "reads readf fskip r1 (complete n (pos + length ?b) ds) r'"
      by blast
    moreover have "lr_reports r1 = []" using r1(2) by (simp add: reader_at_def)
    ultimately have "reads readf fskip r (d # complete n (pos + length ?b) ds) r'"
      using r1(1) ReadRecord_start [OF Cons.prems(3)] by (auto intro: reads_record)
    then show ?thesis using True by (auto simp: Let_def)
  next
    case False
    then have "drop pos S = take (n - pos) ?b" "n - pos < length ?b" using Cons.prems(1,2) by simp_all
    from read_loop_cut [OF this Cons.prems(5,3,4), of False "[]" 0 "[]"] obtain sc r' where
      "read_loop readf False 0 [] [] r = Some (None, sc, r')" "lr_reports r' = []" by auto
    then have "reads readf fskip r [] r'" using ReadRecord_start [OF Cons.prems(3)] by (auto intro: reads_end)
    then show ?thesis using False by (auto simp: Let_def)
  qed
qed

lemma reads_log:
  assumes "readable f" and "rest f = take n (log_bytes 0 ds)"
  shows "\<exists>r'. reads readf fskip (Reader_new f reporter checksum 0) (complete n 0 ds) r'"
proof -
  have "reader_at (take n (log_bytes 0 ds)) 0 0 (Reader_new f reporter checksum 0)"
    using assms by (simp add: reader_at_def Reader_new_def)
  moreover have "in_last_block 0 0" by (simp add: in_last_block_def)
  ultimately show ?thesis
    using reads_complete [of 0 "take n (log_bytes 0 ds)" n ds 0 "Reader_new f reporter checksum 0"] by simp
qed

end

section \<open>Reading ends\<close>

definition unread :: "('f \<Rightarrow> slice) \<Rightarrow> 'f Reader \<Rightarrow> nat" where
  "unread rest r = length (rest (lr_file r)) + length (lr_buffer r)"

lemma ReportDrop_fields [simp]:
  "lr_file (ReportDrop n s r) = lr_file r" "lr_buffer (ReportDrop n s r) = lr_buffer r"
  "lr_file (ReportCorruption n m r) = lr_file r" "lr_buffer (ReportCorruption n m r) = lr_buffer r"
  by (simp_all add: ReportDrop_def ReportCorruption_def)

lemma parse_record_consumes:
  "parse_record res r = (ty, fr, r') \<Longrightarrow> 7 \<le> length (lr_buffer r) \<Longrightarrow>
    lr_file r' = lr_file r \<and> length (lr_buffer r') < length (lr_buffer r)"
  by (auto simp: parse_record_def Let_def kHeaderSize_def split: if_splits)

lemma read_round_again:
  "read_round i off sc ty fr r = Again i' off' fr' sc' r' \<Longrightarrow>
    lr_file r' = lr_file r \<and> lr_buffer r' = lr_buffer r \<and> ty \<noteq> kEof"
  by (auto simp: read_round_def Let_def kEof_def kMaxRecordType_def split: if_splits)

context sequential_file
begin

lemma ReadPhysicalRecord_consumes:
  assumes "readable (lr_file r)"
  shows "\<exists>ty fr r'. ReadPhysicalRecord readf res r = Some (ty, fr, r') \<and> readable (lr_file r') \<and>
    (ty \<noteq> kEof \<longrightarrow> unread rest r' < unread rest r)"
proof -
  have parse: "\<exists>ty fr r'. ReadPhysicalRecord readf res r = Some (ty, fr, r') \<and> readable (lr_file r') \<and>
      unread rest r' < unread rest r" if "readable (lr_file r)" "7 \<le> length (lr_buffer r)" for r
  proof -
    obtain ty fr r' where p: "parse_record res r = (ty, fr, r')" by (cases "parse_record res r")
    then show ?thesis
      using that parse_record_consumes [OF p that(2)]
      by (subst ReadPhysicalRecord.simps) (auto simp: kHeaderSize_def unread_def)
  qed
  consider (full) "7 \<le> length (lr_buffer r)" | (eof) "length (lr_buffer r) < 7" "lr_eof r"
    | (refill) "length (lr_buffer r) < 7" "\<not> lr_eof r" by linarith
  then show ?thesis
  proof cases
    case full
    then show ?thesis using parse [OF assms] by blast
  next
    case eof
    then show ?thesis using assms by (subst ReadPhysicalRecord.simps) (simp add: kHeaderSize_def)
  next
    case refill
    obtain f where f: "readf 32768 (lr_file r) = Some (Status_OK, take 32768 (rest (lr_file r)), f)"
      "readable f" "rest f = drop 32768 (rest (lr_file r))"
      using read_rest [OF assms, of 32768] by auto
    let ?b = "take 32768 (rest (lr_file r))"
    let ?r = "r\<lparr>lr_file := f, lr_buffer := ?b, lr_end_of_buffer_offset := lr_end_of_buffer_offset r + of_nat (length ?b)\<rparr>"
    let ?r' = "if length ?b < 32768 then ?r\<lparr>lr_eof := True\<rparr> else ?r"
    have e: "ReadPhysicalRecord readf res r = ReadPhysicalRecord readf res ?r'"
      using refill f(1) by (subst ReadPhysicalRecord.simps) (simp add: kHeaderSize_def kBlockSize_def Let_def)
    have u: "unread rest ?r' \<le> unread rest r" "readable (lr_file ?r')" using f(2,3) by (auto simp: unread_def)
    show ?thesis
    proof (cases "7 \<le> length (lr_buffer ?r')")
      case True
      from parse [OF u(2) this] show ?thesis unfolding e using u(1) by (meson less_le_trans)
    next
      case False
      then have "lr_eof ?r'" by auto
      then show ?thesis unfolding e using u(2) False
        by (subst ReadPhysicalRecord.simps) (simp add: kHeaderSize_def)
    qed
  qed
qed

lemma read_loop_returns:
  "readable (lr_file r) \<Longrightarrow> \<exists>x. read_loop readf in_frag off fr sc r = Some x"
proof (induction "unread rest r" arbitrary: r in_frag off fr sc rule: less_induct)
  case less
  obtain ty fr' r' where p: "ReadPhysicalRecord readf fr r = Some (ty, fr', r')" "readable (lr_file r')"
    "ty \<noteq> kEof \<longrightarrow> unread rest r' < unread rest r"
    using ReadPhysicalRecord_consumes [OF less.prems, of fr] by blast
  show ?case
  proof (cases "read_round in_frag off sc ty fr' r'")
    case (Done a b c)
    then show ?thesis using p(1) by (subst read_loop.simps) simp
  next
    case (Again i' off' fr2 sc' r2)
    from read_round_again [OF this] have "unread rest r2 < unread rest r" "readable (lr_file r2)"
      using p(2,3) by (auto simp: unread_def)
    from less.hyps [OF this] show ?thesis using p(1) Again by (subst read_loop.simps) simp
  qed
qed

end

section \<open>Properties\<close>

text \<open>Adding records, as long as the status is OK.\<close>

fun add_records :: "'f append \<Rightarrow> 'f flush \<Rightarrow> slice list \<Rightarrow> 'f Writer \<Rightarrow> 'f Writer option" where
  "add_records fappend fflush [] w = Some w"
| "add_records fappend fflush (d # ds) w = do {
     (s, w) \<leftarrow> AddRecord fappend fflush d w;
     if Status_ok s then add_records fappend fflush ds w else None }"

lemma writer_start: "writer_at 0 (Writer_new f 0)"
  by (simp add: writer_at_def Writer_new_def kBlockSize_def)

text \<open>A writer of a file in which exactly the records \<open>ds\<close> are.\<close>

definition log_of :: "PosixWritableFile Writer \<Rightarrow> slice list \<Rightarrow> bool" where
  "log_of w ds \<longleftrightarrow> pf_file (lw_dest w) = log_bytes 0 ds \<and> pf_buf (lw_dest w) = [] \<and> writer_at (length (log_bytes 0 ds)) w"

lemma log_of_new: "log_of (Writer_new (PosixWritableFile_new name fd []) 0) []"
  using writer_start by (simp add: log_of_def Writer_new_def PosixWritableFile_new_def)

lemma AddRecord_log_of:
  assumes "log_of w ds" and "AddRecord (Posix_Append os) (Posix_Flush os) d w = Some (st, w')"
  shows "prefix (log_bytes 0 ds) (pf_file (lw_dest w'))" "prefix (pf_file (lw_dest w')) (log_bytes 0 (ds @ [d]))"
    "st = Status_OK \<Longrightarrow> log_of w' (ds @ [d])"
  using posix_log.add_loop_bytes [OF assms(2) [unfolded AddRecord_def], of "length (log_bytes 0 ds)"] assms(1)
  by (auto simp: log_of_def log_bytes_append pf_contents_def)

lemma add_records_log_of:
  "add_records (Posix_Append os) (Posix_Flush os) ds w = Some w' \<Longrightarrow> log_of w es \<Longrightarrow> log_of w' (es @ ds)"
proof (induction ds arbitrary: w es)
  case (Cons d ds)
  then obtain w1 where "AddRecord (Posix_Append os) (Posix_Flush os) d w = Some (Status_OK, w1)"
    "add_records (Posix_Append os) (Posix_Flush os) ds w1 = Some w'"
    by (auto split: Option.bind_splits if_splits)
  then show ?case using Cons.IH [of w1 "es @ [d]"] AddRecord_log_of(3) Cons.prems(2) by simp
qed simp

lemma Sync_log_of: "log_of w ds \<Longrightarrow> Posix_Sync os (lw_dest w) = Some (st, g) \<Longrightarrow> log_of (w\<lparr>lw_dest := g\<rparr>) ds"
  using Posix_Sync_effect [of os "lw_dest w" st g] prefix_order.antisym [of "pf_file g" "pf_file (lw_dest w)"]
  by (auto simp: log_of_def pf_contents_def writer_at_def)

text \<open>The crash: what reading gives after the first \<open>n\<close> bytes of the file survived.\<close>

lemma crash_reads:
  assumes "log_of w ds" and "AddRecord (Posix_Append os) (Posix_Flush os) d w = Some (st, w')"
    and "posix_regular_file os2"
    and "sf_file file = take n (pf_file (lw_dest w'))" and "sf_pos file = 0"
  shows "\<exists>recovered r. reads (Posix_Read os2) (Posix_Skip os2) (Reader_new file True checksum 0) recovered r \<and>
    prefix recovered (ds @ [d]) \<and>
    (length (pf_file (lw_dest w)) \<le> n \<longrightarrow> prefix ds recovered) \<and>
    (st = Status_OK \<and> length (pf_file (lw_dest w')) \<le> n \<longrightarrow> recovered = ds @ [d])"
proof -
  let ?T = "log_bytes 0 (ds @ [d])"
  let ?k = "length (log_bytes 0 ds)"
  have w: "pf_file (lw_dest w) = log_bytes 0 ds" using assms(1) by (simp add: log_of_def)
  note f = AddRecord_log_of [OF assms(1,2)]
  define m where "m = min n (length (pf_file (lw_dest w')))"
  have S: "sf_file file = take m ?T"
    using f(2) unfolding assms(4) m_def prefix_def by (auto simp: min_def)
  have S': "drop (sf_pos file) (sf_file file) = take m (log_bytes 0 (ds @ [d]))" using S assms(5) by simp
  obtain r where "reads (Posix_Read os2) (Posix_Skip os2) (Reader_new file True checksum 0) (complete m 0 (ds @ [d])) r"
    using sequential_file.reads_log [OF posix_regular_file.sequential [OF assms(3)] TrueI S'] by blast
  moreover have "prefix ds (complete m 0 (ds @ [d]))" if "length (pf_file (lw_dest w)) \<le> n"
  proof -
    have "?k \<le> m" using that w prefix_length_le [OF f(1)] by (simp add: m_def)
    then show ?thesis using complete_append [of 0 ds m "[d]"] by simp
  qed
  moreover have "complete m 0 (ds @ [d]) = ds @ [d]"
    if "st = Status_OK \<and> length (pf_file (lw_dest w')) \<le> n"
  proof -
    have "length ?T \<le> m" using that f(3) by (simp add: m_def log_of_def)
    then show ?thesis using complete_append [of 0 "ds @ [d]" m "[]"] by simp
  qed
  ultimately show ?thesis using prefix_complete [of m 0 "ds @ [d]"] by auto
qed

text \<open>
  C29: Recovery after a crash.  Records \<open>ds\<close> are added to a new log file with status OK, and then one
  more record \<open>d\<close>, with any outcome and whatever the system calls return.  If only the first \<open>n\<close> bytes
  of the file survive, reading it gives records from the front of \<open>ds @ [d]\<close>, complete and unchanged,
  then the end of the file, and reports no corruption; if all that was on disk before the last call
  survives, all of \<open>ds\<close> is given, and if the last call returned OK and all survives, so is \<open>d\<close>.
\<close>

theorem log_crash_recovery:
  assumes "add_records (Posix_Append os) (Posix_Flush os) ds (Writer_new (PosixWritableFile_new name fd []) 0) = Some w"
    and "AddRecord (Posix_Append os) (Posix_Flush os) d w = Some (st, w')"
    and "posix_regular_file os2"
    and "sf_file file = take n (pf_file (lw_dest w'))" and "sf_pos file = 0"
  shows "\<exists>recovered r. read_all (Posix_Read os2) (Posix_Skip os2) (length ds + 2) (Reader_new file True checksum 0)
      = Some (recovered, r) \<and> lr_reports r = [] \<and> prefix recovered (ds @ [d]) \<and>
    (length (pf_file (lw_dest w)) \<le> n \<longrightarrow> prefix ds recovered) \<and>
    (st = Status_OK \<and> length (pf_file (lw_dest w')) \<le> n \<longrightarrow> recovered = ds @ [d])"
proof -
  obtain recovered r where r: "reads (Posix_Read os2) (Posix_Skip os2) (Reader_new file True checksum 0) recovered r"
    and p: "prefix recovered (ds @ [d])" "length (pf_file (lw_dest w)) \<le> n \<longrightarrow> prefix ds recovered"
      "st = Status_OK \<and> length (pf_file (lw_dest w')) \<le> n \<longrightarrow> recovered = ds @ [d]"
    using crash_reads [OF add_records_log_of [OF assms(1) log_of_new, simplified] assms(2-5)] by blast
  have "length recovered < length ds + 2" using prefix_length_le [OF p(1)] by simp
  from reads_read_all [OF r this] p show ?thesis by blast
qed

text \<open>With \<open>calm_os\<close>, records are added with status OK.\<close>

lemma calm_Write: "\<exists>g. WriteUnbuffered calm_os data f = Some (Status_OK, g)"
proof (induction data arbitrary: f rule: measure_induct_rule [where f = length])
  case (less data)
  show ?case
  proof (cases "data = []")
    case True
    then show ?thesis by (simp add: WriteUnbuffered.simps)
  next
    case False
    then have "length (drop 1048576 data) < length data" by simp
    from less [OF this] show ?thesis
      using False by (subst WriteUnbuffered.simps) (simp add: sys_call_def calm_os_def)
  qed
qed

lemma calm_Flush: "\<exists>g. Posix_Flush calm_os f = Some (Status_OK, g)"
  using calm_Write [of "pf_buf f" f] by (auto simp: Posix_Flush_def FlushBuffer_def)

lemma calm_Append: "\<exists>g. Posix_Append calm_os s f = Some (Status_OK, g)"
proof -
  let ?n = "min (length s) (kWritableFileBufferSize - length (pf_buf f))"
  obtain g where "FlushBuffer calm_os (f\<lparr>pf_buf := pf_buf f @ take ?n s\<rparr>) = Some (Status_OK, g)"
    using calm_Flush by (auto simp: Posix_Flush_def)
  then show ?thesis using calm_Write [of "drop ?n s" g] by (auto simp: Posix_Append_def Let_def)
qed

lemma calm_Emit: "\<exists>w'. EmitPhysicalRecord (Posix_Append calm_os) (Posix_Flush calm_os) t p w = Some (Status_OK, w')"
proof -
  obtain f where f: "Posix_Append calm_os (record_header (lw_type_crc w) t p) (lw_dest w) = Some (Status_OK, f)"
    using calm_Append by blast
  obtain g where g: "Posix_Append calm_os p f = Some (Status_OK, g)" using calm_Append by blast
  obtain h where "Posix_Flush calm_os g = Some (Status_OK, h)" using calm_Flush by blast
  with f g show ?thesis by (simp add: EmitPhysicalRecord_def)
qed

lemma calm_AddRecord:
  assumes "lw_block_offset w = int pos" and "pos + 7 + length d \<le> 32768"
  shows "\<exists>w'. AddRecord (Posix_Append calm_os) (Posix_Flush calm_os) d w = Some (Status_OK, w') \<and>
    lw_block_offset w' = int (pos + 7 + length d)"
proof -
  obtain w' where e: "EmitPhysicalRecord (Posix_Append calm_os) (Posix_Flush calm_os) (fragment_type True True) d w
      = Some (Status_OK, w')" using calm_Emit by blast
  have "fill_trailer (Posix_Append calm_os) w = Some w"
    using assms by (simp add: fill_trailer_def kBlockSize_def kHeaderSize_def)
  moreover have "fragment_length (lw_block_offset w) d = length d"
    using assms by (simp add: fragment_length_def kBlockSize_def kHeaderSize_def Let_def) linarith
  ultimately show ?thesis
    using e Emit_offset [OF e] assms(1)
    by (simp add: AddRecord_def add_loop.simps [of _ _ True d w])
qed

text \<open>
  Two records of ten and nine bytes, of which eighteen bytes survive.
\<close>

theorem log_crash_recovery_witness:
  "\<exists>w w' recovered r.
     add_records (Posix_Append calm_os) (Posix_Flush calm_os) [[1, 2, 3]]
       (Writer_new (PosixWritableFile_new (bytes ''000003.log'') 5 []) 0) = Some w \<and>
     AddRecord (Posix_Append calm_os) (Posix_Flush calm_os) [4, 5] w = Some (Status_OK, w') \<and>
     read_all (Posix_Read calm_os) (Posix_Skip calm_os) 3 (Reader_new
        \<lparr>sf_file = take 18 (pf_file (lw_dest w')), sf_pos = 0, sf_filename = [], sf_calls = 0\<rparr> True True 0)
       = Some (recovered, r) \<and> prefix recovered [[1, 2, 3], [4, 5]]"
proof -
  let ?w0 = "Writer_new (PosixWritableFile_new (bytes ''000003.log'') 5 []) 0"
  obtain w where w: "AddRecord (Posix_Append calm_os) (Posix_Flush calm_os) [1, 2, 3] ?w0 = Some (Status_OK, w)"
    "lw_block_offset w = int 10"
    using calm_AddRecord [of ?w0 0 "[1, 2, 3]"] by (auto simp: Writer_new_def)
  obtain w' where w': "AddRecord (Posix_Append calm_os) (Posix_Flush calm_os) [4, 5] w = Some (Status_OK, w')"
    using calm_AddRecord [OF w(2), of "[4, 5]"] by auto
  have a: "add_records (Posix_Append calm_os) (Posix_Flush calm_os) [[1, 2, 3]] ?w0 = Some w" using w(1) by simp
  let ?f = "\<lparr>sf_file = take 18 (pf_file (lw_dest w')), sf_pos = 0, sf_filename = [], sf_calls = 0\<rparr>"
  have "length [[1, 2, 3 :: u8]] + 2 = 3" by simp
  then show ?thesis
    using log_crash_recovery [OF a w' calm.posix_regular_file_axioms, of ?f 18 True] a w'
    by (simp only: append.simps PosixSequentialFile.simps) blast
qed



end
