(* ===== verification/Ldb_Skiplist.thy ===== *)
theory Ldb_Skiplist
  imports Prelude "HOL-Library.Monad_Syntax"
begin

text \<open>
  The skip list of leveldb (\<open>db/skiplist.h\<close>) and the generator that chooses the heights of its nodes
  (\<open>util/random.h\<close>).  Nodes are numbered in the order of their allocation, and node 0 is \<open>head_\<close>;
  readers that run beside a writer are not modelled.
\<close>

section \<open>Random numbers\<close>

definition Random_new :: "u32 \<Rightarrow> u32" where
  "Random_new s = (let seed = s AND 0x7fffffff in if seed = 0 \<or> seed = 2147483647 then 1 else seed)"

definition Random_Next :: "u32 \<Rightarrow> u32" where
  "Random_Next seed =
     (let product = ucast seed * 16807 :: u64;
          seed' = ucast (drop_bit 31 product + (product AND 2147483647)) :: u32
      in if 2147483647 < seed' then seed' - 2147483647 else seed')"

section \<open>The list\<close>

definition kMaxHeight :: nat where
  "kMaxHeight = 12"

record 'k node =
  nd_key :: 'k
  nd_next :: "nat option list"

record 'k SkipList =
  sl_nodes :: "'k node list"
  sl_max_height :: nat
  sl_rnd :: u32

definition head :: nat where
  "head = 0"

text \<open>The outer \<open>None\<close>: an access outside the links of a node; the inner one: a null pointer.\<close>

definition node_Next :: "'k SkipList \<Rightarrow> nat \<Rightarrow> nat \<Rightarrow> nat option option" where
  "node_Next s x n =
     (if x < length (sl_nodes s) \<and> n < length (nd_next (sl_nodes s ! x))
      then Some (nd_next (sl_nodes s ! x) ! n) else None)"

definition node_SetNext :: "nat \<Rightarrow> nat \<Rightarrow> nat option \<Rightarrow> 'k SkipList \<Rightarrow> 'k SkipList option" where
  "node_SetNext x n y s =
     (if x < length (sl_nodes s) \<and> n < length (nd_next (sl_nodes s ! x))
      then Some (s\<lparr>sl_nodes := (sl_nodes s)[x := (sl_nodes s ! x)\<lparr>nd_next := (nd_next (sl_nodes s ! x))[n := y]\<rparr>]\<rparr>)
      else None)"

text \<open>A new node, whose links have no meaning yet.\<close>

definition NewNode :: "'k \<Rightarrow> nat \<Rightarrow> 'k SkipList \<Rightarrow> nat \<times> 'k SkipList" where
  "NewNode key height s =
     (length (sl_nodes s), s\<lparr>sl_nodes := sl_nodes s @ [\<lparr>nd_key = key, nd_next = replicate height None\<rparr>]\<rparr>)"

definition SkipList_new :: "'k \<Rightarrow> 'k SkipList" where
  "SkipList_new any_key =
     \<lparr>sl_nodes = [\<lparr>nd_key = any_key, nd_next = replicate kMaxHeight None\<rparr>], sl_max_height = 1,
      sl_rnd = Random_new 0xdeadbeef\<rparr>"

fun height_loop :: "nat \<Rightarrow> nat \<Rightarrow> u32 \<Rightarrow> nat \<times> u32" where
  "height_loop 0 height rnd = (height, rnd)"
| "height_loop (Suc room) height rnd =
     (let rnd' = Random_Next rnd
      in if rnd' mod 4 = 0 then height_loop room (height + 1) rnd' else (height, rnd'))"

definition RandomHeight :: "'k SkipList \<Rightarrow> nat \<times> 'k SkipList" where
  "RandomHeight s =
     (case height_loop (kMaxHeight - 1) 1 (sl_rnd s) of (height, rnd) \<Rightarrow> (height, s\<lparr>sl_rnd := rnd\<rparr>))"

definition node_key :: "'k SkipList \<Rightarrow> nat \<Rightarrow> 'k" where
  "node_key s x = nd_key (sl_nodes s ! x)"

definition KeyIsAfterNode :: "('k \<Rightarrow> 'k \<Rightarrow> int) \<Rightarrow> 'k SkipList \<Rightarrow> 'k \<Rightarrow> nat option \<Rightarrow> bool" where
  "KeyIsAfterNode cmp s key n = (case n of None \<Rightarrow> False | Some x \<Rightarrow> cmp (node_key s x) key < 0)"

text \<open>\<open>prev\<close> is filled in at every level that is searched.\<close>

partial_function (option) find_ge_loop ::
  "('k \<Rightarrow> 'k \<Rightarrow> int) \<Rightarrow> 'k SkipList \<Rightarrow> 'k \<Rightarrow> nat \<Rightarrow> nat \<Rightarrow> nat option list \<Rightarrow> (nat option \<times> nat option list) option" where
  "find_ge_loop cmp s key x level prev = do {
     nxt \<leftarrow> node_Next s x level;
     if KeyIsAfterNode cmp s key nxt then find_ge_loop cmp s key (the nxt) level prev
     else if level = 0 then Some (nxt, prev[level := Some x])
     else find_ge_loop cmp s key x (level - 1) (prev[level := Some x]) }"

definition FindGreaterOrEqual ::
  "('k \<Rightarrow> 'k \<Rightarrow> int) \<Rightarrow> 'k SkipList \<Rightarrow> 'k \<Rightarrow> (nat option \<times> nat option list) option" where
  "FindGreaterOrEqual cmp s key =
     find_ge_loop cmp s key head (sl_max_height s - 1) (replicate kMaxHeight None)"

partial_function (option) find_lt_loop :: "('k \<Rightarrow> 'k \<Rightarrow> int) \<Rightarrow> 'k SkipList \<Rightarrow> 'k \<Rightarrow> nat \<Rightarrow> nat \<Rightarrow> nat option" where
  "find_lt_loop cmp s key x level = do {
     nxt \<leftarrow> node_Next s x level;
     if nxt = None \<or> 0 \<le> cmp (node_key s (the nxt)) key
     then if level = 0 then Some x else find_lt_loop cmp s key x (level - 1)
     else find_lt_loop cmp s key (the nxt) level }"

definition FindLessThan :: "('k \<Rightarrow> 'k \<Rightarrow> int) \<Rightarrow> 'k SkipList \<Rightarrow> 'k \<Rightarrow> nat option" where
  "FindLessThan cmp s key = find_lt_loop cmp s key head (sl_max_height s - 1)"

partial_function (option) find_last_loop :: "'k SkipList \<Rightarrow> nat \<Rightarrow> nat \<Rightarrow> nat option" where
  "find_last_loop s x level = do {
     nxt \<leftarrow> node_Next s x level;
     if nxt = None then if level = 0 then Some x else find_last_loop s x (level - 1)
     else find_last_loop s (the nxt) level }"

definition FindLast :: "'k SkipList \<Rightarrow> nat option" where
  "FindLast s = find_last_loop s head (sl_max_height s - 1)"

text \<open>The links of a new node at the levels from \<open>i\<close> up; \<open>None\<close>: an unset or null \<open>prev\<close> is read.\<close>

function link_node :: "nat \<Rightarrow> nat \<Rightarrow> nat \<Rightarrow> nat option list \<Rightarrow> 'k SkipList \<Rightarrow> 'k SkipList option" where
  "link_node x height i prev s =
     (if i < height then do {
        p \<leftarrow> prev ! i;
        nxt \<leftarrow> node_Next s p i;
        s \<leftarrow> node_SetNext x i nxt s;
        s \<leftarrow> node_SetNext p i (Some x) s;
        link_node x height (i + 1) prev s }
      else Some s)"
  by pat_completeness auto
termination by (relation "measure (\<lambda>(_, height, i, _). height - i)") auto

declare link_node.simps [simp del]

definition SkipList_Insert :: "('k \<Rightarrow> 'k \<Rightarrow> int) \<Rightarrow> 'k \<Rightarrow> 'k SkipList \<Rightarrow> 'k SkipList option" where
  "SkipList_Insert cmp key s = do {
     (_, prev) \<leftarrow> FindGreaterOrEqual cmp s key;
     let (height, s) = RandomHeight s;
     let prev = (if sl_max_height s < height
                 then map (\<lambda>i. if sl_max_height s \<le> i \<and> i < height then Some head else prev ! i) [0..<kMaxHeight]
                 else prev);
     let s = (if sl_max_height s < height then s\<lparr>sl_max_height := height\<rparr> else s);
     let (x, s) = NewNode key height s;
     link_node x height 0 prev s }"

definition SkipList_Contains :: "('k \<Rightarrow> 'k \<Rightarrow> int) \<Rightarrow> 'k SkipList \<Rightarrow> 'k \<Rightarrow> bool option" where
  "SkipList_Contains cmp s key = do {
     (x, _) \<leftarrow> FindGreaterOrEqual cmp s key;
     Some (case x of None \<Rightarrow> False | Some y \<Rightarrow> cmp key (node_key s y) = 0) }"

section \<open>Iterators\<close>

text \<open>An iterator is the node it is at, \<open>None\<close> when it is not valid.\<close>

type_synonym sl_iterator = "nat option"

definition iter_Valid :: "sl_iterator \<Rightarrow> bool" where
  "iter_Valid it \<longleftrightarrow> it \<noteq> None"

definition iter_key :: "'k SkipList \<Rightarrow> sl_iterator \<Rightarrow> 'k option" where
  "iter_key s it = map_option (node_key s) it"

definition iter_Next :: "'k SkipList \<Rightarrow> sl_iterator \<Rightarrow> sl_iterator option" where
  "iter_Next s it = do { x \<leftarrow> it; node_Next s x 0 }"

definition iter_Prev :: "('k \<Rightarrow> 'k \<Rightarrow> int) \<Rightarrow> 'k SkipList \<Rightarrow> sl_iterator \<Rightarrow> sl_iterator option" where
  "iter_Prev cmp s it = do {
     x \<leftarrow> it;
     y \<leftarrow> FindLessThan cmp s (node_key s x);
     Some (if y = head then None else Some y) }"

definition iter_Seek :: "('k \<Rightarrow> 'k \<Rightarrow> int) \<Rightarrow> 'k SkipList \<Rightarrow> 'k \<Rightarrow> sl_iterator option" where
  "iter_Seek cmp s target = map_option fst (FindGreaterOrEqual cmp s target)"

definition iter_SeekToFirst :: "'k SkipList \<Rightarrow> sl_iterator option" where
  "iter_SeekToFirst s = node_Next s head 0"

definition iter_SeekToLast :: "'k SkipList \<Rightarrow> sl_iterator option" where
  "iter_SeekToLast s = do { y \<leftarrow> FindLast s; Some (if y = head then None else Some y) }"

end
