(* ===== verification/Ldb_Skiplist_Inv.thy ===== *)
theory Ldb_Skiplist_Inv
  imports Ldb_Skiplist
begin

text \<open>
  The shape of a skip list: at every level a chain through the nodes that are high enough, in the order
  of the lowest level; and what a descent through the levels finds.
\<close>

section \<open>Random numbers\<close>

text \<open>The generator multiplies by 16807 modulo the prime \<open>2^31 - 1\<close> and never leaves the residues but 0.\<close>

lemma Random_Next_mod:
  assumes "0 < unat seed" "unat seed < 2147483647"
  shows "unat (Random_Next seed) = unat seed * 16807 mod 2147483647 \<and> 0 < unat (Random_Next seed)"
proof -
  define p where "p = unat seed * 16807"
  have p: "p < 2147483647 * 16807" using assms(2) by (simp add: p_def)
  have prod: "unat (ucast seed * 16807 :: u64) = p" using p by (simp add: unat_word_ariths p_def)
  have m: "(2147483647 :: u64) = mask 31" by (simp add: mask_eq_exp_minus_1)
  have a: "unat ((ucast seed * 16807 :: u64) AND 2147483647) = p mod 2 ^ 31"
    unfolding m by (simp only: unat_and_mask prod)
  have b: "unat (drop_bit 31 (ucast seed * 16807 :: u64)) = p div 2 ^ 31" by (simp only: unat_drop_bit prod)
  have q: "p div 2147483648 \<le> 16807" using p by simp
  let ?s = "p div 2147483648 + p mod 2147483648"
  have lt: "?s < 2147483647 + 16808" using q mod_less_divisor [of 2147483648 p] by linarith
  have s: "unat (ucast (drop_bit 31 (ucast seed * 16807 :: u64) + ((ucast seed * 16807 :: u64) AND 2147483647)) :: u32) = ?s"
    using a b lt by (simp add: unat_ucast_mod unat_word_ariths)
  have eq: "p = ?s + 2147483647 * (p div 2147483648)" using div_mult_mod_eq [of p 2147483648] by linarith
  then have md: "?s mod 2147483647 = p mod 2147483647" by (metis mod_mult_self2)
  have r: "unat (Random_Next seed) = (if 2147483647 < ?s then ?s - 2147483647 else ?s)"
    using s lt by (simp add: Random_Next_def Let_def word_less_nat_alt unat_sub_if')
  have nz: "p mod 2147483647 \<noteq> 0"
  proof
    assume "p mod 2147483647 = 0"
    then have "2147483647 dvd unat seed * 16807" by (simp add: p_def dvd_eq_mod_eq_0)
    moreover have "coprime (2147483647 :: nat) 16807" by (simp add: coprime_iff_gcd_eq_1 gcd_non_0_nat)
    ultimately have "2147483647 dvd unat seed" by (simp add: coprime_dvd_mult_left_iff)
    then show False using assms by (auto dest: dvd_imp_le)
  qed
  then have ne: "?s \<noteq> 2147483647" "?s \<noteq> 0" using md by auto
  have "unat (Random_Next seed) = ?s mod 2147483647"
  proof (cases "2147483647 < ?s")
    case True
    then have "?s mod 2147483647 = (?s - 2147483647) mod 2147483647" by (intro le_mod_geq) simp
    also have "\<dots> = ?s - 2147483647" using lt by (intro mod_less) linarith
    finally show ?thesis using r True by simp
  next
    case False
    then show ?thesis using r ne by simp
  qed
  then show ?thesis using md nz by (simp add: p_def)
qed

lemma height_loop_bounds: "height_loop room h rnd = (h', rnd') \<Longrightarrow> h \<le> h' \<and> h' \<le> h + room"
  by (induction room h rnd rule: height_loop.induct) (fastforce simp: Let_def split: if_splits)+

lemma RandomHeight_bounds:
  "RandomHeight s = (h, s') \<Longrightarrow> 0 < h \<and> h \<le> 12 \<and> (\<exists>rnd. s' = s\<lparr>sl_rnd := rnd\<rparr>)"
  using height_loop_bounds [of 11 1 "sl_rnd s"]
  by (auto simp: RandomHeight_def kMaxHeight_def split: prod.splits)

section \<open>Chains\<close>

fun chain :: "'k SkipList \<Rightarrow> nat \<Rightarrow> nat \<Rightarrow> nat list \<Rightarrow> bool" where
  "chain s l x [] \<longleftrightarrow> node_Next s x l = Some None"
| "chain s l x (y # ys) \<longleftrightarrow> node_Next s x l = Some (Some y) \<and> chain s l y ys"

fun path :: "'k SkipList \<Rightarrow> nat \<Rightarrow> nat \<Rightarrow> nat list \<Rightarrow> bool" where
  "path s l x [] \<longleftrightarrow> True"
| "path s l x (y # ys) \<longleftrightarrow> node_Next s x l = Some (Some y) \<and> path s l y ys"

lemma chain_append: "chain s l x (us @ vs) \<longleftrightarrow> path s l x us \<and> chain s l (last (x # us)) vs"
  by (induction us arbitrary: x) auto

lemma chain_frame: "\<forall>y\<in>set (x # ys). node_Next s' y l = node_Next s y l \<Longrightarrow> chain s' l x ys = chain s l x ys"
  by (induction ys arbitrary: x) auto

text \<open>A node linked in after the last of \<open>us\<close>.\<close>

lemma chain_insert:
  assumes "chain s l x (us @ vs)" and "distinct (x # us @ vs)" and "n \<notin> set (x # us @ vs)"
    and "node_Next s' (last (x # us)) l = Some (Some n)" and "node_Next s' n l = node_Next s (last (x # us)) l"
    and "\<And>y. y \<noteq> last (x # us) \<Longrightarrow> y \<noteq> n \<Longrightarrow> node_Next s' y l = node_Next s y l"
  shows "chain s' l x (us @ n # vs)"
  using assms
proof (induction us arbitrary: x)
  case Nil
  have "chain s' l n vs"
  proof (cases vs)
    case Nil
    then show ?thesis using Nil.prems by simp
  next
    case (Cons v ws)
    have "chain s' l v ws = chain s l v ws"
      using Nil.prems(2,3) Cons by (intro chain_frame ballI Nil.prems(6)) auto
    then show ?thesis using Nil.prems Cons by simp
  qed
  then show ?case using Nil.prems by simp
next
  case (Cons u us)
  then have "x \<noteq> last (u # us)" by auto
  then show ?case using Cons.prems Cons.IH [of u] by auto
qed

definition node_height :: "'k SkipList \<Rightarrow> nat \<Rightarrow> nat" where
  "node_height s x = length (nd_next (sl_nodes s ! x))"

text \<open>The nodes of the level \<open>l\<close>, in the order of \<open>xs\<close>.\<close>

definition level_nodes :: "'k SkipList \<Rightarrow> nat \<Rightarrow> nat list \<Rightarrow> nat list" where
  "level_nodes s l xs = filter (\<lambda>x. l < node_height s x) xs"

definition links_ok :: "'k SkipList \<Rightarrow> nat list \<Rightarrow> bool" where
  "links_ok s xs \<longleftrightarrow>
     distinct xs \<and> set xs = {1..<length (sl_nodes s)} \<and> 0 < length (sl_nodes s) \<and> node_height s 0 = 12 \<and>
     0 < sl_max_height s \<and> sl_max_height s \<le> 12 \<and>
     (\<forall>x\<in>set xs. 0 < node_height s x \<and> node_height s x \<le> sl_max_height s) \<and>
     (\<forall>l<12. chain s l 0 (level_nodes s l xs))"

definition first :: "'a list \<Rightarrow> 'a option" where
  "first xs = (case xs of [] \<Rightarrow> None | x # _ \<Rightarrow> Some x)"

lemma level_nodes_simps [simp]:
  "level_nodes s l (xs @ ys) = level_nodes s l xs @ level_nodes s l ys"
  "set (level_nodes s l xs) = {x \<in> set xs. l < node_height s x}"
  by (simp_all add: level_nodes_def)

text \<open>The last of the nodes \<open>B\<close> at a level, \<open>head_\<close> when there is none.\<close>

definition last_at :: "'k SkipList \<Rightarrow> nat list \<Rightarrow> nat \<Rightarrow> nat" where
  "last_at s B l = last (0 # level_nodes s l B)"

lemma last_at_in: "last_at s B l = 0 \<or> last_at s B l \<in> set (level_nodes s l B)"
  using last_in_set [of "level_nodes s l B"] by (auto simp: last_at_def)

section \<open>Descents\<close>

text \<open>
  The three searches of the skip list go right while \<open>go\<close> holds of the next node, and down otherwise;
  \<open>visit\<close> is what they note on the way down, \<open>finish\<close> their result on the lowest level.
\<close>

locale descent =
  fixes s :: "'k SkipList"
    and go :: "nat \<Rightarrow> bool"
    and F :: "nat \<Rightarrow> nat \<Rightarrow> 'a \<Rightarrow> 'r option"
    and visit :: "nat \<Rightarrow> nat \<Rightarrow> 'a \<Rightarrow> 'a"
    and finish :: "nat \<Rightarrow> nat option \<Rightarrow> 'a \<Rightarrow> 'r"
  assumes right: "node_Next s x l = Some (Some y) \<Longrightarrow> go y \<Longrightarrow> F x l a = F y l a"
    and down: "node_Next s x l = Some nxt \<Longrightarrow> \<forall>y. nxt = Some y \<longrightarrow> \<not> go y \<Longrightarrow>
      F x l a = (if l = 0 then Some (finish x nxt (visit l x a)) else F x (l - 1) (visit l x a))"
begin

lemma scan:
  "chain s l x ys \<Longrightarrow> F x l a =
    (let z = last (x # takeWhile go ys)
     in if l = 0 then Some (finish z (first (dropWhile go ys)) (visit l z a)) else F z (l - 1) (visit l z a))"
proof (induction ys arbitrary: x)
  case Nil
  then show ?case using down [of x l None] by (simp add: first_def)
next
  case (Cons y ys)
  show ?case
  proof (cases "go y")
    case True
    then show ?thesis using Cons right [of x l y] by (simp add: Let_def)
  next
    case False
    then show ?thesis using Cons.prems down [of x l "Some y"] by (simp add: first_def Let_def)
  qed
qed

text \<open>What is noted from the level \<open>l\<close> down.\<close>

fun visits :: "nat list \<Rightarrow> nat \<Rightarrow> 'a \<Rightarrow> 'a" where
  "visits B 0 a = visit 0 (last_at s B 0) a"
| "visits B (Suc l) a = visits B l (visit (Suc l) (last_at s B (Suc l)) a)"

lemma scan_level:
  assumes "chain s l 0 (level_nodes s l (B @ C))" and "\<forall>b\<in>set B. go b" and "\<forall>c\<in>set C. \<not> go c"
    and "x = 0 \<or> x \<in> set (level_nodes s l B)"
  shows "F x l a = (if l = 0 then Some (finish (last_at s B l) (first (level_nodes s l C)) (visit l (last_at s B l) a))
    else F (last_at s B l) (l - 1) (visit l (last_at s B l) a))"
proof -
  have "\<exists>us vs. level_nodes s l B = us @ vs \<and> last (0 # us) = x"
  proof (cases "x = 0")
    case True
    then show ?thesis by (intro exI [of _ "[]"] exI [of _ "level_nodes s l B"]) simp
  next
    case False
    then obtain us vs where "level_nodes s l B = us @ x # vs" using assms(4) by (metis split_list)
    then show ?thesis by (intro exI [of _ "us @ [x]"] exI [of _ vs]) simp
  qed
  then obtain us vs where B: "level_nodes s l B = us @ vs" "last (0 # us) = x" by blast
  let ?C = "level_nodes s l C"
  have c: "chain s l x (vs @ ?C)" using assms(1) B by (simp add: chain_append del: last.simps)
  have "\<forall>v\<in>set vs. go v" using assms(2) B(1) level_nodes_simps(2) [of s l B] by auto
  moreover have "\<forall>c\<in>set ?C. \<not> go c" using assms(3) by simp
  moreover have "takeWhile go ?C = []" "dropWhile go ?C = ?C" if "\<forall>c\<in>set ?C. \<not> go c"
    using that by (cases ?C; auto)+
  ultimately have td: "takeWhile go (vs @ ?C) = vs" "dropWhile go (vs @ ?C) = ?C"
    by (simp_all add: takeWhile_append2 dropWhile_append2)
  have "last (x # vs) = last_at s B l" using B by (cases vs) (auto simp: last_at_def)
  then show ?thesis using scan [OF c, of a] by (simp only: td Let_def)
qed

lemma descend:
  assumes "links_ok s (B @ C)" and "\<forall>b\<in>set B. go b" and "\<forall>c\<in>set C. \<not> go c" and "l < 12"
    and "x = 0 \<or> x \<in> set (level_nodes s l B)"
  shows "F x l a = Some (finish (last_at s B 0) (first C) (visits B l a))"
  using assms(4,5)
proof (induction l arbitrary: x a)
  case 0
  have "level_nodes s 0 C = C" using assms(1) by (auto simp: links_ok_def level_nodes_def intro!: filter_True)
  moreover have "chain s 0 0 (level_nodes s 0 (B @ C))" using assms(1) by (simp add: links_ok_def)
  ultimately show ?case using scan_level [OF _ assms(2,3) 0(2), of a] by simp
next
  case (Suc l)
  have c: "chain s (Suc l) 0 (level_nodes s (Suc l) (B @ C))" using assms(1) Suc.prems(1) by (simp add: links_ok_def)
  have "last_at s B (Suc l) = 0 \<or> last_at s B (Suc l) \<in> set (level_nodes s l B)"
    using last_at_in [of s B "Suc l"] by auto
  from Suc.IH [OF _ this] Suc.prems(1) show ?case using scan_level [OF c assms(2,3) Suc.prems(2), of a] by simp
qed

end

end
