(* ===== verification/Ldb_Skiplist_Ops.thy ===== *)
theory Ldb_Skiplist_Ops
  imports Ldb_Skiplist_Inv
begin

text \<open>
  What the operations of the skip list do to the list of its keys: the searches find the place of a
  key, an insertion puts it there, and the iterators walk the keys in order.
\<close>

section \<open>The order of the keys\<close>

text \<open>What a skip list relies on of its comparator: a total preorder on the keys that are \<open>valid\<close>.\<close>

locale key_order =
  fixes valid :: "'k \<Rightarrow> bool"
    and cmp :: "'k \<Rightarrow> 'k \<Rightarrow> int"
  assumes le_refl: "valid a \<Longrightarrow> cmp a a \<le> 0"
    and less_swap: "valid a \<Longrightarrow> valid b \<Longrightarrow> cmp a b < 0 \<longleftrightarrow> 0 < cmp b a"
    and le_less: "valid a \<Longrightarrow> valid b \<Longrightarrow> valid c \<Longrightarrow> cmp a b \<le> 0 \<Longrightarrow> cmp b c < 0 \<Longrightarrow> cmp a c < 0"
begin

lemma less_le:
  "valid a \<Longrightarrow> valid b \<Longrightarrow> valid c \<Longrightarrow> cmp a b < 0 \<Longrightarrow> cmp b c \<le> 0 \<Longrightarrow> cmp a c < 0"
  by (metis le_less less_swap not_le)

lemma le_swap: "valid a \<Longrightarrow> valid b \<Longrightarrow> \<not> cmp a b < 0 \<Longrightarrow> cmp b a \<le> 0"
  using less_swap [of a b] by linarith

lemma eq_swap: "valid a \<Longrightarrow> valid b \<Longrightarrow> cmp a b = 0 \<longleftrightarrow> cmp b a = 0"
  using less_swap [of a b] less_swap [of b a] by linarith

definition ordered :: "'k list \<Rightarrow> bool" where
  "ordered ks \<longleftrightarrow> (\<forall>k\<in>set ks. valid k) \<and> sorted_wrt (\<lambda>a b. cmp a b \<le> 0) ks"

end

text \<open>A key put before the first one that is not less.\<close>

definition ordered_insert :: "('k \<Rightarrow> 'k \<Rightarrow> int) \<Rightarrow> 'k \<Rightarrow> 'k list \<Rightarrow> 'k list" where
  "ordered_insert cmp key ks =
     takeWhile (\<lambda>k. cmp k key < 0) ks @ key # dropWhile (\<lambda>k. cmp k key < 0) ks"

lemma set_ordered_insert [simp]: "set (ordered_insert cmp key ks) = insert key (set ks)"
  by (auto simp: ordered_insert_def dest: set_takeWhileD set_dropWhileD)
    (metis Un_iff set_append takeWhile_dropWhile_id)

context key_order
begin

lemma not_less_after:
  assumes "ordered ks" and "valid key"
  shows "\<forall>k\<in>set (dropWhile (\<lambda>k. cmp k key < 0) ks). \<not> cmp k key < 0"
proof (cases "dropWhile (\<lambda>k. cmp k key < 0) ks")
  case (Cons k ds)
  have ks: "ks = takeWhile (\<lambda>k. cmp k key < 0) ks @ k # ds" by (metis Cons takeWhile_dropWhile_id)
  have k: "\<not> cmp k key < 0" using Cons by (metis hd_dropWhile list.distinct(1) list.sel(1))
  have o: "ordered (takeWhile (\<lambda>k. cmp k key < 0) ks @ k # ds)" using assms(1) ks by simp
  have "\<not> cmp d key < 0" if d: "d \<in> set ds" for d
    using le_less [of k d key] o d k assms(2) by (auto simp: ordered_def sorted_wrt_append)
  then show ?thesis using Cons k by simp
next
  case Nil
  show ?thesis unfolding Nil by simp
qed

lemma ordered_insert_ordered:
  assumes "ordered ks" and "valid key"
  shows "ordered (ordered_insert cmp key ks)"
proof -
  let ?t = "takeWhile (\<lambda>k. cmp k key < 0) ks" and ?d = "dropWhile (\<lambda>k. cmp k key < 0) ks"
  have s: "sorted_wrt (\<lambda>a b. cmp a b \<le> 0) (?t @ ?d)" using assms(1) by (simp add: ordered_def)
  note s = s [unfolded sorted_wrt_append]
  have "\<forall>k\<in>set ?t. cmp k key \<le> 0" by (auto dest!: set_takeWhileD)
  moreover have "\<forall>k\<in>set ?d. cmp key k \<le> 0"
  proof
    fix k
    assume k: "k \<in> set ?d"
    then have "valid k" using assms(1) set_dropWhileD [OF k] by (simp add: ordered_def)
    then show "cmp key k \<le> 0" using le_swap [of k key] not_less_after [OF assms] k assms(2) by blast
  qed
  ultimately have "sorted_wrt (\<lambda>a b. cmp a b \<le> 0) (ordered_insert cmp key ks)"
    using s by (simp add: ordered_insert_def sorted_wrt_append)
  then show ?thesis using assms by (auto simp: ordered_def)
qed

end

section \<open>The keys of a skip list\<close>

definition holds :: "'k SkipList \<Rightarrow> nat list \<Rightarrow> 'k list \<Rightarrow> bool" where
  "holds s xs ks \<longleftrightarrow> links_ok s xs \<and> ks = map (node_key s) xs"

lemma SkipList_new_holds: "holds (SkipList_new k) [] []"
  by (auto simp: holds_def links_ok_def SkipList_new_def node_height_def level_nodes_def node_Next_def kMaxHeight_def)

interpretation ge: descent s "\<lambda>y. cmp (node_key s y) key < 0" "find_ge_loop cmp s key"
    "\<lambda>l x prev. prev[l := Some x]" "\<lambda>x nxt prev. (nxt, prev)" for cmp s key
proof
  fix x l y and a :: "nat option list"
  assume "node_Next s x l = Some (Some y)" "cmp (node_key s y) key < 0"
  then show "find_ge_loop cmp s key x l a = find_ge_loop cmp s key y l a"
    by (subst find_ge_loop.simps) (simp add: KeyIsAfterNode_def)
next
  fix x l nxt and a :: "nat option list"
  assume "node_Next s x l = Some nxt" "\<forall>y. nxt = Some y \<longrightarrow> \<not> cmp (node_key s y) key < 0"
  then show "find_ge_loop cmp s key x l a =
    (if l = 0 then Some (nxt, a[l := Some x]) else find_ge_loop cmp s key x (l - 1) (a[l := Some x]))"
    by (subst find_ge_loop.simps) (auto simp: KeyIsAfterNode_def split: option.split)
qed

interpretation lt: descent s "\<lambda>y. cmp (node_key s y) key < 0" "\<lambda>x l (_ :: unit). find_lt_loop cmp s key x l"
    "\<lambda>_ _ u. u" "\<lambda>x _ _. x" for cmp s key
proof
  fix x l y
  assume "node_Next s x l = Some (Some y)" "cmp (node_key s y) key < 0"
  then show "find_lt_loop cmp s key x l = find_lt_loop cmp s key y l"
    by (subst find_lt_loop.simps) simp
next
  fix x l nxt
  assume "node_Next s x l = Some nxt" "\<forall>y. nxt = Some y \<longrightarrow> \<not> cmp (node_key s y) key < 0"
  then show "find_lt_loop cmp s key x l = (if l = 0 then Some x else find_lt_loop cmp s key x (l - 1))"
    by (subst find_lt_loop.simps) (cases nxt; simp)
qed

interpretation lst: descent s "\<lambda>_. True" "\<lambda>x l (_ :: unit). find_last_loop s x l" "\<lambda>_ _ u. u" "\<lambda>x _ _. x" for s
proof
  fix x l y
  assume "node_Next s x l = Some (Some y)"
  then show "find_last_loop s x l = find_last_loop s y l" by (subst find_last_loop.simps) simp
next
  fix x l nxt
  assume "node_Next s x l = Some nxt" "\<forall>y. nxt = Some y \<longrightarrow> \<not> True"
  then show "find_last_loop s x l = (if l = 0 then Some x else find_last_loop s x (l - 1))"
    by (subst find_last_loop.simps) (cases nxt; simp)
qed


section \<open>Linking a node\<close>

definition same_nodes :: "'k SkipList \<Rightarrow> 'k SkipList \<Rightarrow> bool" where
  "same_nodes s s' \<longleftrightarrow> length (sl_nodes s') = length (sl_nodes s) \<and> sl_max_height s' = sl_max_height s \<and>
     (\<forall>x. node_height s' x = node_height s x \<and> node_key s' x = node_key s x)"

lemma node_Next_height:
  "node_Next s x l = (if x < length (sl_nodes s) \<and> l < node_height s x then Some (nd_next (sl_nodes s ! x) ! l) else None)"
  by (simp add: node_Next_def node_height_def)

lemma node_SetNext_effect:
  assumes "x < length (sl_nodes s)" and "l < node_height s x"
  obtains s' where "node_SetNext x l y s = Some s'" and "same_nodes s s'"
    and "\<And>a b. node_Next s' a b = (if a = x \<and> b = l then Some y else node_Next s a b)"
proof
  let ?s = "s\<lparr>sl_nodes := (sl_nodes s)[x := (sl_nodes s ! x)\<lparr>nd_next := (nd_next (sl_nodes s ! x))[l := y]\<rparr>]\<rparr>"
  show "node_SetNext x l y s = Some ?s" using assms by (simp add: node_SetNext_def node_height_def)
  show "same_nodes s ?s"
    using assms by (auto simp: same_nodes_def node_height_def node_key_def nth_list_update)
  show "node_Next ?s a b = (if a = x \<and> b = l then Some y else node_Next s a b)" for a b
    using assms by (auto simp: node_Next_def node_height_def nth_list_update)
qed

lemma same_nodes_trans: "same_nodes s t \<Longrightarrow> same_nodes t u \<Longrightarrow> same_nodes s u"
  by (simp add: same_nodes_def)

text \<open>At each level below its height the node \<open>n\<close> is put behind \<open>p l\<close>.\<close>

lemma link_node_effect:
  assumes "n < length (sl_nodes s)" and "h \<le> node_height s n"
    and "\<And>l. i \<le> l \<Longrightarrow> l < h \<Longrightarrow> prev ! l = Some (p l) \<and> p l \<noteq> n \<and> p l < length (sl_nodes s) \<and> l < node_height s (p l)"
  shows "\<exists>s'. link_node n h i prev s = Some s' \<and> same_nodes s s' \<and>
    (\<forall>y l. node_Next s' y l =
       (if i \<le> l \<and> l < h \<and> y = p l then Some (Some n)
        else if i \<le> l \<and> l < h \<and> y = n then node_Next s (p l) l else node_Next s y l))"
  using assms
proof (induction "h - i" arbitrary: i s)
  case 0
  then show ?case by (subst link_node.simps) (auto simp: same_nodes_def)
next
  case (Suc k)
  then have i: "i < h" "k = h - Suc i" by simp_all
  note p = Suc.prems(3) [OF order_refl i(1)]
  obtain nxt where nxt: "node_Next s (p i) i = Some nxt" using p by (simp add: node_Next_height)
  obtain t where t: "node_SetNext n i nxt s = Some t" "same_nodes s t"
    "\<And>a b. node_Next t a b = (if a = n \<and> b = i then Some nxt else node_Next s a b)"
    using node_SetNext_effect [of n s i nxt] Suc.prems(1,2) i(1) by (metis order_less_le_trans)
  obtain u where u: "node_SetNext (p i) i (Some n) t = Some u" "same_nodes t u"
    "\<And>a b. node_Next u a b = (if a = p i \<and> b = i then Some (Some n) else node_Next t a b)"
    using node_SetNext_effect [of "p i" t i "Some n"] p t(2) by (auto simp: same_nodes_def)
  have su: "same_nodes s u" using t(2) u(2) by (rule same_nodes_trans)
  have "\<exists>s'. link_node n h (Suc i) prev u = Some s' \<and> same_nodes u s' \<and>
    (\<forall>y l. node_Next s' y l =
       (if Suc i \<le> l \<and> l < h \<and> y = p l then Some (Some n)
        else if Suc i \<le> l \<and> l < h \<and> y = n then node_Next u (p l) l else node_Next u y l))"
    using Suc.prems su by (intro Suc.hyps(1) [OF i(2)]) (auto simp: same_nodes_def)
  then obtain s' where s': "link_node n h (Suc i) prev u = Some s'" "same_nodes u s'"
    "\<And>y l. node_Next s' y l =
       (if Suc i \<le> l \<and> l < h \<and> y = p l then Some (Some n)
        else if Suc i \<le> l \<and> l < h \<and> y = n then node_Next u (p l) l else node_Next u y l)"
    by blast
  have "link_node n h i prev s = Some s'"
    using i(1) p nxt t(1) u(1) s'(1) by (subst link_node.simps) simp
  moreover have "node_Next s' y l =
      (if i \<le> l \<and> l < h \<and> y = p l then Some (Some n)
       else if i \<le> l \<and> l < h \<and> y = n then node_Next s (p l) l else node_Next s y l)" for y l
    using s'(3) [of y l] i(1) p nxt by (cases "l = i") (auto simp: u(3) t(3) Suc_le_eq)
  ultimately show ?case using same_nodes_trans [OF su s'(2)] by blast
qed


section \<open>Insertion\<close>

lemma visits_prev:
  "length (ge.visits TYPE('k) (s :: 'k SkipList) B l prev) = length prev \<and>
   (l < length prev \<longrightarrow> (\<forall>j. ge.visits TYPE('k) s B l prev ! j = (if j \<le> l then Some (last_at s B j) else prev ! j)))"
  by (induction l arbitrary: prev) (auto simp: nth_list_update le_Suc_eq)

lemma map_takeWhile: "map f (takeWhile (P \<circ> f) xs) = takeWhile P (map f xs)"
  by (induction xs) auto

lemma map_dropWhile: "map f (dropWhile (P \<circ> f) xs) = dropWhile P (map f xs)"
  by (induction xs) auto

context key_order
begin

text \<open>The place of a key: the nodes before it and the nodes after it.\<close>

lemma split_at:
  assumes "holds s xs ks" and "ordered ks" and "valid key"
  obtains B C where "xs = B @ C" and "\<forall>b\<in>set B. cmp (node_key s b) key < 0"
    and "\<forall>c\<in>set C. \<not> cmp (node_key s c) key < 0"
    and "map (node_key s) B = takeWhile (\<lambda>k. cmp k key < 0) ks"
    and "map (node_key s) C = dropWhile (\<lambda>k. cmp k key < 0) ks"
proof
  let ?P = "(\<lambda>k. cmp k key < 0) \<circ> node_key s"
  have ks: "ks = map (node_key s) xs" using assms(1) by (simp add: holds_def)
  show "xs = takeWhile ?P xs @ dropWhile ?P xs" by simp
  show "map (node_key s) (takeWhile ?P xs) = takeWhile (\<lambda>k. cmp k key < 0) ks" by (simp only: map_takeWhile ks)
  show d: "map (node_key s) (dropWhile ?P xs) = dropWhile (\<lambda>k. cmp k key < 0) ks" by (simp only: map_dropWhile ks)
  show "\<forall>b\<in>set (takeWhile ?P xs). cmp (node_key s b) key < 0" by (auto dest: set_takeWhileD)
  show "\<forall>c\<in>set (dropWhile ?P xs). \<not> cmp (node_key s c) key < 0"
    using not_less_after [OF assms(2,3)] unfolding d [symmetric] by simp
qed

lemma FindGreaterOrEqual_place:
  assumes "links_ok s (B @ C)" and "\<forall>b\<in>set B. cmp (node_key s b) key < 0"
    and "\<forall>c\<in>set C. \<not> cmp (node_key s c) key < 0"
  shows "\<exists>prev. FindGreaterOrEqual cmp s key = Some (first C, prev) \<and> length prev = 12 \<and>
    (\<forall>j < sl_max_height s. prev ! j = Some (last_at s B j))"
proof -
  have m: "0 < sl_max_height s" "sl_max_height s \<le> 12" using assms(1) by (simp_all add: links_ok_def)
  show ?thesis
    using ge.descend [of s B C cmp key "sl_max_height s - 1" 0 "replicate 12 None", OF assms] m
      visits_prev [of s B "sl_max_height s - 1" "replicate 12 None"]
    by (auto simp: FindGreaterOrEqual_def head_def kMaxHeight_def)
qed

lemma FindLessThan_place:
  assumes "links_ok s (B @ C)" and "\<forall>b\<in>set B. cmp (node_key s b) key < 0"
    and "\<forall>c\<in>set C. \<not> cmp (node_key s c) key < 0"
  shows "FindLessThan cmp s key = Some (last (0 # B))"
proof -
  have m: "sl_max_height s - 1 < 12" using assms(1) by (auto simp: links_ok_def)
  have "level_nodes s 0 B = B" using assms(1) by (auto simp: links_ok_def level_nodes_def intro!: filter_True)
  then show ?thesis
    using lt.descend [of s B C cmp key "sl_max_height s - 1" 0, OF assms m] by (simp add: FindLessThan_def head_def last_at_def)
qed

end

lemma FindLast_place: "links_ok s xs \<Longrightarrow> FindLast s = Some (last (0 # xs))"
proof -
  assume l: "links_ok s xs"
  then have m: "sl_max_height s - 1 < 12" by (auto simp: links_ok_def)
  have "level_nodes s 0 xs = xs" using l by (auto simp: links_ok_def level_nodes_def intro!: filter_True)
  then show ?thesis
    using lst.descend [of s xs "[]"] l m by (simp add: FindLast_def head_def last_at_def)
qed


lemma same_nodesD:
  assumes "same_nodes s s'"
  shows "length (sl_nodes s') = length (sl_nodes s)" "sl_max_height s' = sl_max_height s"
    "node_height s' x = node_height s x" "node_key s' x = node_key s x"
  using assms by (simp_all add: same_nodes_def)

text \<open>A node of height \<open>h\<close>, appended to the nodes and linked in between \<open>B\<close> and \<open>C\<close>.\<close>

lemma link_between:
  fixes s t :: "'k SkipList"
  assumes ok: "links_ok s (B @ C)" and n: "n = length (sl_nodes s)"
    and t: "sl_nodes t = sl_nodes s @ [\<lparr>nd_key = key, nd_next = replicate h None\<rparr>]"
      "sl_max_height t = max (sl_max_height s) h"
    and h: "0 < h" "h \<le> 12" and prev: "\<And>j. j < h \<Longrightarrow> prev ! j = Some (last_at s B j)"
  shows "\<exists>s'. link_node n h 0 prev t = Some s' \<and> links_ok s' (B @ n # C) \<and> node_key s' n = key \<and>
    (\<forall>x<n. node_key s' x = node_key s x)"
proof -
  have set: "set (B @ C) = {1..<n}" and dist: "distinct (B @ C)" and n0: "0 < n" and h0: "node_height s 0 = 12"
    using ok n by (simp_all add: links_ok_def)
  have old: "node_height t x = node_height s x" "node_key t x = node_key s x" "node_Next t x l = node_Next s x l"
    if "x < n" for x l
    using that n by (simp_all add: node_height_def node_key_def node_Next_def t(1) nth_append)
  have new: "node_height t n = h" "node_key t n = key" "length (sl_nodes t) = Suc n"
    using n by (simp_all add: node_height_def node_key_def t(1) nth_append)
  have p: "last_at s B l < n \<and> l < node_height s (last_at s B l)" if "l < 12" for l
    using last_at_in [of s B l] set n0 h0 that by auto
  have "\<exists>s'. link_node n h 0 prev t = Some s' \<and> same_nodes t s' \<and>
    (\<forall>y l. node_Next s' y l =
       (if 0 \<le> l \<and> l < h \<and> y = last_at s B l then Some (Some n)
        else if 0 \<le> l \<and> l < h \<and> y = n then node_Next t (last_at s B l) l else node_Next t y l))"
  proof (rule link_node_effect)
    fix l
    assume "l < h"
    then show "prev ! l = Some (last_at s B l) \<and> last_at s B l \<noteq> n \<and> last_at s B l < length (sl_nodes t) \<and>
      l < node_height t (last_at s B l)"
      using p [of l] old(1) [of "last_at s B l"] prev h(2) new(3) by simp
  qed (simp_all add: new)
  then obtain s' where s': "link_node n h 0 prev t = Some s'" "same_nodes t s'"
    "\<And>y l. node_Next s' y l =
       (if l < h \<and> y = last_at s B l then Some (Some n)
        else if l < h \<and> y = n then node_Next t (last_at s B l) l else node_Next t y l)"
    by auto
  note same = same_nodesD [OF s'(2)]
  have lev: "level_nodes s' l (B @ n # C) = level_nodes s l B @ (if l < h then [n] else []) @ level_nodes s l C" for l
  proof -
    have "level_nodes s' l D = level_nodes s l D" if "set D \<subseteq> {1..<n}" for D
      unfolding level_nodes_def using that by (intro filter_cong) (auto simp: same old)
    then have "level_nodes s' l B = level_nodes s l B" "level_nodes s' l C = level_nodes s l C" using set by auto
    then show ?thesis by (simp add: level_nodes_def same new)
  qed
  have "chain s' l 0 (level_nodes s' l (B @ n # C))" if l: "l < 12" for l
  proof -
    have c: "chain s l 0 (level_nodes s l B @ level_nodes s l C)" using ok l by (simp add: links_ok_def)
    have below: "y < n" if "y \<in> set (0 # level_nodes s l B @ level_nodes s l C)" for y using that set n0 by auto
    show ?thesis
    proof (cases "l < h")
      case False
      then have "chain s' l 0 (level_nodes s l B @ level_nodes s l C) = chain s l 0 (level_nodes s l B @ level_nodes s l C)"
        using below by (intro chain_frame) (auto simp: s'(3) old)
      then show ?thesis unfolding lev using c False by simp
    next
      case True
      have "distinct (level_nodes s l (B @ C))" "0 \<notin> set (level_nodes s l (B @ C))"
        using dist set by (simp_all add: level_nodes_def del: filter_append)
      then have d: "distinct (0 # level_nodes s l B @ level_nodes s l C)" by simp
      have c': "chain t l 0 (level_nodes s l B @ level_nodes s l C)"
        using c below chain_frame [of 0 "level_nodes s l B @ level_nodes s l C" t l s] old(3) by blast
      have "chain s' l 0 (level_nodes s l B @ n # level_nodes s l C)"
        using p [OF l] True below
        by (intro chain_insert [OF c' d]) (auto simp: s'(3) last_at_def [symmetric] simp del: last.simps)
      then show ?thesis unfolding lev using True by simp
    qed
  qed
  moreover have "distinct (B @ n # C)" "set (B @ n # C) = {1..<Suc n}" using dist set n0 by auto
  moreover have "0 < node_height s' x \<and> node_height s' x \<le> sl_max_height s'" if x: "x \<in> set (B @ n # C)" for x
  proof (cases "x = n")
    case True
    then show ?thesis using h(1) by (simp add: same new t(2))
  next
    case False
    then have "x \<in> set (B @ C)" "x < n" using x set by auto
    then have "0 < node_height s x \<and> node_height s x \<le> sl_max_height s" using ok unfolding links_ok_def by blast
    then show ?thesis using old(1) [OF \<open>x < n\<close>] by (simp add: same t(2) le_max_iff_disj)
  qed
  ultimately have "links_ok s' (B @ n # C)"
    using ok h n0 h0 old(1) by (simp add: links_ok_def same new t(2) del: set_append)
  then show ?thesis using s'(1) new(2) old(2) by (auto simp: same)
qed

context key_order
begin

lemma Insert_holds:
  assumes "holds s xs ks" and "ordered ks" and "valid key"
  shows "\<exists>s' xs'. SkipList_Insert cmp key s = Some s' \<and> holds s' xs' (ordered_insert cmp key ks)"
proof -
  obtain B C where xs: "xs = B @ C" "\<forall>b\<in>set B. cmp (node_key s b) key < 0"
    "\<forall>c\<in>set C. \<not> cmp (node_key s c) key < 0" and ks:
    "map (node_key s) B = takeWhile (\<lambda>k. cmp k key < 0) ks"
    "map (node_key s) C = dropWhile (\<lambda>k. cmp k key < 0) ks"
    using split_at [OF assms] .
  have ok: "links_ok s (B @ C)" using assms(1) xs(1) by (simp add: holds_def)
  obtain prev where prev: "FindGreaterOrEqual cmp s key = Some (first C, prev)"
    "\<And>j. j < sl_max_height s \<Longrightarrow> prev ! j = Some (last_at s B j)"
    using FindGreaterOrEqual_place [OF ok xs(2,3)] by blast
  obtain h s1 where r: "RandomHeight s = (h, s1)" by (cases "RandomHeight s")
  then obtain rnd where h: "0 < h" "h \<le> 12" and s1: "s1 = s\<lparr>sl_rnd := rnd\<rparr>" using RandomHeight_bounds by blast
  let ?n = "length (sl_nodes s)"
  define prev' where "prev' = (if sl_max_height s1 < h
    then map (\<lambda>i. if sl_max_height s1 \<le> i \<and> i < h then Some head else prev ! i) [0..<kMaxHeight] else prev)"
  define t where "t = s\<lparr>sl_rnd := rnd, sl_max_height := max (sl_max_height s) h,
    sl_nodes := sl_nodes s @ [\<lparr>nd_key = key, nd_next = replicate h None\<rparr>]\<rparr>"
  have "last_at s B j = 0" if "sl_max_height s \<le> j" for j
  proof -
    have "\<forall>x\<in>set (B @ C). node_height s x \<le> sl_max_height s" using ok unfolding links_ok_def by blast
    then have "\<forall>x\<in>set B. node_height s x \<le> j" using that order_trans by (simp add: ball_Un) blast
    then have "\<not> j < node_height s x" if "x \<in> set B" for x using that by fastforce
    then have "level_nodes s j B = []" by (simp add: level_nodes_def filter_empty_conv)
    then show ?thesis by (simp add: last_at_def)
  qed
  then have "prev' ! j = Some (last_at s B j)" if "j < h" for j
    using that h prev(2) by (auto simp: prev'_def s1 kMaxHeight_def head_def)
  then obtain s' where s': "link_node ?n h 0 prev' t = Some s'" "links_ok s' (B @ ?n # C)"
    "node_key s' ?n = key" "\<forall>x<?n. node_key s' x = node_key s x"
    using link_between [OF ok refl, of t key h prev'] h by (auto simp: t_def)
  have eq: "NewNode key h (if sl_max_height s1 < h then s1\<lparr>sl_max_height := h\<rparr> else s1) = (?n, t)"
    by (simp add: NewNode_def t_def s1 max_def)
  have "SkipList_Insert cmp key s = link_node ?n h 0 prev' t"
    unfolding SkipList_Insert_def by (simp add: prev(1) r eq prev'_def [symmetric] del: upt_Suc)
  moreover have "map (node_key s') (B @ ?n # C) = ordered_insert cmp key ks"
  proof -
    have "set (B @ C) = {1..<?n}" using ok unfolding links_ok_def by blast
    then have "\<forall>x\<in>set (B @ C). node_key s' x = node_key s x" using s'(4) by simp
    then have "map (node_key s') B = map (node_key s) B" "map (node_key s') C = map (node_key s) C"
      by (simp_all add: ball_Un)
    then show ?thesis using s'(3) ks by (simp add: ordered_insert_def)
  qed
  ultimately show ?thesis using s'(1,2) unfolding holds_def by metis
qed

end

end
