(* ===== verification/Ldb_Skiplist_Props.thy ===== *)
theory Ldb_Skiplist_Props
  imports Ldb_Skiplist_Ops Ldb_Key "HOL-Library.Multiset"
begin

text \<open>
  The skip list as an ordered collection: what a sequence of insertions, and the iterators after it,
  give for any comparator that orders the keys.
\<close>

section \<open>Walks\<close>

lemma level_0: "links_ok s xs \<Longrightarrow> level_nodes s 0 xs = xs \<and> chain s 0 0 xs \<and> 0 \<notin> set xs \<and> distinct xs"
proof -
  assume ok: "links_ok s xs"
  then have "level_nodes s 0 xs = xs" by (auto simp: links_ok_def level_nodes_def intro!: filter_True)
  moreover have "chain s 0 0 (level_nodes s 0 xs)" using ok unfolding links_ok_def by (metis zero_less_numeral)
  ultimately show ?thesis using ok by (simp add: links_ok_def)
qed

lemma level_0_last: "links_ok s (us @ vs) \<Longrightarrow> us = [] \<or> last us \<noteq> 0"
  using level_0 [of s "us @ vs"] by (cases us rule: rev_cases) auto

lemma chain_first: "chain s l x ys \<Longrightarrow> node_Next s x l = Some (first ys)"
  by (cases ys) (simp_all add: first_def)

text \<open>The keys that an iterator meets; \<open>None\<close> when more than \<open>n\<close> steps are needed.\<close>

fun walk :: "(sl_iterator \<Rightarrow> sl_iterator option) \<Rightarrow> 'k SkipList \<Rightarrow> nat \<Rightarrow> sl_iterator \<Rightarrow> 'k list option" where
  "walk step s 0 it = None"
| "walk step s (Suc n) it =
     (case it of
        None \<Rightarrow> Some []
      | Some x \<Rightarrow> do { it' \<leftarrow> step it; ks \<leftarrow> walk step s n it'; Some (node_key s x # ks) })"

lemma walk_forward: "chain s 0 x ys \<Longrightarrow> length ys < n \<Longrightarrow> walk (iter_Next s) s n (first ys) = Some (map (node_key s) ys)"
proof (induction ys arbitrary: x n)
  case Nil
  then show ?case by (cases n) (simp_all add: first_def)
next
  case (Cons y ys)
  then obtain m where n: "n = Suc m" by (cases n) auto
  have "chain s 0 y ys" using Cons.prems(1) by simp
  then have "iter_Next s (Some y) = Some (first ys)" "walk (iter_Next s) s m (first ys) = Some (map (node_key s) ys)"
    using Cons.IH [of y m] Cons.prems(2) n chain_first [of s 0 y ys] by (simp add: iter_Next_def, simp)
  then show ?case by (simp add: n first_def [of "y # ys"])
qed

definition from_last :: "nat list \<Rightarrow> sl_iterator" where
  "from_last xs = (if xs = [] then None else Some (last xs))"

context key_order
begin

definition strict :: "'k list \<Rightarrow> bool" where
  "strict ks \<longleftrightarrow> (\<forall>k\<in>set ks. valid k) \<and> sorted_wrt (\<lambda>a b. cmp a b < 0) ks"

lemma strict_ordered: "strict ks \<Longrightarrow> ordered ks"
  unfolding strict_def ordered_def by (auto elim: sorted_wrt_mono_rel [rotated])

lemma Prev_place:
  assumes "holds s (us @ y # vs) ks" and "strict ks"
  shows "iter_Prev cmp s (Some y) = Some (from_last us)"
proof -
  have ok: "links_ok s (us @ y # vs)" and ks: "ks = map (node_key s) us @ node_key s y # map (node_key s) vs"
    using assms(1) by (simp_all add: holds_def)
  have go: "\<forall>b\<in>set us. cmp (node_key s b) (node_key s y) < 0"
    and less: "\<forall>c\<in>set vs. cmp (node_key s y) (node_key s c) < 0"
    and val: "valid (node_key s y)" "\<forall>c\<in>set vs. valid (node_key s c)"
    using assms(2) unfolding strict_def ks by (simp_all add: sorted_wrt_append)
  have "\<not> cmp (node_key s y) (node_key s y) < 0" using less_swap [OF val(1,1)] le_refl [OF val(1)] by linarith
  moreover have "\<not> cmp (node_key s c) (node_key s y) < 0" if "c \<in> set vs" for c
    using less_swap [of "node_key s c" "node_key s y"] less val that by fastforce
  ultimately have "\<forall>c\<in>set (y # vs). \<not> cmp (node_key s c) (node_key s y) < 0" by simp
  from FindLessThan_place [OF ok go this] have f: "FindLessThan cmp s (node_key s y) = Some (last (0 # us))" .
  have "us = [] \<or> last us \<noteq> 0" using level_0_last [OF ok] .
  then show ?thesis by (auto simp: iter_Prev_def f from_last_def head_def)
qed

lemma walk_backward:
  "holds s (us @ vs) ks \<Longrightarrow> strict ks \<Longrightarrow> length us < n \<Longrightarrow>
    walk (iter_Prev cmp s) s n (from_last us) = Some (rev (map (node_key s) us))"
proof (induction us arbitrary: vs n rule: rev_induct)
  case Nil
  then show ?case by (cases n) (simp_all add: from_last_def)
next
  case (snoc y us)
  then obtain m where n: "n = Suc m" by (cases n) auto
  have "iter_Prev cmp s (Some y) = Some (from_last us)" using Prev_place [of s us y vs ks] snoc.prems by simp
  then show ?case using snoc.IH [of "y # vs" m] snoc.prems n by (simp add: from_last_def)
qed

lemma SeekToLast_place: "links_ok s xs \<Longrightarrow> iter_SeekToLast s = Some (from_last xs)"
proof -
  assume ok: "links_ok s xs"
  then have "xs = [] \<or> last xs \<noteq> 0" using level_0_last [of s xs "[]"] by simp
  then show ?thesis using FindLast_place [OF ok] by (auto simp: iter_SeekToLast_def head_def from_last_def)
qed

lemma SeekToFirst_place: "links_ok s xs \<Longrightarrow> iter_SeekToFirst s = Some (first xs)"
  using level_0 [of s xs] chain_first [of s 0 0 xs] by (simp add: iter_SeekToFirst_def head_def)

lemma filter_dropWhile:
  "ordered ks \<Longrightarrow> valid key \<Longrightarrow> dropWhile (\<lambda>k. cmp k key < 0) ks = filter (\<lambda>k. \<not> cmp k key < 0) ks"
proof -
  let ?P = "\<lambda>k. cmp k key < 0"
  assume "ordered ks" "valid key"
  then have "filter (\<lambda>k. \<not> ?P k) (dropWhile ?P ks) = dropWhile ?P ks"
    using not_less_after by (intro filter_True) blast
  moreover have "filter (\<lambda>k. \<not> ?P k) (takeWhile ?P ks) = []" by (auto simp: filter_empty_conv dest: set_takeWhileD)
  ultimately show ?thesis by (metis append_Nil filter_append takeWhile_dropWhile_id)
qed

lemma Seek_walk:
  assumes "holds s xs ks" and "ordered ks" and "valid key" and "length ks < n"
  shows "\<exists>it. iter_Seek cmp s key = Some it \<and>
    walk (iter_Next s) s n it = Some (filter (\<lambda>k. \<not> cmp k key < 0) ks) \<and>
    iter_key s it = first (filter (\<lambda>k. \<not> cmp k key < 0) ks)"
proof -
  obtain B C where xs: "xs = B @ C" "\<forall>b\<in>set B. cmp (node_key s b) key < 0"
    "\<forall>c\<in>set C. \<not> cmp (node_key s c) key < 0" and
    ks: "map (node_key s) C = dropWhile (\<lambda>k. cmp k key < 0) ks"
    using split_at [OF assms(1-3)] by metis
  have ok: "links_ok s (B @ C)" using assms(1) xs(1) by (simp add: holds_def)
  have "iter_Seek cmp s key = Some (first C)" using FindGreaterOrEqual_place [OF ok xs(2,3)] by (auto simp: iter_Seek_def)
  moreover have "chain s 0 (last (0 # B)) C" using level_0 [OF ok] chain_append [of s 0 0 B C] by blast
  moreover have "length C < n" using assms(1,4) xs(1) by (simp add: holds_def)
  moreover have "iter_key s (first C) = first (map (node_key s) C)" by (cases C) (simp_all add: first_def iter_key_def)
  ultimately show ?thesis using walk_forward [of s "last (0 # B)" C n] ks filter_dropWhile [OF assms(2,3)] by simp
qed

lemma Contains_place:
  assumes "holds s xs ks" and "ordered ks" and "valid key"
  shows "SkipList_Contains cmp s key = Some (\<exists>k\<in>set ks. cmp key k = 0)"
proof -
  let ?f = "filter (\<lambda>k. \<not> cmp k key < 0) ks"
  obtain it where it: "iter_Seek cmp s key = Some it" "iter_key s it = first ?f"
    using Seek_walk [OF assms lessI] by blast
  then obtain prev where F: "FindGreaterOrEqual cmp s key = Some (it, prev)" by (auto simp: iter_Seek_def)
  have C: "SkipList_Contains cmp s key = Some (case first ?f of None \<Rightarrow> False | Some k \<Rightarrow> cmp key k = 0)"
    using it(2) by (auto simp: SkipList_Contains_def F iter_key_def split: option.splits)
  have o: "ordered ?f" using assms(2) by (auto simp: ordered_def intro: sorted_wrt_filter)
  have "(\<exists>k\<in>set ks. cmp key k = 0) = (\<exists>k\<in>set ?f. cmp key k = 0)"
    using assms(2,3) eq_swap less_swap by (force simp: ordered_def)
  also have "\<dots> = (case first ?f of None \<Rightarrow> False | Some k \<Rightarrow> cmp key k = 0)"
  proof (cases ?f)
    case (Cons k r)
    have "k \<in> set ?f" unfolding Cons by simp
    then have k: "valid k" "cmp key k \<le> 0" using le_swap [of k key] assms(2,3) by (simp_all add: ordered_def)
    have "cmp key k = 0" if r: "j \<in> set r" "cmp key j = 0" for j
    proof -
      have "valid j" "cmp k j \<le> 0" using o r(1) unfolding Cons by (simp_all add: ordered_def)
      then show ?thesis using less_le [of key k j] k assms(3) r(2) by linarith
    qed
    then show ?thesis unfolding Cons by (auto simp: first_def)
  qed (simp only: first_def, simp)
  finally show ?thesis using C by simp
qed

end


section \<open>Sequences of insertions\<close>

fun insert_all :: "('k \<Rightarrow> 'k \<Rightarrow> int) \<Rightarrow> 'k list \<Rightarrow> 'k SkipList \<Rightarrow> 'k SkipList option" where
  "insert_all cmp [] s = Some s"
| "insert_all cmp (k # ks) s = do { s \<leftarrow> SkipList_Insert cmp k s; insert_all cmp ks s }"

lemma mset_ordered_insert [simp]: "mset (ordered_insert cmp k ks) = add_mset k (mset ks)"
proof -
  have "mset (takeWhile (\<lambda>j. cmp j k < 0) ks) + mset (dropWhile (\<lambda>j. cmp j k < 0) ks) = mset ks"
    by (metis mset_append takeWhile_dropWhile_id)
  then show ?thesis by (simp add: ordered_insert_def)
qed

context key_order
begin

lemma ordered_insert_strict:
  assumes "strict ks" and "valid k" and "\<forall>j\<in>set ks. cmp j k \<noteq> 0"
  shows "strict (ordered_insert cmp k ks)"
proof -
  let ?t = "takeWhile (\<lambda>j. cmp j k < 0) ks" and ?d = "dropWhile (\<lambda>j. cmp j k < 0) ks"
  have "sorted_wrt (\<lambda>a b. cmp a b < 0) (?t @ ?d)" using assms(1) by (simp add: strict_def)
  note s = this [unfolded sorted_wrt_append]
  have "\<forall>j\<in>set ?d. cmp k j < 0"
  proof
    fix j
    assume j: "j \<in> set ?d"
    then have j': "\<not> cmp j k < 0" using not_less_after [OF strict_ordered [OF assms(1)] assms(2)] by blast
    have "cmp j k \<noteq> 0" "valid j" using assms(1,3) set_dropWhileD [OF j] by (simp_all add: strict_def)
    with j' show "cmp k j < 0" using less_swap [OF assms(2) \<open>valid j\<close>] by linarith
  qed
  moreover have "\<forall>j\<in>set ?t. cmp j k < 0" by (meson set_takeWhileD)
  ultimately have "sorted_wrt (\<lambda>a b. cmp a b < 0) (ordered_insert cmp k ks)"
    unfolding ordered_insert_def sorted_wrt_append sorted_wrt.simps list.set using s by blast
  then show ?thesis using assms(1,2) by (auto simp: strict_def)
qed

lemma insert_all_holds:
  "holds s xs ks \<Longrightarrow> strict ks \<Longrightarrow> \<forall>k\<in>set keys. valid k \<Longrightarrow>
    sorted_wrt (\<lambda>a b. cmp a b \<noteq> 0) keys \<Longrightarrow> \<forall>a\<in>set ks. \<forall>b\<in>set keys. cmp a b \<noteq> 0 \<Longrightarrow>
    \<exists>s' xs' ks'. insert_all cmp keys s = Some s' \<and> holds s' xs' ks' \<and> strict ks' \<and> mset ks' = mset ks + mset keys"
proof (induction keys arbitrary: s xs ks)
  case (Cons k keys)
  then obtain t ys where t: "SkipList_Insert cmp k s = Some t" "holds t ys (ordered_insert cmp k ks)"
    using Insert_holds [of s xs ks k] strict_ordered by auto
  have "strict (ordered_insert cmp k ks)" using Cons.prems by (intro ordered_insert_strict) auto
  then show ?case using Cons.IH [OF t(2)] Cons.prems t(1) by simp
qed auto

lemma insertions:
  assumes "\<forall>k\<in>set keys. valid k" and "sorted_wrt (\<lambda>a b. cmp a b \<noteq> 0) keys" and "length keys < n" and "valid target"
  shows "\<exists>s ks at_first at_last at. insert_all cmp keys (SkipList_new any_key) = Some s \<and>
    mset ks = mset keys \<and> sorted_wrt (\<lambda>a b. cmp a b < 0) ks \<and>
    iter_SeekToFirst s = Some at_first \<and> walk (iter_Next s) s n at_first = Some ks \<and>
    iter_SeekToLast s = Some at_last \<and> walk (iter_Prev cmp s) s n at_last = Some (rev ks) \<and>
    iter_Seek cmp s target = Some at \<and>
    walk (iter_Next s) s n at = Some (filter (\<lambda>k. \<not> cmp k target < 0) ks) \<and>
    SkipList_Contains cmp s target = Some (\<exists>k\<in>set keys. cmp target k = 0)"
proof -
  obtain s xs ks where s: "insert_all cmp keys (SkipList_new any_key) = Some s" "holds s xs ks" "strict ks"
    and m: "mset ks = mset keys"
    using insert_all_holds [OF SkipList_new_holds, of keys any_key] assms(1,2) by (auto simp: strict_def)
  have ok: "links_ok s xs" and ks: "ks = map (node_key s) xs" using s(2) by (simp_all add: holds_def)
  have n: "length xs < n" using m assms(3) ks by (metis length_map size_mset)
  have k: "set ks = set keys" using m by (metis set_mset_mset)
  obtain at where "iter_Seek cmp s target = Some at"
    "walk (iter_Next s) s n at = Some (filter (\<lambda>k. \<not> cmp k target < 0) ks)"
    using Seek_walk [OF s(2) strict_ordered [OF s(3)] assms(4), of n] n ks by auto
  moreover have "walk (iter_Next s) s n (first xs) = Some ks"
    using walk_forward [of s 0 xs n] level_0 [OF ok] n ks by simp
  moreover have "walk (iter_Prev cmp s) s n (from_last xs) = Some (rev ks)"
    using walk_backward [of s xs "[]" ks n] s(2,3) n ks by simp
  moreover have "sorted_wrt (\<lambda>a b. cmp a b < 0) ks" using s(3) by (simp add: strict_def)
  moreover have "SkipList_Contains cmp s target = Some (\<exists>k\<in>set keys. cmp target k = 0)"
    using Contains_place [OF s(2) strict_ordered [OF s(3)] assms(4)] k by simp
  ultimately show ?thesis
    using s(1) m SeekToFirst_place [OF ok] SeekToLast_place [OF ok] by blast
qed

end

sublocale comparator \<subseteq> key_order valid cmp
proof
  fix a b c
  show "valid a \<Longrightarrow> cmp a a \<le> 0" by simp
  show "valid a \<Longrightarrow> valid b \<Longrightarrow> cmp a b < 0 \<longleftrightarrow> 0 < cmp b a" by (rule cmp_swap)
  show "valid a \<Longrightarrow> valid b \<Longrightarrow> valid c \<Longrightarrow> cmp a b \<le> 0 \<Longrightarrow> cmp b c < 0 \<Longrightarrow> cmp a c < 0"
    by (rule cmp_le_less_trans)
qed

text \<open>
  C33: The random heights of the skip list come from the generator that multiplies by 16807 modulo the
  prime \<open>2^31 - 1\<close>: the shifts and additions of the code compute that product, from every state the
  constructor allows, and lead to such a state again.
\<close>

theorem random_next_lehmer:
  assumes "0 < unat seed" and "unat seed < 2147483647"
  shows "unat (Random_Next seed) = unat seed * 16807 mod 2147483647 \<and>
    0 < unat (Random_Next seed) \<and> unat (Random_Next seed) < 2147483647"
  using Random_Next_mod [OF assms] by simp

theorem random_next_lehmer_witness: "unat (Random_Next 2147483646) = 2147466840"
  using random_next_lehmer [of 2147483646] by simp

text \<open>
  C34: The skip list implements an ordered collection, whatever heights its nodes get: after any
  sequence of insertions of keys no two of which are equal, none of which fails, a walk from the first
  key meets exactly the inserted keys in order, a walk back from the last key meets them in reverse, a
  walk from the place of a target meets those not less than it, and \<open>Contains\<close> finds exactly the keys
  equal to an inserted one.
\<close>

theorem skiplist_ordered_collection:
  assumes "key_order valid cmp" and "\<forall>k\<in>set keys. valid k" and "sorted_wrt (\<lambda>a b. cmp a b \<noteq> 0) keys"
    and "length keys < n" and "valid target"
  shows "\<exists>s ks at_first at_last at. insert_all cmp keys (SkipList_new any_key) = Some s \<and>
    mset ks = mset keys \<and> sorted_wrt (\<lambda>a b. cmp a b < 0) ks \<and>
    iter_SeekToFirst s = Some at_first \<and> walk (iter_Next s) s n at_first = Some ks \<and>
    iter_SeekToLast s = Some at_last \<and> walk (iter_Prev cmp s) s n at_last = Some (rev ks) \<and>
    iter_Seek cmp s target = Some at \<and>
    walk (iter_Next s) s n at = Some (filter (\<lambda>k. \<not> cmp k target < 0) ks) \<and>
    SkipList_Contains cmp s target = Some (\<exists>k\<in>set keys. cmp target k = 0)"
  by (rule key_order.insertions [OF assms])

theorem skiplist_ordered_collection_witness:
  "\<exists>s. insert_all Slice_compare [[2], [1, 5], [3], []] (SkipList_new []) = Some s \<and>
    SkipList_Contains Slice_compare s [3] = Some True"
proof -
  have "key_order (\<lambda>_. True) Slice_compare" by unfold_locales
  from skiplist_ordered_collection [OF this, of "[[2], [1, 5], [3], []]" 5 "[]" "[3]"]
  show ?thesis by (auto simp: Slice_compare_order)
qed

end
