(* ===== verification/Ldb_Memtable.thy ===== *)
theory Ldb_Memtable
  imports Ldb_Skiplist_Props Ldb_Key_Props Ldb_Status
begin

text \<open>
  The memtable of leveldb (\<open>db/memtable.cc\<close>, \<open>db/memtable.h\<close>): a skip list of buffers, each holding an
  internal key and a value, in the order of the internal keys; and what its operations mean for the
  entries that were added.
\<close>

section \<open>The code\<close>

text \<open>
  A pointer into a buffer is the bytes from there to the end of the buffer.  \<open>None\<close>: no varint, or more
  bytes announced than the buffer holds.
\<close>

definition prefixed_slice :: "slice \<Rightarrow> (slice \<times> slice) option" where
  "prefixed_slice data =
     (case GetVarint32Ptr (take 5 data) of
        None \<Rightarrow> None
      | Some (len, q) \<Rightarrow>
          let p = drop (length (take 5 data) - length q) data
          in if length p < unat len then None else Some (take (unat len) p, drop (unat len) p))"

text \<open>The comparator of the skip list; it is not defined on buffers without a length-prefixed key.\<close>

definition KeyComparator :: "(slice \<Rightarrow> slice \<Rightarrow> int) \<Rightarrow> slice \<Rightarrow> slice \<Rightarrow> int" where
  "KeyComparator user_cmp aptr bptr =
     (case (prefixed_slice aptr, prefixed_slice bptr) of
        (Some (a, _), Some (b, _)) \<Rightarrow> InternalKey_Compare user_cmp a b
      | _ \<Rightarrow> 0)"

definition EncodeKey :: "slice \<Rightarrow> slice" where
  "EncodeKey target = PutVarint32 [] (of_nat (length target)) @ target"

record MemTable =
  mt_table :: "slice SkipList"
  mt_refs :: int

definition MemTable_new :: MemTable where
  "MemTable_new = \<lparr>mt_table = SkipList_new [], mt_refs = 0\<rparr>"

definition MemTable_Ref :: "MemTable \<Rightarrow> MemTable" where
  "MemTable_Ref m = m\<lparr>mt_refs := mt_refs m + 1\<rparr>"

text \<open>\<open>None\<close>: the memtable is deleted.\<close>

definition MemTable_Unref :: "MemTable \<Rightarrow> MemTable option" where
  "MemTable_Unref m = (if mt_refs m - 1 \<le> 0 then None else Some (m\<lparr>mt_refs := mt_refs m - 1\<rparr>))"

text \<open>\<open>None\<close>: the buffer that was allocated is not filled exactly, as the code asserts.\<close>

definition MemTable_Add ::
  "(slice \<Rightarrow> slice \<Rightarrow> int) \<Rightarrow> u64 \<Rightarrow> ValueType \<Rightarrow> slice \<Rightarrow> slice \<Rightarrow> MemTable \<Rightarrow> MemTable option" where
  "MemTable_Add user_cmp s type key value m =
     (let key_size = length key; val_size = length value; internal_key_size = key_size + 8;
          encoded_len = VarintLength (of_nat internal_key_size) + internal_key_size +
            VarintLength (of_nat val_size) + val_size;
          buf = EncodeVarint32 (of_nat internal_key_size) @ key @ EncodeFixed64 (push_bit 8 s OR type_code type) @
            EncodeVarint32 (of_nat val_size) @ value
      in if length buf = encoded_len
         then map_option (\<lambda>t. m\<lparr>mt_table := t\<rparr>) (SkipList_Insert (KeyComparator user_cmp) buf (mt_table m))
         else None)"

text \<open>
  The result, \<open>*value\<close> and \<open>*s\<close> afterwards; the outer \<open>None\<close>: a malformed entry.
\<close>

definition MemTable_Get ::
  "(slice \<Rightarrow> slice \<Rightarrow> int) \<Rightarrow> LookupKey \<Rightarrow> slice \<Rightarrow> Status \<Rightarrow> MemTable \<Rightarrow> (bool \<times> slice \<times> Status) option" where
  "MemTable_Get user_cmp key value s m = do {
     it \<leftarrow> iter_Seek (KeyComparator user_cmp) (mt_table m) (memtable_key key);
     case iter_key (mt_table m) it of
       None \<Rightarrow> Some (False, value, s)
     | Some entry \<Rightarrow> do {
         (ikey, rest) \<leftarrow> prefixed_slice entry;
         if user_cmp (take (length ikey - 8) ikey) (lookup_user_key key) = 0 then do {
           tag \<leftarrow> DecodeFixed64 (drop (length ikey - 8) ikey);
           if tag AND 0xff = type_code kTypeValue then do {
             (v, _) \<leftarrow> prefixed_slice rest;
             Some (True, v, s) }
           else if tag AND 0xff = type_code kTypeDeletion then Some (True, value, NotFound [] [])
           else Some (False, value, s) }
         else Some (False, value, s) } }"

text \<open>The iterator of a memtable is that of its skip list.\<close>

definition MemTableIterator_Seek :: "(slice \<Rightarrow> slice \<Rightarrow> int) \<Rightarrow> MemTable \<Rightarrow> slice \<Rightarrow> sl_iterator option" where
  "MemTableIterator_Seek user_cmp m k = iter_Seek (KeyComparator user_cmp) (mt_table m) (EncodeKey k)"

definition MemTableIterator_key :: "MemTable \<Rightarrow> sl_iterator \<Rightarrow> slice option" where
  "MemTableIterator_key m it = do { e \<leftarrow> iter_key (mt_table m) it; (k, _) \<leftarrow> prefixed_slice e; Some k }"

definition MemTableIterator_value :: "MemTable \<Rightarrow> sl_iterator \<Rightarrow> slice option" where
  "MemTableIterator_value m it = do {
     e \<leftarrow> iter_key (mt_table m) it;
     (_, rest) \<leftarrow> prefixed_slice e;
     (v, _) \<leftarrow> prefixed_slice rest;
     Some v }"

section \<open>Entries\<close>

record entry =
  en_seq :: u64
  en_type :: ValueType
  en_key :: slice
  en_value :: slice

definition entry_ok :: "entry \<Rightarrow> bool" where
  "entry_ok e \<longleftrightarrow> en_seq e \<le> kMaxSequenceNumber \<and> length (en_key e) + 8 < 2 ^ 32 \<and> length (en_value e) < 2 ^ 32"

definition entry_ikey :: "entry \<Rightarrow> slice" where
  "entry_ikey e = AppendInternalKey [] \<lparr>pk_user_key = en_key e, pk_sequence = en_seq e, pk_type = en_type e\<rparr>"

definition entry_bytes :: "entry \<Rightarrow> slice" where
  "entry_bytes e = PutLengthPrefixedSlice (PutLengthPrefixedSlice [] (entry_ikey e)) (en_value e)"

lemma prefixed_slice_Put: "length v < 2 ^ 32 \<Longrightarrow> prefixed_slice (PutLengthPrefixedSlice [] v @ rest) = Some (v, rest)"
proof -
  assume v: "length v < 2 ^ 32"
  let ?e = "EncodeVarint32 (of_nat (length v))"
  have l: "length ?e \<le> 5" using length_leb128_u32 by (simp add: EncodeVarint32_leb128)
  have "GetVarint32 (?e @ take (5 - length ?e) (v @ rest)) = (Some (of_nat (length v)), take (5 - length ?e) (v @ rest))"
    by (rule GetVarint32_Encode)
  then have g: "GetVarint32Ptr (take 5 (?e @ v @ rest)) = Some (of_nat (length v), take (5 - length ?e) (v @ rest))"
    using l by (auto simp: GetVarint32_def split: option.splits prod.splits)
  have "length (take 5 (?e @ v @ rest)) - length (take (5 - length ?e) (v @ rest)) = length ?e"
    using l by simp
  then show ?thesis
    using v g by (simp add: prefixed_slice_def PutLengthPrefixedSlice_def PutVarint32_def unat_of_nat_mod Let_def)
qed

end
