(* ===== verification/Ldb_Batch.thy ===== *)
theory Ldb_Batch
  imports Ldb_Memtable
begin

text \<open>
  Write batches of leveldb (\<open>db/write_batch.cc\<close>, \<open>db/write_batch_internal.h\<close>): one string with a sequence
  number, a count and the records of the updates.
\<close>

definition kHeader :: nat where
  "kHeader = 12"

definition WriteBatch_Clear :: slice where
  "WriteBatch_Clear = replicate kHeader 0"

text \<open>\<open>None\<close>, here and below: the string is shorter than its header.\<close>

definition WriteBatch_Count :: "slice \<Rightarrow> u32 option" where
  "WriteBatch_Count rep = DecodeFixed32 (drop 8 rep)"

definition WriteBatch_SetCount :: "slice \<Rightarrow> u32 \<Rightarrow> slice option" where
  "WriteBatch_SetCount rep n =
     (if length rep < 12 then None else Some (take 8 rep @ EncodeFixed32 n @ drop 12 rep))"

definition WriteBatch_Sequence :: "slice \<Rightarrow> u64 option" where
  "WriteBatch_Sequence rep = DecodeFixed64 rep"

definition WriteBatch_SetSequence :: "slice \<Rightarrow> u64 \<Rightarrow> slice option" where
  "WriteBatch_SetSequence rep seq =
     (if length rep < 8 then None else Some (EncodeFixed64 seq @ drop 8 rep))"

definition WriteBatch_ByteSize :: "slice \<Rightarrow> nat" where
  "WriteBatch_ByteSize rep = length rep"

definition WriteBatch_Contents :: "slice \<Rightarrow> slice" where
  "WriteBatch_Contents rep = rep"

definition tag_byte :: "ValueType \<Rightarrow> u8" where
  "tag_byte t = ucast (type_code t)"

definition WriteBatch_Put :: "slice \<Rightarrow> slice \<Rightarrow> slice \<Rightarrow> slice option" where
  "WriteBatch_Put key value rep = do {
     n \<leftarrow> WriteBatch_Count rep;
     rep \<leftarrow> WriteBatch_SetCount rep (n + 1);
     Some (PutLengthPrefixedSlice (PutLengthPrefixedSlice (rep @ [tag_byte kTypeValue]) key) value) }"

definition WriteBatch_Delete :: "slice \<Rightarrow> slice \<Rightarrow> slice option" where
  "WriteBatch_Delete key rep = do {
     n \<leftarrow> WriteBatch_Count rep;
     rep \<leftarrow> WriteBatch_SetCount rep (n + 1);
     Some (PutLengthPrefixedSlice (rep @ [tag_byte kTypeDeletion]) key) }"

definition WriteBatch_Append :: "slice \<Rightarrow> slice \<Rightarrow> slice option" where
  "WriteBatch_Append dst src = do {
     n \<leftarrow> WriteBatch_Count dst;
     m \<leftarrow> WriteBatch_Count src;
     dst \<leftarrow> WriteBatch_SetCount dst (n + m);
     if length src < kHeader then None else Some (dst @ drop kHeader src) }"

definition WriteBatch_SetContents :: "slice \<Rightarrow> slice option" where
  "WriteBatch_SetContents contents = (if length contents < kHeader then None else Some contents)"

section \<open>Iteration\<close>

text \<open>A record is read from the front of the input: its update, or the message of the corruption.\<close>

datatype batch_op = Op_Put slice slice | Op_Delete slice

definition read_op :: "slice \<Rightarrow> (Status + batch_op) \<times> slice" where
  "read_op input =
     (let tag = hd input; input = tl input
      in if tag = tag_byte kTypeValue
         then case GetLengthPrefixedSlice input of
                (Some key, input) \<Rightarrow>
                  (case GetLengthPrefixedSlice input of
                     (Some value, input) \<Rightarrow> (Inr (Op_Put key value), input)
                   | (None, input) \<Rightarrow> (Inl (Corruption (bytes ''bad WriteBatch Put'') []), input))
              | (None, input) \<Rightarrow> (Inl (Corruption (bytes ''bad WriteBatch Put'') []), input)
         else if tag = tag_byte kTypeDeletion
         then case GetLengthPrefixedSlice input of
                (Some key, input) \<Rightarrow> (Inr (Op_Delete key), input)
              | (None, input) \<Rightarrow> (Inl (Corruption (bytes ''bad WriteBatch Delete'') []), input)
         else (Inl (Corruption (bytes ''unknown WriteBatch tag'') []), input))"

lemma GetVarint32_shorter: "GetVarint32 input = (r, input') \<Longrightarrow> length input' \<le> length input"
  by (auto simp: GetVarint32_def GetVarint32_spec Let_def split: option.splits if_splits)

lemma GetLengthPrefixedSlice_shorter:
  assumes "GetLengthPrefixedSlice input = (r, input')"
  shows "length input' \<le> length input"
proof -
  obtain l i where g: "GetVarint32 input = (l, i)" by fastforce
  then have "length i \<le> length input" by (rule GetVarint32_shorter)
  then show ?thesis using assms g by (auto simp: GetLengthPrefixedSlice_def split: option.splits if_splits)
qed

lemma read_op_shorter:
  assumes "read_op input = (Inr x, input')" and "input \<noteq> []"
  shows "length input' < length input"
proof -
  obtain k i where k: "GetLengthPrefixedSlice (tl input) = (k, i)" by fastforce
  obtain v j where v: "GetLengthPrefixedSlice i = (v, j)" by fastforce
  have "length (tl input) < length input" using assms(2) by (cases input) simp_all
  moreover have "length i \<le> length (tl input)" "length j \<le> length i"
    using GetLengthPrefixedSlice_shorter k v by blast+
  moreover have "input' = i \<or> input' = j"
    using assms(1) k v by (auto simp: read_op_def Let_def split: if_splits option.splits)
  ultimately show ?thesis by auto
qed

text \<open>
  The handler is a function on its state; \<open>None\<close>: it does not return.  The result is the handler's state
  when the iteration stops, with the status.
\<close>

function iterate_loop ::
  "u32 \<Rightarrow> (batch_op \<Rightarrow> 'h \<Rightarrow> 'h option) \<Rightarrow> u32 \<Rightarrow> slice \<Rightarrow> 'h \<Rightarrow> (Status \<times> 'h) option" where
  "iterate_loop cnt handler found input h =
     (if input = []
      then Some (if found \<noteq> cnt then (Corruption (bytes ''WriteBatch has wrong count'') [], h) else (Status_OK, h))
      else case read_op input of
             (Inl s, _) \<Rightarrow> Some (s, h)
           | (Inr x, input) \<Rightarrow>
               (case handler x h of None \<Rightarrow> None | Some h \<Rightarrow> iterate_loop cnt handler (found + 1) input h))"
  by pat_completeness auto
termination
  by (relation "measure (\<lambda>(_, _, _, input, _). length input)") (auto dest: read_op_shorter [OF sym])

declare iterate_loop.simps [simp del]

definition WriteBatch_Iterate :: "slice \<Rightarrow> (batch_op \<Rightarrow> 'h \<Rightarrow> 'h option) \<Rightarrow> 'h \<Rightarrow> (Status \<times> 'h) option" where
  "WriteBatch_Iterate rep handler h =
     (if length rep < kHeader then Some (Corruption (bytes ''malformed WriteBatch (too small)'') [], h)
      else do {
        cnt \<leftarrow> WriteBatch_Count rep;
        iterate_loop cnt handler 0 (drop kHeader rep) h })"

section \<open>Insertion into a memtable\<close>

type_synonym inserter = "u64 \<times> MemTable"

definition MemTableInserter :: "(slice \<Rightarrow> slice \<Rightarrow> int) \<Rightarrow> batch_op \<Rightarrow> inserter \<Rightarrow> inserter option" where
  "MemTableInserter user_cmp op h =
     (case (op, h) of
        (Op_Put key value, sequence, mem) \<Rightarrow>
          map_option (Pair (sequence + 1)) (MemTable_Add user_cmp sequence kTypeValue key value mem)
      | (Op_Delete key, sequence, mem) \<Rightarrow>
          map_option (Pair (sequence + 1)) (MemTable_Add user_cmp sequence kTypeDeletion key [] mem))"

definition WriteBatch_InsertInto ::
  "(slice \<Rightarrow> slice \<Rightarrow> int) \<Rightarrow> slice \<Rightarrow> MemTable \<Rightarrow> (Status \<times> MemTable) option" where
  "WriteBatch_InsertInto user_cmp rep mem = do {
     sequence \<leftarrow> WriteBatch_Sequence rep;
     (s, _, mem) \<leftarrow> WriteBatch_Iterate rep (MemTableInserter user_cmp) (sequence, mem);
     Some (s, mem) }"

end
