(* ===== verification/Ldb_Memtable_Props.thy ===== *)
theory Ldb_Memtable_Props
  imports Ldb_Memtable
begin

text \<open>
  The memtable as a multi-version map: after any sequence of additions a lookup finds the newest entry
  of a user key that the snapshot allows.
\<close>

section \<open>The specification\<close>

definition visible :: "slice \<Rightarrow> u64 \<Rightarrow> entry \<Rightarrow> bool" where
  "visible u snap e \<longleftrightarrow> en_key e = u \<and> en_seq e \<le> snap"

text \<open>The entry with the largest sequence number among those visible.\<close>

fun newest :: "slice \<Rightarrow> u64 \<Rightarrow> entry list \<Rightarrow> entry option" where
  "newest u snap [] = None"
| "newest u snap (e # es) =
     (let r = newest u snap es
      in if visible u snap e \<and> (case r of None \<Rightarrow> True | Some e' \<Rightarrow> en_seq e' < en_seq e) then Some e else r)"

text \<open>What a lookup returns for it.\<close>

definition lookup_result :: "entry option \<Rightarrow> slice \<Rightarrow> Status \<Rightarrow> bool \<times> slice \<times> Status" where
  "lookup_result r value s =
     (case r of
        None \<Rightarrow> (False, value, s)
      | Some e \<Rightarrow> if en_type e = kTypeValue then (True, en_value e, s) else (True, value, NotFound [] []))"

lemma newest_None: "newest u snap es = None \<longleftrightarrow> (\<forall>e\<in>set es. \<not> visible u snap e)"
  by (induction es) (auto simp: Let_def split: option.splits)

lemma newest_Some:
  "newest u snap es = Some e \<Longrightarrow>
    e \<in> set es \<and> visible u snap e \<and> (\<forall>e'\<in>set es. visible u snap e' \<longrightarrow> en_seq e' \<le> en_seq e)"
proof (induction es arbitrary: e)
  case (Cons x es)
  show ?case
  proof (cases "newest u snap es")
    case None
    then show ?thesis using Cons.prems newest_None [of u snap es] by (auto simp: Let_def split: if_splits)
  next
    case (Some y)
    then show ?thesis using Cons.IH [OF Some] Cons.prems by (auto simp: Let_def split: if_splits)
  qed
qed simp

lemma newest_eq:
  assumes "distinct (map (\<lambda>e. (en_key e, en_seq e)) es)" and "e \<in> set es" and "visible u snap e"
    and "\<And>e'. e' \<in> set es \<Longrightarrow> visible u snap e' \<Longrightarrow> en_seq e' \<le> en_seq e"
  shows "newest u snap es = Some e"
proof (cases "newest u snap es")
  case None
  then show ?thesis using assms(2,3) by (simp add: newest_None)
next
  case (Some y)
  then have y: "y \<in> set es" "visible u snap y" "en_seq e \<le> en_seq y" using newest_Some assms(2,3) by blast+
  then have "(\<lambda>e. (en_key e, en_seq e)) y = (\<lambda>e. (en_key e, en_seq e)) e"
    using assms(3) assms(4) [of y] by (simp add: visible_def)
  then have "y = e" using assms(1,2) y(1) by (auto simp: distinct_map dest: inj_onD)
  then show ?thesis using Some by simp
qed

section \<open>The order of the entries\<close>

definition en_tag :: "entry \<Rightarrow> u64" where
  "en_tag e = PackSequenceAndType (en_seq e) (en_type e)"

lemma entry_ikey_simps [simp]:
  "ExtractUserKey (entry_ikey e) = en_key e" "key_tag (entry_ikey e) = en_tag e"
  "length (entry_ikey e) = length (en_key e) + 8"
  by (simp_all add: entry_ikey_def AppendInternalKey_def en_tag_def)

lemma entry_prefixed: "entry_ok e \<Longrightarrow> prefixed_slice (entry_bytes e) = Some (entry_ikey e, PutLengthPrefixedSlice [] (en_value e))"
  unfolding entry_bytes_def Put_append [of "PutLengthPrefixedSlice [] (entry_ikey e)"]
  by (rule prefixed_slice_Put) (simp add: entry_ok_def)

lemma value_prefixed: "entry_ok e \<Longrightarrow> prefixed_slice (PutLengthPrefixedSlice [] (en_value e)) = Some (en_value e, [])"
  using prefixed_slice_Put [of "en_value e" "[]"] by (simp add: entry_ok_def)

text \<open>The packed tag orders by sequence number first.\<close>

lemma en_tag_seq:
  assumes "entry_ok e" "entry_ok e'" "en_tag e \<le> en_tag e'"
  shows "en_seq e \<le> en_seq e'"
  using PackSequenceAndType_less [of "en_seq e'" "en_seq e" "en_type e'" "en_type e"] assms
  by (auto simp: entry_ok_def en_tag_def not_less [symmetric])

lemma seek_tag:
  assumes "entry_ok e" "snap \<le> kMaxSequenceNumber"
  shows "\<not> PackSequenceAndType snap kValueTypeForSeek < en_tag e \<longleftrightarrow> en_seq e \<le> snap"
  using PackSequenceAndType_less [of snap "en_seq e" kValueTypeForSeek "en_type e"] assms
  by (auto simp: entry_ok_def en_tag_def kValueTypeForSeek_def not_less [symmetric])

lemma ikey_inject: "entry_ok e \<Longrightarrow> entry_ok e' \<Longrightarrow> entry_ikey e = entry_ikey e' \<longleftrightarrow>
    en_key e = en_key e' \<and> en_seq e = en_seq e' \<and> en_type e = en_type e'"
proof
  assume e: "entry_ok e" "entry_ok e'" and eq: "entry_ikey e = entry_ikey e'"
  have k: "en_key e = en_key e'" "en_tag e = en_tag e'" by (metis entry_ikey_simps(1,2) eq)+
  then have "256 * unat (en_seq e) + unat (type_code (en_type e)) = 256 * unat (en_seq e') + unat (type_code (en_type e'))"
    using e by (metis en_tag_def entry_ok_def unat_PackSequenceAndType)
  then have "unat (en_seq e) = unat (en_seq e') \<and> en_type e = en_type e'"
    by (cases "en_type e"; cases "en_type e'") (simp_all, presburger+)
  then show "en_key e = en_key e' \<and> en_seq e = en_seq e' \<and> en_type e = en_type e'"
    using k(1) by (simp add: word_unat_eq_iff)
qed (simp add: entry_ikey_def)

context user_comparator
begin

definition mem_valid :: "slice \<Rightarrow> bool" where
  "mem_valid d \<longleftrightarrow> (\<exists>k rest. prefixed_slice d = Some (k, rest) \<and> ivalid k)"

lemma mem_order: "key_order mem_valid (KeyComparator cmp)"
proof
  fix a b c
  show "mem_valid a \<Longrightarrow> KeyComparator cmp a a \<le> 0" by (auto simp: mem_valid_def KeyComparator_def)
  show "KeyComparator cmp a b < 0 \<longleftrightarrow> 0 < KeyComparator cmp b a" if "mem_valid a" "mem_valid b"
    using that internal.less_swap by (auto simp: mem_valid_def KeyComparator_def)
  show "KeyComparator cmp a c < 0" if "mem_valid a" "mem_valid b" "mem_valid c" "KeyComparator cmp a b \<le> 0"
    "KeyComparator cmp b c < 0"
    using that internal.le_less by (fastforce simp: mem_valid_def KeyComparator_def)
qed

end

sublocale user_comparator \<subseteq> mem: key_order mem_valid "KeyComparator cmp"
  by (rule mem_order)

context user_comparator
begin

definition entries_ok :: "entry list \<Rightarrow> bool" where
  "entries_ok es \<longleftrightarrow> (\<forall>e\<in>set es. entry_ok e \<and> valid (en_key e)) \<and> distinct (map (\<lambda>e. (en_key e, en_seq e)) es)"

text \<open>A memtable and the entries that were added to it, in the order of their addition.\<close>

definition represents :: "MemTable \<Rightarrow> entry list \<Rightarrow> bool" where
  "represents m es \<longleftrightarrow> entries_ok es \<and>
     (\<exists>xs ks. holds (mt_table m) xs ks \<and> mem.strict ks \<and> mset ks = mset (map entry_bytes es))"

lemma KeyComparator_entry:
  assumes "entry_ok e" "entry_ok e'"
  shows "KeyComparator cmp (entry_bytes e) (entry_bytes e') = InternalKey_Compare cmp (entry_ikey e) (entry_ikey e')"
  using assms by (simp add: KeyComparator_def entry_prefixed)

lemma entry_ivalid: "entry_ok e \<Longrightarrow> valid (en_key e) \<Longrightarrow> ivalid (entry_ikey e)"
  by (simp add: ivalid_def)

lemma entry_mem_valid: "entry_ok e \<Longrightarrow> valid (en_key e) \<Longrightarrow> mem_valid (entry_bytes e)"
  by (simp add: mem_valid_def entry_prefixed entry_ivalid)

lemma new_represents: "represents MemTable_new []"
  using SkipList_new_holds [of "[] :: slice"]
  by (auto simp: represents_def MemTable_new_def entries_ok_def mem.strict_def)

lemma Add_represents:
  assumes "represents m es" and "entries_ok (es @ [e])"
  shows "\<exists>m'. MemTable_Add cmp (en_seq e) (en_type e) (en_key e) (en_value e) m = Some m' \<and>
    represents m' (es @ [e]) \<and> mt_refs m' = mt_refs m"
proof -
  have e: "entry_ok e" "valid (en_key e)" and es: "\<forall>d\<in>set es. entry_ok d \<and> valid (en_key d)"
    and new: "\<forall>d\<in>set es. (en_key d, en_seq d) \<noteq> (en_key e, en_seq e)"
    using assms(2) by (fastforce simp: entries_ok_def image_iff)+
  obtain xs ks where h: "holds (mt_table m) xs ks" "mem.strict ks" "mset ks = mset (map entry_bytes es)"
    using assms(1) by (auto simp: represents_def)
  have val: "mem_valid (entry_bytes e)" using entry_mem_valid e by blast
  have len: "unat (of_nat (length (en_key e) + 8) :: u64) = length (en_key e) + 8"
    "unat (of_nat (length (en_key e) + 8) :: u32) = length (en_key e) + 8"
    "unat (of_nat (length (en_value e)) :: u64) = length (en_value e)"
    "unat (of_nat (length (en_value e)) :: u32) = length (en_value e)"
    using e(1) by (simp_all add: entry_ok_def unat_of_nat_mod del: of_nat_add)
  have buf: "EncodeVarint32 (of_nat (length (en_key e) + 8)) @ en_key e @
      EncodeFixed64 (push_bit 8 (en_seq e) OR type_code (en_type e)) @
      EncodeVarint32 (of_nat (length (en_value e))) @ en_value e = entry_bytes e"
    by (simp add: entry_bytes_def PutLengthPrefixedSlice_def PutVarint32_def entry_ikey_def AppendInternalKey_def
        PutFixed64_def PackSequenceAndType_def)
  have enc: "length (entry_bytes e) = VarintLength (of_nat (length (en_key e) + 8)) + (length (en_key e) + 8) +
      VarintLength (of_nat (length (en_value e))) + length (en_value e)"
    unfolding buf [symmetric] VarintLength_leb128 EncodeVarint32_leb128 len by simp
  have add: "MemTable_Add cmp (en_seq e) (en_type e) (en_key e) (en_value e) m =
      map_option (\<lambda>t. m\<lparr>mt_table := t\<rparr>) (SkipList_Insert (KeyComparator cmp) (entry_bytes e) (mt_table m))"
    unfolding MemTable_Add_def Let_def buf using enc by simp
  obtain t ys where t: "SkipList_Insert (KeyComparator cmp) (entry_bytes e) (mt_table m) = Some t"
    "holds t ys (ordered_insert (KeyComparator cmp) (entry_bytes e) ks)"
    using mem.Insert_holds [OF h(1) mem.strict_ordered [OF h(2)] val] by blast
  have "KeyComparator cmp j (entry_bytes e) \<noteq> 0" if "j \<in> set ks" for j
  proof -
    have "j \<in> set (map entry_bytes es)" using that h(3) by (metis set_mset_mset)
    then obtain d where d: "d \<in> set es" "j = entry_bytes d" by auto
    then have "entry_ikey d \<noteq> entry_ikey e" using ikey_inject [of d e] es e new by auto
    then show ?thesis
      using d es e icmp(3) [OF entry_ivalid entry_ivalid, of d e] by (simp add: KeyComparator_entry)
  qed
  then have "mem.strict (ordered_insert (KeyComparator cmp) (entry_bytes e) ks)"
    using mem.ordered_insert_strict [OF h(2) val] by blast
  moreover have "mset (ordered_insert (KeyComparator cmp) (entry_bytes e) ks) = mset (map entry_bytes (es @ [e]))"
    using h(3) by simp
  ultimately have "represents (m\<lparr>mt_table := t\<rparr>) (es @ [e])"
    using t(2) assms(2) unfolding represents_def by (metis MemTable.select_convs(1) MemTable.surjective MemTable.update_convs(1))
  then show ?thesis using t(1) add by simp
qed

text \<open>The entries that a lookup seeks past are those that sort before its key.\<close>

lemma seek_before:
  assumes "entry_ok e" "valid (en_key e)" and "length u + 8 < 2 ^ 32" "valid u" and "snap \<le> kMaxSequenceNumber"
  shows "KeyComparator cmp (entry_bytes e) (memtable_key (LookupKey_new u snap)) < 0 \<longleftrightarrow>
      cmp (en_key e) u < 0 \<or> en_key e = u \<and> snap < en_seq e"
    and "mem_valid (memtable_key (LookupKey_new u snap))"
proof -
  let ?ik = "u @ EncodeFixed64 (PackSequenceAndType snap kValueTypeForSeek)"
  have "memtable_key (LookupKey_new u snap) = PutLengthPrefixedSlice [] ?ik"
    by (simp add: memtable_key_def LookupKey_new_def PutLengthPrefixedSlice_def PutVarint32_def Let_def)
  then have p: "prefixed_slice (memtable_key (LookupKey_new u snap)) = Some (?ik, [])"
    using prefixed_slice_Put [of ?ik "[]"] assms(3) by simp
  have v: "ivalid ?ik" using assms(4) by (simp add: ivalid_def)
  show "mem_valid (memtable_key (LookupKey_new u snap))" using p v by (auto simp: mem_valid_def)
  show "KeyComparator cmp (entry_bytes e) (memtable_key (LookupKey_new u snap)) < 0 \<longleftrightarrow>
      cmp (en_key e) u < 0 \<or> en_key e = u \<and> snap < en_seq e"
    using icmp(1) [OF entry_ivalid v, of e] seek_tag [OF assms(1,5)] assms(1,2) p
    by (auto simp: KeyComparator_def entry_prefixed)
qed

text \<open>A lookup reads the entry that the search finds.\<close>

lemma Get_entry:
  assumes "entry_ok e" and "valid (en_key e)" "valid u"
    and "iter_Seek (KeyComparator cmp) (mt_table m) (memtable_key (LookupKey_new u snap)) = Some it"
    and "iter_key (mt_table m) it = Some (entry_bytes e)"
  shows "MemTable_Get cmp (LookupKey_new u snap) value s m =
    Some (lookup_result (if en_key e = u then Some e else None) value s)"
proof -
  have u: "lookup_user_key (LookupKey_new u snap) = u"
    by (simp add: lookup_user_key_def LookupKey_new_def Let_def)
  have k: "take (length (en_key e)) (entry_ikey e) = en_key e"
    "drop (length (en_key e)) (entry_ikey e) = EncodeFixed64 (en_tag e)"
    by (simp_all add: entry_ikey_def AppendInternalKey_def PutFixed64_def en_tag_def)
  have d: "DecodeFixed64 (EncodeFixed64 (en_tag e)) = Some (en_tag e)"
    using DecodeFixed64_Encode [of "en_tag e" "[]"] by simp
  have "unat (en_tag e AND 0xff) = unat (type_code (en_type e))"
  proof -
    have "unat (en_tag e AND 0xff) = unat (en_tag e) mod 256"
      using unat_and_mask [of "en_tag e" 8] by (simp add: mask_eq_exp_minus_1)
    also have "\<dots> = unat (type_code (en_type e))"
      using unat_PackSequenceAndType [of "en_seq e" "en_type e"] assms(1)
      by (cases "en_type e") (simp_all add: en_tag_def entry_ok_def)
    finally show ?thesis .
  qed
  then have t: "en_tag e AND 0xff = type_code (en_type e)" by (rule unat_eqI)
  show ?thesis
  proof (cases "en_key e = u")
    case True
    show ?thesis
      using assms(3-5) k [unfolded True] t True
      by (cases "en_type e")
        (simp_all add: MemTable_Get_def entry_prefixed value_prefixed assms(1) u d lookup_result_def)
  next
    case False
    then show ?thesis
      using cmp_eq [OF assms(2,3)] assms(4,5) by (simp add: MemTable_Get_def entry_prefixed assms(1) u k lookup_result_def)
  qed
qed

lemma entries_unique:
  assumes "entries_ok es" and "d \<in> set es" "e \<in> set es" and "en_key d = en_key e" "en_seq d = en_seq e"
  shows "d = e"
  using assms unfolding entries_ok_def distinct_map by (auto dest: inj_onD)

lemma Get_newest:
  assumes "represents m es" and "length u + 8 < 2 ^ 32" "valid u" and "snap \<le> kMaxSequenceNumber"
  shows "MemTable_Get cmp (LookupKey_new u snap) value s m = Some (lookup_result (newest u snap es) value s)"
proof -
  let ?t = "memtable_key (LookupKey_new u snap)"
  obtain xs ks where h: "holds (mt_table m) xs ks" "mem.strict ks" "mset ks = mset (map entry_bytes es)"
    and ok: "entries_ok es"
    using assms(1) by (auto simp: represents_def)
  have ks: "set ks = entry_bytes ` set es" using h(3) by (metis set_map set_mset_mset)
  have eok: "entry_ok e" "valid (en_key e)" if "e \<in> set es" for e using ok that by (simp_all add: entries_ok_def)
  note before = seek_before(1) [OF eok assms(2-4)]
  let ?f = "filter (\<lambda>k. \<not> KeyComparator cmp k ?t < 0) ks"
  have tv: "mem_valid ?t"
    using seek_before(2) [of "\<lparr>en_seq = 0, en_type = kTypeValue, en_key = u, en_value = []\<rparr>" u snap] assms(2-4)
    by (simp add: entry_ok_def)
  obtain it where it: "iter_Seek (KeyComparator cmp) (mt_table m) ?t = Some it" "iter_key (mt_table m) it = first ?f"
    using mem.Seek_walk [OF h(1) mem.strict_ordered [OF h(2)] tv lessI] by blast
  have inf: "entry_bytes e \<in> set ?f" if "e \<in> set es" "visible u snap e" for e
    using before [OF that(1)] that ks eok [OF that(1)] by (auto simp: visible_def)
  show ?thesis
  proof (cases ?f)
    case Nil
    then have "newest u snap es = None" using inf by (auto simp: newest_None)
    then show ?thesis using it Nil by (simp add: MemTable_Get_def first_def lookup_result_def)
  next
    case (Cons k r)
    then have "k \<in> set ?f" by simp
    then obtain e where e: "e \<in> set es" "k = entry_bytes e" "\<not> KeyComparator cmp k ?t < 0" using ks by auto
    have g: "MemTable_Get cmp (LookupKey_new u snap) value s m =
      Some (lookup_result (if en_key e = u then Some e else None) value s)"
      using it Cons e(2) by (intro Get_entry [OF eok [OF e(1)] assms(3)]) (simp_all add: first_def)
    have "sorted_wrt (\<lambda>a b. KeyComparator cmp a b < 0) ?f" using h(2) by (simp add: mem.strict_def sorted_wrt_filter)
    then have min: "d = e \<or> InternalKey_Compare cmp (entry_ikey e) (entry_ikey d) < 0"
      if "d \<in> set es" "visible u snap d" for d
    proof (cases "entry_bytes d = k")
      case True
      then have "entry_ikey d = entry_ikey e" using entry_prefixed [OF eok(1)] that(1) e(1,2) by (metis option.inject prod.inject)
      then show ?thesis using ikey_inject [OF eok(1) eok(1)] entries_unique [OF ok] that(1) e(1) by blast
    next
      case False
      then have "KeyComparator cmp k (entry_bytes d) < 0" using inf [OF that] \<open>sorted_wrt _ ?f\<close> unfolding Cons by auto
      then show ?thesis using KeyComparator_entry [OF eok(1) eok(1)] that(1) e(1,2) by simp
    qed
    have ge: "\<not> cmp (en_key e) u < 0" "en_key e = u \<longrightarrow> en_seq e \<le> snap"
      using before [OF e(1) e(1)] e(2,3) by auto
    have less: "cmp (en_key e) u < 0 \<or> en_key e = u \<and> en_seq d \<le> en_seq e" if "d \<in> set es" "visible u snap d" for d
    proof (cases "d = e")
      case False
      then have "InternalKey_Compare cmp (entry_ikey e) (entry_ikey d) < 0" using min [OF that] by simp
      then show ?thesis
        using icmp(1) [OF entry_ivalid entry_ivalid, OF eok [OF e(1)] eok [OF that(1)]] that(2)
          en_tag_seq [OF eok(1) eok(1), OF that(1) e(1)]
        by (auto simp: visible_def)
    qed (use that in \<open>simp add: visible_def\<close>)
    have "newest u snap es = (if en_key e = u then Some e else None)"
    proof (cases "en_key e = u")
      case True
      then have "newest u snap es = Some e"
        using ok e(1) ge less by (intro newest_eq) (auto simp: entries_ok_def visible_def)
      then show ?thesis using True by simp
    next
      case False
      then show ?thesis using less ge(1) by (auto simp: newest_None)
    qed
    then show ?thesis using g by simp
  qed
qed

end

end
