(* ===== verification/Ldb_Batch_Props.thy ===== *)
theory Ldb_Batch_Props
  imports Ldb_Batch Ldb_Memtable_Props "HOL-Library.Sublist"
begin

text \<open>
  What a write batch stands for: a sequence number and a list of updates.  The operations keep that
  form, iteration hands the updates to the handler in order, and a batch that was cut is reported.
\<close>

section \<open>The form of a batch\<close>

fun op_bytes :: "batch_op \<Rightarrow> slice" where
  "op_bytes (Op_Put k v) = tag_byte kTypeValue # PutLengthPrefixedSlice [] k @ PutLengthPrefixedSlice [] v"
| "op_bytes (Op_Delete k) = tag_byte kTypeDeletion # PutLengthPrefixedSlice [] k"

fun op_ok :: "batch_op \<Rightarrow> bool" where
  "op_ok (Op_Put k v) \<longleftrightarrow> length k < 2 ^ 32 \<and> length v < 2 ^ 32"
| "op_ok (Op_Delete k) \<longleftrightarrow> length k < 2 ^ 32"

definition batch_bytes :: "u64 \<Rightarrow> batch_op list \<Rightarrow> slice" where
  "batch_bytes seq ops = EncodeFixed64 seq @ EncodeFixed32 (of_nat (length ops)) @ concat (map op_bytes ops)"

lemma DecodeFixed_Encode [simp]: "DecodeFixed32 (EncodeFixed32 n @ rest) = Some n"
  "DecodeFixed64 (EncodeFixed64 seq @ rest) = Some seq"
  by (rule DecodeFixed32_Encode, rule DecodeFixed64_Encode)

lemma batch_header:
  "WriteBatch_Count (EncodeFixed64 seq @ EncodeFixed32 n @ rest) = Some n"
  "WriteBatch_Sequence (EncodeFixed64 seq @ EncodeFixed32 n @ rest) = Some seq"
  "WriteBatch_SetCount (EncodeFixed64 seq @ EncodeFixed32 n @ rest) m = Some (EncodeFixed64 seq @ EncodeFixed32 m @ rest)"
  "WriteBatch_SetSequence (EncodeFixed64 seq @ EncodeFixed32 n @ rest) seq' = Some (EncodeFixed64 seq' @ EncodeFixed32 n @ rest)"
  "drop kHeader (EncodeFixed64 seq @ EncodeFixed32 n @ rest) = rest"
  by (simp_all add: WriteBatch_Count_def WriteBatch_Sequence_def WriteBatch_SetCount_def WriteBatch_SetSequence_def
      kHeader_def)

lemma Clear_batch: "WriteBatch_Clear = batch_bytes 0 []"
  by (simp add: WriteBatch_Clear_def batch_bytes_def kHeader_def EncodeFixed32_def EncodeFixed64_def eval_nat_numeral)

text \<open>
  C35: Every operation on a batch keeps its form, a sequence number, the count of its updates and their
  records: \<open>Clear\<close> gives the empty batch, \<open>Put\<close> and \<open>Delete\<close> add one update at the end, \<open>Append\<close> adds those
  of another batch, \<open>SetSequence\<close> changes the number only, and none of them fails.
\<close>

theorem batch_operations:
  "WriteBatch_Clear = batch_bytes 0 [] \<and>
   WriteBatch_Put k v (batch_bytes seq ops) = Some (batch_bytes seq (ops @ [Op_Put k v])) \<and>
   WriteBatch_Delete k (batch_bytes seq ops) = Some (batch_bytes seq (ops @ [Op_Delete k])) \<and>
   WriteBatch_Append (batch_bytes seq ops) (batch_bytes seq' ops') = Some (batch_bytes seq (ops @ ops')) \<and>
   WriteBatch_SetSequence (batch_bytes seq ops) seq' = Some (batch_bytes seq' ops) \<and>
   WriteBatch_SetContents (batch_bytes seq ops) = Some (batch_bytes seq ops) \<and>
   WriteBatch_Count (batch_bytes seq ops) = Some (of_nat (length ops)) \<and>
   WriteBatch_Sequence (batch_bytes seq ops) = Some seq"
  using Put_append [of "PutLengthPrefixedSlice _ k" v] Put_append [of _ k]
  by (simp add: Clear_batch batch_bytes_def batch_header WriteBatch_Put_def WriteBatch_Delete_def WriteBatch_Append_def
      WriteBatch_SetContents_def kHeader_def [symmetric] PutLengthPrefixedSlice_def PutVarint32_def add.commute) (simp add: kHeader_def)

section \<open>Iteration\<close>

lemma read_op_bytes: "op_ok x \<Longrightarrow> read_op (op_bytes x @ rest) = (Inr x, rest)"
  by (cases x) (simp_all add: read_op_def Let_def tag_byte_def GetLengthPrefixedSlice_Put)

fun handle_all :: "(batch_op \<Rightarrow> 'h \<Rightarrow> 'h option) \<Rightarrow> batch_op list \<Rightarrow> 'h \<Rightarrow> 'h option" where
  "handle_all handler [] h = Some h"
| "handle_all handler (x # xs) h = do { h \<leftarrow> handler x h; handle_all handler xs h }"

lemma op_bytes_nonempty [simp]: "op_bytes x \<noteq> []"
  by (cases x) simp_all

text \<open>The records before \<open>rest\<close> are handed over in order.\<close>

lemma iterate_loop_ops:
  "\<forall>x\<in>set ops. op_ok x \<Longrightarrow>
    iterate_loop cnt handler found (concat (map op_bytes ops) @ rest) h =
    (case handle_all handler ops h of
       None \<Rightarrow> None
     | Some h \<Rightarrow> iterate_loop cnt handler (found + of_nat (length ops)) rest h)"
proof (induction ops arbitrary: found h)
  case (Cons x ops)
  show ?case
    by (subst iterate_loop.simps) (use Cons in \<open>auto simp: read_op_bytes add.assoc split: option.split\<close>)
qed simp

lemma Iterate_header:
  "WriteBatch_Iterate (EncodeFixed64 seq @ EncodeFixed32 n @ rest) handler h = iterate_loop n handler 0 rest h"
  unfolding WriteBatch_Iterate_def batch_header by (simp add: kHeader_def)

lemma iterate_batch:
  assumes "\<forall>x\<in>set ops. op_ok x"
  shows "WriteBatch_Iterate (batch_bytes seq ops) handler h = map_option (Pair Status_OK) (handle_all handler ops h)"
proof -
  have "iterate_loop (of_nat (length ops)) handler 0 (concat (map op_bytes ops) @ []) h =
    map_option (Pair Status_OK) (handle_all handler ops h)"
    unfolding iterate_loop_ops [OF assms] by (auto simp: iterate_loop.simps [of _ _ _ "[]"] split: option.split)
  then show ?thesis by (simp add: batch_bytes_def Iterate_header)
qed

text \<open>
  C36: Iteration over a batch hands exactly its updates to the handler, in order, and ends with the
  status OK; a handler that collects them gets the list back.
\<close>

theorem batch_iterate_roundtrip:
  assumes "\<forall>x\<in>set ops. op_ok x"
  shows "WriteBatch_Iterate (batch_bytes seq ops) (\<lambda>x xs. Some (xs @ [x])) [] = Some (Status_OK, ops) \<and>
    WriteBatch_Iterate (batch_bytes seq ops) handler h = map_option (Pair Status_OK) (handle_all handler ops h)"
proof -
  have "handle_all (\<lambda>x xs. Some (xs @ [x])) ops ys = Some (ys @ ops)" for ys by (induction ops arbitrary: ys) simp_all
  then show ?thesis unfolding iterate_batch [OF assms] by simp
qed

theorem batch_iterate_roundtrip_witness:
  "WriteBatch_Iterate (batch_bytes 7 [Op_Put [0x61] [1, 2], Op_Delete []]) (\<lambda>x xs. Some (xs @ [x])) []
    = Some (Status_OK, [Op_Put [0x61] [1, 2], Op_Delete []])"
  by (rule batch_iterate_roundtrip [THEN conjunct1]) simp

section \<open>Cut batches\<close>

lemma cont_run_take: "m \<le> cont_run p \<Longrightarrow> cont_run (take m p) = m"
  by (induction p arbitrary: m) (auto split: if_splits simp: take_Cons')

text \<open>A length-prefixed string that was cut is not read.\<close>

lemma GetLengthPrefixedSlice_cut:
  assumes "length v < 2 ^ 32" and "m < length (PutLengthPrefixedSlice [] v)"
  shows "\<exists>i. GetLengthPrefixedSlice (take m (PutLengthPrefixedSlice [] v)) = (None, i)"
proof -
  let ?e = "EncodeVarint32 (of_nat (length v))"
  have e: "?e = leb128 (length v)" using assms(1) by (simp add: EncodeVarint32_leb128 unat_of_nat_mod)
  show ?thesis
  proof (cases "m < length ?e")
    case True
    then have "m \<le> cont_run ?e" using Suc_cont_run_leb128 [of "length v" "[]"] unfolding e by simp
    then have "cont_run (take m ?e) = length (take m ?e)" using cont_run_take [of m ?e] True by simp
    then have "GetVarint32Ptr (take m ?e) = None" by (simp add: GetVarint32_spec Let_def)
    then show ?thesis
      using True by (simp add: GetLengthPrefixedSlice_def GetVarint32_def PutLengthPrefixedSlice_def PutVarint32_def)
  next
    case False
    then show ?thesis
      using assms by (simp add: GetLengthPrefixedSlice_def GetVarint32_Encode PutLengthPrefixedSlice_def PutVarint32_def
          unat_of_nat_mod)
  qed
qed

lemma take_append_cases:
  obtains "m < length xs" and "take m (xs @ ys) = take m xs"
  | k where "m = length xs + k" and "take m (xs @ ys) = xs @ take k ys"
proof (cases "m < length xs")
  case False
  then have "m = length xs + (m - length xs)" "take m (xs @ ys) = xs @ take (m - length xs) ys" by simp_all
  then show ?thesis using that(2) by blast
qed (use that(1) in simp)

lemma read_op_cut:
  assumes "op_ok x" and "0 < m" and "m < length (op_bytes x)"
  shows "\<exists>msg i. read_op (take m (op_bytes x)) = (Inl (Corruption msg []), i)"
proof -
  obtain m' where m: "m = Suc m'" using assms(2) by (cases m) auto
  show ?thesis
  proof (cases x)
    case (Op_Delete k)
    then obtain i where "GetLengthPrefixedSlice (take m' (PutLengthPrefixedSlice [] k)) = (None, i)"
      using GetLengthPrefixedSlice_cut [of k m'] assms m by auto
    then show ?thesis using Op_Delete m by (auto simp: read_op_def Let_def tag_byte_def)
  next
    case (Op_Put k v)
    let ?k = "PutLengthPrefixedSlice [] k" and ?v = "PutLengthPrefixedSlice [] v"
    have "m' < length (?k @ ?v)" using assms(3) Op_Put m by simp
    show ?thesis
    proof (rule take_append_cases [of m' ?k ?v])
      assume "m' < length ?k" and t: "take m' (?k @ ?v) = take m' ?k"
      then obtain i where "GetLengthPrefixedSlice (take m' ?k) = (None, i)"
        using GetLengthPrefixedSlice_cut [of k m'] assms(1) Op_Put by auto
      then show ?thesis using Op_Put m t by (auto simp: read_op_def Let_def tag_byte_def simp del: take_append)
    next
      fix j
      assume j: "m' = length ?k + j" and t: "take m' (?k @ ?v) = ?k @ take j ?v"
      then obtain i where "GetLengthPrefixedSlice (take j ?v) = (None, i)"
        using GetLengthPrefixedSlice_cut [of v j] assms(1) Op_Put \<open>m' < length (?k @ ?v)\<close> by auto
      moreover have "GetLengthPrefixedSlice (?k @ take j ?v) = (Some k, take j ?v)"
        using assms(1) Op_Put by (intro GetLengthPrefixedSlice_Put) simp
      ultimately show ?thesis
        using Op_Put m t by (auto simp: read_op_def Let_def tag_byte_def simp del: take_append)
    qed
  qed
qed

lemma handle_all_collect: "handle_all (\<lambda>x xs. Some (xs @ [x])) ops ys = Some (ys @ ops)"
  by (induction ops arbitrary: ys) simp_all

lemma iterate_loop_cut:
  assumes "\<forall>x\<in>set ops. op_ok x" and "length ops < 2 ^ 32" and "m < length (concat (map op_bytes ops))"
  shows "\<exists>msg done. prefix done ops \<and>
    iterate_loop (of_nat (length ops)) (\<lambda>x xs. Some (xs @ [x])) 0 (take m (concat (map op_bytes ops))) []
      = Some (Corruption msg [], done)"
proof -
  let ?collect = "\<lambda>x xs. Some (xs @ [x])"
  have "\<exists>ds x es k. ops = ds @ x # es \<and> k < length (op_bytes x) \<and>
    take m (concat (map op_bytes ops)) = concat (map op_bytes ds) @ take k (op_bytes x)"
    using assms(3)
  proof (induction ops arbitrary: m)
    case (Cons x ops)
    show ?case
    proof (rule take_append_cases [of m "op_bytes x" "concat (map op_bytes ops)"])
      assume "m < length (op_bytes x)" "take m (op_bytes x @ concat (map op_bytes ops)) = take m (op_bytes x)"
      then show ?thesis by (intro exI [of _ "[]"] exI [of _ x] exI [of _ ops] exI [of _ m]) simp
    next
      fix j
      assume j: "m = length (op_bytes x) + j"
        "take m (op_bytes x @ concat (map op_bytes ops)) = op_bytes x @ take j (concat (map op_bytes ops))"
      have jl: "j < length (concat (map op_bytes ops))" using Cons.prems j(1) by simp
      from Cons.IH [OF jl] obtain ds y es k where "ops = ds @ y # es" "k < length (op_bytes y)"
        "take j (concat (map op_bytes ops)) = concat (map op_bytes ds) @ take k (op_bytes y)"
        by (elim exE conjE)
      then show ?thesis using j by (intro exI [of _ "x # ds"] exI [of _ y] exI [of _ es] exI [of _ k]) simp
    qed
  qed simp
  then obtain ds x es k where o: "ops = ds @ x # es" "k < length (op_bytes x)"
    "take m (concat (map op_bytes ops)) = concat (map op_bytes ds) @ take k (op_bytes x)" by blast
  have l: "(of_nat (length ds) :: u32) \<noteq> of_nat (length ops)"
  proof
    assume "(of_nat (length ds) :: u32) = of_nat (length ops)"
    then have "unat (of_nat (length ds) :: u32) = unat (of_nat (length ops) :: u32)" by simp
    then show False using assms(2) o(1) by (simp add: unat_of_nat_mod del: of_nat_add of_nat_Suc)
  qed
  have step: "iterate_loop (of_nat (length ops)) ?collect 0 (concat (map op_bytes ds) @ take k (op_bytes x)) [] =
    iterate_loop (of_nat (length ops)) ?collect (of_nat (length ds)) (take k (op_bytes x)) ds"
    using iterate_loop_ops [of ds "of_nat (length ops)" ?collect 0 "take k (op_bytes x)" "[]"] assms(1) o(1)
    by (simp add: handle_all_collect)
  have "\<exists>msg. iterate_loop (of_nat (length ops)) ?collect (of_nat (length ds)) (take k (op_bytes x)) ds
    = Some (Corruption msg [], ds)"
  proof (cases k)
    case 0
    then show ?thesis using l by (subst iterate_loop.simps) auto
  next
    case (Suc k')
    then obtain msg i where "read_op (take k (op_bytes x)) = (Inl (Corruption msg []), i)"
      using read_op_cut [of x k] assms(1) o(1,2) by auto
    then show ?thesis using Suc by (subst iterate_loop.simps) auto
  qed
  then show ?thesis unfolding o(3) step using o(1) by (metis prefixI)
qed

text \<open>
  C37: A batch that was cut short anywhere is reported as a corruption: iteration never ends with the
  status OK, and what the handler saw before is a prefix of the updates.
\<close>

theorem batch_cut_is_corrupt:
  assumes "\<forall>x\<in>set ops. op_ok x" and "length ops < 2 ^ 32" and "n < length (batch_bytes seq ops)"
  shows "\<exists>msg done. prefix done ops \<and>
    WriteBatch_Iterate (take n (batch_bytes seq ops)) (\<lambda>x xs. Some (xs @ [x])) [] = Some (Corruption msg [], done)"
proof (cases "n < 12")
  case True
  then show ?thesis using assms(3) by (auto simp: WriteBatch_Iterate_def kHeader_def)
next
  case False
  define m where "m = n - 12"
  have "take n (batch_bytes seq ops) =
    EncodeFixed64 seq @ EncodeFixed32 (of_nat (length ops)) @ take m (concat (map op_bytes ops))"
    using False by (simp add: batch_bytes_def m_def)
  moreover have "m < length (concat (map op_bytes ops))" using assms(3) False by (simp add: batch_bytes_def m_def)
  ultimately show ?thesis using iterate_loop_cut [OF assms(1,2)] by (simp add: Iterate_header)
qed

theorem batch_cut_is_corrupt_witness:
  "\<exists>msg done. prefix done [Op_Put [0x61] [1, 2], Op_Delete []] \<and>
    WriteBatch_Iterate (take 16 (batch_bytes 7 [Op_Put [0x61] [1, 2], Op_Delete []])) (\<lambda>x xs. Some (xs @ [x])) []
      = Some (Corruption msg [], done)"
proof -
  have "length (EncodeVarint32 v) \<ge> 1" for v by (simp add: EncodeVarint32_leb128 Suc_leI)
  then have "16 < length (batch_bytes 7 [Op_Put [0x61] [1, 2], Op_Delete []])"
    by (simp add: batch_bytes_def PutLengthPrefixedSlice_def PutVarint32_def)
  then show ?thesis by (intro batch_cut_is_corrupt) simp_all
qed

end
