(* ===== verification/Ldb_Db.thy ===== *)
theory Ldb_Db
  imports Ldb_Batch Ldb_Log
begin

text \<open>
  How a leveldb database puts its parts together (\<open>db/db_impl.cc\<close>): the writers that wait in a queue and
  are served in groups, the log, the memtable, and the recovery of a log.  The making of room and the
  tables on disk are parameters.
\<close>

section \<open>Groups of writers\<close>

text \<open>\<open>DBImpl::Writer\<close>; a null batch is one that forces a compaction.\<close>

record writer =
  w_batch :: "slice option"
  w_sync :: bool
  w_done :: bool
  w_status :: Status

definition new_writer :: "slice option \<Rightarrow> bool \<Rightarrow> writer" where
  "new_writer batch sync = \<lparr>w_batch = batch, w_sync = sync, w_done = False, w_status = Status_OK\<rparr>"

text \<open>
  The rest of the queue after its first writer.  The result is the batch in \<open>tmp_batch_\<close>, \<open>None\<close> when the
  first writer's own batch is used, and the number of the last writer of the group.
\<close>

fun group_loop ::
  "writer \<Rightarrow> slice \<Rightarrow> slice \<Rightarrow> nat \<Rightarrow> writer list \<Rightarrow> nat \<Rightarrow> nat \<Rightarrow> slice option \<Rightarrow> (slice option \<times> nat) option" where
  "group_loop leader own tmp max_size [] last_writer sz result = Some (result, last_writer)"
| "group_loop leader own tmp max_size (w # ws) last_writer sz result =
     (if w_sync w \<and> \<not> w_sync leader then Some (result, last_writer)
      else case w_batch w of
             None \<Rightarrow> group_loop leader own tmp max_size ws (last_writer + 1) sz result
           | Some b \<Rightarrow>
               let sz = sz + WriteBatch_ByteSize b
               in if max_size < sz then Some (result, last_writer)
                  else do {
                    t \<leftarrow> (case result of None \<Rightarrow> WriteBatch_Append tmp own | Some t \<Rightarrow> Some t);
                    t \<leftarrow> WriteBatch_Append t b;
                    group_loop leader own tmp max_size ws (last_writer + 1) sz (Some t) })"

definition BuildBatchGroup :: "slice \<Rightarrow> writer list \<Rightarrow> (slice option \<times> nat) option" where
  "BuildBatchGroup tmp writers =
     (case writers of
        [] \<Rightarrow> None
      | leader # ws \<Rightarrow> do {
          own \<leftarrow> w_batch leader;
          let sz = WriteBatch_ByteSize own;
          let max_size = (if sz \<le> 128 * 1024 then sz + 128 * 1024 else 1024 * 1024);
          group_loop leader own tmp max_size ws 0 sz None })"

section \<open>Writing\<close>

record 'f db =
  db_log :: "'f Writer"
  db_mem :: MemTable
  db_tmp_batch :: slice
  db_last_sequence :: u64
  db_bg_error :: Status

definition RecordBackgroundError :: "Status \<Rightarrow> 'f db \<Rightarrow> 'f db" where
  "RecordBackgroundError s db = (if Status_ok (db_bg_error db) then db\<lparr>db_bg_error := s\<rparr> else db)"

text \<open>The updates go to the log, then, when that and a sync that was asked for succeed, to the memtable.\<close>

definition log_and_apply ::
  "(slice \<Rightarrow> slice \<Rightarrow> int) \<Rightarrow> 'f append \<Rightarrow> 'f flush \<Rightarrow> 'f flush \<Rightarrow> bool \<Rightarrow> slice \<Rightarrow> 'f db \<Rightarrow> (Status \<times> 'f db) option" where
  "log_and_apply user_cmp fappend fflush fsync sync updates db = do {
     (status, log) \<leftarrow> AddRecord fappend fflush (WriteBatch_Contents updates) (db_log db);
     (status, log, sync_error) \<leftarrow>
       (if Status_ok status \<and> sync
        then do { (s, f) \<leftarrow> fsync (lw_dest log); Some (s, log\<lparr>lw_dest := f\<rparr>, \<not> Status_ok s) }
        else Some (status, log, False));
     (status, mem) \<leftarrow>
       (if Status_ok status then WriteBatch_InsertInto user_cmp updates (db_mem db) else Some (status, db_mem db));
     let db = db\<lparr>db_log := log, db_mem := mem\<rparr>;
     Some (status, if sync_error then RecordBackgroundError status db else db) }"

text \<open>
  What the writer at the front of the queue does, \<open>room\<close> being the status of \<open>MakeRoomForWrite\<close>: the
  status, the writers that were served, the queue and the database afterwards.
\<close>

definition DBImpl_Write ::
  "(slice \<Rightarrow> slice \<Rightarrow> int) \<Rightarrow> 'f append \<Rightarrow> 'f flush \<Rightarrow> 'f flush \<Rightarrow> Status \<Rightarrow> writer list \<Rightarrow> 'f db \<Rightarrow>
    (Status \<times> writer list \<times> writer list \<times> 'f db) option" where
  "DBImpl_Write user_cmp fappend fflush fsync room writers db =
     (let w = hd writers
      in do {
        (status, last_writer, w, db) \<leftarrow>
          (if Status_ok room \<and> w_batch w \<noteq> None
           then do {
             (result, last_writer) \<leftarrow> BuildBatchGroup (db_tmp_batch db) writers;
             updates \<leftarrow> WriteBatch_SetSequence (case result of None \<Rightarrow> the (w_batch w) | Some t \<Rightarrow> t) (db_last_sequence db + 1);
             n \<leftarrow> WriteBatch_Count updates;
             (status, db') \<leftarrow> log_and_apply user_cmp fappend fflush fsync (w_sync w) updates db;
             Some (status, last_writer,
               if result = None then w\<lparr>w_batch := Some updates\<rparr> else w,
               db'\<lparr>db_tmp_batch := (if result = None then db_tmp_batch db else WriteBatch_Clear),
                  db_last_sequence := db_last_sequence db + scast n\<rparr>) }
           else Some (room, 0, w, db));
        Some (status,
          w # map (\<lambda>r. r\<lparr>w_status := status, w_done := True\<rparr>) (take last_writer (tl writers)),
          drop (last_writer + 1) writers, db) })"

text \<open>\<open>DB::Put\<close> and \<open>DB::Delete\<close> hand over a batch of one update.\<close>

definition DB_Put :: "bool \<Rightarrow> slice \<Rightarrow> slice \<Rightarrow> writer option" where
  "DB_Put sync key value = map_option (\<lambda>b. new_writer (Some b) sync) (WriteBatch_Put key value WriteBatch_Clear)"

definition DB_Delete :: "bool \<Rightarrow> slice \<Rightarrow> writer option" where
  "DB_Delete sync key = map_option (\<lambda>b. new_writer (Some b) sync) (WriteBatch_Delete key WriteBatch_Clear)"

section \<open>Reading\<close>

text \<open>
  \<open>version_get\<close> looks the key up in the tables of the current version.  The status and \<open>*value\<close>.
\<close>

definition DBImpl_Get ::
  "(slice \<Rightarrow> slice \<Rightarrow> int) \<Rightarrow> (LookupKey \<Rightarrow> slice \<Rightarrow> Status \<times> slice) \<Rightarrow> MemTable \<Rightarrow> MemTable option \<Rightarrow> u64 \<Rightarrow>
    slice \<Rightarrow> slice \<Rightarrow> (Status \<times> slice) option" where
  "DBImpl_Get user_cmp version_get mem imm snapshot key value =
     (let lkey = LookupKey_new key snapshot
      in do {
        (found, value, s) \<leftarrow> MemTable_Get user_cmp lkey value Status_OK mem;
        if found then Some (s, value)
        else case imm of
               None \<Rightarrow> Some (version_get lkey value)
             | Some imm \<Rightarrow> do {
                 (found, value, s) \<leftarrow> MemTable_Get user_cmp lkey value s imm;
                 Some (if found then (s, value) else version_get lkey value) } })"

section \<open>Recovery\<close>

definition MaybeIgnoreError :: "bool \<Rightarrow> Status \<Rightarrow> Status" where
  "MaybeIgnoreError paranoid s = (if Status_ok s \<or> paranoid then s else Status_OK)"

text \<open>The reporter of corruptions keeps the first status when the checks are paranoid.\<close>

definition LogReporter_Corruption :: "bool \<Rightarrow> Status \<Rightarrow> Status \<Rightarrow> Status" where
  "LogReporter_Corruption paranoid s status = (if paranoid \<and> Status_ok status then s else status)"

record 'e recovery =
  rv_status :: Status
  rv_mem :: "MemTable option"
  rv_max_sequence :: u64
  rv_compactions :: nat
  rv_save_manifest :: bool
  rv_edit :: 'e

text \<open>
  One record: whether the loop goes on, and the state.  \<open>usage\<close> is the memory that a memtable takes, and
  \<open>write_table\<close> is \<open>WriteLevel0Table\<close>.
\<close>

definition recover_record ::
  "(slice \<Rightarrow> slice \<Rightarrow> int) \<Rightarrow> (MemTable \<Rightarrow> nat) \<Rightarrow> nat \<Rightarrow> (MemTable \<Rightarrow> 'e \<Rightarrow> Status \<times> 'e) \<Rightarrow> bool \<Rightarrow> slice \<Rightarrow>
    'e recovery \<Rightarrow> (bool \<times> 'e recovery) option" where
  "recover_record user_cmp usage write_buffer_size write_table paranoid rec rv =
     (if length rec < 12
      then Some (True, rv\<lparr>rv_status :=
        LogReporter_Corruption paranoid (Corruption (bytes ''log record too small'') []) (rv_status rv)\<rparr>)
      else do {
        batch \<leftarrow> WriteBatch_SetContents rec;
        let mem = (case rv_mem rv of None \<Rightarrow> MemTable_Ref MemTable_new | Some m \<Rightarrow> m);
        (status, mem) \<leftarrow> WriteBatch_InsertInto user_cmp batch mem;
        let status = MaybeIgnoreError paranoid status;
        let rv = rv\<lparr>rv_status := status, rv_mem := Some mem\<rparr>;
        if \<not> Status_ok status then Some (False, rv)
        else do {
          seq \<leftarrow> WriteBatch_Sequence batch;
          n \<leftarrow> WriteBatch_Count batch;
          let last_seq = seq + scast n - 1;
          let rv = (if rv_max_sequence rv < last_seq then rv\<lparr>rv_max_sequence := last_seq\<rparr> else rv);
          Some (if write_buffer_size < usage mem
                then let (status, edit) = write_table mem (rv_edit rv)
                     in (Status_ok status,
                         rv\<lparr>rv_status := status, rv_mem := None, rv_compactions := rv_compactions rv + 1,
                            rv_save_manifest := True, rv_edit := edit\<rparr>)
                else (True, rv)) } })"

text \<open>The loop over the records: the corruptions that a call reports come before the test of the status.\<close>

partial_function (option) recover_loop ::
  "'f read \<Rightarrow> 'f skip \<Rightarrow> bool \<Rightarrow> (slice \<Rightarrow> 'e recovery \<Rightarrow> (bool \<times> 'e recovery) option) \<Rightarrow> 'f Reader \<Rightarrow>
    'e recovery \<Rightarrow> ('f Reader \<times> 'e recovery) option" where
  "recover_loop fread fskip paranoid step r rv = do {
     (result, _, r') \<leftarrow> ReadRecord fread fskip r;
     let rv = rv\<lparr>rv_status := foldl (\<lambda>s (_, reason). LogReporter_Corruption paranoid reason s) (rv_status rv)
       (drop (length (lr_reports r)) (lr_reports r'))\<rparr>;
     case result of
       None \<Rightarrow> Some (r', rv)
     | Some rec \<Rightarrow>
         if Status_ok (rv_status rv)
         then do {
           (continue, rv) \<leftarrow> step rec rv;
           if continue then recover_loop fread fskip paranoid step r' rv else Some (r', rv) }
         else Some (r', rv) }"

text \<open>
  After the loop: \<open>reuse\<close> tells whether the options ask for the last log to be reused and its file can
  be appended to; then the memtable becomes the database's.  Otherwise it is written to a table.
\<close>

definition finish_recovery ::
  "(MemTable \<Rightarrow> 'e \<Rightarrow> Status \<times> 'e) \<Rightarrow> bool \<Rightarrow> 'e recovery \<Rightarrow> MemTable option \<times> 'e recovery" where
  "finish_recovery write_table reuse rv =
     (if Status_ok (rv_status rv) \<and> reuse \<and> rv_compactions rv = 0
      then (Some (case rv_mem rv of None \<Rightarrow> MemTable_Ref MemTable_new | Some m \<Rightarrow> m), rv\<lparr>rv_mem := None\<rparr>)
      else case rv_mem rv of
             None \<Rightarrow> (None, rv)
           | Some mem \<Rightarrow>
               (None,
                if Status_ok (rv_status rv)
                then let (status, edit) = write_table mem (rv_edit rv)
                     in rv\<lparr>rv_status := status, rv_edit := edit, rv_save_manifest := True, rv_mem := None\<rparr>
                else rv\<lparr>rv_mem := None\<rparr>))"

definition RecoverLogFile ::
  "'f read \<Rightarrow> 'f skip \<Rightarrow> (slice \<Rightarrow> slice \<Rightarrow> int) \<Rightarrow> (MemTable \<Rightarrow> nat) \<Rightarrow> nat \<Rightarrow> (MemTable \<Rightarrow> 'e \<Rightarrow> Status \<times> 'e) \<Rightarrow>
    bool \<Rightarrow> bool \<Rightarrow> 'f \<Rightarrow> u64 \<Rightarrow> 'e \<Rightarrow> (MemTable option \<times> 'e recovery) option" where
  "RecoverLogFile fread fskip user_cmp usage write_buffer_size write_table paranoid reuse file max_sequence edit = do {
     (_, rv) \<leftarrow> recover_loop fread fskip paranoid
       (recover_record user_cmp usage write_buffer_size write_table paranoid) (Reader_new file True True 0)
       \<lparr>rv_status = Status_OK, rv_mem = None, rv_max_sequence = max_sequence, rv_compactions = 0,
        rv_save_manifest = False, rv_edit = edit\<rparr>;
     Some (finish_recovery write_table reuse rv) }"

end
