(* ===== verification/Ldb_Db_Spec.thy ===== *)
theory Ldb_Db_Spec
  imports Ldb_Db Ldb_Log_Props Ldb_Batch_Props
begin

text \<open>
  The parts of a database together: what a group of writers leaves in the log and in the memtable, and
  what a read finds there.
\<close>

section \<open>The entries of a batch\<close>

fun op_entry :: "u64 \<Rightarrow> batch_op \<Rightarrow> entry" where
  "op_entry seq (Op_Put k v) = \<lparr>en_seq = seq, en_type = kTypeValue, en_key = k, en_value = v\<rparr>"
| "op_entry seq (Op_Delete k) = \<lparr>en_seq = seq, en_type = kTypeDeletion, en_key = k, en_value = []\<rparr>"

fun entries_of :: "u64 \<Rightarrow> batch_op list \<Rightarrow> entry list" where
  "entries_of seq [] = []"
| "entries_of seq (x # xs) = op_entry seq x # entries_of (seq + 1) xs"

lemma length_entries_of [simp]: "length (entries_of seq xs) = length xs"
  by (induction xs arbitrary: seq) simp_all

lemma entries_of_append: "entries_of seq (xs @ ys) = entries_of seq xs @ entries_of (seq + of_nat (length xs)) ys"
  by (induction xs arbitrary: seq) (simp_all add: add.assoc)

text \<open>An update that the memtable takes.\<close>

fun op_fits :: "batch_op \<Rightarrow> bool" where
  "op_fits (Op_Put k v) \<longleftrightarrow> length k + 8 < 2 ^ 32 \<and> length v < 2 ^ 32"
| "op_fits (Op_Delete k) \<longleftrightarrow> length k + 8 < 2 ^ 32"

lemma op_fits_ok: "op_fits x \<Longrightarrow> op_ok x"
  by (cases x) simp_all

lemma op_entry_seq [simp]: "en_seq (op_entry seq x) = seq"
  by (cases x) simp_all

lemma op_entry_ok: "op_fits x \<Longrightarrow> seq \<le> kMaxSequenceNumber \<Longrightarrow> entry_ok (op_entry seq x)"
  by (cases x) (simp_all add: entry_ok_def)

lemma MaxSequence: "unat kMaxSequenceNumber = 2 ^ 56 - 1"
  by (simp add: kMaxSequenceNumber_def)

text \<open>The sequence numbers of a batch are consecutive.\<close>

lemma entries_of_seq:
  "unat seq + length xs \<le> 2 ^ 56 \<Longrightarrow> map (unat \<circ> en_seq) (entries_of seq xs) = [unat seq..<unat seq + length xs]"
proof (induction xs arbitrary: seq)
  case (Cons x xs)
  have u: "unat (seq + 1) = unat seq + 1" using Cons.prems by (simp add: unat_word_ariths)
  have "[unat seq..<unat seq + length (x # xs)] = unat seq # [unat seq + 1..<unat seq + 1 + length xs]"
    by (simp add: upt_conv_Cons del: upt_Suc)
  then show ?case using Cons.IH [of "seq + 1"] Cons.prems u by (simp del: upt_Suc)
qed simp

lemma entries_of_entry_ok:
  "unat seq + length xs \<le> 2 ^ 56 \<Longrightarrow> \<forall>x\<in>set xs. op_fits x \<Longrightarrow> e \<in> set (entries_of seq xs) \<Longrightarrow> entry_ok e"
proof (induction xs arbitrary: seq)
  case (Cons x xs)
  have u: "unat (seq + 1) = unat seq + 1" using Cons.prems(1) by (simp add: unat_word_ariths)
  have "seq \<le> kMaxSequenceNumber" using Cons.prems(1) by (simp add: word_le_nat_alt MaxSequence)
  then show ?case using Cons.IH [of "seq + 1"] Cons.prems u op_entry_ok by auto
qed simp

lemma entries_of_ok:
  assumes "unat seq + length xs \<le> 2 ^ 56" and "\<forall>x\<in>set xs. op_fits x"
  shows "bytewise.entries_ok (entries_of seq xs)"
proof -
  have "distinct (map (unat \<circ> en_seq) (entries_of seq xs))" using entries_of_seq [OF assms(1)] by simp
  then have "inj_on (unat \<circ> en_seq) (set (entries_of seq xs))" "distinct (entries_of seq xs)"
    unfolding distinct_map by simp_all
  then have "distinct (map (\<lambda>e. (en_key e, en_seq e)) (entries_of seq xs))"
    unfolding distinct_map by (auto simp: inj_on_def)
  then show ?thesis using entries_of_entry_ok [OF assms] by (simp add: bytewise.entries_ok_def)
qed

section \<open>Batches into the memtable\<close>

context user_comparator
begin

lemma entries_ok_append: "entries_ok (es @ fs) \<Longrightarrow> entries_ok es"
  by (auto simp: entries_ok_def)

lemma insert_ops:
  "represents m es \<Longrightarrow> entries_ok (es @ entries_of seq xs) \<Longrightarrow>
    \<exists>m' seq'. handle_all (MemTableInserter cmp) xs (seq, m) = Some (seq', m') \<and>
      represents m' (es @ entries_of seq xs) \<and> mt_refs m' = mt_refs m"
proof (induction xs arbitrary: seq m es)
  case (Cons x xs)
  have ok: "entries_ok ((es @ [op_entry seq x]) @ entries_of (seq + 1) xs)" using Cons.prems(2) by simp
  obtain m1 where m1: "MemTable_Add cmp seq (en_type (op_entry seq x)) (en_key (op_entry seq x))
      (en_value (op_entry seq x)) m = Some m1" "represents m1 (es @ [op_entry seq x])" "mt_refs m1 = mt_refs m"
    using Add_represents [OF Cons.prems(1) entries_ok_append [OF ok]] by auto
  then have "MemTableInserter cmp x (seq, m) = Some (seq + 1, m1)" by (cases x) (simp_all add: MemTableInserter_def)
  then show ?case using Cons.IH [OF m1(2) ok] m1(3) by simp
qed simp

text \<open>Inserting a batch adds its entries.\<close>

lemma InsertInto_represents:
  assumes "represents m es" and "entries_ok (es @ entries_of seq xs)" and "\<forall>x\<in>set xs. op_ok x"
  shows "\<exists>m'. WriteBatch_InsertInto cmp (batch_bytes seq xs) m = Some (Status_OK, m') \<and>
    represents m' (es @ entries_of seq xs) \<and> mt_refs m' = mt_refs m"
proof -
  have "WriteBatch_Sequence (batch_bytes seq xs) = Some seq" by (simp add: batch_bytes_def batch_header)
  then show ?thesis
    using insert_ops [OF assms(1,2)] by (auto simp: WriteBatch_InsertInto_def iterate_batch [OF assms(3)])
qed

end

section \<open>Groups\<close>

text \<open>The updates that a writer asks for.\<close>

definition writer_ops :: "writer \<Rightarrow> batch_op list \<Rightarrow> bool" where
  "writer_ops w xs \<longleftrightarrow> (case w_batch w of None \<Rightarrow> xs = [] | Some b \<Rightarrow> \<exists>seq. b = batch_bytes seq xs)"

lemma Append_batch:
  "WriteBatch_Append (batch_bytes seq xs) (batch_bytes seq' ys) = Some (batch_bytes seq (xs @ ys))"
  by (simp add: batch_bytes_def batch_header WriteBatch_Append_def kHeader_def add.commute)

lemma group_loop_ops:
  assumes "list_all2 writer_ops ws xss" and "own = batch_bytes bseq bxs"
    and "case result of None \<Rightarrow> ds = [] | Some t \<Rightarrow> t = batch_bytes 0 (bxs @ ds)"
  shows "\<exists>result' k. group_loop leader own WriteBatch_Clear max_size ws n sz result = Some (result', n + k) \<and>
    k \<le> length ws \<and> (\<forall>w\<in>set (take k ws). w_sync w \<longrightarrow> w_sync leader) \<and>
    (case result' of None \<Rightarrow> ds @ concat (take k xss) = []
     | Some t \<Rightarrow> t = batch_bytes 0 (bxs @ ds @ concat (take k xss)))"
  using assms
proof (induction ws arbitrary: xss n sz result ds)
  case Nil
  then show ?case by (intro exI [of _ result] exI [of _ 0]) (auto split: option.splits)
next
  case (Cons w ws)
  obtain xs yss where xss: "xss = xs # yss" "writer_ops w xs" "list_all2 writer_ops ws yss"
    using Cons.prems(1) by (auto simp: list_all2_Cons1)
  have stop: ?case if "group_loop leader own WriteBatch_Clear max_size (w # ws) n sz result = Some (result, n)"
    using that Cons.prems(3) by (intro exI [of _ result] exI [of _ 0]) (auto split: option.splits)
  have go: ?case
    if g: "group_loop leader own WriteBatch_Clear max_size (w # ws) n sz result =
        group_loop leader own WriteBatch_Clear max_size ws (n + 1) sz' r" and s: "w_sync w \<longrightarrow> w_sync leader"
      and r: "case r of None \<Rightarrow> ds @ xs = [] | Some t \<Rightarrow> t = batch_bytes 0 (bxs @ ds @ xs)" for sz' r
  proof -
    obtain result' k where "group_loop leader own WriteBatch_Clear max_size ws (n + 1) sz' r = Some (result', n + 1 + k)"
      "k \<le> length ws" "\<forall>w\<in>set (take k ws). w_sync w \<longrightarrow> w_sync leader"
      "case result' of None \<Rightarrow> (ds @ xs) @ concat (take k yss) = []
        | Some t \<Rightarrow> t = batch_bytes 0 (bxs @ (ds @ xs) @ concat (take k yss))"
      using Cons.IH [OF xss(3) Cons.prems(2) r, of "n + 1" sz'] by blast
    then show ?thesis
      using g s xss(1) by (intro exI [of _ result'] exI [of _ "Suc k"]) (auto split: option.splits)
  qed
  show ?case
  proof (cases "w_sync w \<and> \<not> w_sync leader")
    case True
    then show ?thesis by (intro stop) simp
  next
    case False
    note sync = this
    show ?thesis
    proof (cases "w_batch w")
      case None
      then have "xs = []" using xss(2) by (simp add: writer_ops_def)
      then show ?thesis using None sync Cons.prems(3) by (intro go [of sz result]) (auto split: option.splits)
    next
      case (Some b)
      then obtain s where b: "b = batch_bytes s xs" using xss(2) by (auto simp: writer_ops_def)
      show ?thesis
      proof (cases "max_size < sz + WriteBatch_ByteSize b")
        case True
        then show ?thesis using Some sync by (intro stop) (auto simp: Let_def)
      next
        case False
        have "(case result of None \<Rightarrow> WriteBatch_Append WriteBatch_Clear own | Some t \<Rightarrow> Some t)
            = Some (batch_bytes 0 (bxs @ ds))"
          using Cons.prems(2,3) by (cases result) (simp_all add: Clear_batch Append_batch)
        then show ?thesis
          using Some sync False b
          by (intro go [of "sz + WriteBatch_ByteSize b" "Some (batch_bytes 0 (bxs @ ds @ xs))"])
            (auto simp: Let_def Append_batch)
      qed
    qed
  qed
qed

text \<open>The group of a queue: the updates of its first writers, in order.\<close>

definition group_of :: "writer list \<Rightarrow> nat \<Rightarrow> batch_op list \<Rightarrow> bool" where
  "group_of q k xs \<longleftrightarrow> w_batch (hd q) \<noteq> None \<and> k < length q \<and>
     (\<exists>seq result. BuildBatchGroup WriteBatch_Clear q = Some (result, k) \<and>
        (case result of None \<Rightarrow> w_batch (hd q) | Some t \<Rightarrow> Some t) = Some (batch_bytes seq xs))"

lemma BuildBatchGroup_ops:
  assumes "list_all2 writer_ops q xss" and "q \<noteq> []" and "w_batch (hd q) \<noteq> None"
  shows "\<exists>k. group_of q k (concat (take (Suc k) xss)) \<and> (\<forall>w\<in>set (take (Suc k) q). w_sync w \<longrightarrow> w_sync (hd q))"
proof -
  obtain w ws xs yss where q: "q = w # ws" "xss = xs # yss" "writer_ops w xs" "list_all2 writer_ops ws yss"
    using assms(1,2) by (cases q) (auto simp: list_all2_Cons1)
  then obtain s where b: "w_batch w = Some (batch_bytes s xs)" using assms(3) by (auto simp: writer_ops_def)
  let ?own = "batch_bytes s xs"
  let ?sz = "WriteBatch_ByteSize ?own"
  let ?max = "if ?sz \<le> 128 * 1024 then ?sz + 128 * 1024 else 1024 * 1024"
  obtain result k where k: "group_loop w ?own WriteBatch_Clear ?max ws 0 ?sz None = Some (result, 0 + k)"
    "k \<le> length ws" "\<forall>v\<in>set (take k ws). w_sync v \<longrightarrow> w_sync w"
    "case result of None \<Rightarrow> [] @ concat (take k yss) = [] | Some t \<Rightarrow> t = batch_bytes 0 (xs @ [] @ concat (take k yss))"
    using group_loop_ops [OF q(4), where own = ?own and bseq = s and bxs = xs and result = None
        and ds = "[]" and leader = w and n = 0 and max_size = ?max and sz = ?sz] by auto
  have g: "BuildBatchGroup WriteBatch_Clear q = Some (result, k)" using k(1) q(1) b by (simp add: BuildBatchGroup_def Let_def)
  have "\<exists>seq. (case result of None \<Rightarrow> w_batch (hd q) | Some t \<Rightarrow> Some t) = Some (batch_bytes seq (xs @ concat (take k yss)))"
    using k(4) b q(1) by (cases result) (auto simp del: concat_eq_Nil_conv)
  then have "group_of q k (xs @ concat (take k yss))"
    unfolding group_of_def using g k(2) assms(3) q(1) by auto
  then show ?thesis using k(3) q(1,2) by (intro exI [of _ k]) auto
qed

section \<open>Writing\<close>

text \<open>
  A database whose log holds the batches of \<open>xss\<close>, numbered from 1, and whose memtable holds their
  entries.
\<close>

fun batches :: "u64 \<Rightarrow> batch_op list list \<Rightarrow> slice list" where
  "batches seq [] = []"
| "batches seq (xs # xss) = batch_bytes seq xs # batches (seq + of_nat (length xs)) xss"

lemma batches_append:
  "batches seq (xss @ yss) = batches seq xss @ batches (seq + of_nat (length (concat xss))) yss"
  by (induction xss arbitrary: seq) (simp_all add: add.assoc)

definition db_holds :: "PosixWritableFile db \<Rightarrow> batch_op list list \<Rightarrow> bool" where
  "db_holds db xss \<longleftrightarrow> log_of (db_log db) (batches 1 xss) \<and>
     bytewise.represents (db_mem db) (entries_of 1 (concat xss)) \<and>
     db_last_sequence db = of_nat (length (concat xss)) \<and> db_tmp_batch db = WriteBatch_Clear"

definition fresh_db :: "slice \<Rightarrow> int \<Rightarrow> PosixWritableFile db" where
  "fresh_db name fd =
     \<lparr>db_log = Writer_new (PosixWritableFile_new name fd []) 0, db_mem = MemTable_new,
      db_tmp_batch = WriteBatch_Clear, db_last_sequence = 0, db_bg_error = Status_OK\<rparr>"

lemma fresh_db_holds: "db_holds (fresh_db name fd) []"
  using log_of_new bytewise.new_represents by (simp add: db_holds_def fresh_db_def)

abbreviation Posix_Write where
  "Posix_Write os \<equiv> DBImpl_Write Slice_compare (Posix_Append os) (Posix_Flush os) (Posix_Sync os)"

lemma scast_count: "n < 2 ^ 31 \<Longrightarrow> (scast (of_nat n :: u32) :: u64) = of_nat n"
  by (simp add: signed_of_nat signed_take_bit_int_eq_self)

text \<open>What the group becomes: a record of the log, and entries of the memtable when the status is OK.\<close>

lemma log_and_apply_effect:
  assumes "log_of (db_log db) ds" and "log_and_apply Slice_compare (Posix_Append os) (Posix_Flush os) (Posix_Sync os) sync b db
      = Some (st, db')"
  shows "\<exists>st1 w1. AddRecord (Posix_Append os) (Posix_Flush os) b (db_log db) = Some (st1, w1) \<and>
    pf_file (lw_dest (db_log db')) = pf_file (lw_dest w1) \<and>
    (st = Status_OK \<longrightarrow> st1 = Status_OK \<and> log_of (db_log db') (ds @ [b]) \<and>
       WriteBatch_InsertInto Slice_compare b (db_mem db) = Some (Status_OK, db_mem db') \<and>
       (sync \<longrightarrow> pf_synced (lw_dest (db_log db')) = pf_file (lw_dest (db_log db'))))"
proof -
  obtain st1 w1 where a: "AddRecord (Posix_Append os) (Posix_Flush os) b (db_log db) = Some (st1, w1)"
    using assms(2) by (auto simp: log_and_apply_def WriteBatch_Contents_def split: Option.bind_splits)
  have bg: "db_log (RecordBackgroundError s d) = db_log d" "db_mem (RecordBackgroundError s d) = db_mem d"
    for s and d :: "PosixWritableFile db"
    by (simp_all add: RecordBackgroundError_def)
  show ?thesis
  proof (cases "st1 = Status_OK")
    case False
    then show ?thesis using assms(2) a by (auto simp: log_and_apply_def WriteBatch_Contents_def)
  next
    case True
    note w1 = AddRecord_log_of(3) [OF assms(1) a True]
    show ?thesis
    proof (cases sync)
      case False
      then show ?thesis
        using assms(2) a True w1
        by (auto simp: log_and_apply_def WriteBatch_Contents_def split: Option.bind_splits)
    next
      case sync: True
      then obtain s g where g: "Posix_Sync os (lw_dest w1) = Some (s, g)"
        using assms(2) a True by (auto simp: log_and_apply_def WriteBatch_Contents_def split: Option.bind_splits)
      note lg = Sync_log_of [OF w1 g]
      have "pf_file g = pf_file (lw_dest w1)" using w1 lg by (simp add: log_of_def)
      moreover have "s = Status_OK \<Longrightarrow> pf_synced g = pf_file g"
        using Posix_Sync_effect [OF g] w1 \<open>pf_file g = _\<close> by (simp add: log_of_def pf_contents_def)
      ultimately show ?thesis
        using assms(2) a True lg g sync
        by (auto simp: log_and_apply_def WriteBatch_Contents_def bg Let_def split: Option.bind_splits if_splits)
    qed
  qed
qed

lemma Write_effect:
  assumes "db_holds db xss" and "group_of q k xs" and "length xs < 2 ^ 31"
    and "1 + length (concat xss) + length xs \<le> 2 ^ 56" and "\<forall>x\<in>set (concat xss @ xs). op_fits x"
    and "Posix_Write os Status_OK q db = Some (st, served, q', db')"
  shows "\<exists>st1 w1. AddRecord (Posix_Append os) (Posix_Flush os)
        (batch_bytes (1 + of_nat (length (concat xss))) xs) (db_log db) = Some (st1, w1) \<and>
      pf_file (lw_dest (db_log db')) = pf_file (lw_dest w1) \<and> (st = Status_OK \<longrightarrow> st1 = Status_OK)"
    and "st = Status_OK \<Longrightarrow> db_holds db' (xss @ [xs])"
    and "st = Status_OK \<Longrightarrow> w_sync (hd q) \<Longrightarrow> pf_synced (lw_dest (db_log db')) = pf_file (lw_dest (db_log db'))"
    and "length served = Suc k \<and> q' = drop (Suc k) q \<and> (\<forall>w\<in>set (tl served). w_done w \<and> w_status w = st)"
proof -
  let ?seq = "1 + of_nat (length (concat xss)) :: u64"
  note h = assms(1) [unfolded db_holds_def]
  obtain seq result where g: "w_batch (hd q) \<noteq> None" "k < length q"
    "BuildBatchGroup WriteBatch_Clear q = Some (result, k)"
    "(case result of None \<Rightarrow> w_batch (hd q) | Some t \<Rightarrow> Some t) = Some (batch_bytes seq xs)"
    using assms(2) by (auto simp: group_of_def)
  have u: "(case result of None \<Rightarrow> the (w_batch (hd q)) | Some t \<Rightarrow> t) = batch_bytes seq xs"
    using g(1,4) by (cases result) auto
  have s: "WriteBatch_SetSequence (batch_bytes seq xs) (db_last_sequence db + 1) = Some (batch_bytes ?seq xs)"
    "WriteBatch_Count (batch_bytes ?seq xs) = Some (of_nat (length xs))"
    using h by (simp_all add: batch_bytes_def batch_header add.commute)
  have tmp: "db_tmp_batch db = WriteBatch_Clear" using h by simp
  obtain db1 where l: "log_and_apply Slice_compare (Posix_Append os) (Posix_Flush os) (Posix_Sync os) (w_sync (hd q))
      (batch_bytes ?seq xs) db = Some (st, db1)"
    and db': "db' = db1\<lparr>db_tmp_batch := WriteBatch_Clear, db_last_sequence := db_last_sequence db + of_nat (length xs)\<rparr>"
    and served: "length served = Suc k" "q' = drop (Suc k) q" "\<forall>w\<in>set (tl served). w_done w \<and> w_status w = st"
    using assms(6) g(1,2,3) u s tmp scast_count [OF assms(3)]
    by (auto simp: DBImpl_Write_def Let_def split: Option.bind_splits if_splits)
  obtain st1 w1 where e: "AddRecord (Posix_Append os) (Posix_Flush os) (batch_bytes ?seq xs) (db_log db) = Some (st1, w1)"
    "pf_file (lw_dest (db_log db1)) = pf_file (lw_dest w1)"
    "st = Status_OK \<Longrightarrow> st1 = Status_OK" "st = Status_OK \<Longrightarrow> log_of (db_log db1) (batches 1 xss @ [batch_bytes ?seq xs])"
    "st = Status_OK \<Longrightarrow> WriteBatch_InsertInto Slice_compare (batch_bytes ?seq xs) (db_mem db) = Some (Status_OK, db_mem db1)"
    "st = Status_OK \<Longrightarrow> w_sync (hd q) \<Longrightarrow> pf_synced (lw_dest (db_log db1)) = pf_file (lw_dest (db_log db1))"
    using log_and_apply_effect [OF _ l] h by blast
  show "\<exists>st1 w1. AddRecord (Posix_Append os) (Posix_Flush os) (batch_bytes ?seq xs) (db_log db) = Some (st1, w1) \<and>
      pf_file (lw_dest (db_log db')) = pf_file (lw_dest w1) \<and> (st = Status_OK \<longrightarrow> st1 = Status_OK)"
    using e(1-3) by (auto simp: db')
  show "st = Status_OK \<Longrightarrow> w_sync (hd q) \<Longrightarrow> pf_synced (lw_dest (db_log db')) = pf_file (lw_dest (db_log db'))"
    using e(6) by (simp add: db')
  show "length served = Suc k \<and> q' = drop (Suc k) q \<and> (\<forall>w\<in>set (tl served). w_done w \<and> w_status w = st)"
    using served by blast
  assume st: "st = Status_OK"
  have E: "entries_of 1 (concat xss) @ entries_of ?seq xs = entries_of 1 (concat (xss @ [xs]))"
    by (simp add: entries_of_append)
  have "bytewise.entries_ok (entries_of 1 (concat xss) @ entries_of ?seq xs)"
    unfolding E using assms(4,5) by (intro entries_of_ok) simp_all
  moreover have "\<forall>x\<in>set xs. op_ok x" using assms(5) op_fits_ok by simp
  ultimately obtain m' where "WriteBatch_InsertInto Slice_compare (batch_bytes ?seq xs) (db_mem db) = Some (Status_OK, m')"
    "bytewise.represents m' (entries_of 1 (concat xss) @ entries_of ?seq xs)"
    using bytewise.InsertInto_represents [of "db_mem db" "entries_of 1 (concat xss)" ?seq xs] h by blast
  then have "bytewise.represents (db_mem db1) (entries_of 1 (concat (xss @ [xs])))" using e(5) [OF st] E by simp
  then show "db_holds db' (xss @ [xs])"
    using e(4) [OF st] h unfolding db_holds_def db' by (simp add: batches_append)
qed

section \<open>Reading back\<close>

text \<open>What the updates leave for each key: nothing, a deletion or a value.\<close>

fun op_update :: "(slice \<Rightarrow> slice option option) \<Rightarrow> batch_op \<Rightarrow> slice \<Rightarrow> slice option option" where
  "op_update m (Op_Put k v) = m(k \<mapsto> Some v)"
| "op_update m (Op_Delete k) = m(k \<mapsto> None)"

definition updates :: "batch_op list \<Rightarrow> slice \<Rightarrow> slice option option" where
  "updates ops = foldl op_update Map.empty ops"

lemma newest_snoc:
  "\<forall>d\<in>set es. en_seq d < en_seq e \<Longrightarrow>
    newest u snap (es @ [e]) = (if visible u snap e then Some e else newest u snap es)"
  by (induction es) auto

text \<open>The entry that a lookup finds is that of the last update of the key that the snapshot includes.\<close>

lemma newest_updates:
  assumes "length xs < 2 ^ 56" and "unat snap < 2 ^ 56"
  shows "map_option (\<lambda>e. if en_type e = kTypeValue then Some (en_value e) else None) (newest u snap (entries_of 1 xs))
    = updates (take (unat snap) xs) u"
  using assms(1)
proof (induction xs rule: rev_induct)
  case (snoc x xs)
  let ?e = "op_entry (1 + of_nat (length xs)) x"
  have E: "entries_of 1 (xs @ [x]) = entries_of 1 xs @ [?e]" by (simp add: entries_of_append)
  have un: "unat (1 + of_nat (length xs) :: u64) = length xs + 1"
    using snoc.prems by (simp add: unat_word_ariths unat_of_nat_mod)
  have "unat (en_seq d) < length xs + 1" if "d \<in> set (entries_of 1 xs)" for d
  proof -
    have "map (unat \<circ> en_seq) (entries_of 1 xs) = [1..<1 + length xs]"
      using entries_of_seq [of 1 xs] snoc.prems by simp
    then have "(unat \<circ> en_seq) d \<in> set [1..<1 + length xs]" using that by (metis image_eqI list.set_map)
    then show ?thesis by (simp del: upt_Suc)
  qed
  then have "\<forall>d\<in>set (entries_of 1 xs). en_seq d < en_seq ?e" by (simp add: word_less_nat_alt un)
  from newest_snoc [OF this, of u snap]
  have n: "newest u snap (entries_of 1 (xs @ [x])) = (if visible u snap ?e then Some ?e else newest u snap (entries_of 1 xs))"
    unfolding E .
  show ?case
  proof (cases "length xs < unat snap")
    case True
    then have v: "visible u snap ?e \<longleftrightarrow> en_key ?e = u" by (simp add: visible_def word_le_nat_alt un)
    have t: "take (unat snap) (xs @ [x]) = xs @ [x]" "take (unat snap) xs = xs" using True by simp_all
    show ?thesis unfolding n v t using snoc t(2) by (cases x) (auto simp: updates_def)
  next
    case False
    then have "\<not> visible u snap ?e" by (simp add: visible_def word_le_nat_alt un)
    then show ?thesis using snoc False by (simp add: n)
  qed
qed (simp add: updates_def)

end
