(* ===== verification/Ldb_Db_Props.thy ===== *)
theory Ldb_Db_Props
  imports Ldb_Db_Spec
begin

text \<open>
  What the recovery of the log of a database brings back after a crash, and the properties of the
  database.
\<close>

section \<open>Recovery\<close>

text \<open>The tables that are written during recovery, recorded.\<close>

definition record_table :: "MemTable \<Rightarrow> MemTable list \<Rightarrow> Status \<times> MemTable list" where
  "record_table m ms = (Status_OK, ms @ [m])"

definition rv_holds :: "u64 \<Rightarrow> MemTable list recovery \<Rightarrow> batch_op list \<Rightarrow> bool" where
  "rv_holds ms rv xs \<longleftrightarrow> rv_status rv = Status_OK \<and> rv_max_sequence rv = max ms (of_nat (length xs)) \<and>
     (\<exists>ess es. list_all2 bytewise.represents (rv_edit rv) ess \<and>
        (case rv_mem rv of None \<Rightarrow> es = [] | Some m \<Rightarrow> bytewise.represents m es) \<and>
        concat ess @ es = entries_of 1 xs)"

context user_comparator
begin

lemma entries_ok_suffix: "entries_ok (es @ fs) \<Longrightarrow> entries_ok fs"
  by (auto simp: entries_ok_def)

lemma Ref_represents [simp]: "represents (MemTable_Ref m) es = represents m es"
  by (simp add: represents_def MemTable_Ref_def)

end

text \<open>A record of the log that holds a batch is added.\<close>

lemma recover_batch:
  assumes "rv_holds ms rv xs" and "length ys < 2 ^ 31" and "1 + length xs + length ys \<le> 2 ^ 56"
    and "\<forall>x\<in>set (xs @ ys). op_fits x"
  shows "\<exists>rv'. recover_record Slice_compare usage limit record_table paranoid
      (batch_bytes (1 + of_nat (length xs)) ys) rv = Some (True, rv') \<and> rv_holds ms rv' (xs @ ys)"
proof -
  let ?seq = "1 + of_nat (length xs) :: u64"
  let ?b = "batch_bytes ?seq ys"
  obtain ess es where st: "rv_status rv = Status_OK" and mx: "rv_max_sequence rv = max ms (of_nat (length xs))"
    and ess: "list_all2 bytewise.represents (rv_edit rv) ess"
    and es: "case rv_mem rv of None \<Rightarrow> es = [] | Some m \<Rightarrow> bytewise.represents m es"
    and cat: "concat ess @ es = entries_of 1 xs"
    using assms(1) by (auto simp: rv_holds_def)
  let ?m = "case rv_mem rv of None \<Rightarrow> MemTable_Ref MemTable_new | Some m \<Rightarrow> m"
  have m: "bytewise.represents ?m es" using es bytewise.new_represents by (auto split: option.splits)
  have all: "entries_of 1 (xs @ ys) = concat ess @ es @ entries_of ?seq ys"
    using cat by (simp add: entries_of_append)
  have "bytewise.entries_ok (entries_of 1 (xs @ ys))" using assms(3,4) by (intro entries_of_ok) simp_all
  then have ok: "bytewise.entries_ok (es @ entries_of ?seq ys)" unfolding all by (rule bytewise.entries_ok_suffix)
  have "\<forall>x\<in>set ys. op_ok x" using assms(4) op_fits_ok by simp
  then obtain m' where m': "WriteBatch_InsertInto Slice_compare ?b ?m = Some (Status_OK, m')"
    "bytewise.represents m' (es @ entries_of ?seq ys)"
    using bytewise.InsertInto_represents [OF m ok] by blast
  have b: "\<not> length ?b < 12" "WriteBatch_SetContents ?b = Some ?b" "WriteBatch_Sequence ?b = Some ?seq"
    "WriteBatch_Count ?b = Some (of_nat (length ys))"
    by (simp_all add: batch_bytes_def batch_header WriteBatch_SetContents_def kHeader_def)
  have u: "unat (of_nat (length xs + length ys) :: u64) = length xs + length ys"
    "unat (of_nat (length xs) :: u64) = length xs"
    using assms(3) by (simp_all add: unat_of_nat_mod del: of_nat_add)
  have le: "(of_nat (length xs) :: u64) \<le> of_nat (length xs + length ys)"
    unfolding word_le_nat_alt u by simp
  define N where "N = (of_nat (length xs + length ys) :: u64)"
  have last: "?seq + scast (of_nat (length ys) :: u32) - 1 = N"
    using scast_count [OF assms(2)] by (simp add: N_def)
  have mx': "(if rv_max_sequence rv < N then N else rv_max_sequence rv) = max ms N"
    using le unfolding mx N_def by (auto simp: max_def not_less intro!: order.antisym)
  define rv1 where "rv1 = rv\<lparr>rv_status := Status_OK, rv_mem := Some m', rv_max_sequence := max ms N\<rparr>"
  define rv2 where "rv2 = (if limit < usage m'
    then rv1\<lparr>rv_mem := None, rv_compactions := rv_compactions rv + 1, rv_save_manifest := True,
      rv_edit := rv_edit rv @ [m']\<rparr>
    else rv1)"
  have e: "rv_edit rv1 = rv_edit rv" "rv_compactions rv1 = rv_compactions rv" by (simp_all add: rv1_def)
  have step: "recover_record Slice_compare usage limit record_table paranoid ?b rv = Some (True, rv2)"
  proof (cases "rv_max_sequence rv < N")
    case True
    then have "max ms N = N" using mx' by simp
    then show ?thesis
      using b(1) True unfolding recover_record_def b(2-4) m'(1) bind.simps Let_def prod.case last
      by (simp add: MaybeIgnoreError_def record_table_def rv2_def rv1_def)
  next
    case False
    then have "max ms N = rv_max_sequence rv" using mx' by simp
    then show ?thesis
      using b(1) False unfolding recover_record_def b(2-4) m'(1) bind.simps Let_def prod.case last
      by (simp add: MaybeIgnoreError_def record_table_def rv2_def rv1_def)
  qed
  have f: "rv_status rv2 = Status_OK" "rv_max_sequence rv2 = max ms (of_nat (length (xs @ ys)))"
    by (simp_all add: rv2_def rv1_def N_def)
  show ?thesis
  proof (cases "limit < usage m'")
    case True
    have "list_all2 bytewise.represents (rv_edit rv2) (ess @ [es @ entries_of ?seq ys])"
      using ess m'(2) True by (simp add: rv2_def rv1_def list_all2_appendI)
    moreover have "concat (ess @ [es @ entries_of ?seq ys]) @ [] = entries_of 1 (xs @ ys)" by (simp add: all)
    moreover have "case rv_mem rv2 of None \<Rightarrow> [] = [] | Some m \<Rightarrow> bytewise.represents m []"
      using True by (simp add: rv2_def)
    ultimately show ?thesis using step f unfolding rv_holds_def by blast
  next
    case False
    have "list_all2 bytewise.represents (rv_edit rv2) ess" using ess False by (simp add: rv2_def rv1_def)
    moreover have "case rv_mem rv2 of None \<Rightarrow> es @ entries_of ?seq ys = [] | Some m \<Rightarrow> bytewise.represents m (es @ entries_of ?seq ys)"
      using False m'(2) by (simp add: rv2_def rv1_def)
    ultimately show ?thesis using step f all [symmetric] unfolding rv_holds_def by blast
  qed
qed

text \<open>Groups that fit the limits of the format.\<close>

definition groups_fit :: "batch_op list list \<Rightarrow> bool" where
  "groups_fit xss \<longleftrightarrow> 1 + length (concat xss) \<le> 2 ^ 56 \<and> (\<forall>xs\<in>set xss. length xs < 2 ^ 31) \<and>
     (\<forall>x\<in>set (concat xss). op_fits x)"

lemma groups_fit_append: "groups_fit (xss @ yss) \<Longrightarrow> groups_fit xss"
  by (auto simp: groups_fit_def)

lemma recover_reads:
  "reads fread fskip r recs r' \<Longrightarrow> lr_reports r = [] \<Longrightarrow> recs = batches (1 + of_nat (length (concat xss))) yss \<Longrightarrow>
    rv_holds ms rv (concat xss) \<Longrightarrow> groups_fit (xss @ yss) \<Longrightarrow>
    \<exists>r'' rv'. recover_loop fread fskip paranoid (recover_record Slice_compare usage limit record_table paranoid) r rv
      = Some (r'', rv') \<and> rv_holds ms rv' (concat (xss @ yss))"
proof (induction arbitrary: xss yss rv rule: reads.induct)
  case (reads_end r sc r')
  then have "yss = []" by (cases yss) simp_all
  then show ?case using reads_end by (subst recover_loop.simps) simp
next
  case (reads_record r d sc r1 ds r')
  obtain ys zss where yss: "yss = ys # zss" and d: "d = batch_bytes (1 + of_nat (length (concat xss))) ys"
    and ds: "ds = batches (1 + of_nat (length (concat (xss @ [ys])))) zss"
    using reads_record.prems(2) by (cases yss) (auto simp: add.assoc)
  have fit: "groups_fit ((xss @ [ys]) @ zss)" using reads_record.prems(4) yss by simp
  have "length ys < 2 ^ 31" "1 + length (concat xss) + length ys \<le> 2 ^ 56" "\<forall>x\<in>set (concat xss @ ys). op_fits x"
    using fit by (auto simp: groups_fit_def)
  from recover_batch [OF reads_record.prems(3) this, of usage limit paranoid] obtain rv1 where
    rv1: "recover_record Slice_compare usage limit record_table paranoid d rv = Some (True, rv1)"
    and h: "rv_holds ms rv1 (concat (xss @ [ys]))"
    unfolding d concat_append by auto
  have "rv_status rv = Status_OK" using reads_record.prems(3) by (simp add: rv_holds_def)
  then have id: "rv\<lparr>rv_status := Status_OK\<rparr> = rv" "rv_status rv = Status_OK" by (cases rv; simp)+
  have "recover_loop fread fskip paranoid (recover_record Slice_compare usage limit record_table paranoid) r rv
    = recover_loop fread fskip paranoid (recover_record Slice_compare usage limit record_table paranoid) r1 rv1"
    using reads_record.hyps(1,2) reads_record.prems(1) rv1 by (subst recover_loop.simps) (simp add: id)
  then show ?case using reads_record.IH [OF reads_record.hyps(2) ds h fit] yss by simp
qed

text \<open>All that recovery leaves: the tables, then the memtable that is kept.\<close>

definition recovered :: "MemTable option \<times> MemTable list recovery \<Rightarrow> MemTable list" where
  "recovered x = rv_edit (snd x) @ (case fst x of None \<Rightarrow> [] | Some m \<Rightarrow> [m])"

lemma finish_recovered:
  assumes "rv_holds ms rv xs"
  shows "rv_status (snd (finish_recovery record_table reuse rv)) = Status_OK \<and>
    rv_max_sequence (snd (finish_recovery record_table reuse rv)) = max ms (of_nat (length xs)) \<and>
    (\<exists>ess. list_all2 bytewise.represents (recovered (finish_recovery record_table reuse rv)) ess \<and>
      concat ess = entries_of 1 xs)"
proof -
  obtain ess es where st: "rv_status rv = Status_OK" and mx: "rv_max_sequence rv = max ms (of_nat (length xs))"
    and ess: "list_all2 bytewise.represents (rv_edit rv) ess"
    and es: "case rv_mem rv of None \<Rightarrow> es = [] | Some m \<Rightarrow> bytewise.represents m es"
    and cat: "concat ess @ es = entries_of 1 xs"
    using assms by (auto simp: rv_holds_def)
  have add: "\<exists>ess. list_all2 bytewise.represents (rv_edit rv @ [m]) ess \<and> concat ess = entries_of 1 xs"
    if "bytewise.represents m es" for m
    using ess cat that by (intro exI [of _ "ess @ [es]"]) (simp add: list_all2_appendI)
  show ?thesis
  proof (cases "reuse \<and> rv_compactions rv = 0")
    case True
    have "bytewise.represents (case rv_mem rv of None \<Rightarrow> MemTable_Ref MemTable_new | Some m \<Rightarrow> m) es"
      using es bytewise.new_represents by (auto split: option.splits)
    from add [OF this] show ?thesis using True st mx by (simp add: finish_recovery_def recovered_def)
  next
    case False
    show ?thesis
    proof (cases "rv_mem rv")
      case None
      then show ?thesis using False st mx ess es cat by (auto simp: finish_recovery_def recovered_def)
    next
      case (Some m)
      then have "bytewise.represents m es" using es by simp
      from add [OF this] show ?thesis
        using Some False st mx by (auto simp: finish_recovery_def recovered_def record_table_def)
    qed
  qed
qed

text \<open>A sequence of groups, all served with the status OK.\<close>

fun db_run :: "os \<Rightarrow> writer list list \<Rightarrow> PosixWritableFile db \<Rightarrow> PosixWritableFile db option" where
  "db_run os [] db = Some db"
| "db_run os (q # qs) db = do {
     (st, _, _, db) \<leftarrow> Posix_Write os Status_OK q db;
     if Status_ok st then db_run os qs db else None }"

lemma db_run_holds:
  "db_run os qs db = Some db' \<Longrightarrow> db_holds db yss \<Longrightarrow> list_all2 (\<lambda>q xs. \<exists>k. group_of q k xs) qs xss \<Longrightarrow>
    groups_fit (yss @ xss) \<Longrightarrow> db_holds db' (yss @ xss)"
proof (induction qs arbitrary: db yss xss)
  case (Cons q qs)
  obtain k xs zss where xss: "xss = xs # zss" "group_of q k xs" "list_all2 (\<lambda>q xs. \<exists>k. group_of q k xs) qs zss"
    using Cons.prems(3) by (auto simp: list_all2_Cons1)
  obtain sv q' db1 where w: "Posix_Write os Status_OK q db = Some (Status_OK, sv, q', db1)" "db_run os qs db1 = Some db'"
    using Cons.prems(1) by (auto split: Option.bind_splits if_splits)
  have "db_holds db1 (yss @ [xs])"
    using Write_effect(2) [OF Cons.prems(2) xss(2) _ _ _ w(1)] Cons.prems(4) xss(1) by (auto simp: groups_fit_def)
  then show ?case using Cons.IH [OF w(2), of "yss @ [xs]" zss] xss Cons.prems(4) by simp
qed (simp add: list_all2_Nil)

section \<open>The database\<close>


text \<open>
  C39: A group of writers.  The writer at the front of the queue builds a batch of the updates of the
  first writers of the queue, in order, never taking a writer that asks for a sync into a group that
  does not; the group gets the next sequence numbers.  With the status OK the log holds one more record
  and the memtable the new entries, nothing else of the database changes, and after a sync the log file
  is durable; every writer served but the first, which returns it, is given the status and marked done.
\<close>

theorem db_write_group:
  assumes "db_holds db xss" and "list_all2 writer_ops q oss" and "q \<noteq> []" and "w_batch (hd q) \<noteq> None"
    and "groups_fit (xss @ [concat oss])"
    and "Posix_Write os Status_OK q db = Some (st, served, q', db')"
  shows "\<exists>k. length served = Suc k \<and> q' = drop (Suc k) q \<and>
    (\<forall>w\<in>set (tl served). w_done w \<and> w_status w = st) \<and>
    (\<forall>w\<in>set (take (Suc k) q). w_sync w \<longrightarrow> w_sync (hd q)) \<and>
    (st = Status_OK \<longrightarrow> db_holds db' (xss @ [concat (take (Suc k) oss)]) \<and>
      (w_sync (hd q) \<longrightarrow> pf_synced (lw_dest (db_log db')) = log_bytes 0 (batches 1 (xss @ [concat (take (Suc k) oss)]))))"
proof -
  obtain k where k: "group_of q k (concat (take (Suc k) oss))" "\<forall>w\<in>set (take (Suc k) q). w_sync w \<longrightarrow> w_sync (hd q)"
    using BuildBatchGroup_ops [OF assms(2-4)] by blast
  let ?xs = "concat (take (Suc k) oss)"
  have split: "concat oss = ?xs @ concat (drop (Suc k) oss)" by (metis append_take_drop_id concat_append)
  have fit: "length ?xs < 2 ^ 31" "1 + length (concat xss) + length ?xs \<le> 2 ^ 56" "\<forall>x\<in>set (concat xss @ ?xs). op_fits x"
  proof -
    have f: "length (concat oss) < 2 ^ 31" "1 + length (concat xss) + length (concat oss) \<le> 2 ^ 56"
      "\<forall>x\<in>set (concat xss) \<union> set (concat oss). op_fits x"
      using assms(5) by (auto simp: groups_fit_def)
    have "length ?xs \<le> length (concat oss)" "set ?xs \<subseteq> set (concat oss)" unfolding split by auto
    then show "length ?xs < 2 ^ 31" "1 + length (concat xss) + length ?xs \<le> 2 ^ 56" "\<forall>x\<in>set (concat xss @ ?xs). op_fits x"
      using f by auto
  qed
  note e = Write_effect [OF assms(1) k(1) fit assms(6)]
  have "pf_synced (lw_dest (db_log db')) = log_bytes 0 (batches 1 (xss @ [?xs]))" if "st = Status_OK" "w_sync (hd q)"
    using e(2) [OF that(1)] e(3) [OF that] by (simp add: db_holds_def log_of_def)
  then show ?thesis using e(2,4) k(2) by blast
qed


section \<open>Writes that succeed\<close>

lemma calm_Posix_Write:
  assumes "db_holds db xss" and "group_of q k xs" and "groups_fit (xss @ [xs])" and "\<not> w_sync (hd q)"
    and "lw_block_offset (db_log db) = int pos" and "pos + 7 + length (batch_bytes 0 xs) \<le> 32768"
  shows "\<exists>served q' db'. Posix_Write calm_os Status_OK q db = Some (Status_OK, served, q', db') \<and>
    db_holds db' (xss @ [xs]) \<and> lw_block_offset (db_log db') = int (pos + 7 + length (batch_bytes 0 xs))"
proof -
  let ?seq = "1 + of_nat (length (concat xss)) :: u64"
  let ?b = "batch_bytes ?seq xs"
  note h = assms(1) [unfolded db_holds_def]
  have fit: "length xs < 2 ^ 31" "1 + length (concat xss) + length xs \<le> 2 ^ 56" "\<forall>x\<in>set (concat xss @ xs). op_fits x"
    using assms(3) by (auto simp: groups_fit_def)
  obtain seq result where g: "w_batch (hd q) \<noteq> None" "BuildBatchGroup WriteBatch_Clear q = Some (result, k)"
    "(case result of None \<Rightarrow> w_batch (hd q) | Some t \<Rightarrow> Some t) = Some (batch_bytes seq xs)"
    using assms(2) by (auto simp: group_of_def)
  have u: "(case result of None \<Rightarrow> the (w_batch (hd q)) | Some t \<Rightarrow> t) = batch_bytes seq xs"
    using g(1,3) by (cases result) auto
  have s: "WriteBatch_SetSequence (batch_bytes seq xs) (db_last_sequence db + 1) = Some ?b"
    "WriteBatch_Count ?b = Some (of_nat (length xs))"
    using h by (simp_all add: batch_bytes_def batch_header add.commute)
  have len: "length ?b = length (batch_bytes 0 xs)" by (simp add: batch_bytes_def)
  obtain w' where w': "AddRecord (Posix_Append calm_os) (Posix_Flush calm_os) ?b (db_log db) = Some (Status_OK, w')"
    "lw_block_offset w' = int (pos + 7 + length (batch_bytes 0 xs))"
    using calm_AddRecord [OF assms(5), of ?b] assms(6) len by auto
  have "bytewise.entries_ok (entries_of 1 (concat xss @ xs))" using fit by (intro entries_of_ok) simp_all
  then obtain m' where "WriteBatch_InsertInto Slice_compare ?b (db_mem db) = Some (Status_OK, m')"
    using bytewise.InsertInto_represents [of "db_mem db" "entries_of 1 (concat xss)" ?seq xs] h fit(3) op_fits_ok
    by (auto simp: entries_of_append)
  then have l: "log_and_apply Slice_compare (Posix_Append calm_os) (Posix_Flush calm_os) (Posix_Sync calm_os) False ?b db
      = Some (Status_OK, db\<lparr>db_log := w', db_mem := m'\<rparr>)"
    using w' by (simp add: log_and_apply_def WriteBatch_Contents_def)
  then obtain served q' db' where w: "Posix_Write calm_os Status_OK q db = Some (Status_OK, served, q', db')"
    and o: "lw_block_offset (db_log db') = lw_block_offset w'"
    using g(1,2) u s h assms(4) by (simp add: DBImpl_Write_def Let_def)
  show ?thesis using Write_effect(2) [OF assms(1,2) fit w] w o w'(2) by auto
qed

text \<open>Two writers: the first puts a value, the second deletes it.\<close>

definition put_writer :: writer where
  "put_writer = new_writer (Some (batch_bytes 0 [Op_Put [0x61] [1, 2]])) False"

definition delete_writer :: writer where
  "delete_writer = new_writer (Some (batch_bytes 0 [Op_Delete [0x61]])) False"

lemma single_group:
  "group_of [put_writer] 0 [Op_Put [0x61] [1, 2]]" "group_of [delete_writer] 0 [Op_Delete [0x61]]"
  by (auto simp: group_of_def put_writer_def delete_writer_def new_writer_def BuildBatchGroup_def)

lemma small_batch:
  "length (batch_bytes 0 [Op_Put [0x61] [1, 2]]) \<le> 100" "length (batch_bytes 0 [Op_Delete [0x61]]) \<le> 100"
proof -
  have "length (EncodeVarint32 v) \<le> 5" for v using length_leb128_u32 by (simp add: EncodeVarint32_leb128)
  note this [of 1] this [of 2]
  then show "length (batch_bytes 0 [Op_Put [0x61] [1, 2]]) \<le> 100" "length (batch_bytes 0 [Op_Delete [0x61]]) \<le> 100"
    by (simp_all add: batch_bytes_def PutLengthPrefixedSlice_def PutVarint32_def)
qed

lemma two_writes:
  "\<exists>db db' served q'. db_run calm_os [[put_writer]] (fresh_db name fd) = Some db \<and> db_holds db [[Op_Put [0x61] [1, 2]]] \<and>
    Posix_Write calm_os Status_OK [delete_writer] db = Some (Status_OK, served, q', db') \<and>
    db_holds db' [[Op_Put [0x61] [1, 2]], [Op_Delete [0x61]]]"
proof -
  have f: "groups_fit ([] @ [[Op_Put [0x61] [1, 2]]])" "groups_fit ([[Op_Put [0x61] [1, 2]]] @ [[Op_Delete [0x61]]])"
    by (simp_all add: groups_fit_def)
  have n: "\<not> w_sync (hd [put_writer])" "\<not> w_sync (hd [delete_writer])"
    by (simp_all add: put_writer_def delete_writer_def new_writer_def)
  let ?n = "length (batch_bytes 0 [Op_Put [0x61] [1, 2]])"
  have "lw_block_offset (db_log (fresh_db name fd)) = int 0" by (simp add: fresh_db_def Writer_new_def)
  from calm_Posix_Write [OF fresh_db_holds single_group(1) f(1) n(1) this] small_batch(1)
  obtain sv q1 db where 1: "Posix_Write calm_os Status_OK [put_writer] (fresh_db name fd) = Some (Status_OK, sv, q1, db)"
    "db_holds db [[Op_Put [0x61] [1, 2]]]" "lw_block_offset (db_log db) = int (7 + ?n)"
    by auto
  from calm_Posix_Write [OF 1(2) single_group(2) f(2) n(2) 1(3)] small_batch 1(1,2) show ?thesis by auto
qed


theorem db_write_group_witness:
  "\<exists>db served q' db'. Posix_Write calm_os Status_OK [put_writer] (fresh_db [] 3) = Some (Status_OK, served, q', db') \<and>
    db_holds db' [[Op_Put [0x61] [1, 2]]]"
proof -
  obtain db sv q' where w: "Posix_Write calm_os Status_OK [put_writer] (fresh_db [] 3) = Some (Status_OK, sv, q', db)"
    using two_writes [of "[]" 3] by (auto split: Option.bind_splits if_splits)
  have "list_all2 writer_ops [put_writer] [[Op_Put [0x61] [1, 2]]]"
    by (auto simp: writer_ops_def put_writer_def new_writer_def)
  moreover have "groups_fit ([] @ [concat [[Op_Put [0x61] [1, 2]]]])" by (simp add: groups_fit_def)
  ultimately show ?thesis
    using db_write_group [OF fresh_db_holds _ _ _ _ w, of "[[Op_Put [0x61] [1, 2]]]"] w
    by (auto simp: put_writer_def new_writer_def)
qed


end
