(* ===== verification/Ldb_Iterator.thy ===== *)
theory Ldb_Iterator
  imports Ldb_Key Ldb_Status Ldb_Skiplist_Props "HOL-Library.Monad_Syntax"
begin

text \<open>
  Iterators (\<open>include/leveldb/iterator.h\<close>, \<open>table/iterator.cc\<close>, \<open>table/iterator_wrapper.h\<close>): the
  interface as a record of its methods, the wrapper that remembers \<open>Valid\<close> and \<open>key\<close>, and the
  contract of an iterator over entries in order.
\<close>

section \<open>The interface\<close>

text \<open>A method that moves an iterator is \<open>None\<close> where C++ leaves what happens undefined.\<close>

record 'it Iterator =
  vt_Valid :: "'it \<Rightarrow> bool"
  vt_SeekToFirst :: "'it \<Rightarrow> 'it option"
  vt_SeekToLast :: "'it \<Rightarrow> 'it option"
  vt_Seek :: "slice \<Rightarrow> 'it \<Rightarrow> 'it option"
  vt_Next :: "'it \<Rightarrow> 'it option"
  vt_Prev :: "'it \<Rightarrow> 'it option"
  vt_key :: "'it \<Rightarrow> slice"
  vt_value :: "'it \<Rightarrow> slice option"
  vt_status :: "'it \<Rightarrow> Status"

section \<open>The wrapper\<close>

record 'it IteratorWrapper =
  iw_iter :: "'it option"
  iw_valid :: bool
  iw_key :: slice

definition IteratorWrapper_new :: "'it IteratorWrapper" where
  "IteratorWrapper_new = \<lparr>iw_iter = None, iw_valid = False, iw_key = []\<rparr>"

definition Wrapper_Update :: "'it Iterator \<Rightarrow> 'it \<Rightarrow> 'it IteratorWrapper \<Rightarrow> 'it IteratorWrapper" where
  "Wrapper_Update vt it w =
     \<lparr>iw_iter = Some it, iw_valid = vt_Valid vt it, iw_key = (if vt_Valid vt it then vt_key vt it else iw_key w)\<rparr>"

definition Wrapper_Set :: "'it Iterator \<Rightarrow> 'it option \<Rightarrow> 'it IteratorWrapper \<Rightarrow> 'it IteratorWrapper" where
  "Wrapper_Set vt iter w =
     (case iter of None \<Rightarrow> w\<lparr>iw_iter := None, iw_valid := False\<rparr> | Some it \<Rightarrow> Wrapper_Update vt it w)"

definition Wrapper_value :: "'it Iterator \<Rightarrow> 'it IteratorWrapper \<Rightarrow> slice option" where
  "Wrapper_value vt w = do { it \<leftarrow> iw_iter w; vt_value vt it }"

definition Wrapper_status :: "'it Iterator \<Rightarrow> 'it IteratorWrapper \<Rightarrow> Status option" where
  "Wrapper_status vt w = map_option (vt_status vt) (iw_iter w)"

definition Wrapper_Next :: "'it Iterator \<Rightarrow> 'it IteratorWrapper \<Rightarrow> 'it IteratorWrapper option" where
  "Wrapper_Next vt w = do { it \<leftarrow> iw_iter w; it' \<leftarrow> vt_Next vt it; Some (Wrapper_Update vt it' w) }"

definition Wrapper_Prev :: "'it Iterator \<Rightarrow> 'it IteratorWrapper \<Rightarrow> 'it IteratorWrapper option" where
  "Wrapper_Prev vt w = do { it \<leftarrow> iw_iter w; it' \<leftarrow> vt_Prev vt it; Some (Wrapper_Update vt it' w) }"

definition Wrapper_Seek :: "'it Iterator \<Rightarrow> slice \<Rightarrow> 'it IteratorWrapper \<Rightarrow> 'it IteratorWrapper option" where
  "Wrapper_Seek vt k w = do { it \<leftarrow> iw_iter w; it' \<leftarrow> vt_Seek vt k it; Some (Wrapper_Update vt it' w) }"

definition Wrapper_SeekToFirst :: "'it Iterator \<Rightarrow> 'it IteratorWrapper \<Rightarrow> 'it IteratorWrapper option" where
  "Wrapper_SeekToFirst vt w = do { it \<leftarrow> iw_iter w; it' \<leftarrow> vt_SeekToFirst vt it; Some (Wrapper_Update vt it' w) }"

definition Wrapper_SeekToLast :: "'it Iterator \<Rightarrow> 'it IteratorWrapper \<Rightarrow> 'it IteratorWrapper option" where
  "Wrapper_SeekToLast vt w = do { it \<leftarrow> iw_iter w; it' \<leftarrow> vt_SeekToLast vt it; Some (Wrapper_Update vt it' w) }"

section \<open>Entries in order\<close>

type_synonym entries = "(slice \<times> slice) list"

text \<open>Entries in strictly increasing order of their keys, and the number of them before a target.\<close>

definition increasing :: "(slice \<Rightarrow> bool) \<Rightarrow> (slice \<Rightarrow> slice \<Rightarrow> int) \<Rightarrow> entries \<Rightarrow> bool" where
  "increasing valid cmp es \<longleftrightarrow> (\<forall>e \<in> set es. valid (fst e)) \<and> sorted_wrt (\<lambda>a b. cmp (fst a) (fst b) < 0) es"

definition lower :: "(slice \<Rightarrow> slice \<Rightarrow> int) \<Rightarrow> slice \<Rightarrow> entries \<Rightarrow> nat" where
  "lower cmp target es = length (takeWhile (\<lambda>e. cmp (fst e) target < 0) es)"

lemma lower_le: "lower cmp target es \<le> length es"
  by (simp add: lower_def length_takeWhile_le)

lemma drop_lower: "drop (lower cmp target es) es = dropWhile (\<lambda>e. cmp (fst e) target < 0) es"
  by (simp add: lower_def dropWhile_eq_drop)

locale slice_order = key_order valid cmp
  for valid :: "slice \<Rightarrow> bool" and cmp :: "slice \<Rightarrow> slice \<Rightarrow> int"
begin

lemma increasing_lower:
  assumes "increasing valid cmp es" and "valid target" and "i < length es"
  shows "cmp (fst (es ! i)) target < 0 \<longleftrightarrow> i < lower cmp target es"
proof
  let ?P = "\<lambda>e. cmp (fst e) target < 0"
  show "?P (es ! i)" if "i < lower cmp target es"
    using that nth_mem [of i "takeWhile ?P es"] set_takeWhileD [of "es ! i" ?P es]
    by (simp add: lower_def takeWhile_nth)
  show "i < lower cmp target es" if "?P (es ! i)"
  proof (rule ccontr)
    assume "\<not> i < lower cmp target es"
    then have le: "lower cmp target es \<le> i" by simp
    then have n: "\<not> ?P (es ! lower cmp target es)"
      using nth_length_takeWhile [of ?P es] assms(3) by (simp add: lower_def)
    have v: "valid (fst (es ! i))" "valid (fst (es ! lower cmp target es))"
      using assms(1,3) le by (simp_all add: increasing_def)
    show False
    proof (cases "i = lower cmp target es")
      case False
      then have "cmp (fst (es ! lower cmp target es)) (fst (es ! i)) < 0"
        using assms(1,3) le by (simp add: increasing_def sorted_wrt_iff_nth_less)
      then show False using n that less_le [OF v(2) v(1) assms(2)] by simp
    qed (use n that in simp)
  qed
qed

end

sublocale comparator \<subseteq> slice_order valid cmp
  by unfold_locales

section \<open>The contract\<close>

text \<open>
  An iterator over entries: \<open>opened es\<close> holds when it can be sent somewhere, \<open>on es i\<close> when it is on the
  entry \<open>i\<close>, or invalid if \<open>i\<close> is their number.
\<close>

locale ordered_iterator =
  fixes vt :: "'it Iterator"
    and valid :: "slice \<Rightarrow> bool"
    and cmp :: "slice \<Rightarrow> slice \<Rightarrow> int"
    and opened :: "entries \<Rightarrow> 'it \<Rightarrow> bool"
    and on :: "entries \<Rightarrow> nat \<Rightarrow> 'it \<Rightarrow> bool"
  assumes on_opened: "on es i it \<Longrightarrow> opened es it \<and> i \<le> length es"
    and on_Valid: "on es i it \<Longrightarrow> vt_Valid vt it \<longleftrightarrow> i < length es"
    and on_entry: "on es i it \<Longrightarrow> i < length es \<Longrightarrow> vt_key vt it = fst (es ! i) \<and> vt_value vt it = Some (snd (es ! i))"
    and opened_status: "opened es it \<Longrightarrow> vt_status vt it = Status_OK"
    and first_on: "opened es it \<Longrightarrow> \<exists>it'. vt_SeekToFirst vt it = Some it' \<and> on es 0 it'"
    and last_on: "opened es it \<Longrightarrow> \<exists>it'. vt_SeekToLast vt it = Some it' \<and> on es (length es - 1) it'"
    and seek_on: "opened es it \<Longrightarrow> increasing valid cmp es \<Longrightarrow> valid target \<Longrightarrow>
      \<exists>it'. vt_Seek vt target it = Some it' \<and> on es (lower cmp target es) it'"
    and next_on: "on es i it \<Longrightarrow> i < length es \<Longrightarrow> \<exists>it'. vt_Next vt it = Some it' \<and> on es (Suc i) it'"
    and prev_on: "on es i it \<Longrightarrow> i < length es \<Longrightarrow>
      \<exists>it'. vt_Prev vt it = Some it' \<and> on es (if i = 0 then length es else i - 1) it'"

text \<open>The entries met by moving on until the iterator is invalid.\<close>

fun iter_walk :: "'it Iterator \<Rightarrow> ('it \<Rightarrow> 'it option) \<Rightarrow> nat \<Rightarrow> 'it \<Rightarrow> entries option" where
  "iter_walk vt step 0 it = None"
| "iter_walk vt step (Suc n) it =
     (if \<not> vt_Valid vt it then Some []
      else do {
        v \<leftarrow> vt_value vt it;
        it' \<leftarrow> step it;
        es \<leftarrow> iter_walk vt step n it';
        Some ((vt_key vt it, v) # es) })"

context ordered_iterator
begin

lemma walk_next: "on es i it \<Longrightarrow> length es - i < n \<Longrightarrow> iter_walk vt (vt_Next vt) n it = Some (drop i es)"
proof (induction n arbitrary: i it)
  case (Suc n)
  show ?case
  proof (cases "i < length es")
    case True
    obtain it' where "vt_Next vt it = Some it'" "on es (Suc i) it'" using next_on [OF Suc.prems(1) True] by blast
    moreover have "drop i es = es ! i # drop (Suc i) es" using True by (simp add: Cons_nth_drop_Suc)
    ultimately show ?thesis
      using Suc.IH [of "Suc i" it'] Suc.prems True on_Valid on_entry by simp
  next
    case False
    then show ?thesis using Suc.prems on_Valid by simp
  qed
qed simp

lemma walk_prev:
  "on es i it \<Longrightarrow> i < length es \<Longrightarrow> i + 1 < n \<Longrightarrow> iter_walk vt (vt_Prev vt) n it = Some (rev (take (Suc i) es))"
proof (induction i arbitrary: n it)
  case (0 n it)
  obtain it' where "vt_Prev vt it = Some it'" "on es (length es) it'" using prev_on [OF 0(1,2)] by auto
  moreover obtain m where "n = Suc (Suc m)" using 0(3) by (cases n; cases "n - 1") auto
  moreover have "take (Suc 0) es = [es ! 0]" using 0(2) by (cases es) simp_all
  ultimately show ?case using on_Valid on_entry [OF 0(1,2)] 0(1,2) by simp
next
  case (Suc i)
  obtain it' where it': "vt_Prev vt it = Some it'" "on es i it'" using prev_on [OF Suc.prems(1,2)] by auto
  moreover obtain m where m: "n = Suc m" using Suc.prems(3) by (cases n) auto
  moreover have "take (Suc (Suc i)) es = take (Suc i) es @ [es ! Suc i]"
    using Suc.prems(2) by (simp add: take_Suc_conv_app_nth)
  ultimately show ?case
    using Suc.IH [OF it'(2), of m] Suc.prems on_Valid [OF Suc.prems(1)] on_entry [OF Suc.prems(1,2)] by simp
qed

text \<open>Wherever it is, it can be sent anywhere and walks on from there.\<close>

lemma walks:
  assumes "opened es it" and "increasing valid cmp es" and "valid target" and "length es < n"
  shows "(vt_SeekToFirst vt it \<bind> iter_walk vt (vt_Next vt) n) = Some es"
    and "(vt_SeekToLast vt it \<bind> iter_walk vt (vt_Prev vt) (Suc n)) = Some (rev es)"
    and "(vt_Seek vt target it \<bind> iter_walk vt (vt_Next vt) n) = Some (dropWhile (\<lambda>e. cmp (fst e) target < 0) es)"
proof -
  obtain a where "vt_SeekToFirst vt it = Some a" "on es 0 a" using first_on [OF assms(1)] by blast
  then show "(vt_SeekToFirst vt it \<bind> iter_walk vt (vt_Next vt) n) = Some es" using walk_next assms(4) by simp
  obtain b where b: "vt_SeekToLast vt it = Some b" "on es (length es - 1) b" using last_on [OF assms(1)] by blast
  show "(vt_SeekToLast vt it \<bind> iter_walk vt (vt_Prev vt) (Suc n)) = Some (rev es)"
  proof (cases "es = []")
    case True
    then show ?thesis using b on_Valid [OF b(2)] by simp
  next
    case False
    then show ?thesis using b walk_prev [OF b(2), of "Suc n"] assms(4) by simp
  qed
  obtain c where "vt_Seek vt target it = Some c" "on es (lower cmp target es) c"
    using seek_on [OF assms(1-3)] by blast
  then show "(vt_Seek vt target it \<bind> iter_walk vt (vt_Next vt) n) = Some (dropWhile (\<lambda>e. cmp (fst e) target < 0) es)"
    using walk_next [of es "lower cmp target es" c n] assms(4) by (simp add: drop_lower)
qed

text \<open>Through a wrapper.\<close>

definition won :: "entries \<Rightarrow> nat \<Rightarrow> 'it IteratorWrapper \<Rightarrow> bool" where
  "won es i w \<longleftrightarrow> (\<exists>it. iw_iter w = Some it \<and> on es i it \<and> iw_valid w = (i < length es) \<and>
     (i < length es \<longrightarrow> iw_key w = fst (es ! i)))"

lemma Update_on: "on es i it \<Longrightarrow> won es i (Wrapper_Update vt it w)"
  using on_Valid [of es i it] on_entry [of es i it] by (simp add: won_def Wrapper_Update_def)

end

end
