(* ===== verification/Ldb_Block.thy ===== *)
theory Ldb_Block
  imports Ldb_Iterator
begin

text \<open>
  Blocks of leveldb's tables: the builder that writes sorted entries with shared key prefixes
  (\<open>table/block_builder.cc\<close>) and the iterator that reads them (\<open>table/block.cc\<close>).
\<close>

section \<open>The builder\<close>

record BlockBuilder =
  bb_buffer :: slice
  bb_restarts :: "u32 list"
  bb_counter :: nat
  bb_finished :: bool
  bb_last_key :: slice

definition BlockBuilder_Reset :: BlockBuilder where
  "BlockBuilder_Reset = \<lparr>bb_buffer = [], bb_restarts = [0], bb_counter = 0, bb_finished = False, bb_last_key = []\<rparr>"

definition CurrentSizeEstimate :: "BlockBuilder \<Rightarrow> nat" where
  "CurrentSizeEstimate b = length (bb_buffer b) + length (bb_restarts b) * 4 + 4"

fun shared_loop :: "slice \<Rightarrow> slice \<Rightarrow> nat" where
  "shared_loop (a # as) (b # bs) = (if a = b then Suc (shared_loop as bs) else 0)"
| "shared_loop _ _ = 0"

definition BlockBuilder_Add :: "nat \<Rightarrow> slice \<Rightarrow> slice \<Rightarrow> BlockBuilder \<Rightarrow> BlockBuilder" where
  "BlockBuilder_Add interval key value b =
     (let restart = \<not> bb_counter b < interval;
          shared = (if restart then 0 else shared_loop (bb_last_key b) key);
          restarts = (if restart then bb_restarts b @ [of_nat (length (bb_buffer b))] else bb_restarts b);
          counter = (if restart then 0 else bb_counter b);
          non_shared = length key - shared;
          buffer = PutVarint32 (PutVarint32 (PutVarint32 (bb_buffer b) (of_nat shared)) (of_nat non_shared))
            (of_nat (length value))
      in b\<lparr>bb_buffer := buffer @ take non_shared (drop shared key) @ value, bb_restarts := restarts,
           bb_counter := counter + 1, bb_last_key := take shared (bb_last_key b) @ take non_shared (drop shared key)\<rparr>)"

definition BlockBuilder_Finish :: "BlockBuilder \<Rightarrow> slice \<times> BlockBuilder" where
  "BlockBuilder_Finish b =
     (let buffer = PutFixed32 (foldl PutFixed32 (bb_buffer b) (bb_restarts b)) (of_nat (length (bb_restarts b)))
      in (buffer, b\<lparr>bb_buffer := buffer, bb_finished := True\<rparr>))"

section \<open>Blocks\<close>

record Block =
  bl_data :: slice
  bl_size :: nat
  bl_restart_offset :: nat

definition NumRestarts :: "slice \<Rightarrow> u32 option" where
  "NumRestarts data = DecodeFixed32 (drop (length data - 4) data)"

text \<open>A size of zero marks an error.\<close>

definition Block_new :: "slice \<Rightarrow> Block option" where
  "Block_new data =
     (if length data < 4 then Some \<lparr>bl_data = data, bl_size = 0, bl_restart_offset = 0\<rparr>
      else do {
        n \<leftarrow> NumRestarts data;
        Some (if (length data - 4) div 4 < unat n
              then \<lparr>bl_data = data, bl_size = 0, bl_restart_offset = 0\<rparr>
              else \<lparr>bl_data = data, bl_size = length data,
                    bl_restart_offset = (length data - unat (1 + n) * 4) mod 2 ^ 32\<rparr>) })"

text \<open>
  The lengths of an entry, and what follows them up to the limit.  The sum of the two lengths is taken
  in 32 bits.
\<close>

definition DecodeEntry :: "slice \<Rightarrow> (u32 \<times> u32 \<times> u32 \<times> slice) option" where
  "DecodeEntry p =
     (if length p < 3 then None
      else do {
        let a = (ucast (p ! 0) :: u32);
        let b = (ucast (p ! 1) :: u32);
        let c = (ucast (p ! 2) :: u32);
        (shared, non_shared, value_length, q) \<leftarrow>
          (if a OR b OR c < 128 then Some (a, b, c, drop 3 p)
           else do {
             (shared, q) \<leftarrow> GetVarint32Ptr p;
             (non_shared, q) \<leftarrow> GetVarint32Ptr q;
             (value_length, q) \<leftarrow> GetVarint32Ptr q;
             Some (shared, non_shared, value_length, q) });
        if (of_nat (length q) :: u32) < non_shared + value_length then None
        else Some (shared, non_shared, value_length, q) })"

section \<open>The iterator\<close>

text \<open>The value is an offset into the data and a length; \<open>None\<close> after an error.\<close>

record block_iter =
  bi_data :: slice
  bi_restarts :: nat
  bi_num_restarts :: nat
  bi_current :: nat
  bi_restart_index :: nat
  bi_key :: slice
  bi_value :: "(nat \<times> nat) option"
  bi_status :: Status

definition block_iter_new :: "slice \<Rightarrow> nat \<Rightarrow> nat \<Rightarrow> block_iter" where
  "block_iter_new data restarts num_restarts =
     \<lparr>bi_data = data, bi_restarts = restarts, bi_num_restarts = num_restarts, bi_current = restarts,
      bi_restart_index = num_restarts, bi_key = [], bi_value = None, bi_status = Status_OK\<rparr>"

definition bi_Valid :: "block_iter \<Rightarrow> bool" where
  "bi_Valid it \<longleftrightarrow> bi_current it < bi_restarts it"

text \<open>The bytes of the value; \<open>None\<close>: they are not all in the block.\<close>

definition bi_value_bytes :: "block_iter \<Rightarrow> slice option" where
  "bi_value_bytes it = do { (off, len) \<leftarrow> bi_value it; mem_read (bi_data it) off len }"

text \<open>\<open>None\<close>, here and below: a read outside the data of the block.\<close>

definition NextEntryOffset :: "block_iter \<Rightarrow> nat option" where
  "NextEntryOffset it = do { (off, len) \<leftarrow> bi_value it; Some ((off + len) mod 2 ^ 32) }"

definition GetRestartPoint :: "block_iter \<Rightarrow> nat \<Rightarrow> nat option" where
  "GetRestartPoint it index = map_option unat (DecodeFixed32 (drop (bi_restarts it + index * 4) (bi_data it)))"

definition SeekToRestartPoint :: "nat \<Rightarrow> block_iter \<Rightarrow> block_iter option" where
  "SeekToRestartPoint index it = do {
     offset \<leftarrow> GetRestartPoint it index;
     Some (it\<lparr>bi_key := [], bi_restart_index := index, bi_value := Some (offset, 0)\<rparr>) }"

definition CorruptionError :: "block_iter \<Rightarrow> block_iter" where
  "CorruptionError it =
     it\<lparr>bi_current := bi_restarts it, bi_restart_index := bi_num_restarts it,
        bi_status := Corruption (bytes ''bad entry in block'') [], bi_key := [], bi_value := None\<rparr>"

function restart_loop :: "block_iter \<Rightarrow> nat \<Rightarrow> nat \<Rightarrow> nat option" where
  "restart_loop it current index =
     (if index + 1 < bi_num_restarts it
      then case GetRestartPoint it (index + 1) of
             None \<Rightarrow> None
           | Some r \<Rightarrow> if r < current then restart_loop it current (index + 1) else Some index
      else Some index)"
  by pat_completeness auto
termination by (relation "measure (\<lambda>(it, _, index). bi_num_restarts it - index)") auto

declare restart_loop.simps [simp del]

definition ParseNextKey :: "block_iter \<Rightarrow> (bool \<times> block_iter) option" where
  "ParseNextKey it = do {
     current \<leftarrow> NextEntryOffset it;
     let it = it\<lparr>bi_current := current\<rparr>;
     if bi_restarts it \<le> current
     then Some (False, it\<lparr>bi_current := bi_restarts it, bi_restart_index := bi_num_restarts it\<rparr>)
     else case DecodeEntry (take (bi_restarts it - current) (drop current (bi_data it))) of
            None \<Rightarrow> Some (False, CorruptionError it)
          | Some (shared, non_shared, value_length, q) \<Rightarrow>
              if length (bi_key it) < unat shared then Some (False, CorruptionError it)
              else do {
                let p = bi_restarts it - length q;
                delta \<leftarrow> mem_read (bi_data it) p (unat non_shared);
                index \<leftarrow> restart_loop it current (bi_restart_index it);
                Some (True, it\<lparr>bi_key := take (unat shared) (bi_key it) @ delta,
                               bi_value := Some (p + unat non_shared, unat value_length),
                               bi_restart_index := index\<rparr>) } }"

definition bi_Next :: "block_iter \<Rightarrow> block_iter option" where
  "bi_Next it = map_option snd (ParseNextKey it)"

text \<open>The last restart point before \<open>original\<close>, if there is one.\<close>

fun prev_restart :: "block_iter \<Rightarrow> nat \<Rightarrow> nat \<Rightarrow> nat option option" where
  "prev_restart it original index = do {
     r \<leftarrow> GetRestartPoint it index;
     if original \<le> r then case index of 0 \<Rightarrow> Some None | Suc i \<Rightarrow> prev_restart it original i
     else Some (Some index) }"

declare prev_restart.simps [simp del]

text \<open>The loops over entries go on while the end of the entry is before \<open>bound\<close>.\<close>

partial_function (option) scan_until :: "nat \<Rightarrow> block_iter \<Rightarrow> block_iter option" where
  "scan_until bound it = do {
     (ok, it) \<leftarrow> ParseNextKey it;
     if \<not> ok then Some it
     else do {
       next_offset \<leftarrow> NextEntryOffset it;
       if next_offset < bound then scan_until bound it else Some it } }"

definition bi_Prev :: "block_iter \<Rightarrow> block_iter option" where
  "bi_Prev it = do {
     r \<leftarrow> prev_restart it (bi_current it) (bi_restart_index it);
     case r of
       None \<Rightarrow> Some (it\<lparr>bi_current := bi_restarts it, bi_restart_index := bi_num_restarts it\<rparr>)
     | Some index \<Rightarrow> do {
         it' \<leftarrow> SeekToRestartPoint index it;
         scan_until (bi_current it) it' } }"

text \<open>The binary search: a restart point, or \<open>None\<close> for a corruption.\<close>

partial_function (option) seek_search ::
  "(slice \<Rightarrow> slice \<Rightarrow> int) \<Rightarrow> block_iter \<Rightarrow> slice \<Rightarrow> nat \<Rightarrow> nat \<Rightarrow> nat option option" where
  "seek_search cmp it target left right =
     (if left < right
      then let mid = (left + right + 1) mod 2 ^ 32 div 2
           in GetRestartPoint it mid \<bind> (\<lambda>region_offset.
                case DecodeEntry (take (bi_restarts it - region_offset) (drop region_offset (bi_data it))) of
                  None \<Rightarrow> Some None
                | Some (shared, non_shared, value_length, q) \<Rightarrow>
                    if shared \<noteq> 0 then Some None
                    else mem_read (bi_data it) (bi_restarts it - length q) (unat non_shared) \<bind> (\<lambda>mid_key.
                      if cmp mid_key target < 0 then seek_search cmp it target mid right
                      else seek_search cmp it target left (mid - 1)))
      else Some (Some left))"

partial_function (option) seek_scan :: "(slice \<Rightarrow> slice \<Rightarrow> int) \<Rightarrow> slice \<Rightarrow> block_iter \<Rightarrow> block_iter option" where
  "seek_scan cmp target it = do {
     (ok, it) \<leftarrow> ParseNextKey it;
     if \<not> ok then Some it else if 0 \<le> cmp (bi_key it) target then Some it else seek_scan cmp target it }"

definition bi_Seek :: "(slice \<Rightarrow> slice \<Rightarrow> int) \<Rightarrow> slice \<Rightarrow> block_iter \<Rightarrow> block_iter option" where
  "bi_Seek cmp target it = do {
     r \<leftarrow> seek_search cmp it target 0 (bi_num_restarts it - 1);
     case r of
       None \<Rightarrow> Some (CorruptionError it)
     | Some left \<Rightarrow> do { it \<leftarrow> SeekToRestartPoint left it; seek_scan cmp target it } }"

definition bi_SeekToFirst :: "block_iter \<Rightarrow> block_iter option" where
  "bi_SeekToFirst it = do { it \<leftarrow> SeekToRestartPoint 0 it; bi_Next it }"

definition bi_SeekToLast :: "block_iter \<Rightarrow> block_iter option" where
  "bi_SeekToLast it = do {
     it \<leftarrow> SeekToRestartPoint (bi_num_restarts it - 1) it;
     scan_until (bi_restarts it) it }"

datatype new_iterator = Error_iterator Status | Empty_iterator | Iter block_iter

definition Block_NewIterator :: "Block \<Rightarrow> new_iterator option" where
  "Block_NewIterator b =
     (if bl_size b < 4 then Some (Error_iterator (Corruption (bytes ''bad block contents'') []))
      else do {
        n \<leftarrow> NumRestarts (bl_data b);
        Some (if n = 0 then Empty_iterator else Iter (block_iter_new (bl_data b) (bl_restart_offset b) (unat n))) })"

text \<open>The methods of what \<open>NewIterator\<close> makes; the empty iterator stays invalid.\<close>

fun on_block :: "(block_iter \<Rightarrow> block_iter option) \<Rightarrow> new_iterator \<Rightarrow> new_iterator option" where
  "on_block f (Iter it) = map_option Iter (f it)"
| "on_block f i = Some i"

fun Block_Iter_status :: "new_iterator \<Rightarrow> Status" where
  "Block_Iter_status (Error_iterator s) = s"
| "Block_Iter_status Empty_iterator = Status_OK"
| "Block_Iter_status (Iter it) = bi_status it"

definition Block_Iter :: "(slice \<Rightarrow> slice \<Rightarrow> int) \<Rightarrow> new_iterator Iterator" where
  "Block_Iter cmp =
     \<lparr>vt_Valid = (\<lambda>i. case i of Iter it \<Rightarrow> bi_Valid it | _ \<Rightarrow> False),
      vt_SeekToFirst = on_block bi_SeekToFirst,
      vt_SeekToLast = on_block bi_SeekToLast,
      vt_Seek = (\<lambda>target. on_block (bi_Seek cmp target)),
      vt_Next = on_block bi_Next,
      vt_Prev = on_block bi_Prev,
      vt_key = (\<lambda>i. case i of Iter it \<Rightarrow> bi_key it | _ \<Rightarrow> []),
      vt_value = (\<lambda>i. case i of Iter it \<Rightarrow> bi_value_bytes it | _ \<Rightarrow> Some []),
      vt_status = Block_Iter_status\<rparr>"

end
