(* ===== verification/Ldb_Fixed_Array.thy ===== *)
theory Ldb_Fixed_Array
  imports Ldb_Coding
begin

text \<open>Arrays of 32-bit integers, as blocks and filter blocks end in.\<close>

lemma foldl_PutFixed32: "foldl PutFixed32 dst rs = dst @ concat (map EncodeFixed32 rs)"
  by (induction rs arbitrary: dst) (simp_all add: PutFixed32_def)

lemma length_fixed32s: "length (concat (map EncodeFixed32 rs)) = 4 * length rs"
  by (induction rs) simp_all

lemma drop_fixed32s:
  "j < length rs \<Longrightarrow> drop (4 * j) (concat (map EncodeFixed32 rs)) = EncodeFixed32 (rs ! j) @ concat (map EncodeFixed32 (drop (Suc j) rs))"
proof (induction rs arbitrary: j)
  case (Cons r rs)
  then show ?case by (cases j) simp_all
qed simp

end
