(* ===== verification/Ldb_Block_Spec.thy ===== *)
theory Ldb_Block_Spec
  imports Ldb_Block Ldb_Fixed_Array
begin

text \<open>
  The form of a block, and what the iterator does on a block of that form: every restart point is the
  offset of an entry, and parsing goes from one entry to the next.
\<close>

section \<open>The code of an entry\<close>

definition entry_code :: "nat \<Rightarrow> slice \<Rightarrow> slice \<Rightarrow> slice" where
  "entry_code s k v = EncodeVarint32 (of_nat s) @ EncodeVarint32 (of_nat (length k - s)) @
     EncodeVarint32 (of_nat (length v)) @ drop s k @ v"

lemma less_128: "(x :: u32) < 128 \<longleftrightarrow> drop_bit 7 x = 0"
proof -
  have "drop_bit 7 x = 0 \<longleftrightarrow> unat x div 128 = 0" by (simp add: word_unat_eq_iff unat_drop_bit)
  then show ?thesis by (simp add: word_less_nat_alt div_eq_0_iff)
qed

lemma or_less_128: "(a :: u32) OR b < 128 \<longleftrightarrow> a < 128 \<and> b < 128"
proof -
  have "drop_bit 7 a OR drop_bit 7 b = 0 \<longleftrightarrow> drop_bit 7 a = 0 \<and> drop_bit 7 b = 0"
    by (auto simp: bit_eq_iff bit_or_iff)
  then show ?thesis by (simp add: less_128)
qed

lemma varint_first_byte:
  assumes "n < 2 ^ 32"
  shows "EncodeVarint32 (of_nat n) \<noteq> []"
    and "(ucast (hd (EncodeVarint32 (of_nat n))) :: u32) < 128 \<longleftrightarrow> n < 128"
    and "n < 128 \<Longrightarrow> EncodeVarint32 (of_nat n) = [of_nat n]"
proof -
  have e: "EncodeVarint32 (of_nat n) = leb128 n" using assms by (simp add: EncodeVarint32_leb128 unat_of_nat_mod)
  have u: "unat (of_nat (n mod 128 + 128) :: u8) = n mod 128 + 128" by (simp add: unat_of_nat_mod del: of_nat_add)
  show "EncodeVarint32 (of_nat n) \<noteq> []" by (simp add: e)
  show "n < 128 \<Longrightarrow> EncodeVarint32 (of_nat n) = [of_nat n]" by (simp add: e leb128.simps)
  show "(ucast (hd (EncodeVarint32 (of_nat n))) :: u32) < 128 \<longleftrightarrow> n < 128"
    unfolding e using u by (simp add: leb128.simps [of n] word_less_nat_alt unat_ucast_mod unat_of_nat_mod del: of_nat_add)
qed

lemma GetVarint32Ptr_Encode: "GetVarint32Ptr (EncodeVarint32 v @ rest) = Some (v, rest)"
  using GetVarint32_Encode [of v rest] by (auto simp: GetVarint32_def split: option.splits)

text \<open>The fast path and the slow path read the same.\<close>

lemma DecodeEntry_code:
  assumes "s \<le> length k" and "length k < 2 ^ 32" and "length (entry_code s k v @ rest) < 2 ^ 32"
  shows "DecodeEntry (entry_code s k v @ rest) = Some (of_nat s, of_nat (length k - s), of_nat (length v), drop s k @ v @ rest)"
proof -
  let ?n = "length k - s"
  define q where "q = drop s k @ v @ rest"
  let ?a = "EncodeVarint32 (of_nat s)" and ?b = "EncodeVarint32 (of_nat ?n)" and ?c = "EncodeVarint32 (of_nat (length v))"
  have p: "entry_code s k v @ rest = ?a @ ?b @ ?c @ q" by (simp add: entry_code_def q_def)
  have lq: "length q < 2 ^ 32" "?n + length v \<le> length q" using assms(3) by (simp_all add: entry_code_def q_def)
  have s: "s < 2 ^ 32" using assms(1,2) by simp
  have b: "?n < 2 ^ 32" "length v < 2 ^ 32" using lq by simp_all
  note fa = varint_first_byte [OF s] and fb = varint_first_byte [OF b(1)] and fc = varint_first_byte [OF b(2)]
  have "unat (of_nat ?n + of_nat (length v) :: u32) = ?n + length v"
    using lq b by (simp add: unat_word_ariths unat_of_nat_mod)
  then have sum: "\<not> (of_nat (length q) :: u32) < of_nat ?n + of_nat (length v)"
    using lq by (simp add: word_less_nat_alt unat_of_nat_mod)
  have "0 < length ?a" "0 < length ?b" "0 < length ?c" using fa(1) fb(1) fc(1) by simp_all
  then have len: "\<not> length (?a @ ?b @ ?c @ q) < 3" unfolding length_append by linarith
  have slow: "GetVarint32Ptr (?a @ ?b @ ?c @ q) = Some (of_nat s, ?b @ ?c @ q)"
    "GetVarint32Ptr (?b @ ?c @ q) = Some (of_nat ?n, ?c @ q)"
    "GetVarint32Ptr (?c @ q) = Some (of_nat (length v), q)"
    by (rule GetVarint32Ptr_Encode)+
  let ?p = "?a @ ?b @ ?c @ q"
  have fast: "ucast (?p ! 0) OR ucast (?p ! 1) OR ucast (?p ! 2) < (128 :: u32) \<longleftrightarrow> s < 128 \<and> ?n < 128 \<and> length v < 128"
  proof (cases "s < 128")
    case True
    then have a: "?a = [of_nat s]" by (rule fa(3))
    show ?thesis
    proof (cases "?n < 128")
      case n: True
      then have b: "?b = [of_nat ?n]" by (rule fb(3))
      have "?p ! 2 = hd ?c" using fc(1) by (simp add: a b hd_conv_nth nth_append)
      then show ?thesis
        using fa(2) fb(2) fc(2) True n by (simp add: a b or_less_128)
    next
      case False
      have "?p ! 1 = hd ?b" using fb(1) by (simp add: a hd_conv_nth nth_append)
      then show ?thesis using fb(2) False by (simp only: or_less_128) blast
    qed
  next
    case False
    have "?p ! 0 = hd ?a" using fa(1) by (simp add: hd_conv_nth nth_append)
    then show ?thesis using fa(2) False by (simp only: or_less_128) blast
  qed
  show ?thesis
  proof (cases "s < 128 \<and> ?n < 128 \<and> length v < 128")
    case True
    then have "?a = [of_nat s]" "?b = [of_nat ?n]" "?c = [of_nat (length v)]" using fa(3) fb(3) fc(3) by blast+
    moreover have "(ucast (of_nat m :: u8) :: u32) = of_nat m" if "m < 128" for m
      using that by (intro unat_eqI) (simp add: unat_ucast_mod unat_of_nat_mod)
    ultimately show ?thesis
      unfolding p DecodeEntry_def Let_def if_not_P [OF len] fast if_P [OF True]
      using True sum by (simp add: q_def [symmetric])
  next
    case False
    show ?thesis
      unfolding p DecodeEntry_def Let_def if_not_P [OF len] fast if_not_P [OF False] slow
      using sum by (simp add: slow q_def [symmetric])
  qed
qed

section \<open>The form of a block\<close>

text \<open>For the entries \<open>es\<close> and the restart interval \<open>iv\<close>: how much of its key an entry shares, its code and
  its offset, and the number of restart points.\<close>

definition share :: "nat \<Rightarrow> (slice \<times> slice) list \<Rightarrow> nat \<Rightarrow> nat" where
  "share iv es i = (if i mod iv = 0 then 0 else shared_loop (fst (es ! (i - 1))) (fst (es ! i)))"

definition cell :: "nat \<Rightarrow> (slice \<times> slice) list \<Rightarrow> nat \<Rightarrow> slice" where
  "cell iv es i = entry_code (share iv es i) (fst (es ! i)) (snd (es ! i))"

definition cells :: "nat \<Rightarrow> (slice \<times> slice) list \<Rightarrow> nat \<Rightarrow> nat \<Rightarrow> slice" where
  "cells iv es i j = concat (map (cell iv es) [i..<j])"

definition off :: "nat \<Rightarrow> (slice \<times> slice) list \<Rightarrow> nat \<Rightarrow> nat" where
  "off iv es i = length (cells iv es 0 i)"

definition num :: "nat \<Rightarrow> (slice \<times> slice) list \<Rightarrow> nat" where
  "num iv es = (length es - 1) div iv + 1"

definition restart_array :: "nat \<Rightarrow> (slice \<times> slice) list \<Rightarrow> u32 list" where
  "restart_array iv es = map (\<lambda>j. of_nat (off iv es (j * iv))) [0..<num iv es]"

definition block_bytes :: "nat \<Rightarrow> (slice \<times> slice) list \<Rightarrow> slice" where
  "block_bytes iv es = cells iv es 0 (length es) @ concat (map EncodeFixed32 (restart_array iv es)) @
     EncodeFixed32 (of_nat (num iv es))"

lemma shared_loop_prefix:
  "shared_loop a b \<le> length a \<and> shared_loop a b \<le> length b \<and> take (shared_loop a b) a = take (shared_loop a b) b"
  by (induction a b rule: shared_loop.induct) auto

lemma share_le: "share iv es i \<le> length (fst (es ! i))"
  using shared_loop_prefix by (simp add: share_def)

lemma cells_split: "i \<le> j \<Longrightarrow> j \<le> k \<Longrightarrow> cells iv es i k = cells iv es i j @ cells iv es j k"
proof -
  assume "i \<le> j" "j \<le> k"
  then have "[i..<k] = [i..<j] @ [j..<k]" using upt_add_eq_append [of i j "k - j"] by simp
  then show ?thesis by (simp add: cells_def)
qed

lemma cells_Cons: "i < j \<Longrightarrow> cells iv es i j = cell iv es i @ cells iv es (Suc i) j"
  by (simp add: cells_def upt_conv_Cons)

lemma off_0 [simp]: "off iv es 0 = 0"
  by (simp add: off_def cells_def)

lemma off_Suc: "off iv es (Suc i) = off iv es i + length (cell iv es i)"
  by (simp add: off_def cells_def)

lemma drop_cells: "i \<le> j \<Longrightarrow> drop (off iv es i) (cells iv es 0 j) = cells iv es i j"
  using cells_split [of 0 i j iv es] by (simp add: off_def)

text \<open>The key and the value at the end of an entry.\<close>

definition header_length :: "nat \<Rightarrow> (slice \<times> slice) list \<Rightarrow> nat \<Rightarrow> nat" where
  "header_length iv es i = length (cell iv es i) - (length (fst (es ! i)) - share iv es i) - length (snd (es ! i))"

lemma cell_length:
  "length (cell iv es i) = header_length iv es i + (length (fst (es ! i)) - share iv es i) + length (snd (es ! i))"
  by (simp add: header_length_def cell_def entry_code_def)

lemma cell_nonempty: "0 < length (cell iv es i)"
proof -
  have "EncodeVarint32 v \<noteq> []" for v by (simp add: EncodeVarint32_leb128)
  then show ?thesis by (simp add: cell_def entry_code_def)
qed

lemma off_less: "i < j \<Longrightarrow> off iv es i < off iv es j"
proof (induction j)
  case (Suc j)
  have "off iv es j < off iv es (Suc j)" using cell_nonempty by (simp add: off_Suc)
  then show ?case using Suc by (cases "i = j") auto
qed simp

lemma off_mono: "i \<le> j \<Longrightarrow> off iv es i \<le> off iv es j"
  using off_less [of i j iv es] by (cases "i = j") simp_all

lemma off_less_iff: "off iv es i < off iv es j \<longleftrightarrow> i < j"
  using off_less off_mono by (metis not_less)

lemma off_le_iff: "off iv es i \<le> off iv es j \<longleftrightarrow> i \<le> j"
  using off_less_iff [of iv es j i] by (simp add: not_less [symmetric])

text \<open>A key is stored once as a whole, so it is not longer than the block.\<close>

lemma key_length: "i < length es \<Longrightarrow> length (fst (es ! i)) \<le> off iv es (Suc i)"
proof (induction i)
  case 0
  then show ?case by (simp add: off_Suc cell_length share_def)
next
  case (Suc i)
  have "share iv es (Suc i) \<le> length (fst (es ! i))" using shared_loop_prefix by (simp add: share_def)
  moreover have "length (fst (es ! i)) \<le> off iv es (Suc i)" using Suc by simp
  ultimately show ?case by (simp add: off_Suc [of iv es "Suc i"] cell_length)
qed

lemma length_block: "length (block_bytes iv es) = off iv es (length es) + 4 * num iv es + 4"
  by (simp add: block_bytes_def off_def length_fixed32s restart_array_def del: map_map)

section \<open>Positions of the iterator\<close>

text \<open>An iterator over the block, the restart index \<open>r\<close> fitting the entry \<open>i\<close>.\<close>

definition over :: "nat \<Rightarrow> (slice \<times> slice) list \<Rightarrow> block_iter \<Rightarrow> bool" where
  "over iv es it \<longleftrightarrow> bi_data it = block_bytes iv es \<and> bi_restarts it = off iv es (length es) \<and>
     bi_num_restarts it = num iv es \<and> bi_status it = Status_OK"

text \<open>About to parse the entry \<open>i\<close>, or at the end.\<close>

definition before :: "nat \<Rightarrow> (slice \<times> slice) list \<Rightarrow> nat \<Rightarrow> block_iter \<Rightarrow> bool" where
  "before iv es i it \<longleftrightarrow> over iv es it \<and> i \<le> length es \<and> NextEntryOffset it = Some (off iv es i) \<and>
     bi_restart_index it * iv \<le> i \<and> bi_restart_index it < num iv es \<and>
     (i < length es \<longrightarrow> share iv es i \<le> length (bi_key it) \<and> take (share iv es i) (bi_key it) = take (share iv es i) (fst (es ! i)))"

text \<open>On the entry \<open>i\<close>.\<close>

definition at :: "nat \<Rightarrow> (slice \<times> slice) list \<Rightarrow> nat \<Rightarrow> block_iter \<Rightarrow> bool" where
  "at iv es i it \<longleftrightarrow> over iv es it \<and> i < length es \<and> bi_current it = off iv es i \<and> bi_key it = fst (es ! i) \<and>
     bi_value it = Some (off iv es i + header_length iv es i + (length (fst (es ! i)) - share iv es i), length (snd (es ! i))) \<and>
     bi_restart_index it * iv \<le> i \<and> bi_restart_index it < num iv es"

definition at_end :: "nat \<Rightarrow> (slice \<times> slice) list \<Rightarrow> block_iter \<Rightarrow> bool" where
  "at_end iv es it \<longleftrightarrow> over iv es it \<and> bi_current it = off iv es (length es)"

text \<open>The blocks that are read: less than 4 GB.\<close>

definition fits :: "nat \<Rightarrow> (slice \<times> slice) list \<Rightarrow> bool" where
  "fits iv es \<longleftrightarrow> 0 < iv \<and> length (block_bytes iv es) < 2 ^ 32"

lemma off_bound: "fits iv es \<Longrightarrow> i \<le> length es \<Longrightarrow> off iv es i < 2 ^ 32"
  using off_mono [of i "length es" iv es] by (simp add: fits_def length_block)

lemma num_index: "0 < iv \<Longrightarrow> j < num iv es \<Longrightarrow> es \<noteq> [] \<Longrightarrow> j * iv < length es"
proof -
  assume "0 < iv" "j < num iv es" "es \<noteq> []"
  then have "j \<le> (length es - 1) div iv" "0 < length es" by (simp_all add: num_def)
  then have "j * iv \<le> (length es - 1) div iv * iv" by (intro mult_le_mono1)
  also have "\<dots> \<le> length es - 1" by simp
  finally show ?thesis using \<open>0 < length es\<close> by linarith
qed

lemma num_index_le: "0 < iv \<Longrightarrow> j < num iv es \<Longrightarrow> j * iv \<le> length es"
  using num_index [of iv j es] by (cases "es = []") (simp_all add: num_def)

text \<open>The restart points are the offsets of every \<open>iv\<close>-th entry.\<close>

lemma GetRestartPoint_off:
  assumes "over iv es it" and "fits iv es" and "j < num iv es"
  shows "GetRestartPoint it j = Some (off iv es (j * iv))"
proof -
  let ?rs = "restart_array iv es"
  have "drop (bi_restarts it + j * 4) (bi_data it) =
      drop (4 * j) (concat (map EncodeFixed32 ?rs) @ EncodeFixed32 (of_nat (num iv es)))"
    using assms(1) by (simp add: over_def block_bytes_def off_def mult.commute)
  also have "\<dots> = EncodeFixed32 (?rs ! j) @ concat (map EncodeFixed32 (drop (Suc j) ?rs)) @ EncodeFixed32 (of_nat (num iv es))"
    using drop_fixed32s [of j ?rs] assms(3) length_fixed32s [of ?rs] by (simp add: restart_array_def del: map_map)
  finally have "DecodeFixed32 (drop (bi_restarts it + j * 4) (bi_data it)) = Some (?rs ! j)"
    by (simp add: DecodeFixed32_Encode)
  moreover have "off iv es (j * iv) < 2 ^ 32"
    using off_bound [OF assms(2)] num_index_le [of iv j es] assms(2,3) by (simp add: fits_def)
  ultimately show ?thesis
    using assms(3) by (simp add: GetRestartPoint_def restart_array_def unat_of_nat_mod)
qed

lemma restart_loop_index:
  assumes "over iv es it" and "fits iv es" and "i < length es"
  shows "r * iv \<le> i \<Longrightarrow> r < num iv es \<Longrightarrow>
    \<exists>r'. restart_loop it (off iv es i) r = Some r' \<and> r' * iv \<le> i \<and> r' < num iv es"
proof (induction "num iv es - r" arbitrary: r rule: less_induct)
  case less
  have n: "bi_num_restarts it = num iv es" using assms(1) by (simp add: over_def)
  show ?case
  proof (cases "r + 1 < num iv es \<and> off iv es ((r + 1) * iv) < off iv es i")
    case True
    then have "(r + 1) * iv \<le> i" by (simp add: off_less_iff)
    then obtain r' where "restart_loop it (off iv es i) (r + 1) = Some r'" "r' * iv \<le> i" "r' < num iv es"
      using less.hyps [of "r + 1"] True diff_less_mono2 [of r "r + 1" "num iv es"] less.prems(2) by auto
    then show ?thesis
      using GetRestartPoint_off [OF assms(1,2), of "r + 1"] True n by (subst restart_loop.simps) simp
  next
    case False
    then show ?thesis
      using GetRestartPoint_off [OF assms(1,2), of "r + 1"] n less.prems by (subst restart_loop.simps) auto
  qed
qed

text \<open>The bytes of an entry and what comes after it.\<close>

lemma entry_bytes_at:
  assumes "over iv es it" and "fits iv es" and "i < length es"
  shows "take (bi_restarts it - off iv es i) (drop (off iv es i) (bi_data it)) =
    cell iv es i @ cells iv es (Suc i) (length es)"
proof -
  have "bi_data it = cells iv es 0 (length es) @ drop (off iv es (length es)) (bi_data it)"
    using assms(1) by (simp add: over_def block_bytes_def off_def)
  then have "drop (off iv es i) (bi_data it) = cells iv es i (length es) @ drop (off iv es (length es)) (bi_data it)"
    using drop_cells [of i "length es" iv es] off_mono [of i "length es" iv es] assms(3)
    by (metis drop_append diff_is_0_eq drop_0 less_imp_le_nat off_def)
  moreover have "length (cells iv es i (length es)) = off iv es (length es) - off iv es i"
    using cells_split [of 0 i "length es" iv es] assms(3) by (simp add: off_def)
  ultimately show ?thesis using cells_Cons [OF assms(3)] assms(1) by (simp add: over_def)
qed

lemma DecodeEntry_at:
  assumes "over iv es it" and "fits iv es" and "i < length es"
  shows "DecodeEntry (take (bi_restarts it - off iv es i) (drop (off iv es i) (bi_data it))) =
      Some (of_nat (share iv es i), of_nat (length (fst (es ! i)) - share iv es i), of_nat (length (snd (es ! i))),
        drop (share iv es i) (fst (es ! i)) @ snd (es ! i) @ cells iv es (Suc i) (length es))"
    and "mem_read (bi_data it) (off iv es i + header_length iv es i) (length (fst (es ! i)) - share iv es i)
      = Some (drop (share iv es i) (fst (es ! i)))"
    and "mem_read (bi_data it) (off iv es i + header_length iv es i + (length (fst (es ! i)) - share iv es i)) (length (snd (es ! i)))
      = Some (snd (es ! i))"
proof -
  let ?s = "share iv es i" and ?k = "fst (es ! i)" and ?v = "snd (es ! i)"
  let ?rest = "cells iv es (Suc i) (length es)"
  have b: "off iv es (length es) < 2 ^ 32" using off_bound [OF assms(2)] by simp
  have len: "length (cell iv es i @ ?rest) = off iv es (length es) - off iv es i"
    using cells_split [of 0 i "length es" iv es] cells_Cons [OF assms(3)] assms(3) by (simp add: off_def)
  have "length ?k \<le> off iv es (Suc i)" using key_length assms(3) by blast
  also have "\<dots> \<le> off iv es (length es)" using off_mono assms(3) by simp
  finally have k: "length ?k < 2 ^ 32" using b by simp
  show "DecodeEntry (take (bi_restarts it - off iv es i) (drop (off iv es i) (bi_data it))) =
      Some (of_nat ?s, of_nat (length ?k - ?s), of_nat (length ?v), drop ?s ?k @ ?v @ ?rest)"
    unfolding entry_bytes_at [OF assms] cell_def
    by (rule DecodeEntry_code) (use share_le k len b in \<open>simp_all add: cell_def\<close>)
  have d: "drop (off iv es i) (bi_data it) = cell iv es i @ drop (off iv es (Suc i)) (bi_data it)"
  proof -
    have "bi_data it = cells iv es 0 i @ cell iv es i @ ?rest @ concat (map EncodeFixed32 (restart_array iv es)) @
        EncodeFixed32 (of_nat (num iv es))"
      using assms(1,3) cells_split [of 0 i "length es" iv es] cells_Cons [OF assms(3)] by (simp add: over_def block_bytes_def)
    then show ?thesis by (simp add: off_Suc) (simp add: off_def)
  qed
  define h where "h = header_length iv es i"
  have c: "drop h (cell iv es i) = drop ?s ?k @ ?v" "h \<le> length (cell iv es i)"
    by (simp_all add: h_def header_length_def cell_def entry_code_def)
  have "drop (off iv es i + h) (bi_data it) = drop ?s ?k @ ?v @ drop (off iv es (Suc i)) (bi_data it)"
    using c d by (simp add: add.commute flip: drop_drop)
  then have D: "drop (off iv es i + h) (bi_data it) = drop ?s ?k @ ?v @ drop (off iv es (Suc i)) (bi_data it)" .
  have L: "off iv es i + h + (length ?k - ?s) + length ?v \<le> length (bi_data it)"
    using off_mono [of "Suc i" "length es" iv es] assms(1,3) length_block [of iv es]
    by (simp add: over_def off_Suc cell_length h_def)
  show "mem_read (bi_data it) (off iv es i + header_length iv es i) (length ?k - ?s) = Some (drop ?s ?k)"
    using D L by (simp add: mem_read_def h_def)
  have "drop (length ?k - ?s) (drop (off iv es i + h) (bi_data it)) = ?v @ drop (off iv es (Suc i)) (bi_data it)"
    unfolding D by simp
  then have "drop (off iv es i + h + (length ?k - ?s)) (bi_data it) = ?v @ drop (off iv es (Suc i)) (bi_data it)"
    unfolding drop_drop by (simp add: add.commute)
  then show "mem_read (bi_data it) (off iv es i + header_length iv es i + (length ?k - ?s)) (length ?v) = Some ?v"
    using L by (simp add: mem_read_def h_def)
qed

end
