(* ===== verification/Ldb_Block_Read.thy ===== *)
theory Ldb_Block_Read
  imports Ldb_Block_Spec
begin

text \<open>
  The iterator on a well-formed block: each of its operations goes to the entry it should.
\<close>

section \<open>Parsing\<close>

text \<open>The lengths of an entry fit, and its end is where the rest of the entries begins.\<close>

lemma entry_lengths:
  assumes "fits iv es" and "i < length es"
  shows "unat (of_nat (share iv es i) :: u32) = share iv es i"
    and "unat (of_nat (length (fst (es ! i)) - share iv es i) :: u32) = length (fst (es ! i)) - share iv es i"
    and "unat (of_nat (length (snd (es ! i))) :: u32) = length (snd (es ! i))"
    and "off iv es (length es) -
      length (drop (share iv es i) (fst (es ! i)) @ snd (es ! i) @ cells iv es (Suc i) (length es)) =
      off iv es i + header_length iv es i"
proof -
  have bound: "off iv es (Suc i) < 2 ^ 32" using off_bound [OF assms(1), of "Suc i"] assms(2) by simp
  have cl: "off iv es (Suc i) =
      off iv es i + header_length iv es i + (length (fst (es ! i)) - share iv es i) + length (snd (es ! i))"
    by (simp add: off_Suc cell_length)
  have "length (fst (es ! i)) < 2 ^ 32" using key_length [OF assms(2)] bound le_less_trans by blast
  then show "unat (of_nat (share iv es i) :: u32) = share iv es i"
    and "unat (of_nat (length (fst (es ! i)) - share iv es i) :: u32) = length (fst (es ! i)) - share iv es i"
    and "unat (of_nat (length (snd (es ! i))) :: u32) = length (snd (es ! i))"
    using share_le [of iv es i] cl bound by (simp_all add: unat_of_nat_mod del: of_nat_diff)
  have "length (cells iv es (Suc i) (length es)) = off iv es (length es) - off iv es (Suc i)"
    using cells_split [of 0 "Suc i" "length es" iv es] assms(2) by (simp add: off_def)
  moreover have "off iv es (Suc i) \<le> off iv es (length es)" using off_mono assms(2) by simp
  ultimately show "off iv es (length es) -
      length (drop (share iv es i) (fst (es ! i)) @ snd (es ! i) @ cells iv es (Suc i) (length es)) =
      off iv es i + header_length iv es i"
    using cl by simp
qed

lemma ParseNextKey_before:
  assumes "before iv es i it" and "fits iv es" and "i < length es"
  shows "\<exists>it'. ParseNextKey it = Some (True, it') \<and> at iv es i it'"
proof -
  let ?s = "share iv es i" and ?k = "fst (es ! i)" and ?v = "snd (es ! i)"
  let ?it = "it\<lparr>bi_current := off iv es i\<rparr>"
  note b = assms(1) [unfolded before_def]
  have o: "over iv es ?it" "over iv es it" using b by (simp_all add: over_def)
  have r: "bi_restarts it = off iv es (length es)" using o(2) by (simp add: over_def)
  obtain r' where r': "restart_loop ?it (off iv es i) (bi_restart_index it) = Some r'" "r' * iv \<le> i" "r' < num iv es"
    using restart_loop_index [OF o(1) assms(2,3)] b by blast
  define q where "q = drop ?s ?k @ ?v @ cells iv es (Suc i) (length es)"
  note d = DecodeEntry_at [OF o(1) assms(2,3), folded q_def]
  note l = entry_lengths [OF assms(2,3), folded q_def]
  let ?it' = "?it\<lparr>bi_key := ?k, bi_value := Some (off iv es i + header_length iv es i + (length ?k - ?s), length ?v),
    bi_restart_index := r'\<rparr>"
  have key: "take ?s (bi_key it) @ drop ?s ?k = ?k" using b assms(3) by (metis append_take_drop_id)
  have e: "NextEntryOffset it = Some (off iv es i)" "\<not> bi_restarts it \<le> off iv es i" "\<not> length (bi_key it) < ?s"
    using b r off_less [OF assms(3), of iv es] assms(3) by simp_all
  have "ParseNextKey it = Some (True, ?it')"
    using e(2,3) d(1,2) r'(1) unfolding ParseNextKey_def e(1) bind.simps Let_def by (simp add: l r key)
  moreover have "at iv es i ?it'" using o assms(3) r' by (simp add: at_def over_def)
  ultimately show ?thesis by auto
qed

lemma ParseNextKey_end:
  assumes "before iv es (length es) it"
  shows "\<exists>it'. ParseNextKey it = Some (False, it') \<and> at_end iv es it'"
  using assms by (auto simp: before_def ParseNextKey_def at_end_def over_def)

lemma NextEntryOffset_at:
  assumes "at iv es i it" and "fits iv es"
  shows "NextEntryOffset it = Some (off iv es (Suc i))"
proof -
  have "off iv es (Suc i) < 2 ^ 32" using off_bound [OF assms(2)] assms(1) by (simp add: at_def)
  then show ?thesis using assms(1) by (simp add: at_def NextEntryOffset_def off_Suc cell_length)
qed

lemma at_before:
  assumes "at iv es i it" and "fits iv es"
  shows "before iv es (Suc i) it"
proof -
  have "share iv es (Suc i) \<le> length (fst (es ! i))"
    "take (share iv es (Suc i)) (fst (es ! i)) = take (share iv es (Suc i)) (fst (es ! Suc i))"
    using shared_loop_prefix [of "fst (es ! i)" "fst (es ! Suc i)"] by (simp_all add: share_def)
  then show ?thesis using assms NextEntryOffset_at [OF assms] by (simp add: at_def before_def)
qed

lemma at_value: "at iv es i it \<Longrightarrow> fits iv es \<Longrightarrow> bi_value_bytes it = Some (snd (es ! i))"
  using DecodeEntry_at(3) [of iv es it i] by (simp add: at_def bi_value_bytes_def)

lemma at_Valid: "at iv es i it \<Longrightarrow> bi_Valid it"
  by (simp add: at_def over_def bi_Valid_def off_less)

lemma at_end_Valid: "at_end iv es it \<Longrightarrow> \<not> bi_Valid it"
  by (simp add: at_end_def over_def bi_Valid_def)

lemma SeekToRestartPoint_before:
  assumes "over iv es it" and "fits iv es" and "j < num iv es"
  shows "\<exists>it'. SeekToRestartPoint j it = Some it' \<and> before iv es (j * iv) it' \<and> bi_current it' = bi_current it"
proof -
  have le: "j * iv \<le> length es" using num_index_le assms(2,3) by (simp add: fits_def)
  then have "off iv es (j * iv) < 2 ^ 32" using off_bound assms(2) by blast
  moreover have "share iv es (j * iv) = 0" by (simp add: share_def)
  ultimately show ?thesis
    using assms le GetRestartPoint_off [OF assms] by (auto simp: SeekToRestartPoint_def before_def over_def NextEntryOffset_def)
qed

section \<open>Steps\<close>

definition at_or_end :: "nat \<Rightarrow> (slice \<times> slice) list \<Rightarrow> nat \<Rightarrow> block_iter \<Rightarrow> bool" where
  "at_or_end iv es i it \<longleftrightarrow> (if i < length es then at iv es i it else at_end iv es it)"

lemma ParseNextKey_step:
  "before iv es i it \<Longrightarrow> fits iv es \<Longrightarrow> \<exists>it'. ParseNextKey it = Some (i < length es, it') \<and> at_or_end iv es i it'"
  using ParseNextKey_before [of iv es i it] ParseNextKey_end [of iv es it]
  by (cases "i < length es") (auto simp: at_or_end_def before_def)

lemma Next_at: "at iv es i it \<Longrightarrow> fits iv es \<Longrightarrow> \<exists>it'. bi_Next it = Some it' \<and> at_or_end iv es (Suc i) it'"
  using ParseNextKey_step [OF at_before] by (fastforce simp: bi_Next_def)

lemma SeekToFirst_at: "over iv es it \<Longrightarrow> fits iv es \<Longrightarrow> \<exists>it'. bi_SeekToFirst it = Some it' \<and> at_or_end iv es 0 it'"
  using SeekToRestartPoint_before [of iv es it 0] ParseNextKey_step [of iv es 0]
  by (fastforce simp: bi_SeekToFirst_def bi_Next_def num_def)

section \<open>Backwards\<close>

lemma scan_until_at:
  "before iv es i it \<Longrightarrow> fits iv es \<Longrightarrow> i \<le> j \<Longrightarrow> j < length es \<Longrightarrow>
    \<exists>it'. scan_until (off iv es (Suc j)) it = Some it' \<and> at iv es j it'"
proof (induction "j - i" arbitrary: i it)
  case 0
  then obtain it' where "ParseNextKey it = Some (True, it')" "at iv es i it'" using ParseNextKey_before by fastforce
  then show ?case using 0 NextEntryOffset_at by (subst scan_until.simps) simp
next
  case (Suc d)
  then obtain it' where it': "ParseNextKey it = Some (True, it')" "at iv es i it'"
    using ParseNextKey_before [of iv es i it] by auto
  have "off iv es (Suc i) < off iv es (Suc j)" using Suc.hyps(2) by (simp add: off_less_iff)
  then have "scan_until (off iv es (Suc j)) it = scan_until (off iv es (Suc j)) it'"
    using it' NextEntryOffset_at [OF it'(2) Suc.prems(2)] by (subst scan_until.simps) simp
  then show ?case using Suc.hyps(1) [of "Suc i" it'] at_before [OF it'(2) Suc.prems(2)] Suc.hyps(2) Suc.prems by simp
qed

lemma prev_restart_at:
  "at iv es i it \<Longrightarrow> fits iv es \<Longrightarrow> r < num iv es \<Longrightarrow>
    \<exists>x. prev_restart it (off iv es i) r = Some x \<and>
      (case x of None \<Rightarrow> i = 0 | Some r' \<Rightarrow> r' < num iv es \<and> r' * iv < i)"
proof (induction r)
  case 0
  have "GetRestartPoint it 0 = Some (off iv es 0)" using GetRestartPoint_off [of iv es it 0] 0 by (simp add: at_def)
  moreover have "off iv es i \<le> off iv es 0 \<longleftrightarrow> i = 0" by (simp only: off_le_iff) simp
  ultimately show ?case using 0 by (subst prev_restart.simps) (auto simp del: off_0)
next
  case (Suc r)
  have g: "GetRestartPoint it (Suc r) = Some (off iv es (Suc r * iv))"
    using GetRestartPoint_off [of iv es it "Suc r"] Suc.prems by (simp add: at_def)
  show ?case
  proof (cases "i \<le> Suc r * iv")
    case True
    then show ?thesis using g Suc by (subst prev_restart.simps) (simp add: off_le_iff)
  next
    case False
    then show ?thesis using g Suc.prems by (subst prev_restart.simps) (simp add: off_le_iff not_le)
  qed
qed

lemma Prev_at:
  assumes "at iv es i it" and "fits iv es"
  shows "\<exists>it'. bi_Prev it = Some it' \<and> (if i = 0 then at_end iv es it' else at iv es (i - 1) it')"
proof -
  have o: "over iv es it" "bi_current it = off iv es i" "bi_restart_index it < num iv es" "i < length es"
    using assms(1) by (simp_all add: at_def)
  obtain x where x: "prev_restart it (off iv es i) (bi_restart_index it) = Some x"
    "case x of None \<Rightarrow> i = 0 | Some r' \<Rightarrow> r' < num iv es \<and> r' * iv < i"
    using prev_restart_at [OF assms o(3)] by blast
  show ?thesis
  proof (cases x)
    case None
    then show ?thesis using x o by (simp add: bi_Prev_def at_end_def over_def)
  next
    case (Some r)
    then have r: "r < num iv es" "r * iv < i" using x(2) by simp_all
    obtain it' where it': "SeekToRestartPoint r it = Some it'" "before iv es (r * iv) it'" "bi_current it' = off iv es i"
      using SeekToRestartPoint_before [OF o(1) assms(2) r(1)] o(2) by auto
    have "\<exists>it''. scan_until (off iv es (Suc (i - 1))) it' = Some it'' \<and> at iv es (i - 1) it''"
      by (rule scan_until_at [OF it'(2) assms(2)]) (use r o(4) in auto)
    then show ?thesis using x(1) Some it' r o(2) by (simp add: bi_Prev_def)
  qed
qed

lemma Prev_at':
  "at iv es i it \<Longrightarrow> fits iv es \<Longrightarrow>
    \<exists>it'. bi_Prev it = Some it' \<and> at_or_end iv es (if i = 0 then length es else i - 1) it'"
  using Prev_at [of iv es i it] by (cases "i = 0") (auto simp: at_or_end_def at_def)

lemma SeekToLast_at:
  assumes "over iv es it" and "fits iv es"
  shows "\<exists>it'. bi_SeekToLast it = Some it' \<and> at_or_end iv es (length es - 1) it'"
proof -
  let ?j = "num iv es - 1"
  have n: "?j < num iv es" "0 < iv" using assms(2) by (simp_all add: num_def fits_def)
  obtain it' where it': "SeekToRestartPoint ?j it = Some it'" "before iv es (?j * iv) it'"
    using SeekToRestartPoint_before [OF assms n(1)] by blast
  have r: "bi_restarts it' = off iv es (length es)" "bi_num_restarts it = num iv es"
    using it'(2) assms(1) by (simp_all add: before_def over_def)
  show ?thesis
  proof (cases "es = []")
    case True
    then have "before iv es (length es) it'" using it'(2) by (simp add: num_def)
    then obtain it'' where "ParseNextKey it' = Some (False, it'')" "at_end iv es it''" using ParseNextKey_end by blast
    then show ?thesis using it'(1) r True by (simp add: bi_SeekToLast_def at_or_end_def scan_until.simps [of _ it'])
  next
    case False
    then have "?j * iv \<le> length es - 1" using num_index [OF n(2,1)] by linarith
    then obtain it'' where "scan_until (off iv es (Suc (length es - 1))) it' = Some it''" "at iv es (length es - 1) it''"
      using scan_until_at [OF it'(2) assms(2)] False by (metis Suc_pred' length_greater_0_conv lessI)
    then show ?thesis using it'(1) r False by (simp add: bi_SeekToLast_def at_or_end_def)
  qed
qed

lemma num_small: "fits iv es \<Longrightarrow> num iv es < 2 ^ 30"
  by (simp add: fits_def length_block)

section \<open>Seeking\<close>

lemma at_or_end_ParseNextKey:
  assumes "before iv es i it" and "fits iv es"
  obtains it' where "ParseNextKey it = Some (i < length es, it')" "at_or_end iv es i it'"
  using ParseNextKey_step [OF assms] by blast

lemma GetRestart_key:
  assumes "over iv es it" and "fits iv es" and "j < num iv es" and "es \<noteq> []"
  shows "\<exists>r n m q. GetRestartPoint it j = Some r \<and>
    DecodeEntry (take (bi_restarts it - r) (drop r (bi_data it))) = Some (0, n, m, q) \<and>
    mem_read (bi_data it) (bi_restarts it - length q) (unat n) = Some (fst (es ! (j * iv)))"
proof -
  have j: "j * iv < length es" using num_index assms by (simp add: fits_def)
  have s: "share iv es (j * iv) = 0" by (simp add: share_def)
  have r: "bi_restarts it = off iv es (length es)" using assms(1) by (simp add: over_def)
  note d = DecodeEntry_at [OF assms(1,2) j] and l = entry_lengths [OF assms(2) j]
  show ?thesis
    using GetRestartPoint_off [OF assms(1,2,3)] d(1,2) l(2,4) s unfolding r by auto
qed

text \<open>The positions of an iterator over a block of the form.\<close>

definition block_opened :: "entries \<Rightarrow> new_iterator \<Rightarrow> bool" where
  "block_opened es i \<longleftrightarrow> (\<exists>iv it. i = Iter it \<and> over iv es it \<and> fits iv es)"

definition block_on :: "entries \<Rightarrow> nat \<Rightarrow> new_iterator \<Rightarrow> bool" where
  "block_on es n i \<longleftrightarrow> (\<exists>iv it. i = Iter it \<and> fits iv es \<and> n \<le> length es \<and> at_or_end iv es n it)"

context slice_order
begin

lemma seek_search_lower:
  assumes "over iv es it" and "fits iv es" and "increasing valid cmp es" and "valid target"
  shows "right < num iv es \<Longrightarrow> left \<le> right \<Longrightarrow> left * iv \<le> lower cmp target es \<Longrightarrow>
    \<exists>l. seek_search cmp it target left right = Some (Some l) \<and> l < num iv es \<and> l * iv \<le> lower cmp target es"
proof (induction "right - left" arbitrary: left right rule: less_induct)
  case less
  show ?case
  proof (cases "left < right")
    case False
    then have "seek_search cmp it target left right = Some (Some left)" by (subst seek_search.simps) simp
    then show ?thesis using less.prems by auto
  next
    case True
    let ?mid = "(left + right + 1) div 2"
    have mid: "left < ?mid" "?mid \<le> right" using True by auto
    have w: "(left + right + 1) mod 2 ^ 32 = left + right + 1"
      using less.prems True num_small [OF assms(2)] by simp
    have ne: "es \<noteq> []" using less.prems True by (auto simp: num_def)
    obtain r n m q where "GetRestartPoint it ?mid = Some r"
      "DecodeEntry (take (bi_restarts it - r) (drop r (bi_data it))) = Some (0, n, m, q)"
      "mem_read (bi_data it) (bi_restarts it - length q) (unat n) = Some (fst (es ! (?mid * iv)))"
      using GetRestart_key [OF assms(1,2) _ ne, of ?mid] mid(2) less.prems(1) by auto
    then have step: "seek_search cmp it target left right =
        (if cmp (fst (es ! (?mid * iv))) target < 0 then seek_search cmp it target ?mid right
         else seek_search cmp it target left (?mid - 1))"
      unfolding seek_search.simps [of cmp it target left right] w Let_def using True by simp
    have i: "?mid * iv < length es" using num_index [OF _ _ ne] assms(2) mid less.prems(1) by (simp add: fits_def)
    show ?thesis
    proof (cases "cmp (fst (es ! (?mid * iv))) target < 0")
      case True
      then have "?mid * iv \<le> lower cmp target es" using increasing_lower [OF assms(3,4) i] by simp
      then show ?thesis using less.hyps [of right ?mid] mid less.prems step True by simp
    next
      case False
      then show ?thesis using less.hyps [of "?mid - 1" left] mid less.prems step by simp
    qed
  qed
qed

lemma seek_scan_lower:
  assumes "fits iv es" and "increasing valid cmp es" and "valid target"
  shows "before iv es i it \<Longrightarrow> i \<le> lower cmp target es \<Longrightarrow>
    \<exists>it'. seek_scan cmp target it = Some it' \<and> at_or_end iv es (lower cmp target es) it'"
proof (induction "lower cmp target es - i" arbitrary: i it rule: less_induct)
  case less
  have le: "lower cmp target es \<le> length es" by (simp add: lower_def length_takeWhile_le)
  obtain it' where it': "ParseNextKey it = Some (i < length es, it')" "at_or_end iv es i it'"
    using at_or_end_ParseNextKey [OF less.prems(1) assms(1)] .
  show ?case
  proof (cases "i < lower cmp target es")
    case True
    then have a: "i < length es" "at iv es i it'" using le it'(2) by (simp_all add: at_or_end_def)
    then have k: "cmp (bi_key it') target < 0" using increasing_lower [OF assms(2,3) a(1)] True by (simp add: at_def)
    show ?thesis
      using less.hyps [of "Suc i" it'] at_before [OF a(2) assms(1)] True k it'(1) a(1)
      by (simp add: seek_scan.simps [of cmp target it])
  next
    case False
    then have i: "i = lower cmp target es" using less.prems(2) by simp
    show ?thesis
    proof (cases "i < length es")
      case True
      then have "at iv es i it'" using it'(2) by (simp add: at_or_end_def)
      then have "\<not> cmp (bi_key it') target < 0" using increasing_lower [OF assms(2,3) True] i by (simp add: at_def)
      then show ?thesis using it' i True by (simp add: seek_scan.simps [of cmp target it])
    next
      case False
      then show ?thesis using it' i by (simp add: seek_scan.simps [of cmp target it])
    qed
  qed
qed

lemma Seek_at:
  assumes "over iv es it" and "fits iv es" and "increasing valid cmp es" and "valid target"
  shows "\<exists>it'. bi_Seek cmp target it = Some it' \<and> at_or_end iv es (lower cmp target es) it'"
proof -
  have n: "bi_num_restarts it = num iv es" "num iv es - 1 < num iv es" using assms(1) by (simp_all add: over_def num_def)
  obtain l where l: "seek_search cmp it target 0 (num iv es - 1) = Some (Some l)" "l < num iv es" "l * iv \<le> lower cmp target es"
    using seek_search_lower [OF assms n(2), of 0] by auto
  obtain it' where it': "SeekToRestartPoint l it = Some it'" "before iv es (l * iv) it'"
    using SeekToRestartPoint_before [OF assms(1,2) l(2)] by blast
  show ?thesis using seek_scan_lower [OF assms(2-4) it'(2) l(3)] l(1) it'(1) n(1) by (simp add: bi_Seek_def)
qed

lemma Block_Iter_ordered: "ordered_iterator (Block_Iter cmp) valid cmp block_opened block_on"
proof
  fix es n i
  show "block_on es n i \<Longrightarrow> block_opened es i \<and> n \<le> length es"
    by (auto simp: block_on_def block_opened_def at_or_end_def at_def at_end_def split: if_splits)
  show "block_on es n i \<Longrightarrow> vt_Valid (Block_Iter cmp) i \<longleftrightarrow> n < length es"
    using at_Valid at_end_Valid by (cases "n < length es") (auto simp: block_on_def Block_Iter_def at_or_end_def)
  show "block_on es n i \<Longrightarrow> n < length es \<Longrightarrow>
      vt_key (Block_Iter cmp) i = fst (es ! n) \<and> vt_value (Block_Iter cmp) i = Some (snd (es ! n))"
    using at_value by (auto simp: block_on_def Block_Iter_def at_or_end_def at_def split: if_splits)
  show "block_opened es i \<Longrightarrow> vt_status (Block_Iter cmp) i = Status_OK"
    by (auto simp: block_opened_def Block_Iter_def over_def)
  show "block_opened es i \<Longrightarrow> \<exists>i'. vt_SeekToFirst (Block_Iter cmp) i = Some i' \<and> block_on es 0 i'"
    using SeekToFirst_at by (fastforce simp: block_opened_def Block_Iter_def block_on_def)
  show "block_opened es i \<Longrightarrow> \<exists>i'. vt_SeekToLast (Block_Iter cmp) i = Some i' \<and> block_on es (length es - 1) i'"
    using SeekToLast_at by (fastforce simp: block_opened_def Block_Iter_def block_on_def)
  show "block_opened es i \<Longrightarrow> increasing valid cmp es \<Longrightarrow> valid target \<Longrightarrow>
      \<exists>i'. vt_Seek (Block_Iter cmp) target i = Some i' \<and> block_on es (lower cmp target es) i'" for target
    using Seek_at lower_le by (fastforce simp: block_opened_def Block_Iter_def block_on_def)
  show "block_on es n i \<Longrightarrow> n < length es \<Longrightarrow> \<exists>i'. vt_Next (Block_Iter cmp) i = Some i' \<and> block_on es (Suc n) i'"
    using Next_at by (fastforce simp: block_on_def Block_Iter_def at_or_end_def split: if_splits)
  show "block_on es n i \<Longrightarrow> n < length es \<Longrightarrow>
      \<exists>i'. vt_Prev (Block_Iter cmp) i = Some i' \<and> block_on es (if n = 0 then length es else n - 1) i'"
    using Prev_at' by (fastforce simp: block_on_def Block_Iter_def at_or_end_def)
qed

end

sublocale slice_order \<subseteq> block: ordered_iterator "Block_Iter cmp" valid cmp block_opened block_on
  by (rule Block_Iter_ordered)

end
