(* ===== verification/Ldb_Block_Props.thy ===== *)
theory Ldb_Block_Props
  imports Ldb_Block_Read
begin

text \<open>
  What the builder writes has the form of a block, and so the iterator gives back what was added.
\<close>

section \<open>Building\<close>

definition add_all :: "nat \<Rightarrow> (slice \<times> slice) list \<Rightarrow> BlockBuilder" where
  "add_all iv es = foldl (\<lambda>b (k, v). BlockBuilder_Add iv k v b) BlockBuilder_Reset es"

lemma append_same [simp]:
  "i \<le> length es \<Longrightarrow> off iv (es @ [e]) i = off iv es i"
  "i \<le> length es \<Longrightarrow> cells iv (es @ [e]) 0 i = cells iv es 0 i"
proof -
  show c: "cells iv (es @ [e]) 0 i = cells iv es 0 i" if "i \<le> length es" for i
    using that by (auto simp: cells_def cell_def share_def nth_append intro!: arg_cong [where f = concat] map_cong)
  show "i \<le> length es \<Longrightarrow> off iv (es @ [e]) i = off iv es i" by (simp add: off_def c)
qed

lemma num_append:
  "0 < iv \<Longrightarrow> num iv (es @ [e]) = (if es \<noteq> [] \<and> length es mod iv = 0 then num iv es + 1 else num iv es)"
proof -
  assume iv: "0 < iv"
  show ?thesis
  proof (cases "length es")
    case (Suc n)
    then have "es \<noteq> []" by auto
    then show ?thesis using iv Suc by (simp add: num_def div_Suc)
  qed (simp add: num_def)
qed

lemma restart_array_append:
  assumes "0 < iv"
  shows "restart_array iv (es @ [e]) = (if es \<noteq> [] \<and> length es mod iv = 0
    then restart_array iv es @ [of_nat (off iv es (length es))] else restart_array iv es)"
proof -
  have same: "map (\<lambda>j. of_nat (off iv (es @ [e]) (j * iv))) [0..<num iv es] = restart_array iv es"
    using num_index_le [OF assms, of _ es] by (auto simp: restart_array_def)
  have "num iv es * iv = length es" if ne: "es \<noteq> []" and m: "length es mod iv = 0"
  proof -
    obtain d where d: "length es = iv * d" using m by (auto simp: dvd_def mod_eq_0_iff_dvd)
    then have "0 < d" using ne by (cases d) auto
    then have "(iv * d - 1) div iv = d - 1"
      using assms by (cases d) (auto simp: div_nat_eqI)
    then show ?thesis using d \<open>0 < d\<close> by (simp add: num_def mult.commute)
  qed
  moreover have "restart_array iv (es @ [e]) = map (\<lambda>j. of_nat (off iv (es @ [e]) (j * iv))) [0..<num iv es] @
      (if es \<noteq> [] \<and> length es mod iv = 0 then [of_nat (off iv (es @ [e]) (num iv es * iv))] else [])"
    by (simp add: restart_array_def num_append [OF assms])
  ultimately show ?thesis unfolding same by simp
qed

lemma build_form:
  assumes "0 < iv"
  shows "bb_buffer (add_all iv es) = cells iv es 0 (length es) \<and> bb_restarts (add_all iv es) = restart_array iv es \<and>
    bb_counter (add_all iv es) = (if es = [] then 0 else (length es - 1) mod iv + 1) \<and>
    bb_last_key (add_all iv es) = (if es = [] then [] else fst (last es))"
proof (induction es rule: rev_induct)
  case Nil
  then show ?case by (simp add: add_all_def BlockBuilder_Reset_def cells_def restart_array_def num_def)
next
  case (snoc e es)
  let ?b = "add_all iv es" and ?n = "length es"
  obtain k v where e: "e = (k, v)" by (cases e)
  have b: "add_all iv (es @ [e]) = BlockBuilder_Add iv k v ?b" by (simp add: add_all_def e)
  have counter: "\<not> bb_counter ?b < iv \<longleftrightarrow> es \<noteq> [] \<and> ?n mod iv = 0"
    "?n mod iv = (if \<not> bb_counter ?b < iv then 0 else bb_counter ?b)"
  proof (atomize (full), cases ?n)
    case 0
    then show "(\<not> bb_counter ?b < iv \<longleftrightarrow> es \<noteq> [] \<and> ?n mod iv = 0) \<and>
        ?n mod iv = (if \<not> bb_counter ?b < iv then 0 else bb_counter ?b)"
      using snoc assms by simp
  next
    case (Suc m)
    then have "bb_counter ?b = Suc (m mod iv)" "es \<noteq> []" using snoc by auto
    moreover have "m mod iv < iv" using assms by simp
    ultimately show "(\<not> bb_counter ?b < iv \<longleftrightarrow> es \<noteq> [] \<and> ?n mod iv = 0) \<and>
        ?n mod iv = (if \<not> bb_counter ?b < iv then 0 else bb_counter ?b)"
      using Suc by (simp add: mod_Suc)
  qed
  define s where "s = share iv (es @ [e]) ?n"
  have s: "s = (if \<not> bb_counter ?b < iv then 0 else shared_loop (bb_last_key ?b) k)"
    using snoc counter(1) by (auto simp: s_def share_def nth_append last_conv_nth e)
  have le: "s \<le> length k" using share_le [of iv "es @ [e]" ?n] by (simp add: s_def e nth_append)
  have pre: "take s (bb_last_key ?b) = take s k"
    using shared_loop_prefix [of "bb_last_key ?b" k] by (simp add: s)
  have cell: "cell iv (es @ [e]) ?n = entry_code s k v" by (simp add: cell_def s_def nth_append e)
  have cells: "cells iv (es @ [e]) 0 (Suc ?n) = cells iv es 0 ?n @ entry_code s k v"
  proof -
    have "cells iv (es @ [e]) ?n (Suc ?n) = entry_code s k v" by (simp add: cells_def cell)
    then show ?thesis using cells_split [of 0 ?n "Suc ?n" iv "es @ [e]"] by simp
  qed
  have "bb_buffer (BlockBuilder_Add iv k v ?b) = cells iv es 0 ?n @ entry_code s k v"
    "bb_last_key (BlockBuilder_Add iv k v ?b) = k"
    using snoc le pre unfolding BlockBuilder_Add_def Let_def s [symmetric]
    by (simp_all add: entry_code_def PutVarint32_def append_take_drop_id del: of_nat_diff)
  moreover have "bb_restarts (BlockBuilder_Add iv k v ?b) = restart_array iv (es @ [e])"
  proof -
    have "bb_restarts (BlockBuilder_Add iv k v ?b) =
        (if \<not> bb_counter ?b < iv then bb_restarts ?b @ [of_nat (length (bb_buffer ?b))] else bb_restarts ?b)"
      by (simp add: BlockBuilder_Add_def Let_def)
    also have "\<dots> = restart_array iv (es @ [e])"
      unfolding counter(1) restart_array_append [OF assms] off_def using snoc by (cases "es = []") auto
    finally show ?thesis .
  qed
  moreover have "bb_counter (BlockBuilder_Add iv k v ?b) = ?n mod iv + 1"
    by (simp add: BlockBuilder_Add_def Let_def counter(2))
  ultimately show ?case unfolding b using cells by (simp add: e)
qed

lemma Finish_form: "0 < iv \<Longrightarrow> fst (BlockBuilder_Finish (add_all iv es)) = block_bytes iv es"
  using build_form [of iv es]
  by (simp add: BlockBuilder_Finish_def Let_def foldl_PutFixed32 PutFixed32_def block_bytes_def restart_array_def)

section \<open>Opening\<close>

lemma open_block:
  assumes "fits iv es"
  shows "\<exists>b it. Block_new (block_bytes iv es) = Some b \<and> Block_NewIterator b = Some (Iter it) \<and> over iv es it"
proof -
  let ?d = "block_bytes iv es" and ?n = "num iv es"
  have len: "length ?d = off iv es (length es) + 4 * ?n + 4" by (rule length_block)
  have n: "?n < 2 ^ 30" "0 < ?n" using num_small [OF assms] by (simp_all add: num_def)
  have "drop (length ?d - 4) ?d = EncodeFixed32 (of_nat ?n)"
    by (simp add: block_bytes_def)
  then have N: "NumRestarts ?d = Some (of_nat ?n)"
    using DecodeFixed32_Encode [of "of_nat ?n" "[]"] by (simp add: NumRestarts_def)
  have u: "unat (of_nat ?n :: u32) = ?n" "unat (1 + of_nat ?n :: u32) = ?n + 1" "(of_nat ?n :: u32) \<noteq> 0"
  proof -
    show u: "unat (of_nat ?n :: u32) = ?n" using n by (simp add: unat_of_nat_mod)
    have "(1 + of_nat ?n :: u32) = of_nat (?n + 1)" by simp
    then show "unat (1 + of_nat ?n :: u32) = ?n + 1" using n by (simp only: unat_of_nat_mod) simp
    show "(of_nat ?n :: u32) \<noteq> 0" using u n(2) by auto
  qed
  have "length ?d - (?n + 1) * 4 = off iv es (length es)" using len by simp
  moreover have "off iv es (length es) < 2 ^ 32" using off_bound [OF assms] by simp
  ultimately have "Block_new ?d = Some \<lparr>bl_data = ?d, bl_size = length ?d, bl_restart_offset = off iv es (length es)\<rparr>"
    using len u by (simp add: Block_new_def N)
  then show ?thesis using len u N by (simp add: Block_NewIterator_def over_def block_iter_new_def)
qed

section \<open>Properties\<close>

definition built_block :: "nat \<Rightarrow> (slice \<times> slice) list \<Rightarrow> slice" where
  "built_block iv es = fst (BlockBuilder_Finish (add_all iv es))"

lemma estimate_form: "0 < iv \<Longrightarrow> CurrentSizeEstimate (add_all iv es) = length (block_bytes iv es)"
  using build_form [of iv es] by (simp add: CurrentSizeEstimate_def length_block off_def restart_array_def)

lemma open_block_of:
  assumes "0 < iv" and "length (built_block iv es) < 2 ^ 32"
  shows "\<exists>b it. Block_new (built_block iv es) = Some b \<and> Block_NewIterator b = Some it \<and> block_opened es it"
proof -
  have bytes: "built_block iv es = block_bytes iv es" using Finish_form [OF assms(1)] by (simp add: built_block_def)
  then have "fits iv es" using assms by (simp add: fits_def)
  then show ?thesis using open_block [of iv es] bytes by (auto simp: block_opened_def)
qed

text \<open>
  C0: A block keeps what was added to it, whatever the restart interval: from the bytes the builder
  leaves for entries with increasing keys, as many as it had estimated, an iterator walks through
  exactly these entries from the first, through their reverse from the last, and from the place of a
  target through those that are not before it.
\<close>

theorem block_roundtrip:
  assumes "key_order valid cmp" and "0 < iv" and "increasing valid cmp es" and "valid target"
    and "length (built_block iv es) < 2 ^ 32" and "length es < n"
  shows "CurrentSizeEstimate (add_all iv es) = length (built_block iv es) \<and>
    (\<exists>b it. Block_new (built_block iv es) = Some b \<and> Block_NewIterator b = Some it \<and>
      (vt_SeekToFirst (Block_Iter cmp) it \<bind> iter_walk (Block_Iter cmp) (vt_Next (Block_Iter cmp)) n) = Some es \<and>
      (vt_SeekToLast (Block_Iter cmp) it \<bind> iter_walk (Block_Iter cmp) (vt_Prev (Block_Iter cmp)) (Suc n)) = Some (rev es) \<and>
      (vt_Seek (Block_Iter cmp) target it \<bind> iter_walk (Block_Iter cmp) (vt_Next (Block_Iter cmp)) n)
        = Some (dropWhile (\<lambda>e. cmp (fst e) target < 0) es))"
proof -
  obtain b it where "Block_new (built_block iv es) = Some b" "Block_NewIterator b = Some it" "block_opened es it"
    using open_block_of [OF assms(2,5)] by blast
  with ordered_iterator.walks [OF slice_order.Block_Iter_ordered [OF slice_order.intro [OF assms(1)]] _ assms(3,4,6)]
  show ?thesis using assms(2) by (auto simp: estimate_form Finish_form built_block_def)
qed

theorem block_roundtrip_witness:
  "\<exists>b it. Block_new (built_block 2 [([1], [7]), ([1, 2], []), ([1, 2, 3], [9]), ([4], [5])]) = Some b \<and>
    Block_NewIterator b = Some it \<and>
    (vt_Seek (Block_Iter Slice_compare) [1, 2, 0] it \<bind>
      iter_walk (Block_Iter Slice_compare) (vt_Next (Block_Iter Slice_compare)) 5) = Some [([1, 2, 3], [9]), ([4], [5])]"
proof -
  let ?es = "[([1], [7]), ([1, 2], []), ([1, 2, 3], [9]), ([4], [5])] :: (slice \<times> slice) list"
  have o: "key_order (\<lambda>_. True) Slice_compare" by unfold_locales
  have i: "increasing (\<lambda>_. True) Slice_compare ?es" by (simp add: increasing_def Slice_compare_order)
  have "built_block 2 ?es = [0, 1, 1, 1, 7, 1, 1, 0, 2, 0, 3, 1, 1, 2, 3, 9, 0, 1, 1, 4, 5, 0, 0, 0, 0, 9, 0, 0, 0, 2, 0, 0, 0]"
    by code_simp
  then have l: "length (built_block 2 ?es) < 2 ^ 32" by simp
  from block_roundtrip [OF o _ i _ l, where target = "[1, 2, 0]" and n = 5] show ?thesis by (auto simp: Slice_compare_order)
qed

text \<open>The check of an entry adds its lengths in 32 bits, so lengths far beyond the block pass it.\<close>

lemma entry_lengths_wrap: "DecodeEntry [0, 0xFF, 0xFF, 0xFF, 0xFF, 0x0F, 1] = Some (0, 4294967295, 1, [])"
  by code_simp

end
