(* ===== verification/Ldb_Format.thy ===== *)
theory Ldb_Format
  imports Ldb_Env Ldb_Crc
begin

text \<open>
  The frame of a table file: files for random access (\<open>util/env_posix.cc\<close>), the compression that is
  not there (\<open>port/port_stdcxx.h\<close>, built without Snappy), and block handles, footers and the reading
  of one block with its type and checksum (\<open>table/format.h\<close>, \<open>table/format.cc\<close>).
\<close>

section \<open>Files for random access\<close>

text \<open>
  A read gives a status, the bytes, whether they are in the memory of the file (rather than in the
  scratch space of the caller), and the file afterwards; \<open>None\<close>: memory that is not there.
\<close>

type_synonym 'f random_read = "u64 \<Rightarrow> u64 \<Rightarrow> 'f \<Rightarrow> (Status \<times> slice \<times> bool \<times> 'f) option"

record PosixRandomAccessFile =
  ra_permanent :: bool
  ra_filename :: slice
  ra_file :: slice
  ra_calls :: nat

text \<open>\<open>open\<close> when the descriptor is not permanent, then \<open>pread\<close>.\<close>

definition Random_Read :: "os \<Rightarrow> PosixRandomAccessFile random_read" where
  "Random_Read os offset n f =
     (let pread = (\<lambda>g. let h = g\<lparr>ra_calls := ra_calls g + 1\<rparr> in
                       case os_call os (ra_calls g) of
                         Returns k \<Rightarrow> (Status_OK, take (min (unat n) k) (drop (unat offset) (ra_file h)), False, h)
                       | r \<Rightarrow> (PosixError os (ra_filename h) (errno_of r), [], False, h))
      in if ra_permanent f then Some (pread f)
         else let g = f\<lparr>ra_calls := ra_calls f + 1\<rparr> in
              case os_call os (ra_calls f) of
                Returns _ \<Rightarrow> Some (pread g)
              | r \<Rightarrow> Some (PosixError os (ra_filename g) (errno_of r), [], False, g))"

record PosixMmapReadableFile =
  mm_filename :: slice
  mm_memory :: slice

text \<open>The sum of offset and length is taken in 64 bits.\<close>

definition Mmap_Read :: "os \<Rightarrow> PosixMmapReadableFile random_read" where
  "Mmap_Read os offset n f =
     (if of_nat (length (mm_memory f)) < offset + n then Some (PosixError os (mm_filename f) 22, [], True, f)
      else do { result \<leftarrow> mem_read (mm_memory f) (unat offset) (unat n); Some (Status_OK, result, True, f) })"

text \<open>What reading a file that is \<open>good\<close> gives, as long as it stays within its contents.\<close>

locale random_access_file =
  fixes read :: "'f random_read"
    and good :: "'f \<Rightarrow> bool"
    and contents :: "'f \<Rightarrow> slice"
  assumes read_within: "good f \<Longrightarrow> unat offset + unat n \<le> length (contents f) \<Longrightarrow>
    \<exists>direct g. read offset n f = Some (Status_OK, take (unat n) (drop (unat offset) (contents f)), direct, g) \<and>
      good g \<and> contents g = contents f"

interpretation mmap: random_access_file "Mmap_Read os" "\<lambda>f. length (mm_memory f) < 2 ^ 64" mm_memory for os
proof
  fix f :: PosixMmapReadableFile and offset n :: u64
  assume a: "length (mm_memory f) < 2 ^ 64" "unat offset + unat n \<le> length (mm_memory f)"
  then have "unat (offset + n) = unat offset + unat n" by (simp add: unat_word_ariths)
  then have "\<not> of_nat (length (mm_memory f)) < offset + n"
    using a by (simp add: word_less_nat_alt unat_of_nat_mod)
  then show "\<exists>direct g. Mmap_Read os offset n f =
      Some (Status_OK, take (unat n) (drop (unat offset) (mm_memory f)), direct, g) \<and>
      length (mm_memory g) < 2 ^ 64 \<and> mm_memory g = mm_memory f"
    using a by (auto simp: Mmap_Read_def mem_read_def)
qed

text \<open>\<open>pread\<close> on a regular file is documented to transfer all the bytes asked for that are there.\<close>

locale posix_pread =
  fixes os :: os
  assumes transfers_all: "\<exists>k. os_call os i = Returns k \<and> 2 ^ 64 \<le> k"
begin

lemma Random_Read_within: "random_access_file (Random_Read os) (\<lambda>_. True) ra_file"
proof
  fix f :: PosixRandomAccessFile and offset n :: u64
  have call: "\<exists>k. os_call os i = Returns k \<and> min (unat n) k = unat n" for i
  proof -
    have "unat n < 2 ^ 64" using unat_bound [of n] by simp
    then show ?thesis using transfers_all [of i] by fastforce
  qed
  obtain k where k: "os_call os (ra_calls f) = Returns k" "min (unat n) k = unat n" using call by blast
  obtain l where l: "os_call os (ra_calls f + 1) = Returns l" "min (unat n) l = unat n" using call by blast
  show "\<exists>direct g. Random_Read os offset n f = Some (Status_OK, take (unat n) (drop (unat offset) (ra_file f)), direct, g) \<and>
      True \<and> ra_file g = ra_file f"
    using k l by (cases "ra_permanent f") (auto simp: Random_Read_def Let_def)
qed

end

sublocale posix_pread \<subseteq> random_access_file "Random_Read os" "\<lambda>_. True" ra_file
  by (rule Random_Read_within)

definition whole_os :: os where
  "whole_os = \<lparr>os_call = (\<lambda>_. Returns (2 ^ 64)), os_strerror = (\<lambda>_. [])\<rparr>"

interpretation whole: posix_pread whole_os
  by unfold_locales (simp add: whole_os_def)

section \<open>Compression\<close>

text \<open>Without Snappy nothing is compressed, and nothing can be uncompressed.\<close>

datatype CompressionType = kNoCompression | kSnappyCompression

fun compression_byte :: "CompressionType \<Rightarrow> u8" where
  "compression_byte kNoCompression = 0"
| "compression_byte kSnappyCompression = 1"

definition Snappy_Compress :: "slice \<Rightarrow> slice option" where
  "Snappy_Compress input = None"

definition Snappy_GetUncompressedLength :: "slice \<Rightarrow> nat option" where
  "Snappy_GetUncompressedLength input = None"

definition Snappy_Uncompress :: "slice \<Rightarrow> slice option" where
  "Snappy_Uncompress input = None"

section \<open>Block handles\<close>

record BlockHandle =
  bh_offset :: u64
  bh_size :: u64

definition BlockHandle_new :: BlockHandle where
  "BlockHandle_new = \<lparr>bh_offset = NOT 0, bh_size = NOT 0\<rparr>"

definition kMaxEncodedLength :: nat where
  "kMaxEncodedLength = 10 + 10"

definition BlockHandle_EncodeTo :: "BlockHandle \<Rightarrow> slice \<Rightarrow> slice" where
  "BlockHandle_EncodeTo h dst = PutVarint64 (PutVarint64 dst (bh_offset h)) (bh_size h)"

definition BlockHandle_DecodeFrom :: "BlockHandle \<Rightarrow> slice \<Rightarrow> Status \<times> BlockHandle \<times> slice" where
  "BlockHandle_DecodeFrom h input =
     (case GetVarint64 input of
        (None, input) \<Rightarrow> (Corruption (bytes ''bad block handle'') [], h, input)
      | (Some offset, input) \<Rightarrow>
          let h = h\<lparr>bh_offset := offset\<rparr>
          in case GetVarint64 input of
               (None, input) \<Rightarrow> (Corruption (bytes ''bad block handle'') [], h, input)
             | (Some length_of, input) \<Rightarrow> (Status_OK, h\<lparr>bh_size := length_of\<rparr>, input))"

section \<open>Footers\<close>

record Footer =
  ft_metaindex :: BlockHandle
  ft_index :: BlockHandle

definition kEncodedLength :: nat where
  "kEncodedLength = 2 * kMaxEncodedLength + 8"

definition kTableMagicNumber :: u64 where
  "kTableMagicNumber = 0xdb4775248b80fb57"

text \<open>The whole of the destination is padded.\<close>

definition Footer_EncodeTo :: "Footer \<Rightarrow> slice \<Rightarrow> slice" where
  "Footer_EncodeTo f dst =
     (let dst = BlockHandle_EncodeTo (ft_index f) (BlockHandle_EncodeTo (ft_metaindex f) dst);
          dst = take (2 * kMaxEncodedLength) (dst @ replicate (2 * kMaxEncodedLength) 0)
      in PutFixed32 (PutFixed32 dst (ucast (kTableMagicNumber AND 0xFFFFFFFF))) (ucast (drop_bit 32 kTableMagicNumber)))"

text \<open>\<open>None\<close>: the magic number is not in the input.\<close>

definition Footer_DecodeFrom :: "Footer \<Rightarrow> slice \<Rightarrow> (Status \<times> Footer \<times> slice) option" where
  "Footer_DecodeFrom f input = do {
     let magic_ptr = kEncodedLength - 8;
     magic_lo \<leftarrow> DecodeFixed32 (drop magic_ptr input);
     magic_hi \<leftarrow> DecodeFixed32 (drop (magic_ptr + 4) input);
     let magic = (push_bit 32 (ucast magic_hi) OR ucast magic_lo :: u64);
     if magic \<noteq> kTableMagicNumber then Some (Corruption (bytes ''not an sstable (bad magic number)'') [], f, input)
     else do {
       let (result, metaindex, rest) = BlockHandle_DecodeFrom (ft_metaindex f) input;
       let f = f\<lparr>ft_metaindex := metaindex\<rparr>;
       if \<not> Status_ok result then Some (result, f, rest)
       else do {
         let (result, index, rest) = BlockHandle_DecodeFrom (ft_index f) rest;
         let f = f\<lparr>ft_index := index\<rparr>;
         if \<not> Status_ok result then Some (result, f, rest)
         else Some (result, f, drop (magic_ptr + 8) input) } } }"

section \<open>Reading a block\<close>

definition kBlockTrailerSize :: u64 where
  "kBlockTrailerSize = 5"

record BlockContents =
  bc_data :: slice
  bc_cachable :: bool
  bc_heap_allocated :: bool

text \<open>The sizes are taken in 64 bits; \<open>None\<close>: a read outside the bytes that were read.\<close>

definition ReadBlock :: "'f random_read \<Rightarrow> bool \<Rightarrow> BlockHandle \<Rightarrow> 'f \<Rightarrow> (Status \<times> BlockContents \<times> 'f) option" where
  "ReadBlock read verify_checksums handle file = do {
     let none = \<lparr>bc_data = [], bc_cachable = False, bc_heap_allocated = False\<rparr>;
     let n = bh_size handle;
     (s, contents, direct, file) \<leftarrow> read (bh_offset handle) (n + kBlockTrailerSize) file;
     if \<not> Status_ok s then Some (s, none, file)
     else if length contents \<noteq> unat (n + kBlockTrailerSize)
     then Some (Corruption (bytes ''truncated block read'') [], none, file)
     else do {
       same \<leftarrow> (if verify_checksums
                then do {
                  crc \<leftarrow> DecodeFixed32 (drop (unat n + 1) contents);
                  checked \<leftarrow> mem_read contents 0 (unat (n + 1));
                  Some (crc32c_Value checked = crc32c_Unmask crc) }
                else Some True);
       if \<not> same then Some (Corruption (bytes ''block checksum mismatch'') [], none, file)
       else do {
         kind \<leftarrow> mem_read contents (unat n) 1;
         data \<leftarrow> mem_read contents 0 (unat n);
         if kind = [0]
         then Some (Status_OK, \<lparr>bc_data = data, bc_cachable = \<not> direct, bc_heap_allocated = \<not> direct\<rparr>, file)
         else if kind = [1]
         then (case Snappy_GetUncompressedLength data of
                 None \<Rightarrow> Some (Corruption (bytes ''corrupted compressed block contents'') [], none, file)
               | Some ulength \<Rightarrow>
                   case Snappy_Uncompress data of
                     None \<Rightarrow> Some (Corruption (bytes ''corrupted compressed block contents'') [], none, file)
                   | Some ubuf \<Rightarrow>
                       Some (Status_OK, \<lparr>bc_data = ubuf, bc_cachable = True, bc_heap_allocated = True\<rparr>, file))
         else Some (Corruption (bytes ''bad block type'') [], none, file) } } }"

section \<open>Round trips\<close>

definition handle_bytes :: "BlockHandle \<Rightarrow> slice" where
  "handle_bytes h = BlockHandle_EncodeTo h []"

lemma BlockHandle_EncodeTo_bytes: "BlockHandle_EncodeTo h dst = dst @ handle_bytes h"
  by (simp add: handle_bytes_def BlockHandle_EncodeTo_def PutVarint64_def)

lemma BlockHandle_roundtrip: "BlockHandle_DecodeFrom h' (handle_bytes h @ rest) = (Status_OK, h, rest)"
  by (simp add: handle_bytes_def BlockHandle_EncodeTo_def PutVarint64_def BlockHandle_DecodeFrom_def Let_def
      GetVarint64_Encode)

lemma length_handle_bytes: "length (handle_bytes h) \<le> 20"
proof -
  have "length (EncodeVarint64 v) \<le> 10" for v :: u64 by (simp add: EncodeVarint64_leb128 length_leb128_u64)
  from this [of "bh_offset h"] this [of "bh_size h"]
  show ?thesis by (simp add: handle_bytes_def BlockHandle_EncodeTo_def PutVarint64_def)
qed

lemma Footer_form:
  "Footer_EncodeTo f [] = handle_bytes (ft_metaindex f) @ handle_bytes (ft_index f) @
     replicate (40 - length (handle_bytes (ft_metaindex f)) - length (handle_bytes (ft_index f))) 0 @
     EncodeFixed32 0x8b80fb57 @ EncodeFixed32 0xdb477524"
proof -
  have "length (handle_bytes (ft_metaindex f)) + length (handle_bytes (ft_index f)) \<le> 40"
    using length_handle_bytes [of "ft_metaindex f"] length_handle_bytes [of "ft_index f"] by simp
  moreover have "(ucast (kTableMagicNumber AND 0xFFFFFFFF) :: u32) = 0x8b80fb57"
    "(ucast (drop_bit 32 kTableMagicNumber) :: u32) = 0xdb477524" by code_simp+
  ultimately show ?thesis
    by (simp add: Footer_EncodeTo_def Let_def kMaxEncodedLength_def PutFixed32_def BlockHandle_EncodeTo_bytes)
qed

lemma length_Footer: "length (Footer_EncodeTo f []) = 48"
  using length_handle_bytes [of "ft_metaindex f"] length_handle_bytes [of "ft_index f"] by (simp add: Footer_form)

lemma Footer_roundtrip: "Footer_DecodeFrom f' (Footer_EncodeTo f []) = Some (Status_OK, f, [])"
proof -
  let ?m = "handle_bytes (ft_metaindex f)" and ?i = "handle_bytes (ft_index f)"
  let ?p = "replicate (40 - length ?m - length ?i) (0 :: u8)"
  have l: "length (?m @ ?i @ ?p) = 40"
    using length_handle_bytes [of "ft_metaindex f"] length_handle_bytes [of "ft_index f"] by simp
  have F: "Footer_EncodeTo f [] = (?m @ ?i @ ?p) @ EncodeFixed32 0x8b80fb57 @ EncodeFixed32 0xdb477524"
    by (simp add: Footer_form)
  have d: "DecodeFixed32 (drop 40 (Footer_EncodeTo f [])) = Some 0x8b80fb57"
    "DecodeFixed32 (drop 44 (Footer_EncodeTo f [])) = Some 0xdb477524"
    using l DecodeFixed32_Encode [of "0xdb477524" "[]"]
    unfolding F by (simp_all add: DecodeFixed32_Encode)
  have "BlockHandle_DecodeFrom (ft_metaindex f') (Footer_EncodeTo f []) =
      (Status_OK, ft_metaindex f, ?i @ ?p @ EncodeFixed32 0x8b80fb57 @ EncodeFixed32 0xdb477524)"
    unfolding Footer_form by (rule BlockHandle_roundtrip)
  moreover have "length (Footer_EncodeTo f []) = 48" by (rule length_Footer)
  ultimately show ?thesis
    by (simp add: Footer_DecodeFrom_def kEncodedLength_def kMaxEncodedLength_def d BlockHandle_roundtrip Let_def kTableMagicNumber_def)
qed

text \<open>A short input is read beyond its end.\<close>

lemma Footer_short: "length input < 48 \<Longrightarrow> Footer_DecodeFrom f input = None"
  by (simp add: Footer_DecodeFrom_def kEncodedLength_def kMaxEncodedLength_def DecodeFixed32_def)

section \<open>Stored blocks\<close>

text \<open>A block without compression, with its type and checksum.\<close>

definition stored :: "slice \<Rightarrow> slice" where
  "stored data = data @ [0] @ EncodeFixed32 (crc32c_Mask (crc32c_Value (data @ [0])))"

lemma length_stored [simp]: "length (stored data) = length data + 5"
  by (simp add: stored_def)

text \<open>The handle of some bytes of the file.\<close>

definition handle_of :: "nat \<Rightarrow> nat \<Rightarrow> BlockHandle" where
  "handle_of start n = \<lparr>bh_offset = of_nat start, bh_size = of_nat n\<rparr>"

context random_access_file
begin

lemma ReadBlock_stored:
  assumes "good f" and "contents f = a @ stored data @ b" and "length (contents f) < 2 ^ 63"
  shows "\<exists>bc g. ReadBlock read verify (handle_of (length a) (length data)) f = Some (Status_OK, bc, g) \<and>
    bc_data bc = data \<and> good g \<and> contents g = contents f"
proof -
  let ?n = "of_nat (length data) :: u64"
  have len: "length a + length data + 5 < 2 ^ 63" using assms(2,3) by simp
  then have u: "unat (of_nat (length a) :: u64) = length a" "unat ?n = length data"
    "unat (?n + 5) = length data + 5" "unat (?n + 1) = length data + 1"
    by (simp_all add: unat_of_nat_mod unat_word_ariths)
  obtain direct g where g: "read (of_nat (length a)) (?n + 5) f = Some (Status_OK, stored data, direct, g)"
    "good g" "contents g = contents f"
    using read_within [OF assms(1), of "of_nat (length a)" "?n + 5"] u assms(2) by auto
  have m: "mem_read (stored data) 0 (length data + 1) = Some (data @ [0])" "mem_read (stored data) 0 (length data) = Some data"
    "mem_read (stored data) (length data) 1 = Some [0]"
    by (simp_all add: mem_read_def) (simp_all add: stored_def)
  have d: "DecodeFixed32 (drop (length data + 1) (stored data)) = Some (crc32c_Mask (crc32c_Value (data @ [0])))"
    using DecodeFixed32_Encode [of "crc32c_Mask (crc32c_Value (data @ [0]))" "[]"] by (simp add: stored_def)
  show ?thesis
    using g m d by (simp add: ReadBlock_def handle_of_def kBlockTrailerSize_def u crc32c_Unmask_Mask Let_def)
qed

end

text \<open>A size near the top of its range wraps around, and the type is read outside the buffer.\<close>

lemma block_size_wraps:
  "ReadBlock (Mmap_Read whole_os) False \<lparr>bh_offset = 0, bh_size = NOT 0\<rparr> \<lparr>mm_filename = [], mm_memory = replicate 64 0\<rparr> = None"
  by (simp add: ReadBlock_def Mmap_Read_def kBlockTrailerSize_def mem_read_def Let_def unsigned_minus_1_eq_mask
      mask_eq_exp_minus_1)

end
