(* ===== verification/Ldb_Filter_Block.thy ===== *)
theory Ldb_Filter_Block
  imports Ldb_Bloom Ldb_Fixed_Array "HOL-Library.Sublist" "HOL-Library.Monad_Syntax"
begin

text \<open>
  The filter block of a table (\<open>table/filter_block.cc\<close>): one filter for the keys of the blocks that
  begin in each 2 KB of the file.
\<close>

section \<open>Policies\<close>

record FilterPolicy =
  fp_Name :: slice
  fp_CreateFilter :: "slice list \<Rightarrow> slice \<Rightarrow> slice"
  fp_KeyMayMatch :: "slice \<Rightarrow> slice \<Rightarrow> bool"

text \<open>What a filter block relies on: a key that is the \<open>same\<close> as a key of the filter matches.\<close>

locale matching_policy =
  fixes ok :: "slice list \<Rightarrow> bool"
    and policy :: FilterPolicy
    and same :: "slice \<Rightarrow> slice \<Rightarrow> bool"
  assumes filter_append: "fp_CreateFilter policy keys dst = dst @ fp_CreateFilter policy keys []"
    and filter_matches: "ok keys \<Longrightarrow> k \<in> set keys \<Longrightarrow> same k key \<Longrightarrow>
      fp_KeyMayMatch policy key (fp_CreateFilter policy keys [])"

definition user_policy :: "slice \<Rightarrow> (slice list \<Rightarrow> slice \<Rightarrow> slice) \<Rightarrow> (slice \<Rightarrow> slice \<Rightarrow> bool) \<Rightarrow> FilterPolicy" where
  "user_policy name create may_match =
     \<lparr>fp_Name = name, fp_CreateFilter = create, fp_KeyMayMatch = may_match\<rparr>"

definition internal_policy :: "slice \<Rightarrow> (slice list \<Rightarrow> slice \<Rightarrow> slice) \<Rightarrow> (slice \<Rightarrow> slice \<Rightarrow> bool) \<Rightarrow> FilterPolicy" where
  "internal_policy name create may_match =
     \<lparr>fp_Name = name, fp_CreateFilter = InternalFilter_CreateFilter create,
      fp_KeyMayMatch = InternalFilter_KeyMayMatch may_match\<rparr>"

sublocale filter_policy \<subseteq> user: matching_policy ok "user_policy name create may_match" "(=)" for name
proof
  show "fp_CreateFilter (user_policy name create may_match) keys dst =
      dst @ fp_CreateFilter (user_policy name create may_match) keys []" for keys dst
    unfolding user_policy_def FilterPolicy.simps by (rule create_append)
  show "ok keys \<Longrightarrow> k \<in> set keys \<Longrightarrow> k = key \<Longrightarrow>
      fp_KeyMayMatch (user_policy name create may_match) key (fp_CreateFilter (user_policy name create may_match) keys [])"
    for keys k key
    using no_false_negative by (simp add: user_policy_def)
qed

sublocale filter_policy \<subseteq> internal: matching_policy "\<lambda>keys. ok (map ExtractUserKey keys)"
  "internal_policy name create may_match" "\<lambda>a b. ExtractUserKey a = ExtractUserKey b" for name
proof
  show "fp_CreateFilter (internal_policy name create may_match) keys dst =
      dst @ fp_CreateFilter (internal_policy name create may_match) keys []" for keys dst
    unfolding internal_policy_def FilterPolicy.simps InternalFilter_CreateFilter_def by (rule create_append)
  show "ok (map ExtractUserKey keys) \<Longrightarrow> k \<in> set keys \<Longrightarrow> ExtractUserKey k = ExtractUserKey key \<Longrightarrow>
      fp_KeyMayMatch (internal_policy name create may_match) key
        (fp_CreateFilter (internal_policy name create may_match) keys [])" for keys k key
    using no_false_negative [of "map ExtractUserKey keys" "ExtractUserKey k"] imageI [of k "set keys" ExtractUserKey]
    by (simp add: internal_policy_def InternalFilter_CreateFilter_def InternalFilter_KeyMayMatch_def)
qed

section \<open>The builder\<close>

definition kFilterBaseLg :: nat where
  "kFilterBaseLg = 11"

definition kFilterBase :: u64 where
  "kFilterBase = push_bit kFilterBaseLg 1"

record FilterBlockBuilder =
  fb_keys :: slice
  fb_start :: "nat list"
  fb_result :: slice
  fb_offsets :: "u32 list"

definition FilterBlockBuilder_new :: FilterBlockBuilder where
  "FilterBlockBuilder_new = \<lparr>fb_keys = [], fb_start = [], fb_result = [], fb_offsets = []\<rparr>"

definition GenerateFilter :: "FilterPolicy \<Rightarrow> FilterBlockBuilder \<Rightarrow> FilterBlockBuilder" where
  "GenerateFilter policy b =
     (let num_keys = length (fb_start b);
          offsets = fb_offsets b @ [of_nat (length (fb_result b))]
      in if num_keys = 0 then b\<lparr>fb_offsets := offsets\<rparr>
         else let start = fb_start b @ [length (fb_keys b)];
                  tmp_keys = map (\<lambda>i. take (start ! (i + 1) - start ! i) (drop (start ! i) (fb_keys b))) [0..<num_keys]
              in b\<lparr>fb_offsets := offsets, fb_result := fp_CreateFilter policy tmp_keys (fb_result b),
                   fb_keys := [], fb_start := []\<rparr>)"

lemma length_GenerateFilter: "length (fb_offsets (GenerateFilter policy b)) = Suc (length (fb_offsets b))"
  by (simp add: GenerateFilter_def Let_def)

function StartBlock_loop :: "FilterPolicy \<Rightarrow> nat \<Rightarrow> FilterBlockBuilder \<Rightarrow> FilterBlockBuilder" where
  "StartBlock_loop policy filter_index b =
     (if length (fb_offsets b) < filter_index then StartBlock_loop policy filter_index (GenerateFilter policy b) else b)"
  by pat_completeness auto
termination
  by (relation "measure (\<lambda>(_, filter_index, b). filter_index - length (fb_offsets b))") (auto simp: length_GenerateFilter)

declare StartBlock_loop.simps [simp del]

definition FilterBlock_StartBlock :: "FilterPolicy \<Rightarrow> u64 \<Rightarrow> FilterBlockBuilder \<Rightarrow> FilterBlockBuilder" where
  "FilterBlock_StartBlock policy block_offset b = StartBlock_loop policy (unat (block_offset div kFilterBase)) b"

definition FilterBlock_AddKey :: "slice \<Rightarrow> FilterBlockBuilder \<Rightarrow> FilterBlockBuilder" where
  "FilterBlock_AddKey key b = b\<lparr>fb_start := fb_start b @ [length (fb_keys b)], fb_keys := fb_keys b @ key\<rparr>"

definition FilterBlock_Finish :: "FilterPolicy \<Rightarrow> FilterBlockBuilder \<Rightarrow> slice \<times> FilterBlockBuilder" where
  "FilterBlock_Finish policy b =
     (let b = (if fb_start b \<noteq> [] then GenerateFilter policy b else b);
          array_offset = of_nat (length (fb_result b));
          result = PutFixed32 (foldl PutFixed32 (fb_result b) (fb_offsets b)) array_offset @ [of_nat kFilterBaseLg]
      in (result, b\<lparr>fb_result := result\<rparr>))"

section \<open>The reader\<close>

record FilterBlockReader =
  fr_data :: slice
  fr_offset :: nat
  fr_num :: nat
  fr_base_lg :: size_t

text \<open>Without data the number of filters is zero.\<close>

definition FilterBlockReader_new :: "slice \<Rightarrow> FilterBlockReader option" where
  "FilterBlockReader_new contents =
     (let n = length contents; r = \<lparr>fr_data = [], fr_offset = 0, fr_num = 0, fr_base_lg = 0\<rparr>
      in if n < 5 then Some r
         else do {
           let r = r\<lparr>fr_base_lg := scast (contents ! (n - 1))\<rparr>;
           last_word \<leftarrow> DecodeFixed32 (drop (n - 5) contents);
           Some (if n - 5 < unat last_word then r
                 else r\<lparr>fr_data := contents, fr_offset := unat last_word, fr_num := (n - 5 - unat last_word) div 4\<rparr>) })"

text \<open>\<open>None\<close>: a shift by more than the width, or a read outside the data.\<close>

definition FilterBlock_KeyMayMatch :: "FilterPolicy \<Rightarrow> FilterBlockReader \<Rightarrow> u64 \<Rightarrow> slice \<Rightarrow> bool option" where
  "FilterBlock_KeyMayMatch policy r block_offset key =
     (if 64 \<le> fr_base_lg r then None
      else let index = unat (drop_bit (unat (fr_base_lg r)) block_offset)
           in if index < fr_num r
              then do {
                start \<leftarrow> DecodeFixed32 (drop (fr_offset r + index * 4) (fr_data r));
                limit \<leftarrow> DecodeFixed32 (drop (fr_offset r + index * 4 + 4) (fr_data r));
                if start \<le> limit \<and> unat limit \<le> fr_offset r
                then do {
                  filter \<leftarrow> mem_read (fr_data r) (unat start) (unat (limit - start));
                  Some (fp_KeyMayMatch policy key filter) }
                else Some (start \<noteq> limit) }
              else Some True)"

section \<open>Groups of keys\<close>

text \<open>The builder has made a filter for each of the groups \<open>gs\<close> and is collecting the next group.\<close>

definition group_filter :: "FilterPolicy \<Rightarrow> slice list \<Rightarrow> slice" where
  "group_filter policy g = (if g = [] then [] else fp_CreateFilter policy g [])"

definition filters :: "FilterPolicy \<Rightarrow> slice list list \<Rightarrow> slice" where
  "filters policy gs = concat (map (group_filter policy) gs)"

definition filter_offsets :: "FilterPolicy \<Rightarrow> slice list list \<Rightarrow> u32 list" where
  "filter_offsets policy gs = map (\<lambda>i. of_nat (length (filters policy (take i gs)))) [0..<length gs]"

definition starts :: "slice list \<Rightarrow> nat list" where
  "starts ks = map (\<lambda>i. length (concat (take i ks))) [0..<length ks]"

definition collects :: "FilterPolicy \<Rightarrow> slice list list \<Rightarrow> slice list \<Rightarrow> FilterBlockBuilder \<Rightarrow> bool" where
  "collects policy gs pending b \<longleftrightarrow> fb_result b = filters policy gs \<and> fb_offsets b = filter_offsets policy gs \<and>
     fb_keys b = concat pending \<and> fb_start b = starts pending"

lemma starts_snoc: "starts (ks @ [k]) = starts ks @ [length (concat ks)]"
  by (simp add: starts_def)

lemma length_starts [simp]: "length (starts ks) = length ks"
  by (simp add: starts_def)

lemma cut_at_starts:
  assumes "i < length ks"
  shows "take ((starts ks @ [length (concat ks)]) ! (i + 1) - (starts ks @ [length (concat ks)]) ! i)
    (drop ((starts ks @ [length (concat ks)]) ! i) (concat ks)) = ks ! i"
proof -
  have s: "(starts ks @ [length (concat ks)]) ! j = length (concat (take j ks))" if "j \<le> length ks" for j
    using that by (cases "j < length ks") (simp_all add: starts_def nth_append)
  have "concat ks = concat (take i ks) @ ks ! i @ concat (drop (Suc i) ks)"
    using id_take_nth_drop [OF assms] by (metis concat.simps(2) concat_append)
  then have "drop (length (concat (take i ks))) (concat ks) = ks ! i @ concat (drop (Suc i) ks)"
    by (metis append_eq_conv_conj)
  moreover have "length (concat (take (i + 1) ks)) = length (concat (take i ks)) + length (ks ! i)"
    using assms by (simp add: take_Suc_conv_app_nth)
  ultimately show ?thesis using assms s [of i] s [of "i + 1"] by simp
qed

lemma filter_offsets_snoc:
  "filter_offsets policy (gs @ [g]) = filter_offsets policy gs @ [of_nat (length (filters policy gs))]"
  by (simp add: filter_offsets_def)

lemma filters_snoc: "filters policy (gs @ [g]) = filters policy gs @ group_filter policy g"
  by (simp add: filters_def)

lemma collects_new: "collects policy [] [] FilterBlockBuilder_new"
  by (simp add: collects_def FilterBlockBuilder_new_def filters_def filter_offsets_def starts_def)

lemma collects_AddKey: "collects policy gs ks b \<Longrightarrow> collects policy gs (ks @ [k]) (FilterBlock_AddKey k b)"
  by (simp add: collects_def FilterBlock_AddKey_def starts_snoc)

context matching_policy
begin

lemma collects_Generate:
  assumes "collects policy gs ks b"
  shows "collects policy (gs @ [ks]) [] (GenerateFilter policy b)"
proof (cases "ks = []")
  case True
  then show ?thesis
    using assms by (simp add: collects_def GenerateFilter_def filters_snoc filter_offsets_snoc group_filter_def starts_def)
next
  case False
  have "map (\<lambda>i. take ((starts ks @ [length (concat ks)]) ! (i + 1) - (starts ks @ [length (concat ks)]) ! i)
      (drop ((starts ks @ [length (concat ks)]) ! i) (concat ks))) [0..<length ks] = map ((!) ks) [0..<length ks]"
    using cut_at_starts by (intro map_cong) auto
  also have "\<dots> = ks" by (rule map_nth)
  finally have k: "map (\<lambda>i. take ((starts ks @ [length (concat ks)]) ! (i + 1) - (starts ks @ [length (concat ks)]) ! i)
      (drop ((starts ks @ [length (concat ks)]) ! i) (concat ks))) [0..<length ks] = ks" .
  have s: "fb_start b = starts ks" "fb_keys b = concat ks" "fb_result b = filters policy gs" "fb_offsets b = filter_offsets policy gs"
    using assms by (simp_all add: collects_def)
  have "starts ks \<noteq> []" using False length_starts [of ks] by fastforce
  then show ?thesis
    unfolding collects_def GenerateFilter_def s Let_def length_starts k
    using False filter_append [of ks "filters policy gs"]
    by (simp add: filters_snoc filter_offsets_snoc group_filter_def) (simp add: starts_def)
qed

text \<open>
  \<open>rs\<close> are the keys added so far, each with the offset of its block; the current block begins at \<open>now\<close>.
\<close>

definition filter_holds :: "(nat \<times> slice) list \<Rightarrow> nat \<Rightarrow> FilterBlockBuilder \<Rightarrow> bool" where
  "filter_holds rs now b \<longleftrightarrow> (\<exists>gs pending. collects policy gs pending b \<and> map snd rs = concat gs @ pending \<and>
     length gs = now div 2048 \<and> (\<forall>(start, k)\<in>set rs. start div 2048 < length gs \<and> k \<in> set (gs ! (start div 2048)) \<or>
       start div 2048 = length gs \<and> k \<in> set pending))"

lemma StartBlock_loop_collects:
  assumes "collects policy gs pending b" and "length gs \<le> n"
  shows "\<exists>gs' pending'. collects policy gs' pending' (StartBlock_loop policy n b) \<and>
    concat gs' @ pending' = concat gs @ pending \<and> length gs' = n \<and>
    (if length gs < n then gs' ! length gs = pending else pending' = pending) \<and> (\<forall>i < length gs. gs' ! i = gs ! i)"
  using assms
proof (induction "n - length gs" arbitrary: gs pending b)
  case 0
  then show ?case
    by (subst StartBlock_loop.simps) (auto simp: collects_def filter_offsets_def)
next
  case (Suc d)
  let ?b = "GenerateFilter policy b"
  have c: "collects policy (gs @ [pending]) [] ?b" by (rule collects_Generate [OF Suc.prems(1)])
  have "StartBlock_loop policy n b = StartBlock_loop policy n ?b"
    using Suc by (subst StartBlock_loop.simps) (simp add: collects_def filter_offsets_def)
  moreover have "d = n - length (gs @ [pending])" "length (gs @ [pending]) \<le> n" using Suc.hyps(2) by auto
  from Suc.hyps(1) [OF this(1) c this(2)] obtain gs' pending' where h:
    "collects policy gs' pending' (StartBlock_loop policy n ?b)" "concat gs' @ pending' = concat gs @ pending"
    "length gs' = n" "\<forall>i < Suc (length gs). gs' ! i = (gs @ [pending]) ! i"
    by (auto simp del: nth_append)
  moreover from h(4) have "gs' ! length gs = pending" "\<forall>i < length gs. gs' ! i = gs ! i"
    by (simp_all add: nth_append)
  ultimately show ?case using Suc.hyps(2) by (intro exI [of _ gs'] exI [of _ pending']) auto
qed

lemma div_kFilterBase: "n < 2 ^ 64 \<Longrightarrow> unat ((of_nat n :: u64) div kFilterBase) = n div 2048"
  by (simp add: unat_div kFilterBase_def kFilterBaseLg_def unat_of_nat_mod)

lemma filter_holds_StartBlock:
  assumes "filter_holds rs now b" and "now \<le> n" and "n < 2 ^ 64"
  shows "filter_holds rs n (FilterBlock_StartBlock policy (of_nat n) b)"
proof -
  obtain gs pending where g: "collects policy gs pending b" "map snd rs = concat gs @ pending" "length gs = now div 2048"
    "\<forall>(start, k)\<in>set rs. start div 2048 < length gs \<and> k \<in> set (gs ! (start div 2048)) \<or> start div 2048 = length gs \<and> k \<in> set pending"
    using assms(1) by (auto simp: filter_holds_def)
  have "length gs \<le> n div 2048" using g(3) assms(2) by (simp add: div_le_mono)
  from StartBlock_loop_collects [OF g(1) this] obtain gs' pending' where h:
    "collects policy gs' pending' (FilterBlock_StartBlock policy (of_nat n) b)"
    "concat gs' @ pending' = concat gs @ pending" "length gs' = n div 2048"
    "if length gs < n div 2048 then gs' ! length gs = pending else pending' = pending" "\<forall>i < length gs. gs' ! i = gs ! i"
    unfolding FilterBlock_StartBlock_def div_kFilterBase [OF assms(3)] by auto
  have "\<forall>(start, k)\<in>set rs. start div 2048 < length gs' \<and> k \<in> set (gs' ! (start div 2048)) \<or>
      start div 2048 = length gs' \<and> k \<in> set pending'"
    using g(4) h(3-5) \<open>length gs \<le> n div 2048\<close> by (auto split: if_splits)
  then show ?thesis
    using h(1-3) g(2) unfolding filter_holds_def by (intro exI [of _ gs'] exI [of _ pending']) simp
qed

lemma filter_holds_new: "filter_holds [] 0 (FilterBlock_StartBlock policy 0 FilterBlockBuilder_new)"
  using collects_new [of policy]
  by (auto simp: filter_holds_def FilterBlock_StartBlock_def StartBlock_loop.simps)

lemma filter_holds_AddKey: "filter_holds rs now b \<Longrightarrow> filter_holds (rs @ [(now, k)]) now (FilterBlock_AddKey k b)"
proof -
  assume "filter_holds rs now b"
  then obtain gs pending where g: "collects policy gs pending b" "map snd rs = concat gs @ pending" "length gs = now div 2048"
    "\<forall>(start, k)\<in>set rs. start div 2048 < length gs \<and> k \<in> set (gs ! (start div 2048)) \<or> start div 2048 = length gs \<and> k \<in> set pending"
    by (auto simp: filter_holds_def)
  then show ?thesis
    using collects_AddKey [OF g(1), of k] unfolding filter_holds_def by (intro exI [of _ gs] exI [of _ "pending @ [k]"]) auto
qed

section \<open>Reading\<close>

text \<open>The block of some groups.\<close>

definition groups_block :: "slice list list \<Rightarrow> slice" where
  "groups_block gs = filters policy gs @ concat (map EncodeFixed32 (filter_offsets policy gs)) @
     EncodeFixed32 (of_nat (length (filters policy gs))) @ [11]"

lemma Finish_collects:
  "collects policy gs pending b \<Longrightarrow>
    fst (FilterBlock_Finish policy b) = groups_block (if pending = [] then gs else gs @ [pending])"
proof -
  assume c: "collects policy gs pending b"
  have "collects policy (if pending = [] then gs else gs @ [pending]) [] (if fb_start b \<noteq> [] then GenerateFilter policy b else b)"
    using c collects_Generate [OF c] by (auto simp: collects_def starts_def)
  then show ?thesis
    by (simp add: FilterBlock_Finish_def Let_def groups_block_def foldl_PutFixed32 PutFixed32_def collects_def kFilterBaseLg_def)
qed

lemma filters_take: "i < length gs \<Longrightarrow>
    filters policy gs = filters policy (take i gs) @ group_filter policy (gs ! i) @ filters policy (drop (Suc i) gs)"
  using id_take_nth_drop [of i gs] by (metis filters_def append_assoc concat.simps(2) concat_append list.map(2) map_append)

lemma KeyMayMatch_2KB:
  assumes "fr_base_lg r = 11"
  shows "FilterBlock_KeyMayMatch policy r start key =
    (if unat start div 2048 < fr_num r
     then do {
       first \<leftarrow> DecodeFixed32 (drop (fr_offset r + unat start div 2048 * 4) (fr_data r));
       limit \<leftarrow> DecodeFixed32 (drop (fr_offset r + unat start div 2048 * 4 + 4) (fr_data r));
       if first \<le> limit \<and> unat limit \<le> fr_offset r
       then do { f \<leftarrow> mem_read (fr_data r) (unat first) (unat (limit - first)); Some (fp_KeyMayMatch policy key f) }
       else Some (first \<noteq> limit) }
     else Some True)"
proof -
  have "unat (drop_bit (unat (fr_base_lg r)) start) = unat start div 2048"
    using assms by (simp add: unat_drop_bit)
  then show ?thesis unfolding FilterBlock_KeyMayMatch_def Let_def using assms by simp
qed

lemma read_groups:
  assumes "length (filters policy gs) < 2 ^ 32"
  shows "\<exists>r. FilterBlockReader_new (groups_block gs) = Some r \<and>
    (\<forall>start key. FilterBlock_KeyMayMatch policy r start key = Some (if unat start div 2048 < length gs
       then fp_KeyMayMatch policy key (group_filter policy (gs ! (unat start div 2048)))
       else True))"
proof -
  let ?c = "groups_block gs" and ?f = "filters policy gs" and ?o = "filter_offsets policy gs"
  have len: "length ?c = length ?f + 4 * length gs + 5"
    by (simp add: groups_block_def length_fixed32s filter_offsets_def del: map_map)
  have last: "?c ! (length ?c - 1) = 11" by (simp add: groups_block_def nth_append)
  have d5: "drop (length ?c - 5) ?c = EncodeFixed32 (of_nat (length ?f)) @ [11]"
    by (simp add: groups_block_def)
  have u: "unat (of_nat (length ?f) :: u32) = length ?f" using assms by (simp add: unat_of_nat_mod)
  let ?r = "\<lparr>fr_data = ?c, fr_offset = length ?f, fr_num = length gs, fr_base_lg = 11\<rparr>"
  have new: "FilterBlockReader_new ?c = Some ?r"
    unfolding FilterBlockReader_new_def Let_def d5 DecodeFixed32_Encode last using len u by simp
  have limits: "DecodeFixed32 (drop (length ?f + j * 4) ?c) = Some (of_nat (length (filters policy (take j gs))))"
    if "j \<le> length gs" for j
  proof (cases "j < length gs")
    case True
    then have "drop (j * 4) (concat (map EncodeFixed32 ?o)) = EncodeFixed32 (?o ! j) @ concat (map EncodeFixed32 (drop (Suc j) ?o))"
      using drop_fixed32s [of j ?o] by (simp add: filter_offsets_def mult.commute)
    then have "drop (length ?f + j * 4) ?c = EncodeFixed32 (?o ! j) @ concat (map EncodeFixed32 (drop (Suc j) ?o)) @
        EncodeFixed32 (of_nat (length ?f)) @ [11]"
      using True length_fixed32s [of ?o] by (simp add: groups_block_def filter_offsets_def del: map_map)
    then show ?thesis using True by (simp add: DecodeFixed32_Encode) (simp add: filter_offsets_def)
  next
    case False
    then have "drop (length ?f + j * 4) ?c = EncodeFixed32 (of_nat (length ?f)) @ [11]"
      using that length_fixed32s [of ?o] by (simp add: groups_block_def filter_offsets_def del: map_map)
    then show ?thesis using False that by (simp add: DecodeFixed32_Encode)
  qed
  have "FilterBlock_KeyMayMatch policy ?r start key = Some (fp_KeyMayMatch policy key (group_filter policy (gs ! i)))"
    if i: "unat start div 2048 = i" "i < length gs" for start key i
  proof -
    let ?s = "length (filters policy (take i gs))" and ?g = "group_filter policy (gs ! i)"
    have split: "?f = filters policy (take i gs) @ ?g @ filters policy (drop (Suc i) gs)" by (rule filters_take [OF i(2)])
    have l: "length (filters policy (take (Suc i) gs)) = ?s + length ?g"
      using i(2) by (simp add: take_Suc_conv_app_nth filters_snoc)
    have le: "?s + length ?g \<le> length ?f" by (subst split) simp
    then have b: "unat (of_nat ?s :: u32) = ?s" "unat (of_nat (?s + length ?g) :: u32) = ?s + length ?g"
      using assms by (simp_all add: unat_of_nat_mod del: of_nat_add)
    have "drop ?s ?c = ?g @ filters policy (drop (Suc i) gs) @ concat (map EncodeFixed32 ?o) @
        EncodeFixed32 (of_nat (length ?f)) @ [11]"
      unfolding groups_block_def by (subst (1) split) simp
    then have m: "mem_read ?c ?s (length ?g) = Some ?g" using le len by (simp add: mem_read_def)
    have "(of_nat ?s :: u32) \<le> of_nat (?s + length ?g)" using b by (simp add: word_le_nat_alt)
    moreover from this have "unat (of_nat (?s + length ?g) - of_nat ?s :: u32) = length ?g"
      using b by (simp add: unat_sub del: of_nat_add)
    ultimately show ?thesis
      using limits [of i] limits [of "Suc i"] i(2) b m le
      by (simp add: KeyMayMatch_2KB i(1) l add.commute add.left_commute del: of_nat_add)
  qed
  moreover have "FilterBlock_KeyMayMatch policy ?r start key = Some True" if "length gs \<le> unat start div 2048" for start key
    using that by (simp add: KeyMayMatch_2KB)
  ultimately show ?thesis using new by (intro exI [of _ ?r]) simp
qed

text \<open>A key that was added to a block matches at the offset of its block.\<close>

lemma no_false_negatives:
  assumes "filter_holds rs now b" and "length (fst (FilterBlock_Finish policy b)) < 2 ^ 32"
    and "\<And>g. sublist g (map snd rs) \<Longrightarrow> ok g"
  shows "\<exists>r. FilterBlockReader_new (fst (FilterBlock_Finish policy b)) = Some r \<and>
    (\<forall>start key. FilterBlock_KeyMayMatch policy r start key \<noteq> None) \<and>
    (\<forall>(n, k)\<in>set rs. \<forall>key. n < 2 ^ 64 \<longrightarrow> same k key \<longrightarrow> FilterBlock_KeyMayMatch policy r (of_nat n) key = Some True)"
proof -
  obtain gs pending where g: "collects policy gs pending b" "map snd rs = concat gs @ pending" "length gs = now div 2048"
    "\<forall>(start, k)\<in>set rs. start div 2048 < length gs \<and> k \<in> set (gs ! (start div 2048)) \<or> start div 2048 = length gs \<and> k \<in> set pending"
    using assms(1) by (auto simp: filter_holds_def)
  define hs where "hs = (if pending = [] then gs else gs @ [pending])"
  have F: "fst (FilterBlock_Finish policy b) = groups_block hs" using Finish_collects [OF g(1)] by (simp add: hs_def)
  then have "length (filters policy hs) < 2 ^ 32" using assms(2) by (simp add: groups_block_def)
  from read_groups [OF this] obtain r where r: "FilterBlockReader_new (groups_block hs) = Some r"
    "\<And>start key. FilterBlock_KeyMayMatch policy r start key = Some (if unat start div 2048 < length hs
       then fp_KeyMayMatch policy key (group_filter policy (hs ! (unat start div 2048))) else True)" by blast
  have "FilterBlock_KeyMayMatch policy r (of_nat n) key = Some True"
    if nk: "(n, k) \<in> set rs" and n: "n < 2 ^ 64" and same: "same k key" for n k key
  proof -
    have u: "unat (of_nat n :: u64) = n" using n by (simp add: unat_of_nat_mod)
    have "n div 2048 < length hs \<and> k \<in> set (hs ! (n div 2048))"
      using bspec [OF g(4) nk] by (auto simp: hs_def nth_append)
    then have i: "n div 2048 < length hs" and k: "k \<in> set (hs ! (n div 2048))" by simp_all
    have "concat hs = map snd rs" using g(2) by (simp add: hs_def)
    then have "map snd rs = concat (take (n div 2048) hs) @ hs ! (n div 2048) @ concat (drop (Suc (n div 2048)) hs)"
      using id_take_nth_drop [OF i] by (metis concat.simps(2) concat_append)
    then have "ok (hs ! (n div 2048))" using assms(3) by (auto simp: sublist_def)
    then have "fp_KeyMayMatch policy key (group_filter policy (hs ! (n div 2048)))"
      using filter_matches [OF _ k same] k by (auto simp: group_filter_def)
    then show ?thesis by (simp add: r(2) u)
  qed
  then show ?thesis using r F by auto
qed

end

end
