(* ===== verification/Ldb_Table_Builder.thy ===== *)
theory Ldb_Table_Builder
  imports Ldb_Block_Props Ldb_Format Ldb_Filter_Block
begin

text \<open>
  Writing a table (\<open>table/table_builder.cc\<close>): data blocks with their checksums, the filter block, the
  metaindex, the index of the data blocks and the footer.
\<close>

section \<open>Options\<close>

text \<open>What tables use of the options (\<open>include/leveldb/options.h\<close>); the comparator as its functions.\<close>

record TableOptions =
  op_Compare :: "slice \<Rightarrow> slice \<Rightarrow> int"
  op_FindShortestSeparator :: "slice \<Rightarrow> slice \<Rightarrow> slice"
  op_FindShortSuccessor :: "slice \<Rightarrow> slice"
  op_block_size :: nat
  op_restart_interval :: nat
  op_compression :: CompressionType
  op_filter_policy :: "FilterPolicy option"
  op_paranoid_checks :: bool

section \<open>The builder\<close>

record 'f TableBuilder =
  tb_file :: 'f
  tb_offset :: u64
  tb_status :: Status
  tb_data_block :: BlockBuilder
  tb_index_block :: BlockBuilder
  tb_last_key :: slice
  tb_num_entries :: u64
  tb_closed :: bool
  tb_filter_block :: "FilterBlockBuilder option"
  tb_pending_index_entry :: bool
  tb_pending_handle :: BlockHandle

text \<open>With a policy there is a filter block, and every operation on it uses the policy.\<close>

definition on_filter :: "TableOptions \<Rightarrow> (FilterPolicy \<Rightarrow> FilterBlockBuilder \<Rightarrow> FilterBlockBuilder) \<Rightarrow>
    'f TableBuilder \<Rightarrow> 'f TableBuilder" where
  "on_filter options f r =
     (case op_filter_policy options of
        None \<Rightarrow> r
      | Some policy \<Rightarrow> r\<lparr>tb_filter_block := map_option (f policy) (tb_filter_block r)\<rparr>)"

definition TableBuilder_new :: "TableOptions \<Rightarrow> 'f \<Rightarrow> 'f TableBuilder" where
  "TableBuilder_new options file =
     on_filter options (\<lambda>policy. FilterBlock_StartBlock policy 0)
       \<lparr>tb_file = file, tb_offset = 0, tb_status = Status_OK, tb_data_block = BlockBuilder_Reset,
        tb_index_block = BlockBuilder_Reset, tb_last_key = [], tb_num_entries = 0, tb_closed = False,
        tb_filter_block = map_option (\<lambda>_. FilterBlockBuilder_new) (op_filter_policy options),
        tb_pending_index_entry = False, tb_pending_handle = BlockHandle_new\<rparr>"

definition TableBuilder_ok :: "'f TableBuilder \<Rightarrow> bool" where
  "TableBuilder_ok r \<longleftrightarrow> Status_ok (tb_status r)"

text \<open>Writes a block, its type and its checksum; the handle of the block is returned.\<close>

definition WriteRawBlock :: "(slice \<Rightarrow> 'f \<Rightarrow> (Status \<times> 'f) option) \<Rightarrow> slice \<Rightarrow> CompressionType \<Rightarrow>
    'f TableBuilder \<Rightarrow> (BlockHandle \<times> 'f TableBuilder) option" where
  "WriteRawBlock fappend block_contents kind r = do {
     let handle = \<lparr>bh_offset = tb_offset r, bh_size = of_nat (length block_contents)\<rparr>;
     (s, file) \<leftarrow> fappend block_contents (tb_file r);
     let r = r\<lparr>tb_status := s, tb_file := file\<rparr>;
     if \<not> Status_ok s then Some (handle, r)
     else do {
       let crc = crc32c_Extend (crc32c_Value block_contents) [compression_byte kind];
       (s, file) \<leftarrow> fappend (compression_byte kind # EncodeFixed32 (crc32c_Mask crc)) (tb_file r);
       let r = r\<lparr>tb_status := s, tb_file := file\<rparr>;
       if \<not> Status_ok s then Some (handle, r)
       else Some (handle, r\<lparr>tb_offset := tb_offset r + (of_nat (length block_contents) + kBlockTrailerSize)\<rparr>) } }"

text \<open>Finishes a block and writes it, compressed when that saves more than an eighth; the block is returned empty.\<close>

definition WriteBlock :: "TableOptions \<Rightarrow> (slice \<Rightarrow> 'f \<Rightarrow> (Status \<times> 'f) option) \<Rightarrow> BlockBuilder \<Rightarrow>
    'f TableBuilder \<Rightarrow> (BlockHandle \<times> BlockBuilder \<times> 'f TableBuilder) option" where
  "WriteBlock options fappend block r =
     (let raw = fst (BlockBuilder_Finish block);
          (block_contents, kind) =
            (case op_compression options of
               kNoCompression \<Rightarrow> (raw, kNoCompression)
             | kSnappyCompression \<Rightarrow>
                 case Snappy_Compress raw of
                   Some compressed \<Rightarrow>
                     if length compressed < length raw - length raw div 8 then (compressed, kSnappyCompression)
                     else (raw, kNoCompression)
                 | None \<Rightarrow> (raw, kNoCompression))
      in do {
        (handle, r) \<leftarrow> WriteRawBlock fappend block_contents kind r;
        Some (handle, BlockBuilder_Reset, r) })"

definition TableBuilder_Flush :: "TableOptions \<Rightarrow> (slice \<Rightarrow> 'f \<Rightarrow> (Status \<times> 'f) option) \<Rightarrow>
    ('f \<Rightarrow> (Status \<times> 'f) option) \<Rightarrow> 'f TableBuilder \<Rightarrow> 'f TableBuilder option" where
  "TableBuilder_Flush options fappend fflush r =
     (if \<not> TableBuilder_ok r then Some r
      else if bb_buffer (tb_data_block r) = [] then Some r
      else do {
        (handle, block, r) \<leftarrow> WriteBlock options fappend (tb_data_block r) r;
        let r = r\<lparr>tb_data_block := block, tb_pending_handle := handle\<rparr>;
        r \<leftarrow> (if TableBuilder_ok r
              then do {
                (s, file) \<leftarrow> fflush (tb_file r);
                Some (r\<lparr>tb_pending_index_entry := True, tb_status := s, tb_file := file\<rparr>) }
              else Some r);
        Some (on_filter options (\<lambda>policy. FilterBlock_StartBlock policy (tb_offset r)) r) })"

text \<open>The entry of the index for the last block, with the key \<open>last_key\<close>.\<close>

definition add_index_entry :: "slice \<Rightarrow> 'f TableBuilder \<Rightarrow> 'f TableBuilder" where
  "add_index_entry last_key r =
     r\<lparr>tb_last_key := last_key,
       tb_index_block := BlockBuilder_Add 1 last_key (BlockHandle_EncodeTo (tb_pending_handle r) []) (tb_index_block r),
       tb_pending_index_entry := False\<rparr>"

definition TableBuilder_Add :: "TableOptions \<Rightarrow> (slice \<Rightarrow> 'f \<Rightarrow> (Status \<times> 'f) option) \<Rightarrow>
    ('f \<Rightarrow> (Status \<times> 'f) option) \<Rightarrow> slice \<Rightarrow> slice \<Rightarrow> 'f TableBuilder \<Rightarrow> 'f TableBuilder option" where
  "TableBuilder_Add options fappend fflush key value r =
     (if \<not> TableBuilder_ok r then Some r
      else
        let r = (if tb_pending_index_entry r
                 then add_index_entry (op_FindShortestSeparator options (tb_last_key r) key) r else r);
            r = on_filter options (\<lambda>policy. FilterBlock_AddKey key) r;
            r = r\<lparr>tb_last_key := key, tb_num_entries := tb_num_entries r + 1,
                  tb_data_block := BlockBuilder_Add (op_restart_interval options) key value (tb_data_block r)\<rparr>
        in if op_block_size options \<le> CurrentSizeEstimate (tb_data_block r)
           then TableBuilder_Flush options fappend fflush r else Some r)"

definition filter_key :: "FilterPolicy \<Rightarrow> slice" where
  "filter_key policy = bytes ''filter.'' @ fp_Name policy"

definition Finish_filter :: "TableOptions \<Rightarrow> (slice \<Rightarrow> 'f \<Rightarrow> (Status \<times> 'f) option) \<Rightarrow>
    'f TableBuilder \<Rightarrow> (BlockHandle \<times> 'f TableBuilder) option" where
  "Finish_filter options fappend r =
     (case (op_filter_policy options, tb_filter_block r) of
        (Some policy, Some fb) \<Rightarrow>
          if TableBuilder_ok r
          then do {
            let (contents, fb) = FilterBlock_Finish policy fb;
            WriteRawBlock fappend contents kNoCompression (r\<lparr>tb_filter_block := Some fb\<rparr>) }
          else Some (BlockHandle_new, r)
      | _ \<Rightarrow> Some (BlockHandle_new, r))"

definition Finish_metaindex :: "TableOptions \<Rightarrow> (slice \<Rightarrow> 'f \<Rightarrow> (Status \<times> 'f) option) \<Rightarrow> BlockHandle \<Rightarrow>
    'f TableBuilder \<Rightarrow> (BlockHandle \<times> 'f TableBuilder) option" where
  "Finish_metaindex options fappend filter_handle r =
     (if TableBuilder_ok r
      then do {
        let meta_index_block =
          (case op_filter_policy options of
             None \<Rightarrow> BlockBuilder_Reset
           | Some policy \<Rightarrow> BlockBuilder_Add (op_restart_interval options) (filter_key policy)
               (BlockHandle_EncodeTo filter_handle []) BlockBuilder_Reset);
        (handle, block, r) \<leftarrow> WriteBlock options fappend meta_index_block r;
        Some (handle, r) }
      else Some (BlockHandle_new, r))"

definition Finish_index :: "TableOptions \<Rightarrow> (slice \<Rightarrow> 'f \<Rightarrow> (Status \<times> 'f) option) \<Rightarrow>
    'f TableBuilder \<Rightarrow> (BlockHandle \<times> 'f TableBuilder) option" where
  "Finish_index options fappend r =
     (if TableBuilder_ok r
      then do {
        let r = (if tb_pending_index_entry r
                 then add_index_entry (op_FindShortSuccessor options (tb_last_key r)) r else r);
        (handle, block, r) \<leftarrow> WriteBlock options fappend (tb_index_block r) r;
        Some (handle, r\<lparr>tb_index_block := block\<rparr>) }
      else Some (BlockHandle_new, r))"

definition Finish_footer :: "(slice \<Rightarrow> 'f \<Rightarrow> (Status \<times> 'f) option) \<Rightarrow> BlockHandle \<Rightarrow> BlockHandle \<Rightarrow>
    'f TableBuilder \<Rightarrow> (Status \<times> 'f TableBuilder) option" where
  "Finish_footer fappend metaindex_handle index_handle r =
     (if TableBuilder_ok r
      then do {
        let footer_encoding = Footer_EncodeTo \<lparr>ft_metaindex = metaindex_handle, ft_index = index_handle\<rparr> [];
        (s, file) \<leftarrow> fappend footer_encoding (tb_file r);
        let r = r\<lparr>tb_status := s, tb_file := file\<rparr>;
        let r = (if Status_ok s then r\<lparr>tb_offset := tb_offset r + of_nat (length footer_encoding)\<rparr> else r);
        Some (s, r) }
      else Some (tb_status r, r))"

definition TableBuilder_Finish :: "TableOptions \<Rightarrow> (slice \<Rightarrow> 'f \<Rightarrow> (Status \<times> 'f) option) \<Rightarrow>
    ('f \<Rightarrow> (Status \<times> 'f) option) \<Rightarrow> 'f TableBuilder \<Rightarrow> (Status \<times> 'f TableBuilder) option" where
  "TableBuilder_Finish options fappend fflush r = do {
     r \<leftarrow> TableBuilder_Flush options fappend fflush r;
     (filter_handle, r) \<leftarrow> Finish_filter options fappend (r\<lparr>tb_closed := True\<rparr>);
     (metaindex_handle, r) \<leftarrow> Finish_metaindex options fappend filter_handle r;
     (index_handle, r) \<leftarrow> Finish_index options fappend r;
     Finish_footer fappend metaindex_handle index_handle r }"

definition TableBuilder_Abandon :: "'f TableBuilder \<Rightarrow> 'f TableBuilder" where
  "TableBuilder_Abandon r = r\<lparr>tb_closed := True\<rparr>"

definition TableBuilder_FileSize :: "'f TableBuilder \<Rightarrow> u64" where
  "TableBuilder_FileSize r = tb_offset r"

section \<open>The layout of a table\<close>

text \<open>The data blocks with the entries \<open>bs\<close>, and where each begins.\<close>

definition data_part :: "nat \<Rightarrow> entries list \<Rightarrow> slice" where
  "data_part iv bs = concat (map (\<lambda>b. stored (built_block iv b)) bs)"

definition block_start :: "nat \<Rightarrow> entries list \<Rightarrow> nat \<Rightarrow> nat" where
  "block_start iv bs j = length (data_part iv (take j bs))"

definition block_handle :: "nat \<Rightarrow> entries list \<Rightarrow> nat \<Rightarrow> BlockHandle" where
  "block_handle iv bs j = handle_of (block_start iv bs j) (length (built_block iv (bs ! j)))"

text \<open>The key of a block in the index, and the first \<open>n\<close> entries of the index.\<close>

definition index_key :: "TableOptions \<Rightarrow> entries list \<Rightarrow> nat \<Rightarrow> slice" where
  "index_key options bs j =
     (if Suc j < length bs then op_FindShortestSeparator options (fst (last (bs ! j))) (fst (hd (bs ! Suc j)))
      else op_FindShortSuccessor options (fst (last (bs ! j))))"

definition index_entries :: "TableOptions \<Rightarrow> entries list \<Rightarrow> nat \<Rightarrow> entries" where
  "index_entries options bs n =
     map (\<lambda>j. (index_key options bs j, handle_bytes (block_handle (op_restart_interval options) bs j))) [0..<n]"

text \<open>Each key of the filter with the offset of its block.\<close>

definition filter_keys :: "nat \<Rightarrow> entries list \<Rightarrow> (nat \<times> slice) list" where
  "filter_keys iv bs = concat (map (\<lambda>j. map (\<lambda>e. (block_start iv bs j, fst e)) (bs ! j)) [0..<length bs])"

lemma data_part_snoc: "data_part iv (bs @ [b]) = data_part iv bs @ stored (built_block iv b)"
  by (simp add: data_part_def)

lemma block_start_snoc [simp]: "j \<le> length bs \<Longrightarrow> block_start iv (bs @ cs) j = block_start iv bs j"
  by (simp add: block_start_def)

lemma block_handle_snoc [simp]: "j < length bs \<Longrightarrow> block_handle iv (bs @ cs) j = block_handle iv bs j"
  by (simp add: block_handle_def nth_append)

lemma index_entries_snoc:
  assumes "n < length bs \<or> n = length bs \<and> cs \<noteq> [] \<and> cs' \<noteq> [] \<and> hd (hd cs) = hd (hd cs')" and "n \<le> length bs"
  shows "index_entries options (bs @ cs) n = index_entries options (bs @ cs') n"
proof -
  have "index_key options (bs @ cs) j = index_key options (bs @ cs') j" if "j < n" for j
    using assms that by (cases cs; cases cs') (auto simp: index_key_def nth_append hd_conv_nth)
  then show ?thesis using assms(2) by (auto simp: index_entries_def)
qed

lemma index_entries_Suc:
  "index_entries options bs (Suc n) = index_entries options bs n @
     [(index_key options bs n, handle_bytes (block_handle (op_restart_interval options) bs n))]"
  by (simp add: index_entries_def)

lemma filter_keys_snoc:
  "filter_keys iv (bs @ [b]) = filter_keys iv bs @ map (\<lambda>e. (length (data_part iv bs), fst e)) b"
proof -
  have m: "map (\<lambda>j. map (\<lambda>e. (block_start iv (bs @ [b]) j, fst e)) ((bs @ [b]) ! j)) [0..<length bs] =
      map (\<lambda>j. map (\<lambda>e. (block_start iv bs j, fst e)) (bs ! j)) [0..<length bs]"
    by (rule map_cong) (simp_all add: nth_append)
  have "block_start iv (bs @ [b]) (length bs) = length (data_part iv bs)" by (simp add: block_start_def)
  then have "filter_keys iv (bs @ [b]) =
      concat (map (\<lambda>j. map (\<lambda>e. (block_start iv (bs @ [b]) j, fst e)) ((bs @ [b]) ! j)) [0..<length bs]) @
      map (\<lambda>e. (length (data_part iv bs), fst e)) b"
    by (simp add: filter_keys_def del: block_start_snoc)
  then show ?thesis unfolding m by (simp add: filter_keys_def)
qed

lemma map_snd_filter_keys: "map snd (filter_keys iv bs) = map fst (concat bs)"
proof (induction bs rule: rev_induct)
  case (snoc b bs)
  then show ?case by (simp add: filter_keys_snoc o_def)
qed (simp add: filter_keys_def)

text \<open>The metaindex names the filter; the bytes of a whole table with the filter block \<open>fb\<close>.\<close>

definition meta_entries :: "TableOptions \<Rightarrow> entries list \<Rightarrow> slice \<Rightarrow> entries" where
  "meta_entries options bs fb =
     (case op_filter_policy options of
        None \<Rightarrow> []
      | Some policy \<Rightarrow>
          [(filter_key policy, handle_bytes (handle_of (length (data_part (op_restart_interval options) bs)) (length fb)))])"

definition filter_part :: "TableOptions \<Rightarrow> slice \<Rightarrow> slice" where
  "filter_part options fb = (case op_filter_policy options of None \<Rightarrow> [] | Some _ \<Rightarrow> stored fb)"

definition meta_block :: "TableOptions \<Rightarrow> entries list \<Rightarrow> slice \<Rightarrow> slice" where
  "meta_block options bs fb = built_block (op_restart_interval options) (meta_entries options bs fb)"

definition index_block :: "TableOptions \<Rightarrow> entries list \<Rightarrow> slice" where
  "index_block options bs = built_block 1 (index_entries options bs (length bs))"

definition table_footer :: "TableOptions \<Rightarrow> entries list \<Rightarrow> slice \<Rightarrow> Footer" where
  "table_footer options bs fb =
     (let d = length (data_part (op_restart_interval options) bs) + length (filter_part options fb);
          m = length (meta_block options bs fb)
      in \<lparr>ft_metaindex = handle_of d m, ft_index = handle_of (d + m + 5) (length (index_block options bs))\<rparr>)"

definition table_bytes :: "TableOptions \<Rightarrow> entries list \<Rightarrow> slice \<Rightarrow> slice" where
  "table_bytes options bs fb = data_part (op_restart_interval options) bs @ filter_part options fb @
     stored (meta_block options bs fb) @ stored (index_block options bs) @ Footer_EncodeTo (table_footer options bs fb) []"

text \<open>A whole table, from the entries.\<close>

fun TableBuilder_AddAll :: "TableOptions \<Rightarrow> (slice \<Rightarrow> 'f \<Rightarrow> (Status \<times> 'f) option) \<Rightarrow>
    ('f \<Rightarrow> (Status \<times> 'f) option) \<Rightarrow> entries \<Rightarrow> 'f TableBuilder \<Rightarrow> 'f TableBuilder option" where
  "TableBuilder_AddAll options fappend fflush [] r = Some r"
| "TableBuilder_AddAll options fappend fflush ((key, value) # es) r =
     TableBuilder_Add options fappend fflush key value r \<bind> TableBuilder_AddAll options fappend fflush es"

definition TableBuilder_Build :: "TableOptions \<Rightarrow> (slice \<Rightarrow> 'f \<Rightarrow> (Status \<times> 'f) option) \<Rightarrow>
    ('f \<Rightarrow> (Status \<times> 'f) option) \<Rightarrow> entries \<Rightarrow> 'f \<Rightarrow> (Status \<times> 'f TableBuilder) option" where
  "TableBuilder_Build options fappend fflush es file =
     TableBuilder_AddAll options fappend fflush es (TableBuilder_new options file) \<bind>
     TableBuilder_Finish options fappend fflush"

end
