(* ===== verification/Ldb_Two_Level.thy ===== *)
theory Ldb_Two_Level
  imports Ldb_Iterator
begin

text \<open>
  The iterator over an index of blocks (\<open>table/two_level_iterator.cc\<close>): it walks through the entries
  of all the blocks that the values of the index name.
\<close>

section \<open>The iterator\<close>

text \<open>The argument of the block function is part of the state: the function may change what it points to.\<close>

record ('i, 'd, 'a) TwoLevelIterator =
  tl_arg :: 'a
  tl_status :: Status
  tl_index :: "'i IteratorWrapper"
  tl_data :: "'d IteratorWrapper"
  tl_handle :: slice

type_synonym ('a, 'd) block_function = "'a \<Rightarrow> slice \<Rightarrow> ('d \<times> 'a) option"

definition NewTwoLevelIterator :: "'i Iterator \<Rightarrow> 'i \<Rightarrow> 'a \<Rightarrow> ('i, 'd, 'a) TwoLevelIterator" where
  "NewTwoLevelIterator vi index_iter arg =
     \<lparr>tl_arg = arg, tl_status = Status_OK, tl_index = Wrapper_Set vi (Some index_iter) IteratorWrapper_new,
      tl_data = IteratorWrapper_new, tl_handle = []\<rparr>"

definition TL_SaveError :: "Status \<Rightarrow> ('i, 'd, 'a) TwoLevelIterator \<Rightarrow> ('i, 'd, 'a) TwoLevelIterator" where
  "TL_SaveError s it = (if Status_ok (tl_status it) \<and> \<not> Status_ok s then it\<lparr>tl_status := s\<rparr> else it)"

definition TL_SetDataIterator :: "'d Iterator \<Rightarrow> 'd option \<Rightarrow> ('i, 'd, 'a) TwoLevelIterator \<Rightarrow> ('i, 'd, 'a) TwoLevelIterator" where
  "TL_SetDataIterator vd data_iter it =
     (let it = (case iw_iter (tl_data it) of None \<Rightarrow> it | Some d \<Rightarrow> TL_SaveError (vt_status vd d) it)
      in it\<lparr>tl_data := Wrapper_Set vd data_iter (tl_data it)\<rparr>)"

definition TL_InitDataBlock :: "'i Iterator \<Rightarrow> 'd Iterator \<Rightarrow> ('a, 'd) block_function \<Rightarrow>
    ('i, 'd, 'a) TwoLevelIterator \<Rightarrow> ('i, 'd, 'a) TwoLevelIterator option" where
  "TL_InitDataBlock vi vd bf it =
     (if \<not> iw_valid (tl_index it) then Some (TL_SetDataIterator vd None it)
      else do {
        handle \<leftarrow> Wrapper_value vi (tl_index it);
        if iw_iter (tl_data it) \<noteq> None \<and> Slice_compare handle (tl_handle it) = 0 then Some it
        else do {
          (iter, arg) \<leftarrow> bf (tl_arg it) handle;
          Some (TL_SetDataIterator vd (Some iter) (it\<lparr>tl_arg := arg, tl_handle := handle\<rparr>)) } })"

definition TL_on_data :: "('d IteratorWrapper \<Rightarrow> 'd IteratorWrapper option) \<Rightarrow>
    ('i, 'd, 'a) TwoLevelIterator \<Rightarrow> ('i, 'd, 'a) TwoLevelIterator option" where
  "TL_on_data f it = do { d \<leftarrow> f (tl_data it); Some (it\<lparr>tl_data := d\<rparr>) }"

definition TL_on_index :: "('i IteratorWrapper \<Rightarrow> 'i IteratorWrapper option) \<Rightarrow>
    ('i, 'd, 'a) TwoLevelIterator \<Rightarrow> ('i, 'd, 'a) TwoLevelIterator option" where
  "TL_on_index f it = do { i \<leftarrow> f (tl_index it); Some (it\<lparr>tl_index := i\<rparr>) }"

text \<open>Sends the data iterator somewhere if there is one.\<close>

definition TL_if_data :: "('d IteratorWrapper \<Rightarrow> 'd IteratorWrapper option) \<Rightarrow>
    ('i, 'd, 'a) TwoLevelIterator \<Rightarrow> ('i, 'd, 'a) TwoLevelIterator option" where
  "TL_if_data f it = (if iw_iter (tl_data it) \<noteq> None then TL_on_data f it else Some it)"

text \<open>\<open>None\<close>: the loop does not end.\<close>

partial_function (option) TL_SkipForward :: "'i Iterator \<Rightarrow> 'd Iterator \<Rightarrow> ('a, 'd) block_function \<Rightarrow>
    ('i, 'd, 'a) TwoLevelIterator \<Rightarrow> ('i, 'd, 'a) TwoLevelIterator option" where
  "TL_SkipForward vi vd bf it =
     (if iw_iter (tl_data it) \<noteq> None \<and> iw_valid (tl_data it) then Some it
      else if \<not> iw_valid (tl_index it) then Some (TL_SetDataIterator vd None it)
      else do {
        it \<leftarrow> TL_on_index (Wrapper_Next vi) it;
        it \<leftarrow> TL_InitDataBlock vi vd bf it;
        it \<leftarrow> TL_if_data (Wrapper_SeekToFirst vd) it;
        TL_SkipForward vi vd bf it })"

partial_function (option) TL_SkipBackward :: "'i Iterator \<Rightarrow> 'd Iterator \<Rightarrow> ('a, 'd) block_function \<Rightarrow>
    ('i, 'd, 'a) TwoLevelIterator \<Rightarrow> ('i, 'd, 'a) TwoLevelIterator option" where
  "TL_SkipBackward vi vd bf it =
     (if iw_iter (tl_data it) \<noteq> None \<and> iw_valid (tl_data it) then Some it
      else if \<not> iw_valid (tl_index it) then Some (TL_SetDataIterator vd None it)
      else do {
        it \<leftarrow> TL_on_index (Wrapper_Prev vi) it;
        it \<leftarrow> TL_InitDataBlock vi vd bf it;
        it \<leftarrow> TL_if_data (Wrapper_SeekToLast vd) it;
        TL_SkipBackward vi vd bf it })"

definition TL_Seek :: "'i Iterator \<Rightarrow> 'd Iterator \<Rightarrow> ('a, 'd) block_function \<Rightarrow> slice \<Rightarrow>
    ('i, 'd, 'a) TwoLevelIterator \<Rightarrow> ('i, 'd, 'a) TwoLevelIterator option" where
  "TL_Seek vi vd bf target it = do {
     it \<leftarrow> TL_on_index (Wrapper_Seek vi target) it;
     it \<leftarrow> TL_InitDataBlock vi vd bf it;
     it \<leftarrow> TL_if_data (Wrapper_Seek vd target) it;
     TL_SkipForward vi vd bf it }"

definition TL_SeekToFirst :: "'i Iterator \<Rightarrow> 'd Iterator \<Rightarrow> ('a, 'd) block_function \<Rightarrow>
    ('i, 'd, 'a) TwoLevelIterator \<Rightarrow> ('i, 'd, 'a) TwoLevelIterator option" where
  "TL_SeekToFirst vi vd bf it = do {
     it \<leftarrow> TL_on_index (Wrapper_SeekToFirst vi) it;
     it \<leftarrow> TL_InitDataBlock vi vd bf it;
     it \<leftarrow> TL_if_data (Wrapper_SeekToFirst vd) it;
     TL_SkipForward vi vd bf it }"

definition TL_SeekToLast :: "'i Iterator \<Rightarrow> 'd Iterator \<Rightarrow> ('a, 'd) block_function \<Rightarrow>
    ('i, 'd, 'a) TwoLevelIterator \<Rightarrow> ('i, 'd, 'a) TwoLevelIterator option" where
  "TL_SeekToLast vi vd bf it = do {
     it \<leftarrow> TL_on_index (Wrapper_SeekToLast vi) it;
     it \<leftarrow> TL_InitDataBlock vi vd bf it;
     it \<leftarrow> TL_if_data (Wrapper_SeekToLast vd) it;
     TL_SkipBackward vi vd bf it }"

definition TL_Next :: "'i Iterator \<Rightarrow> 'd Iterator \<Rightarrow> ('a, 'd) block_function \<Rightarrow>
    ('i, 'd, 'a) TwoLevelIterator \<Rightarrow> ('i, 'd, 'a) TwoLevelIterator option" where
  "TL_Next vi vd bf it = TL_on_data (Wrapper_Next vd) it \<bind> TL_SkipForward vi vd bf"

definition TL_Prev :: "'i Iterator \<Rightarrow> 'd Iterator \<Rightarrow> ('a, 'd) block_function \<Rightarrow>
    ('i, 'd, 'a) TwoLevelIterator \<Rightarrow> ('i, 'd, 'a) TwoLevelIterator option" where
  "TL_Prev vi vd bf it = TL_on_data (Wrapper_Prev vd) it \<bind> TL_SkipBackward vi vd bf"

text \<open>The iterator of the index is always there.\<close>

definition TL_status :: "'i Iterator \<Rightarrow> 'd Iterator \<Rightarrow> ('i, 'd, 'a) TwoLevelIterator \<Rightarrow> Status" where
  "TL_status vi vd it =
     (case (iw_iter (tl_index it), iw_iter (tl_data it)) of
        (None, _) \<Rightarrow> tl_status it
      | (Some i, data) \<Rightarrow>
          if \<not> Status_ok (vt_status vi i) then vt_status vi i
          else case data of
                 Some d \<Rightarrow> if \<not> Status_ok (vt_status vd d) then vt_status vd d else tl_status it
               | None \<Rightarrow> tl_status it)"

definition TwoLevel_Iter :: "'i Iterator \<Rightarrow> 'd Iterator \<Rightarrow> ('a, 'd) block_function \<Rightarrow> ('i, 'd, 'a) TwoLevelIterator Iterator" where
  "TwoLevel_Iter vi vd bf =
     \<lparr>vt_Valid = (\<lambda>it. iw_valid (tl_data it)),
      vt_SeekToFirst = TL_SeekToFirst vi vd bf,
      vt_SeekToLast = TL_SeekToLast vi vd bf,
      vt_Seek = TL_Seek vi vd bf,
      vt_Next = TL_Next vi vd bf,
      vt_Prev = TL_Prev vi vd bf,
      vt_key = (\<lambda>it. iw_key (tl_data it)),
      vt_value = (\<lambda>it. Wrapper_value vd (tl_data it)),
      vt_status = TL_status vi vd\<rparr>"

section \<open>Indexes\<close>

text \<open>The keys of an index separate its blocks.\<close>

definition indexes :: "(slice \<Rightarrow> bool) \<Rightarrow> (slice \<Rightarrow> slice \<Rightarrow> int) \<Rightarrow> entries list \<Rightarrow> entries \<Rightarrow> bool" where
  "indexes valid cmp bs idx \<longleftrightarrow> length idx = length bs \<and> [] \<notin> set bs \<and> distinct (map snd idx) \<and>
     (increasing valid cmp (concat bs) \<longrightarrow> (\<forall>j < length bs. valid (fst (idx ! j)) \<and>
        cmp (fst (last (bs ! j))) (fst (idx ! j)) \<le> 0 \<and>
        (Suc j < length bs \<longrightarrow> cmp (fst (idx ! j)) (fst (hd (bs ! Suc j))) < 0)))"

lemma indexesD:
  assumes "indexes valid cmp bs idx"
  shows "length idx = length bs" and "j < length bs \<Longrightarrow> bs ! j \<noteq> []"
    and "increasing valid cmp (concat bs) \<Longrightarrow> j < length bs \<Longrightarrow> valid (fst (idx ! j))"
    and "increasing valid cmp (concat bs) \<Longrightarrow> j < length bs \<Longrightarrow> cmp (fst (last (bs ! j))) (fst (idx ! j)) \<le> 0"
    and "increasing valid cmp (concat bs) \<Longrightarrow> j < length bs \<Longrightarrow> Suc j < length bs \<Longrightarrow>
      cmp (fst (idx ! j)) (fst (hd (bs ! Suc j))) < 0"
proof -
  show "j < length bs \<Longrightarrow> bs ! j \<noteq> []" using assms nth_mem [of j bs] unfolding indexes_def by metis
qed (use assms in \<open>auto simp: indexes_def\<close>)

text \<open>The number of entries before a block.\<close>

definition before_block :: "entries list \<Rightarrow> nat \<Rightarrow> nat" where
  "before_block bs j = length (concat (take j bs))"

lemma before_block_0 [simp]: "before_block bs 0 = 0"
  by (simp add: before_block_def)

lemma before_block_Suc: "j < length bs \<Longrightarrow> before_block bs (Suc j) = before_block bs j + length (bs ! j)"
  by (simp add: before_block_def take_Suc_conv_app_nth)

lemma before_block_length [simp]: "before_block bs (length bs) = length (concat bs)"
  by (simp add: before_block_def)

lemma concat_split: "j < length bs \<Longrightarrow> concat bs = concat (take j bs) @ bs ! j @ concat (drop (Suc j) bs)"
  using id_take_nth_drop [of j bs] by (metis concat.simps(2) concat_append)

lemma before_block_le: "j < length bs \<Longrightarrow> before_block bs j + length (bs ! j) \<le> length (concat bs)"
  by (subst concat_split [of j bs]) (simp_all add: before_block_def)

lemma nth_block: "j < length bs \<Longrightarrow> m < length (bs ! j) \<Longrightarrow> concat bs ! (before_block bs j + m) = bs ! j ! m"
  by (subst concat_split [of j bs]) (simp_all add: before_block_def nth_append)

text \<open>A position among all the entries is one in a block.\<close>

lemma find_block:
  assumes "i < length (concat bs)"
  obtains j m where "j < length bs" "m < length (bs ! j)" "i = before_block bs j + m"
proof -
  have "\<exists>j m. j < length bs \<and> m < length (bs ! j) \<and> i = before_block bs j + m"
    using assms
  proof (induction bs rule: rev_induct)
    case (snoc b bs)
    have s: "before_block (bs @ [b]) j = before_block bs j" if "j \<le> length bs" for j
      using that by (simp add: before_block_def)
    show ?case
    proof (cases "i < length (concat bs)")
      case True
      then obtain j m where "j < length bs" "m < length (bs ! j)" "i = before_block bs j + m" using snoc.IH by blast
      then show ?thesis using s [of j] by (intro exI [of _ j] exI [of _ m]) (simp add: nth_append)
    next
      case False
      then show ?thesis
        using snoc.prems s [of "length bs"] by (intro exI [of _ "length bs"] exI [of _ "i - length (concat bs)"]) simp
    qed
  qed simp
  then show ?thesis using that by blast
qed

context slice_order
begin

lemma increasing_append:
  "increasing valid cmp (xs @ ys) \<longleftrightarrow> increasing valid cmp xs \<and> increasing valid cmp ys \<and>
    (\<forall>x\<in>set xs. \<forall>y\<in>set ys. cmp (fst x) (fst y) < 0)"
  by (auto simp: increasing_def sorted_wrt_append)

lemma increasing_block:
  assumes "increasing valid cmp (concat bs)" and "j < length bs"
  shows "increasing valid cmp (bs ! j)"
  using assms(1) by (simp add: concat_split [OF assms(2)] increasing_append)

lemma increasing_last:
  "increasing valid cmp es \<Longrightarrow> e \<in> set es \<Longrightarrow> cmp (fst e) (fst (last es)) \<le> 0"
proof (induction es rule: rev_induct)
  case (snoc x xs)
  from snoc.prems have "valid (fst x)" "e = x \<or> cmp (fst e) (fst x) < 0"
    unfolding increasing_append by (auto simp: increasing_def)
  then show ?case using le_refl by auto
qed simp

lemma index_increasing:
  assumes "indexes valid cmp bs idx" and "increasing valid cmp (concat bs)"
  shows "increasing valid cmp idx"
proof -
  note I = indexesD(3-5) [OF assms(1,2)]
  note len = indexesD(1,2) [OF assms(1)]
  have v: "valid (fst e)" if "j < length bs" "e \<in> set (bs ! j)" for j e
    using increasing_block [OF assms(2) that(1)] that(2) by (simp add: increasing_def)
  have step: "cmp (fst (idx ! j)) (fst (idx ! Suc j)) < 0" if j: "Suc j < length bs" for j
  proof -
    let ?h = "hd (bs ! Suc j)" and ?l = "last (bs ! Suc j)"
    have h: "?h \<in> set (bs ! Suc j)" "?l \<in> set (bs ! Suc j)" using len(2) [OF j] by simp_all
    have "cmp (fst ?h) (fst ?l) \<le> 0" by (rule increasing_last [OF increasing_block [OF assms(2) j] h(1)])
    then have "cmp (fst (idx ! j)) (fst ?l) < 0"
      using less_le [OF I(1) v [OF j h(1)] v [OF j h(2)]] I(3) [of j] j by simp
    then show ?thesis using less_le [OF I(1) v [OF j h(2)] I(1)] I(2) [OF j] j by simp
  qed
  have "cmp (fst (idx ! i)) (fst (idx ! j)) < 0" if "i < j" "j < length bs" for i j
    using that
  proof (induction j)
    case (Suc j)
    show ?case
    proof (cases "i = j")
      case False
      then have "cmp (fst (idx ! i)) (fst (idx ! j)) < 0" using Suc by simp
      then show ?thesis using less_le [OF I(1) [of i] I(1) [of j] I(1) [of "Suc j"]] step [OF Suc.prems(2)] Suc.prems by simp
    qed (use step Suc.prems in simp)
  qed simp
  then show ?thesis using I(1) len(1) by (simp add: increasing_def sorted_wrt_iff_nth_less all_set_conv_all_nth)
qed

text \<open>The first entry that is not before a target is in the block that the index names, or begins the next one.\<close>

lemma lower_index:
  assumes "indexes valid cmp bs idx" and "increasing valid cmp (concat bs)" and "valid t"
  defines "j \<equiv> lower cmp t idx"
  shows "lower cmp t (concat bs) = (if j < length bs then before_block bs j + lower cmp t (bs ! j) else length (concat bs))"
proof -
  let ?P = "\<lambda>e. cmp (fst e) t < 0"
  note len = indexesD(1,2) [OF assms(1)]
  note I = indexesD(3-5) [OF assms(1,2)]
  have v: "valid (fst e)" if "i < length bs" "e \<in> set (bs ! i)" for i e
    using increasing_block [OF assms(2) that(1)] that(2) by (simp add: increasing_def)
  have low: "?P e" if i: "i < length bs" "i < j" and e: "e \<in> set (bs ! i)" for i e
  proof -
    have k: "cmp (fst (idx ! i)) t < 0"
      using increasing_lower [OF index_increasing [OF assms(1,2)] assms(3)] i len(1) by (simp add: j_def)
    have l: "last (bs ! i) \<in> set (bs ! i)" using len(2) [OF i(1)] by simp
    have "cmp (fst e) (fst (last (bs ! i))) \<le> 0" by (rule increasing_last [OF increasing_block [OF assms(2) i(1)] e])
    moreover have "cmp (fst (last (bs ! i))) t < 0" using le_less [OF v [OF i(1) l] I(1) [OF i(1)] assms(3)] I(2) [OF i(1)] k by simp
    ultimately show ?thesis using le_less [OF v [OF i(1) e] v [OF i(1) l] assms(3)] by simp
  qed
  have all: "\<forall>e\<in>set (concat (take j bs)). ?P e"
  proof
    fix e
    assume "e \<in> set (concat (take j bs))"
    then obtain i where "i < length (take j bs)" "e \<in> set (take j bs ! i)"
      by (auto simp: in_set_conv_nth [of _ "take j bs"])
    then show "?P e" using low [of i e] by simp
  qed
  show ?thesis
  proof (cases "j < length bs")
    case False
    then have "\<forall>e\<in>set (concat bs). ?P e" using all by simp
    then have "takeWhile ?P (concat bs) = concat bs" by (simp only: takeWhile_eq_all_conv)
    then show ?thesis using False unfolding lower_def by (simp only: if_False)
  next
    case True
    have next_block: "takeWhile ?P (concat (drop (Suc j) bs)) = []"
    proof (cases "Suc j < length bs")
      case Suc: True
      let ?h = "hd (bs ! Suc j)"
      have "\<not> cmp (fst (idx ! j)) t < 0"
        using increasing_lower [OF index_increasing [OF assms(1,2)] assms(3)] True len(1) by (simp add: j_def)
      then have "cmp t (fst (idx ! j)) \<le> 0" using le_swap [OF I(1) [OF True] assms(3)] by simp
      moreover have h: "?h \<in> set (bs ! Suc j)" using len(2) [OF Suc] by simp
      ultimately have "cmp t (fst ?h) < 0" using le_less [OF assms(3) I(1) [OF True] v [OF Suc h]] I(3) [OF True Suc] by simp
      then have "\<not> ?P ?h" using less_swap [OF v [OF Suc h] assms(3)] less_swap [OF assms(3) v [OF Suc h]] by linarith
      then show ?thesis using len(2) [OF Suc] by (cases "bs ! Suc j") (simp_all add: Cons_nth_drop_Suc [OF Suc, symmetric])
    qed simp
    have "takeWhile ?P (concat bs) = concat (take j bs) @ takeWhile ?P (bs ! j @ concat (drop (Suc j) bs))"
      unfolding concat_split [OF True] using all by (intro takeWhile_append2) blast
    also have "takeWhile ?P (bs ! j @ concat (drop (Suc j) bs)) = takeWhile ?P (bs ! j)"
    proof -
      have "takeWhile ?P (bs ! j @ concat (drop (Suc j) bs)) = takeWhile ?P (bs ! j)" if "\<forall>e\<in>set (bs ! j). ?P e"
        using that next_block takeWhile_append2 [of "bs ! j" ?P "concat (drop (Suc j) bs)"]
          takeWhile_eq_all_conv [of ?P "bs ! j", THEN iffD2] by (simp only: append_Nil2)
      then show ?thesis using takeWhile_append [of ?P "bs ! j"] by metis
    qed
    finally show ?thesis using True by (simp add: lower_def before_block_def)
  qed
qed

end

section \<open>The contract\<close>

text \<open>
  \<open>serves a bs idx\<close>: with the argument \<open>a\<close> the block function finds the blocks \<open>bs\<close> by the values of \<open>idx\<close>.
\<close>

locale two_level = slice_order valid cmp +
  index: ordered_iterator vi valid cmp iopened ion + data: ordered_iterator vd valid cmp dopened don
  for valid :: "slice \<Rightarrow> bool" and cmp :: "slice \<Rightarrow> slice \<Rightarrow> int"
    and vi :: "'i Iterator" and iopened :: "entries \<Rightarrow> 'i \<Rightarrow> bool" and ion :: "entries \<Rightarrow> nat \<Rightarrow> 'i \<Rightarrow> bool"
    and vd :: "'d Iterator" and dopened :: "entries \<Rightarrow> 'd \<Rightarrow> bool" and don :: "entries \<Rightarrow> nat \<Rightarrow> 'd \<Rightarrow> bool" +
  fixes bf :: "('a, 'd) block_function"
    and serves :: "'a \<Rightarrow> entries list \<Rightarrow> entries \<Rightarrow> bool"
  assumes serves_indexes: "serves a bs idx \<Longrightarrow> indexes valid cmp bs idx"
    and serves_block: "serves a bs idx \<Longrightarrow> j < length bs \<Longrightarrow>
      \<exists>d a'. bf a (snd (idx ! j)) = Some (d, a') \<and> dopened (bs ! j) d \<and> serves a' bs idx"
begin

text \<open>The data iterator is over the block that the handle names.\<close>

definition holding :: "entries list \<Rightarrow> entries \<Rightarrow> ('i, 'd, 'a) TwoLevelIterator \<Rightarrow> bool" where
  "holding bs idx it \<longleftrightarrow> serves (tl_arg it) bs idx \<and> tl_status it = Status_OK \<and>
     (\<exists>i. iw_iter (tl_index it) = Some i \<and> iopened idx i) \<and>
     (case iw_iter (tl_data it) of
        None \<Rightarrow> \<not> iw_valid (tl_data it)
      | Some d \<Rightarrow> \<exists>j < length bs. tl_handle it = snd (idx ! j) \<and> dopened (bs ! j) d)"

definition tl_opened :: "entries \<Rightarrow> ('i, 'd, 'a) TwoLevelIterator \<Rightarrow> bool" where
  "tl_opened es it \<longleftrightarrow> (\<exists>bs idx. es = concat bs \<and> holding bs idx it)"

text \<open>On the entry \<open>m\<close> of the block \<open>j\<close>, or past its last entry; and at the end of everything.\<close>

definition in_block :: "entries list \<Rightarrow> entries \<Rightarrow> nat \<Rightarrow> nat \<Rightarrow> ('i, 'd, 'a) TwoLevelIterator \<Rightarrow> bool" where
  "in_block bs idx j m it \<longleftrightarrow> holding bs idx it \<and> j < length bs \<and> index.won idx j (tl_index it) \<and>
     data.won (bs ! j) m (tl_data it) \<and> tl_handle it = snd (idx ! j)"

definition past_end :: "entries list \<Rightarrow> entries \<Rightarrow> ('i, 'd, 'a) TwoLevelIterator \<Rightarrow> bool" where
  "past_end bs idx it \<longleftrightarrow> holding bs idx it \<and> index.won idx (length idx) (tl_index it) \<and> iw_iter (tl_data it) = None"

definition tl_on :: "entries \<Rightarrow> nat \<Rightarrow> ('i, 'd, 'a) TwoLevelIterator \<Rightarrow> bool" where
  "tl_on es n it \<longleftrightarrow> (\<exists>bs idx. es = concat bs \<and>
     (if n < length es then \<exists>j m. j < length bs \<and> m < length (bs ! j) \<and> n = before_block bs j + m \<and> in_block bs idx j m it
      else n = length es \<and> past_end bs idx it))"

lemma holding_indexes: "holding bs idx it \<Longrightarrow> indexes valid cmp bs idx"
  by (rule serves_indexes [of "tl_arg it"]) (simp add: holding_def)

lemma SetDataIterator_None: "holding bs idx it \<Longrightarrow> holding bs idx (TL_SetDataIterator vd None it) \<and>
    iw_iter (tl_data (TL_SetDataIterator vd None it)) = None \<and> tl_index (TL_SetDataIterator vd None it) = tl_index it"
  using data.opened_status
  by (auto simp: holding_def TL_SetDataIterator_def TL_SaveError_def Let_def Wrapper_Set_def split: option.splits)

text \<open>After the index has moved, the block is made ready.\<close>

lemma Init_block:
  assumes "holding bs idx it" and "index.won idx j (tl_index it)"
  shows "\<exists>it'. TL_InitDataBlock vi vd bf it = Some it' \<and> holding bs idx it' \<and> tl_index it' = tl_index it \<and>
    (if j < length bs then tl_handle it' = snd (idx ! j) \<and> (\<exists>d. iw_iter (tl_data it') = Some d \<and> dopened (bs ! j) d)
     else iw_iter (tl_data it') = None)"
proof -
  have ix: "indexes valid cmp bs idx" by (rule holding_indexes [OF assms(1)])
  have len: "length idx = length bs" by (rule indexesD(1) [OF ix])
  show ?thesis
  proof (cases "j < length bs")
    case False
    then have "\<not> iw_valid (tl_index it)" using assms(2) len by (auto simp: index.won_def)
    then show ?thesis using False SetDataIterator_None [OF assms(1)] by (auto simp: TL_InitDataBlock_def)
  next
    case True
    then have i: "iw_valid (tl_index it)" "Wrapper_value vi (tl_index it) = Some (snd (idx ! j))"
      using assms(2) len index.on_entry by (auto simp: index.won_def Wrapper_value_def)
    show ?thesis
    proof (cases "iw_iter (tl_data it) \<noteq> None \<and> Slice_compare (snd (idx ! j)) (tl_handle it) = 0")
      case c: True
      then have h: "tl_handle it = snd (idx ! j)" using bytewise.cmp_eq by simp
      then obtain d k where d: "iw_iter (tl_data it) = Some d" "k < length bs" "snd (idx ! j) = snd (idx ! k)" "dopened (bs ! k) d"
        using c assms(1) by (auto simp: holding_def split: option.splits)
      have "k = j" using d(2,3) True len nth_eq_iff_index_eq [of "map snd idx" j k] ix [unfolded indexes_def] by simp
      then have "iw_iter (tl_data it) = Some d \<and> dopened (bs ! j) d" using d(1,4) by simp
      moreover have "TL_InitDataBlock vi vd bf it = Some it" using c i by (simp add: TL_InitDataBlock_def)
      ultimately show ?thesis using h assms(1) True by auto
    next
      case c: False
      obtain d a where d: "bf (tl_arg it) (snd (idx ! j)) = Some (d, a)" "dopened (bs ! j) d" "serves a bs idx"
        using serves_block [of "tl_arg it" bs idx j] assms(1) True by (auto simp: holding_def)
      let ?it = "TL_SetDataIterator vd (Some d) (it\<lparr>tl_arg := a, tl_handle := snd (idx ! j)\<rparr>)"
      have "TL_InitDataBlock vi vd bf it = Some ?it" using c i d by (auto simp: TL_InitDataBlock_def)
      moreover have "holding bs idx ?it \<and> tl_index ?it = tl_index it \<and> tl_handle ?it = snd (idx ! j) \<and> iw_iter (tl_data ?it) = Some d"
        using assms(1) d(2,3) True data.opened_status
        by (auto simp: holding_def TL_SetDataIterator_def TL_SaveError_def Let_def Wrapper_Set_def Wrapper_Update_def split: option.splits)
      ultimately show ?thesis using True d(2) by auto
    qed
  qed
qed

lemma holding_data:
  assumes "holding bs idx it" and "tl_handle it = snd (idx ! j)" and "j < length bs" and "don (bs ! j) m d"
  shows "holding bs idx (it\<lparr>tl_data := Wrapper_Update vd d w\<rparr>)"
  using assms data.on_opened [OF assms(4)] by (auto simp: holding_def Wrapper_Update_def)

lemma holding_index:
  assumes "holding bs idx it" and "ion idx j i"
  shows "holding bs idx (it\<lparr>tl_index := Wrapper_Update vi i w\<rparr>)"
  using assms(1) index.on_opened [OF assms(2)] by (auto simp: holding_def Wrapper_Update_def split: option.splits)

text \<open>The data iterator is sent to an entry of the block.\<close>

lemma if_data_block:
  assumes "holding bs idx it" and "index.won idx j (tl_index it)" and "j < length bs" and "tl_handle it = snd (idx ! j)"
    and "iw_iter (tl_data it) = Some d" and "f d = Some d'" and "don (bs ! j) m d'"
  shows "\<exists>it'. TL_if_data (\<lambda>w. do { it \<leftarrow> iw_iter w; it' \<leftarrow> f it; Some (Wrapper_Update vd it' w) }) it = Some it' \<and>
    in_block bs idx j m it'"
  using assms holding_data [OF assms(1,4,3,7)] data.Update_on [OF assms(7)]
  by (auto simp: TL_if_data_def TL_on_data_def in_block_def)

text \<open>The index has moved to \<open>j\<close>, and the data iterator of that block, if there is one, is sent to \<open>m\<close>.\<close>

lemma place:
  assumes "holding bs idx it" and "ion idx j i"
    and "\<And>d. j < length bs \<Longrightarrow> dopened (bs ! j) d \<Longrightarrow> \<exists>d'. f d = Some d' \<and> don (bs ! j) m d'"
  shows "\<exists>it'. (TL_InitDataBlock vi vd bf (it\<lparr>tl_index := Wrapper_Update vi i w\<rparr>) \<bind>
      TL_if_data (\<lambda>w. do { it \<leftarrow> iw_iter w; it' \<leftarrow> f it; Some (Wrapper_Update vd it' w) })) = Some it' \<and>
    (if j < length bs then in_block bs idx j m it'
     else holding bs idx it' \<and> index.won idx (length idx) (tl_index it') \<and> iw_iter (tl_data it') = None)"
proof -
  let ?it1 = "it\<lparr>tl_index := Wrapper_Update vi i w\<rparr>"
  have len: "length idx = length bs" by (rule indexesD(1) [OF holding_indexes [OF assms(1)]])
  have w1: "index.won idx j (tl_index ?it1)" using index.Update_on [OF assms(2)] by simp
  obtain it2 where it2: "TL_InitDataBlock vi vd bf ?it1 = Some it2" "holding bs idx it2" "tl_index it2 = tl_index ?it1"
    "if j < length bs then tl_handle it2 = snd (idx ! j) \<and> (\<exists>d. iw_iter (tl_data it2) = Some d \<and> dopened (bs ! j) d)
     else iw_iter (tl_data it2) = None"
    using Init_block [OF holding_index [OF assms(1,2)] w1] by blast
  show ?thesis
  proof (cases "j < length bs")
    case True
    then obtain d where d: "tl_handle it2 = snd (idx ! j)" "iw_iter (tl_data it2) = Some d" "dopened (bs ! j) d"
      using it2(4) by auto
    obtain d' where "f d = Some d'" "don (bs ! j) m d'" using assms(3) [OF True d(3)] by blast
    from if_data_block [where f = f, OF it2(2) _ True d(1,2) this] w1 it2(1,3) True show ?thesis by simp
  next
    case False
    then have "j = length idx" using index.on_opened [OF assms(2)] len by simp
    then show ?thesis using False it2 w1 by (simp add: TL_if_data_def)
  qed
qed

lemma in_block_Valid: "in_block bs idx j m it \<Longrightarrow> iw_iter (tl_data it) \<noteq> None \<and> (iw_valid (tl_data it) \<longleftrightarrow> m < length (bs ! j))"
  by (auto simp: in_block_def data.won_def)

lemma Skip_in_block:
  assumes "in_block bs idx j m it" and "m < length (bs ! j)"
  shows "TL_SkipForward vi vd bf it = Some it" and "TL_SkipBackward vi vd bf it = Some it"
  using in_block_Valid [OF assms(1)] assms(2) by (simp_all add: TL_SkipForward.simps TL_SkipBackward.simps)

lemma Skip_past_end:
  assumes "holding bs idx it" and "index.won idx (length idx) (tl_index it)" and "iw_iter (tl_data it) = None"
  shows "\<exists>it'. TL_SkipForward vi vd bf it = Some it' \<and> past_end bs idx it'"
    and "\<exists>it'. TL_SkipBackward vi vd bf it = Some it' \<and> past_end bs idx it'"
  using assms SetDataIterator_None [OF assms(1)]
  by (auto simp: TL_SkipForward.simps [of vi vd bf it] TL_SkipBackward.simps [of vi vd bf it] past_end_def index.won_def)

text \<open>Past the last entry of a block come the next block, or the one before.\<close>

lemma SkipForward_block:
  assumes "in_block bs idx j (length (bs ! j)) it"
  shows "\<exists>it'. TL_SkipForward vi vd bf it = Some it' \<and>
    (if Suc j < length bs then in_block bs idx (Suc j) 0 it' else past_end bs idx it')"
proof -
  have h: "holding bs idx it" "j < length bs" "index.won idx j (tl_index it)" using assms by (simp_all add: in_block_def)
  have ix: "indexes valid cmp bs idx" by (rule holding_indexes [OF h(1)])
  note len = indexesD(1,2) [OF ix]
  obtain i where i: "iw_iter (tl_index it) = Some i" "ion idx j i" "iw_valid (tl_index it)"
    using h(2,3) len(1) by (auto simp: index.won_def)
  obtain i' where i': "vt_Next vi i = Some i'" "ion idx (Suc j) i'" using index.next_on [OF i(2)] h(2) len(1) by auto
  obtain it2 where it2:
    "(TL_InitDataBlock vi vd bf (it\<lparr>tl_index := Wrapper_Update vi i' (tl_index it)\<rparr>) \<bind> TL_if_data (Wrapper_SeekToFirst vd)) = Some it2"
    "if Suc j < length bs then in_block bs idx (Suc j) 0 it2
     else holding bs idx it2 \<and> index.won idx (length idx) (tl_index it2) \<and> iw_iter (tl_data it2) = None"
    using place [where f = "vt_SeekToFirst vd" and w = "tl_index it", OF h(1) i'(2)] data.first_on
    unfolding Wrapper_SeekToFirst_def [abs_def] by blast
  have "TL_SkipForward vi vd bf it = TL_SkipForward vi vd bf it2"
    using in_block_Valid [OF assms] i i'(1) it2(1)
    by (subst TL_SkipForward.simps) (auto simp: TL_on_index_def Wrapper_Next_def split: Option.bind_splits)
  then show ?thesis
    using it2(2) Skip_in_block(1) [of bs idx "Suc j" 0 it2] Skip_past_end(1) [of bs idx it2] len(2) [of "Suc j"]
    by (cases "Suc j < length bs") auto
qed

lemma SkipBackward_block:
  assumes "in_block bs idx j (length (bs ! j)) it"
  shows "\<exists>it'. TL_SkipBackward vi vd bf it = Some it' \<and>
    (if j = 0 then past_end bs idx it' else in_block bs idx (j - 1) (length (bs ! (j - 1)) - 1) it')"
proof -
  have h: "holding bs idx it" "j < length bs" "index.won idx j (tl_index it)" using assms by (simp_all add: in_block_def)
  have ix: "indexes valid cmp bs idx" by (rule holding_indexes [OF h(1)])
  note len = indexesD(1,2) [OF ix]
  obtain i where i: "iw_iter (tl_index it) = Some i" "ion idx j i" "iw_valid (tl_index it)"
    using h(2,3) len(1) by (auto simp: index.won_def)
  let ?j = "if j = 0 then length idx else j - 1"
  obtain i' where i': "vt_Prev vi i = Some i'" "ion idx ?j i'" using index.prev_on [OF i(2)] h(2) len(1) by auto
  obtain it2 where it2:
    "(TL_InitDataBlock vi vd bf (it\<lparr>tl_index := Wrapper_Update vi i' (tl_index it)\<rparr>) \<bind> TL_if_data (Wrapper_SeekToLast vd)) = Some it2"
    "if ?j < length bs then in_block bs idx ?j (length (bs ! ?j) - 1) it2
     else holding bs idx it2 \<and> index.won idx (length idx) (tl_index it2) \<and> iw_iter (tl_data it2) = None"
    using place [where f = "vt_SeekToLast vd" and w = "tl_index it", OF h(1) i'(2)] data.last_on
    unfolding Wrapper_SeekToLast_def [abs_def] by blast
  have "TL_SkipBackward vi vd bf it = TL_SkipBackward vi vd bf it2"
    using in_block_Valid [OF assms] i i'(1) it2(1)
    by (subst TL_SkipBackward.simps) (auto simp: TL_on_index_def Wrapper_Prev_def split: Option.bind_splits)
  then show ?thesis
    using it2(2) Skip_in_block(2) [of bs idx "j - 1" "length (bs ! (j - 1)) - 1" it2] Skip_past_end(2) [of bs idx it2]
      len(1) len(2) [of "j - 1"] h(2)
    by (cases j) auto
qed

lemma tl_onI:
  assumes "in_block bs idx j m it" and "m < length (bs ! j)"
  shows "tl_on (concat bs) (before_block bs j + m) it"
proof -
  have "j < length bs" using assms(1) by (simp add: in_block_def)
  then have "before_block bs j + m < length (concat bs)" using before_block_le [of j bs] assms(2) by linarith
  then show ?thesis using assms \<open>j < length bs\<close> unfolding tl_on_def by auto
qed

lemma tl_on_end: "past_end bs idx it \<Longrightarrow> tl_on (concat bs) (length (concat bs)) it"
  unfolding tl_on_def by auto

text \<open>From a place to where the iterator stops.\<close>

lemma SkipForward_place:
  assumes "if j < length bs then in_block bs idx j m it
     else holding bs idx it \<and> index.won idx (length idx) (tl_index it) \<and> iw_iter (tl_data it) = None"
    and "j < length bs \<Longrightarrow> m \<le> length (bs ! j)"
  shows "\<exists>it'. TL_SkipForward vi vd bf it = Some it' \<and>
    tl_on (concat bs) (if j < length bs then before_block bs j + m else length (concat bs)) it'"
proof (cases "j < length bs")
  case False
  then show ?thesis using assms(1) Skip_past_end(1) [of bs idx it] by (auto simp: tl_on_def)
next
  case True
  then have b: "in_block bs idx j m it" using assms(1) by simp
  note len = indexesD(2) [OF holding_indexes]
  have h: "holding bs idx it" using b by (simp add: in_block_def)
  show ?thesis
  proof (cases "m < length (bs ! j)")
    case m: True
    then show ?thesis using Skip_in_block(1) [OF b m] tl_onI [OF b m] True by simp
  next
    case False
    then have m: "m = length (bs ! j)" using assms(2) [OF True] by simp
    obtain it' where it': "TL_SkipForward vi vd bf it = Some it'"
      "if Suc j < length bs then in_block bs idx (Suc j) 0 it' else past_end bs idx it'"
      using SkipForward_block b m by blast
    show ?thesis
    proof (cases "Suc j < length bs")
      case Suc: True
      then have ne: "0 < length (bs ! Suc j)" using len [OF h Suc] by simp
      have "tl_on (concat bs) (before_block bs (Suc j)) it'"
        using tl_onI [of bs idx "Suc j" 0 it'] it'(2) Suc ne by simp
      then show ?thesis using it'(1) m True by (simp add: before_block_Suc)
    next
      case False
      then have "Suc j = length bs" using True by simp
      then have "before_block bs j + m = length (concat bs)" using before_block_Suc [OF True] m by simp
      then show ?thesis using it' False True by (auto simp: tl_on_def)
    qed
  qed
qed

lemma SkipBackward_place:
  assumes "if j < length bs then in_block bs idx j m it
     else holding bs idx it \<and> index.won idx (length idx) (tl_index it) \<and> iw_iter (tl_data it) = None"
    and "j < length bs \<Longrightarrow> m < length (bs ! j)"
  shows "\<exists>it'. TL_SkipBackward vi vd bf it = Some it' \<and>
    tl_on (concat bs) (if j < length bs then before_block bs j + m else length (concat bs)) it'"
proof (cases "j < length bs")
  case True
  then have "in_block bs idx j m it" "m < length (bs ! j)" using assms by simp_all
  then show ?thesis using Skip_in_block(2) tl_onI True by simp
next
  case False
  then show ?thesis using assms(1) Skip_past_end(2) [of bs idx it] tl_on_end by auto
qed

lemma tl_opened_index:
  assumes "tl_opened es it"
  obtains bs idx i where "es = concat bs" "holding bs idx it" "iw_iter (tl_index it) = Some i" "iopened idx i"
    "length idx = length bs" "\<forall>j < length bs. bs ! j \<noteq> []"
proof -
  obtain bs idx where h: "es = concat bs" "holding bs idx it" using assms by (auto simp: tl_opened_def)
  moreover obtain i where "iw_iter (tl_index it) = Some i" "iopened idx i" using h(2) by (auto simp: holding_def)
  ultimately show ?thesis using that indexesD(1,2) [OF holding_indexes [OF h(2)]] by blast
qed

lemma tl_SeekToFirst:
  assumes "tl_opened es it"
  shows "\<exists>it'. TL_SeekToFirst vi vd bf it = Some it' \<and> tl_on es 0 it'"
proof -
  obtain bs idx i where h: "es = concat bs" "holding bs idx it" "iw_iter (tl_index it) = Some i" "iopened idx i"
    "length idx = length bs" "\<forall>j < length bs. bs ! j \<noteq> []" by (rule tl_opened_index [OF assms])
  obtain i' where i': "vt_SeekToFirst vi i = Some i'" "ion idx 0 i'" using index.first_on [OF h(4)] by blast
  obtain it2 where it2:
    "(TL_InitDataBlock vi vd bf (it\<lparr>tl_index := Wrapper_Update vi i' (tl_index it)\<rparr>) \<bind> TL_if_data (Wrapper_SeekToFirst vd)) = Some it2"
    "if 0 < length bs then in_block bs idx 0 0 it2
     else holding bs idx it2 \<and> index.won idx (length idx) (tl_index it2) \<and> iw_iter (tl_data it2) = None"
    using place [where f = "vt_SeekToFirst vd" and w = "tl_index it", OF h(2) i'(2)] data.first_on
    unfolding Wrapper_SeekToFirst_def [abs_def] by blast
  have "TL_SeekToFirst vi vd bf it = TL_SkipForward vi vd bf it2"
    using h(3) i'(1) it2(1)
    by (auto simp: TL_SeekToFirst_def TL_on_index_def Wrapper_SeekToFirst_def [of vi] split: Option.bind_splits)
  then show ?thesis using SkipForward_place [OF it2(2)] h(1) by (cases "bs = []") auto
qed

lemma tl_SeekToLast:
  assumes "tl_opened es it"
  shows "\<exists>it'. TL_SeekToLast vi vd bf it = Some it' \<and> tl_on es (length es - 1) it'"
proof -
  obtain bs idx i where h: "es = concat bs" "holding bs idx it" "iw_iter (tl_index it) = Some i" "iopened idx i"
    "length idx = length bs" "\<forall>j < length bs. bs ! j \<noteq> []" by (rule tl_opened_index [OF assms])
  obtain i' where i': "vt_SeekToLast vi i = Some i'" "ion idx (length idx - 1) i'" using index.last_on [OF h(4)] by blast
  obtain it2 where it2:
    "(TL_InitDataBlock vi vd bf (it\<lparr>tl_index := Wrapper_Update vi i' (tl_index it)\<rparr>) \<bind> TL_if_data (Wrapper_SeekToLast vd)) = Some it2"
    "if length idx - 1 < length bs then in_block bs idx (length idx - 1) (length (bs ! (length idx - 1)) - 1) it2
     else holding bs idx it2 \<and> index.won idx (length idx) (tl_index it2) \<and> iw_iter (tl_data it2) = None"
    using place [where f = "vt_SeekToLast vd" and w = "tl_index it", OF h(2) i'(2)] data.last_on
    unfolding Wrapper_SeekToLast_def [abs_def] by blast
  have s: "TL_SeekToLast vi vd bf it = TL_SkipBackward vi vd bf it2"
    using h(3) i'(1) it2(1)
    by (auto simp: TL_SeekToLast_def TL_on_index_def Wrapper_SeekToLast_def [of vi] split: Option.bind_splits)
  have "length idx - 1 < length bs \<Longrightarrow> length (bs ! (length idx - 1)) - 1 < length (bs ! (length idx - 1))"
    using h(6) by simp
  note p = SkipBackward_place [OF it2(2) this]
  show ?thesis
  proof (cases bs)
    case Nil
    then show ?thesis using p s h(1,5) by simp
  next
    case (Cons b cs)
    then have lt: "length idx - 1 < length bs" "Suc (length idx - 1) = length bs" using h(5) by simp_all
    have ne: "1 \<le> length (bs ! (length idx - 1))" using h(6) lt(1) by (simp add: Suc_le_eq)
    have "before_block bs (length idx - 1) + (length (bs ! (length idx - 1)) - 1) = length (concat bs) - 1"
      using before_block_Suc [OF lt(1)] lt(2) ne by simp
    then show ?thesis using p s h(1) lt(1) by simp
  qed
qed

lemma tl_Seek:
  assumes "tl_opened es it" and "increasing valid cmp es" and "valid target"
  shows "\<exists>it'. TL_Seek vi vd bf target it = Some it' \<and> tl_on es (lower cmp target es) it'"
proof -
  obtain bs idx i where h: "es = concat bs" "holding bs idx it" "iw_iter (tl_index it) = Some i" "iopened idx i"
    "length idx = length bs" "\<forall>j < length bs. bs ! j \<noteq> []" by (rule tl_opened_index [OF assms(1)])
  have inc: "increasing valid cmp (concat bs)" using assms(2) h(1) by simp
  note ix = holding_indexes [OF h(2)]
  let ?j = "lower cmp target idx"
  obtain i' where i': "vt_Seek vi target i = Some i'" "ion idx ?j i'"
    using index.seek_on [OF h(4) index_increasing [OF ix inc] assms(3)] by blast
  have "?j < length bs \<Longrightarrow> dopened (bs ! ?j) d \<Longrightarrow>
      \<exists>d'. vt_Seek vd target d = Some d' \<and> don (bs ! ?j) (lower cmp target (bs ! ?j)) d'" for d
    using data.seek_on increasing_block [OF inc] assms(3) by blast
  from place [where f = "vt_Seek vd target" and w = "tl_index it", OF h(2) i'(2) this]
  obtain it2 where it2:
    "(TL_InitDataBlock vi vd bf (it\<lparr>tl_index := Wrapper_Update vi i' (tl_index it)\<rparr>) \<bind> TL_if_data (Wrapper_Seek vd target)) = Some it2"
    "if ?j < length bs then in_block bs idx ?j (lower cmp target (bs ! ?j)) it2
     else holding bs idx it2 \<and> index.won idx (length idx) (tl_index it2) \<and> iw_iter (tl_data it2) = None"
    unfolding Wrapper_Seek_def [abs_def] by blast
  have "TL_Seek vi vd bf target it = TL_SkipForward vi vd bf it2"
    using h(3) i'(1) it2(1)
    by (auto simp: TL_Seek_def TL_on_index_def Wrapper_Seek_def [of vi] split: Option.bind_splits)
  then show ?thesis
    using SkipForward_place [OF it2(2) lower_le] lower_index [OF ix inc assms(3)] h(1) by simp
qed

lemma tl_Next:
  assumes "tl_on es n it" and "n < length es"
  shows "\<exists>it'. TL_Next vi vd bf it = Some it' \<and> tl_on es (Suc n) it'"
proof -
  obtain bs idx j m where b: "es = concat bs" "j < length bs" "m < length (bs ! j)" "n = before_block bs j + m" "in_block bs idx j m it"
    using assms by (auto simp: tl_on_def)
  then obtain d where d: "iw_iter (tl_data it) = Some d" "don (bs ! j) m d" by (auto simp: in_block_def data.won_def)
  obtain d' where d': "vt_Next vd d = Some d'" "don (bs ! j) (Suc m) d'" using data.next_on [OF d(2) b(3)] by blast
  let ?it = "it\<lparr>tl_data := Wrapper_Update vd d' (tl_data it)\<rparr>"
  have "in_block bs idx j (Suc m) ?it"
    using b(2,5) holding_data [OF _ _ b(2) d'(2), of idx it] data.Update_on [OF d'(2)] by (simp add: in_block_def)
  moreover have "TL_Next vi vd bf it = TL_SkipForward vi vd bf ?it"
    using d(1) d'(1) by (simp add: TL_Next_def TL_on_data_def Wrapper_Next_def)
  ultimately show ?thesis
    using SkipForward_place [of j bs idx "Suc m" ?it] b by simp
qed

lemma tl_Prev:
  assumes "tl_on es n it" and "n < length es"
  shows "\<exists>it'. TL_Prev vi vd bf it = Some it' \<and> tl_on es (if n = 0 then length es else n - 1) it'"
proof -
  obtain bs idx j m where b: "es = concat bs" "j < length bs" "m < length (bs ! j)" "n = before_block bs j + m" "in_block bs idx j m it"
    using assms by (auto simp: tl_on_def)
  then obtain d where d: "iw_iter (tl_data it) = Some d" "don (bs ! j) m d" by (auto simp: in_block_def data.won_def)
  let ?m = "if m = 0 then length (bs ! j) else m - 1"
  obtain d' where d': "vt_Prev vd d = Some d'" "don (bs ! j) ?m d'" using data.prev_on [OF d(2) b(3)] by blast
  let ?it = "it\<lparr>tl_data := Wrapper_Update vd d' (tl_data it)\<rparr>"
  have i: "in_block bs idx j ?m ?it"
    using b(2,5) holding_data [OF _ _ b(2) d'(2), of idx it] data.Update_on [OF d'(2)] by (simp add: in_block_def)
  have s: "TL_Prev vi vd bf it = TL_SkipBackward vi vd bf ?it"
    using d(1) d'(1) by (simp add: TL_Prev_def TL_on_data_def Wrapper_Prev_def)
  show ?thesis
  proof (cases "m = 0")
    case False
    then show ?thesis using Skip_in_block(2) [OF i] tl_onI [OF i] s b by simp
  next
    case True
    obtain it' where it': "TL_SkipBackward vi vd bf ?it = Some it'"
      "if j = 0 then past_end bs idx it' else in_block bs idx (j - 1) (length (bs ! (j - 1)) - 1) it'"
      using SkipBackward_block [of bs idx j ?it] i True by auto
    show ?thesis
    proof (cases j)
      case 0
      then show ?thesis using it' s tl_on_end True b by simp
    next
      case (Suc k)
      have lt: "k < length bs" using Suc b(2) by simp
      have "holding bs idx it" using b(5) by (simp add: in_block_def)
      then have "bs ! k \<noteq> []" using indexesD(2) [OF holding_indexes lt] by blast
      then have ne: "1 \<le> length (bs ! k)" by (simp add: Suc_le_eq)
      have "before_block bs k + (length (bs ! k) - 1) = n - 1" using before_block_Suc [OF lt] Suc True b(4) ne by simp
      moreover have "0 < n" using before_block_Suc [OF lt] Suc True b(4) ne by (cases n) auto
      ultimately show ?thesis using it' s Suc tl_onI [of bs idx k "length (bs ! k) - 1" it'] ne b(1) by simp
    qed
  qed
qed

lemma tl_on_holding: "tl_on es n it \<Longrightarrow> tl_opened es it \<and> n \<le> length es"
  by (auto simp: tl_on_def tl_opened_def in_block_def past_end_def split: if_splits)

lemma tl_status: "tl_opened es it \<Longrightarrow> TL_status vi vd it = Status_OK"
  using index.opened_status data.opened_status
  by (auto simp: tl_opened_def holding_def TL_status_def split: option.splits)

lemma two_level_ordered: "ordered_iterator (TwoLevel_Iter vi vd bf) valid cmp tl_opened tl_on"
proof
  fix es n it
  show "tl_on es n it \<Longrightarrow> tl_opened es it \<and> n \<le> length es" by (rule tl_on_holding)
  show "tl_on es n it \<Longrightarrow> vt_Valid (TwoLevel_Iter vi vd bf) it \<longleftrightarrow> n < length es"
    using in_block_Valid
    by (cases "n < length es") (auto simp: tl_on_def TwoLevel_Iter_def past_end_def holding_def)
  show "tl_on es n it \<Longrightarrow> n < length es \<Longrightarrow> vt_key (TwoLevel_Iter vi vd bf) it = fst (es ! n) \<and>
      vt_value (TwoLevel_Iter vi vd bf) it = Some (snd (es ! n))"
    using data.on_entry
    by (auto simp: tl_on_def TwoLevel_Iter_def in_block_def data.won_def Wrapper_value_def nth_block)
  show "tl_opened es it \<Longrightarrow> vt_status (TwoLevel_Iter vi vd bf) it = Status_OK"
    using tl_status by (simp add: TwoLevel_Iter_def)
qed (use tl_SeekToFirst tl_SeekToLast tl_Seek tl_Next tl_Prev in \<open>auto simp: TwoLevel_Iter_def\<close>)

lemma NewTwoLevelIterator_opened:
  assumes "serves arg bs idx" and "iopened idx i"
  shows "tl_opened (concat bs) (NewTwoLevelIterator vi i arg)"
proof -
  have "holding bs idx (NewTwoLevelIterator vi i arg)"
    using assms by (simp add: holding_def NewTwoLevelIterator_def Wrapper_Set_def Wrapper_Update_def IteratorWrapper_new_def)
  then show ?thesis by (auto simp: tl_opened_def)
qed

end

sublocale two_level \<subseteq> ordered_iterator "TwoLevel_Iter vi vd bf" valid cmp tl_opened tl_on
  by (rule two_level_ordered)

end
