(* ===== verification/Ldb_Table.thy ===== *)
theory Ldb_Table
  imports Ldb_Table_Builder Ldb_Two_Level
begin

text \<open>
  Reading a table (\<open>table/table.cc\<close>): opening it by its footer, its filter by the metaindex, one lookup,
  and the iterator over all its entries.  Blocks may be kept in a cache, given by its operations
  (\<open>include/leveldb/cache.h\<close>).
\<close>

section \<open>Tables\<close>

text \<open>What a table uses of a cache: the block found, if any, and the cache after each operation.\<close>

record 'c BlockCache =
  cache_Lookup :: "'c \<Rightarrow> slice \<Rightarrow> Block option \<times> 'c"
  cache_Insert :: "'c \<Rightarrow> slice \<Rightarrow> Block \<Rightarrow> 'c"
  cache_NewId :: "'c \<Rightarrow> u64 \<times> 'c"

record ReadOptions =
  ro_verify_checksums :: bool
  ro_fill_cache :: bool

record ('f, 'c) Table =
  tbl_file :: 'f
  tbl_cache :: 'c
  tbl_cache_id :: u64
  tbl_filter :: "FilterBlockReader option"
  tbl_metaindex_handle :: BlockHandle
  tbl_index_block :: Block

section \<open>Opening\<close>

text \<open>Errors are ignored: without a filter the table works as well.\<close>

definition ReadFilter :: "TableOptions \<Rightarrow> 'f random_read \<Rightarrow> slice \<Rightarrow> ('f, 'c) Table \<Rightarrow> ('f, 'c) Table option" where
  "ReadFilter options read filter_handle_value t =
     (case BlockHandle_DecodeFrom BlockHandle_new filter_handle_value of
        (s, filter_handle, _) \<Rightarrow>
          if \<not> Status_ok s then Some t
          else do {
            (s, block, file) \<leftarrow> ReadBlock read (op_paranoid_checks options) filter_handle (tbl_file t);
            let t = t\<lparr>tbl_file := file\<rparr>;
            if \<not> Status_ok s then Some t
            else do {
              reader \<leftarrow> FilterBlockReader_new (bc_data block);
              Some (t\<lparr>tbl_filter := Some reader\<rparr>) } })"

definition ReadMeta :: "TableOptions \<Rightarrow> 'f random_read \<Rightarrow> ('f, 'c) Table \<Rightarrow> ('f, 'c) Table option" where
  "ReadMeta options read t =
     (case op_filter_policy options of
        None \<Rightarrow> Some t
      | Some policy \<Rightarrow> do {
          (s, contents, file) \<leftarrow> ReadBlock read (op_paranoid_checks options) (tbl_metaindex_handle t) (tbl_file t);
          let t = t\<lparr>tbl_file := file\<rparr>;
          if \<not> Status_ok s then Some t
          else do {
            meta \<leftarrow> Block_new (bc_data contents);
            iter \<leftarrow> Block_NewIterator meta;
            let key = filter_key policy;
            iter \<leftarrow> vt_Seek (Block_Iter Slice_compare) key iter;
            if vt_Valid (Block_Iter Slice_compare) iter \<and> vt_key (Block_Iter Slice_compare) iter = key
            then do {
              value \<leftarrow> vt_value (Block_Iter Slice_compare) iter;
              ReadFilter options read value t }
            else Some t } })"

text \<open>The status, the table if it could be opened, and the file.\<close>

definition Table_Open :: "TableOptions \<Rightarrow> 'f random_read \<Rightarrow> 'c BlockCache option \<Rightarrow> 'f \<Rightarrow> u64 \<Rightarrow> 'c \<Rightarrow>
    (Status \<times> ('f, 'c) Table option) option" where
  "Table_Open options read cache file file_size c =
     (if file_size < of_nat kEncodedLength
      then Some (Corruption (bytes ''file is too short to be an sstable'') [], None)
      else do {
        (s, footer_input, _, file) \<leftarrow> read (file_size - of_nat kEncodedLength) (of_nat kEncodedLength) file;
        if \<not> Status_ok s then Some (s, None)
        else do {
          (s, footer, _) \<leftarrow> Footer_DecodeFrom \<lparr>ft_metaindex = BlockHandle_new, ft_index = BlockHandle_new\<rparr> footer_input;
          if \<not> Status_ok s then Some (s, None)
          else do {
            (s, contents, file) \<leftarrow> ReadBlock read (op_paranoid_checks options) (ft_index footer) file;
            if \<not> Status_ok s then Some (s, None)
            else do {
              index_block \<leftarrow> Block_new (bc_data contents);
              let (cache_id, c) = (case cache of None \<Rightarrow> (0, c) | Some ops \<Rightarrow> cache_NewId ops c);
              t \<leftarrow> ReadMeta options read
                \<lparr>tbl_file = file, tbl_cache = c, tbl_cache_id = cache_id, tbl_filter = None,
                 tbl_metaindex_handle = ft_metaindex footer, tbl_index_block = index_block\<rparr>;
              Some (s, Some t) } } } })"

section \<open>Blocks\<close>

definition cache_key :: "u64 \<Rightarrow> u64 \<Rightarrow> slice" where
  "cache_key cache_id start = EncodeFixed64 cache_id @ EncodeFixed64 start"

text \<open>Reads a block from the file; the block is \<open>None\<close> when that fails.\<close>

definition read_block :: "'f random_read \<Rightarrow> ReadOptions \<Rightarrow> BlockHandle \<Rightarrow> ('f, 'c) Table \<Rightarrow>
    (Status \<times> (BlockContents \<times> Block) option \<times> ('f, 'c) Table) option" where
  "read_block read ro handle t = do {
     (s, contents, file) \<leftarrow> ReadBlock read (ro_verify_checksums ro) handle (tbl_file t);
     let t = t\<lparr>tbl_file := file\<rparr>;
     if \<not> Status_ok s then Some (s, None, t)
     else do { block \<leftarrow> Block_new (bc_data contents); Some (s, Some (contents, block), t) } }"

text \<open>Converts the value of an index entry into an iterator over the block.\<close>

definition BlockReader :: "'f random_read \<Rightarrow> 'c BlockCache option \<Rightarrow> ReadOptions \<Rightarrow> ('f, 'c) Table \<Rightarrow> slice \<Rightarrow>
    (new_iterator \<times> ('f, 'c) Table) option" where
  "BlockReader read cache ro t index_value =
     (case BlockHandle_DecodeFrom BlockHandle_new index_value of
        (s, handle, _) \<Rightarrow> do {
          (s, block, t) \<leftarrow>
            (if \<not> Status_ok s then Some (s, None, t)
             else case cache of
                    Some ops \<Rightarrow>
                      (let key = cache_key (tbl_cache_id t) (bh_offset handle);
                           (cached, c) = cache_Lookup ops (tbl_cache t) key;
                           t = t\<lparr>tbl_cache := c\<rparr>
                       in case cached of
                            Some block \<Rightarrow> Some (s, Some block, t)
                          | None \<Rightarrow> do {
                              (s, result, t) \<leftarrow> read_block read ro handle t;
                              case result of
                                None \<Rightarrow> Some (s, None, t)
                              | Some (contents, block) \<Rightarrow>
                                  Some (s, Some block,
                                    if bc_cachable contents \<and> ro_fill_cache ro
                                    then t\<lparr>tbl_cache := cache_Insert ops (tbl_cache t) key block\<rparr> else t) })
                  | None \<Rightarrow> do {
                      (s, result, t) \<leftarrow> read_block read ro handle t;
                      Some (s, map_option snd result, t) });
          case block of
            Some b \<Rightarrow> do { iter \<leftarrow> Block_NewIterator b; Some (iter, t) }
          | None \<Rightarrow> Some (Error_iterator s, t) })"

type_synonym ('f, 'c) table_iterator = "(new_iterator, new_iterator, ('f, 'c) Table) TwoLevelIterator"

definition Table_Iter :: "TableOptions \<Rightarrow> 'f random_read \<Rightarrow> 'c BlockCache option \<Rightarrow> ReadOptions \<Rightarrow>
    ('f, 'c) table_iterator Iterator" where
  "Table_Iter options read cache ro =
     TwoLevel_Iter (Block_Iter (op_Compare options)) (Block_Iter (op_Compare options)) (BlockReader read cache ro)"

definition Table_NewIterator :: "TableOptions \<Rightarrow> ('f, 'c) Table \<Rightarrow> ('f, 'c) table_iterator option" where
  "Table_NewIterator options t =
     map_option (\<lambda>i. NewTwoLevelIterator (Block_Iter (op_Compare options)) i t) (Block_NewIterator (tbl_index_block t))"

section \<open>One lookup\<close>

text \<open>The filter says that the block cannot hold the key.\<close>

definition filter_rejects :: "TableOptions \<Rightarrow> ('f, 'c) Table \<Rightarrow> slice \<Rightarrow> slice \<Rightarrow> bool option" where
  "filter_rejects options t handle_value k =
     (case (tbl_filter t, op_filter_policy options) of
        (Some reader, Some policy) \<Rightarrow>
          (case BlockHandle_DecodeFrom BlockHandle_new handle_value of
             (s, handle, _) \<Rightarrow>
               if Status_ok s then map_option Not (FilterBlock_KeyMayMatch policy reader (bh_offset handle) k)
               else Some False)
      | _ \<Rightarrow> Some False)"

text \<open>The status, and the key and value that \<open>handle_result\<close> is called with, if it is.\<close>

definition InternalGet :: "TableOptions \<Rightarrow> 'f random_read \<Rightarrow> 'c BlockCache option \<Rightarrow> ReadOptions \<Rightarrow> slice \<Rightarrow>
    ('f, 'c) Table \<Rightarrow> (Status \<times> (slice \<times> slice) option \<times> ('f, 'c) Table) option" where
  "InternalGet options read cache ro k t = do {
     let vt = Block_Iter (op_Compare options);
     iiter \<leftarrow> Block_NewIterator (tbl_index_block t);
     iiter \<leftarrow> vt_Seek vt k iiter;
     (s, result, t) \<leftarrow>
       (if vt_Valid vt iiter
        then do {
          handle_value \<leftarrow> vt_value vt iiter;
          rejected \<leftarrow> filter_rejects options t handle_value k;
          if rejected then Some (Status_OK, None, t)
          else do {
            (block_iter, t) \<leftarrow> BlockReader read cache ro t handle_value;
            block_iter \<leftarrow> vt_Seek vt k block_iter;
            result \<leftarrow> (if vt_Valid vt block_iter
                       then do { v \<leftarrow> vt_value vt block_iter; Some (Some (vt_key vt block_iter, v)) }
                       else Some None);
            Some (vt_status vt block_iter, result, t) } }
        else Some (Status_OK, None, t));
     Some (if Status_ok s then vt_status vt iiter else s, result, t) }"

definition ApproximateOffsetOf :: "TableOptions \<Rightarrow> slice \<Rightarrow> ('f, 'c) Table \<Rightarrow> u64 option" where
  "ApproximateOffsetOf options key t = do {
     let vt = Block_Iter (op_Compare options);
     index_iter \<leftarrow> Block_NewIterator (tbl_index_block t);
     index_iter \<leftarrow> vt_Seek vt key index_iter;
     if vt_Valid vt index_iter
     then do {
       input \<leftarrow> vt_value vt index_iter;
       let (s, handle, _) = BlockHandle_DecodeFrom BlockHandle_new input;
       Some (if Status_ok s then bh_offset handle else bh_offset (tbl_metaindex_handle t)) }
     else Some (bh_offset (tbl_metaindex_handle t)) }"

end
