(* ===== verification/Ldb_Table_Layout.thy ===== *)
theory Ldb_Table_Layout
  imports Ldb_Table_Builder
begin

text \<open>
  The bytes of a table: when every write succeeds, the builder leaves the data blocks, the filter, the
  metaindex, the index and the footer, whatever the sizes at which it cuts the blocks.
\<close>

section \<open>The contract of the options\<close>

text \<open>
  \<open>same\<close> is what a filter cannot tell apart.  A target between the last key of a block and its separator
  from the next block is not the same as the first key of the next block.
\<close>

locale table_options =
  comparator valid "op_Compare options" "op_FindShortestSeparator options" "op_FindShortSuccessor options"
  for options :: TableOptions and valid :: "slice \<Rightarrow> bool" +
  fixes ok :: "slice list \<Rightarrow> bool"
    and same :: "slice \<Rightarrow> slice \<Rightarrow> bool"
  assumes interval_pos: "0 < op_restart_interval options"
    and filter_policy_ok: "op_filter_policy options = Some policy \<Longrightarrow> matching_policy ok policy same"
    and gap: "valid a \<Longrightarrow> valid b \<Longrightarrow> valid t \<Longrightarrow> op_Compare options a t < 0 \<Longrightarrow>
      op_Compare options t (op_FindShortestSeparator options a b) \<le> 0 \<Longrightarrow> op_Compare options a b < 0 \<Longrightarrow> \<not> same b t"
begin

abbreviation "iv \<equiv> op_restart_interval options"

text \<open>What the builder leaves when all goes well.\<close>

definition laid_out :: "entries \<Rightarrow> slice \<Rightarrow> bool" where
  "laid_out es file_bytes \<longleftrightarrow> (\<exists>bs fb. concat bs = es \<and> [] \<notin> set bs \<and> file_bytes = table_bytes options bs fb \<and>
     (\<forall>policy. op_filter_policy options = Some policy \<longrightarrow>
       (\<exists>now b. matching_policy.filter_holds policy (filter_keys iv bs) now b \<and> fb = fst (FilterBlock_Finish policy b))))"

end

locale table_writer = table_options options valid ok same + writable_file fappend fflush contents disk
  for options :: TableOptions and valid :: "slice \<Rightarrow> bool" and ok :: "slice list \<Rightarrow> bool"
    and same :: "slice \<Rightarrow> slice \<Rightarrow> bool"
    and fappend :: "slice \<Rightarrow> 'f \<Rightarrow> (Status \<times> 'f) option" and fflush :: "'f \<Rightarrow> (Status \<times> 'f) option"
    and contents :: "'f \<Rightarrow> slice" and disk :: "'f \<Rightarrow> slice"
begin

section \<open>Writing one block\<close>

lemma WriteRawBlock_ok:
  assumes "WriteRawBlock fappend data kNoCompression r = Some (h, r')" and "TableBuilder_ok r'"
  shows "h = \<lparr>bh_offset = tb_offset r, bh_size = of_nat (length data)\<rparr> \<and>
    (\<exists>f. contents f = contents (tb_file r) @ stored data \<and>
      r' = r\<lparr>tb_status := Status_OK, tb_file := f, tb_offset := tb_offset r + of_nat (length data + 5)\<rparr>)"
proof -
  obtain s f where f: "fappend data (tb_file r) = Some (s, f)"
    using assms(1) by (auto simp: WriteRawBlock_def Let_def split: Option.bind_splits)
  have s: "s = Status_OK"
  proof (rule ccontr)
    assume "s \<noteq> Status_OK"
    then have "r' = r\<lparr>tb_status := s, tb_file := f\<rparr>" using assms(1) f
      by (simp add: WriteRawBlock_def Let_def Status_ok_def Status_OK_def)
    then show False using assms(2) \<open>s \<noteq> Status_OK\<close> by (simp add: TableBuilder_ok_def Status_ok_def Status_OK_def)
  qed
  define trailer where "trailer = (0 :: u8) # EncodeFixed32 (crc32c_Mask (crc32c_Extend (crc32c_Value data) [0]))"
  have st: "data @ trailer = stored data"
    by (simp add: trailer_def stored_def crc32c_Value_def crc32c_Extend_eq crc32c_append)
  obtain s' g where g: "fappend trailer f = Some (s', g)"
    using assms(1) f s by (auto simp: WriteRawBlock_def Let_def trailer_def split: Option.bind_splits)
  have s': "s' = Status_OK"
  proof (rule ccontr)
    assume "s' \<noteq> Status_OK"
    then have "r' = r\<lparr>tb_status := s', tb_file := g\<rparr>" using assms(1) f g s
      by (simp add: WriteRawBlock_def Let_def trailer_def Status_ok_def Status_OK_def)
    then show False using assms(2) \<open>s' \<noteq> Status_OK\<close> by (simp add: TableBuilder_ok_def Status_ok_def Status_OK_def)
  qed
  have "contents g = contents (tb_file r) @ stored data"
    using append_ok [of data "tb_file r" f] append_ok [of trailer f g] f g s s' st by simp
  then show ?thesis
    using assms(1) f g s s' by (auto simp: WriteRawBlock_def Let_def trailer_def kBlockTrailerSize_def)
qed

lemma WriteBlock_ok:
  assumes "WriteBlock options fappend block r = Some (h, block', r')" and "TableBuilder_ok r'"
    and "fst (BlockBuilder_Finish block) = data"
  shows "h = \<lparr>bh_offset = tb_offset r, bh_size = of_nat (length data)\<rparr> \<and> block' = BlockBuilder_Reset \<and>
    (\<exists>f. contents f = contents (tb_file r) @ stored data \<and>
      r' = r\<lparr>tb_status := Status_OK, tb_file := f, tb_offset := tb_offset r + of_nat (length data + 5)\<rparr>)"
proof -
  have "WriteBlock options fappend block r =
      WriteRawBlock fappend data kNoCompression r \<bind> (\<lambda>(handle, r). Some (handle, BlockBuilder_Reset, r))"
    using assms(3) by (simp add: WriteBlock_def Let_def Snappy_Compress_def split: CompressionType.split)
  then obtain r1 where "WriteRawBlock fappend data kNoCompression r = Some (h, r1)" "r1 = r'" "block' = BlockBuilder_Reset"
    using assms(1) by (auto split: Option.bind_splits)
  then show ?thesis using WriteRawBlock_ok assms(2) by auto
qed

section \<open>Adding\<close>

text \<open>The filter is given the offsets in 64 bits.\<close>

definition offsets_fit :: "'f \<Rightarrow> bool" where
  "offsets_fit f \<longleftrightarrow> op_filter_policy options = None \<or> length (contents f) < 2 ^ 64"

lemma offsets_fit_prefix: "offsets_fit g \<Longrightarrow> prefix (contents f) (contents g) \<Longrightarrow> offsets_fit f"
  by (auto simp: offsets_fit_def dest: prefix_length_le)

definition filtering :: "(nat \<times> slice) list \<Rightarrow> nat \<Rightarrow> 'f TableBuilder \<Rightarrow> bool" where
  "filtering rs now r \<longleftrightarrow> (case op_filter_policy options of
     None \<Rightarrow> tb_filter_block r = None
   | Some policy \<Rightarrow> \<exists>fb. tb_filter_block r = Some fb \<and> matching_policy.filter_holds policy rs now fb)"

text \<open>The blocks \<open>bs\<close> have been written and \<open>cur\<close> is being collected.\<close>

definition built :: "entries list \<Rightarrow> entries \<Rightarrow> 'f TableBuilder \<Rightarrow> bool" where
  "built bs cur r \<longleftrightarrow> tb_status r = Status_OK \<and> contents (tb_file r) = data_part iv bs \<and>
     tb_offset r = of_nat (length (data_part iv bs)) \<and> tb_data_block r = add_all iv cur \<and> [] \<notin> set bs \<and>
     filtering (filter_keys iv bs @ map (\<lambda>e. (length (data_part iv bs), fst e)) cur) (length (data_part iv bs)) r \<and>
     (if tb_pending_index_entry r
      then cur = [] \<and> bs \<noteq> [] \<and> tb_index_block r = add_all 1 (index_entries options bs (length bs - 1)) \<and>
        tb_pending_handle r = block_handle iv bs (length bs - 1) \<and> tb_last_key r = fst (last (last bs))
      else (cur = [] \<longrightarrow> bs = []) \<and> tb_index_block r = add_all 1 (index_entries options (bs @ [cur]) (length bs)) \<and>
        (cur \<noteq> [] \<longrightarrow> tb_last_key r = fst (last cur)))"

lemma filtering_cong: "tb_filter_block r' = tb_filter_block r \<Longrightarrow> filtering rs now r' = filtering rs now r"
  by (simp add: filtering_def split: option.split)

lemma filtering_StartBlock:
  assumes "filtering rs now r" and "now \<le> n" and "op_filter_policy options = None \<or> n < 2 ^ 64"
  shows "filtering rs n (on_filter options (\<lambda>policy. FilterBlock_StartBlock policy (of_nat n)) r)"
  using assms matching_policy.filter_holds_StartBlock [OF filter_policy_ok]
  by (auto simp: filtering_def on_filter_def split: option.splits)

lemma filtering_AddKey:
  "filtering rs now r \<Longrightarrow> filtering (rs @ [(now, k)]) now (on_filter options (\<lambda>policy. FilterBlock_AddKey k) r)"
  using matching_policy.filter_holds_AddKey [OF filter_policy_ok]
  by (auto simp: filtering_def on_filter_def split: option.splits)

lemma on_filter_simps [simp]:
  "tb_file (on_filter options f r) = tb_file r" "tb_offset (on_filter options f r) = tb_offset r"
  "tb_status (on_filter options f r) = tb_status r" "tb_data_block (on_filter options f r) = tb_data_block r"
  "tb_index_block (on_filter options f r) = tb_index_block r" "tb_last_key (on_filter options f r) = tb_last_key r"
  "tb_pending_index_entry (on_filter options f r) = tb_pending_index_entry r"
  "tb_pending_handle (on_filter options f r) = tb_pending_handle r"
  "tb_num_entries (on_filter options f r) = tb_num_entries r"
  by (simp_all add: on_filter_def split: option.split)

lemma built_new: "contents f = [] \<Longrightarrow> built [] [] (TableBuilder_new options f)"
  using matching_policy.filter_holds_new [OF filter_policy_ok]
  by (auto simp: built_def TableBuilder_new_def filtering_def data_part_def filter_keys_def add_all_def index_entries_def
      on_filter_def split: option.splits)

lemma build_snoc: "add_all n (es @ [(k, v)]) = BlockBuilder_Add n k v (add_all n es)"
  by (simp add: add_all_def)

lemma build_empty_buffer: "bb_buffer (add_all iv cur) = [] \<longleftrightarrow> cur = []"
proof -
  have "0 < length cur \<Longrightarrow> 0 < off iv cur (length cur)" using off_less [of 0 "length cur" iv cur] by simp
  then show ?thesis using build_form [OF interval_pos, of cur] by (auto simp: off_def cells_def)
qed

lemma Flush_built:
  assumes "built bs cur r" and "cur \<noteq> []" and "TableBuilder_Flush options fappend fflush r = Some r'" and "TableBuilder_ok r'"
    and "offsets_fit (tb_file r')"
  shows "built (bs @ [cur]) [] r'"
proof -
  have b: "tb_status r = Status_OK" "contents (tb_file r) = data_part iv bs" "tb_offset r = of_nat (length (data_part iv bs))"
    "tb_data_block r = add_all iv cur" "\<not> tb_pending_index_entry r"
    "tb_index_block r = add_all 1 (index_entries options (bs @ [cur]) (length bs))" "tb_last_key r = fst (last cur)"
    "filtering (filter_keys iv bs @ map (\<lambda>e. (length (data_part iv bs), fst e)) cur) (length (data_part iv bs)) r"
    "[] \<notin> set bs"
    using assms(1,2) by (auto simp: built_def split: if_splits)
  have "TableBuilder_ok r" "bb_buffer (tb_data_block r) \<noteq> []" using b(1,4) assms(2) build_empty_buffer by (simp_all add: TableBuilder_ok_def)
  then obtain h block r1 where w: "WriteBlock options fappend (add_all iv cur) r = Some (h, block, r1)"
    using assms(3) b(4) by (auto simp: TableBuilder_Flush_def split: Option.bind_splits)
  have r': "(if TableBuilder_ok r1
      then do { (s, file) \<leftarrow> fflush (tb_file r1);
             Some (r1\<lparr>tb_data_block := block, tb_pending_handle := h, tb_pending_index_entry := True, tb_status := s, tb_file := file\<rparr>) }
      else Some (r1\<lparr>tb_data_block := block, tb_pending_handle := h\<rparr>)) \<bind>
      (\<lambda>r. Some (on_filter options (\<lambda>policy. FilterBlock_StartBlock policy (tb_offset r)) r)) = Some r'"
    using assms(3) w b(4) \<open>TableBuilder_ok r\<close> \<open>bb_buffer (tb_data_block r) \<noteq> []\<close>
    by (cases "TableBuilder_ok r1") (simp_all add: TableBuilder_Flush_def Let_def TableBuilder_ok_def)
  have ok1: "TableBuilder_ok r1" using r' assms(4) by (auto simp: TableBuilder_ok_def split: if_splits)
  let ?d = "built_block iv cur"
  obtain f where f: "h = \<lparr>bh_offset = tb_offset r, bh_size = of_nat (length ?d)\<rparr>" "block = BlockBuilder_Reset"
    "contents f = contents (tb_file r) @ stored ?d"
    "r1 = r\<lparr>tb_status := Status_OK, tb_file := f, tb_offset := tb_offset r + of_nat (length ?d + 5)\<rparr>"
    using WriteBlock_ok [OF w ok1 built_block_def [symmetric]] by blast
  obtain s g where g: "fflush f = Some (s, g)" using r' ok1 f(4) by (auto split: Option.bind_splits)
  let ?r2 = "r1\<lparr>tb_data_block := block, tb_pending_handle := h, tb_pending_index_entry := True, tb_status := s, tb_file := g\<rparr>"
  have r2: "r' = on_filter options (\<lambda>policy. FilterBlock_StartBlock policy (tb_offset ?r2)) ?r2"
    using r' ok1 g f(4) by simp
  then have s: "s = Status_OK" using assms(4) by (simp add: TableBuilder_ok_def Status_ok_def Status_OK_def)
  have c: "contents g = data_part iv (bs @ [cur])"
    using flush_ok [of f g] g s f(3) b(2) by (simp add: data_part_snoc)
  let ?n = "length (data_part iv (bs @ [cur]))"
  have n: "tb_offset ?r2 = of_nat ?n" using b(3) f(4) by (simp add: data_part_snoc)
  have "op_filter_policy options = None \<or> ?n < 2 ^ 64" using assms(5) c r2 by (simp add: offsets_fit_def)
  moreover have "filtering (filter_keys iv (bs @ [cur])) (length (data_part iv bs)) ?r2"
    using b(8) f(4) filtering_cong [of ?r2 r] by (simp add: filter_keys_snoc)
  ultimately have fil: "filtering (filter_keys iv (bs @ [cur])) ?n r'"
    using filtering_StartBlock [of _ "length (data_part iv bs)" ?r2 ?n] unfolding r2 n by (simp add: data_part_snoc)
  have h: "h = block_handle iv (bs @ [cur]) (length bs)"
    by (simp add: f(1) b(3) block_handle_def handle_of_def block_start_def)
  have [simp]: "add_all iv [] = BlockBuilder_Reset" by (simp add: add_all_def)
  show ?thesis
    unfolding built_def
    using fil c r2 n s b(6,7,9) f(2,4) h assms(2) by simp
qed

lemma Add_built:
  assumes "built bs cur r" and "TableBuilder_Add options fappend fflush k v r = Some r'" and "TableBuilder_ok r'"
    and "offsets_fit (tb_file r')"
  shows "\<exists>bs' cur'. built bs' cur' r' \<and> concat bs' @ cur' = concat bs @ cur @ [(k, v)]"
proof -
  have ok: "TableBuilder_ok r" using assms(1) by (simp add: built_def TableBuilder_ok_def)
  define r1 where "r1 = (if tb_pending_index_entry r
    then add_index_entry (op_FindShortestSeparator options (tb_last_key r) k) r else r)"
  define r2 where "r2 = (on_filter options (\<lambda>policy. FilterBlock_AddKey k) r1)\<lparr>tb_last_key := k, tb_num_entries := tb_num_entries r1 + 1,
    tb_data_block := BlockBuilder_Add iv k v (tb_data_block r1)\<rparr>"
  have same: "tb_status r1 = tb_status r" "tb_file r1 = tb_file r" "tb_offset r1 = tb_offset r" "tb_data_block r1 = tb_data_block r"
    "tb_filter_block r1 = tb_filter_block r" "\<not> tb_pending_index_entry r1"
    by (simp_all add: r1_def add_index_entry_def)
  have index: "tb_index_block r1 = add_all 1 (index_entries options (bs @ [cur @ [(k, v)]]) (length bs))"
  proof (cases "tb_pending_index_entry r")
    case True
    then have p: "cur = []" "bs \<noteq> []" "tb_index_block r = add_all 1 (index_entries options bs (length bs - 1))"
      "tb_pending_handle r = block_handle iv bs (length bs - 1)" "tb_last_key r = fst (last (last bs))"
      using assms(1) by (simp_all add: built_def)
    obtain m where m: "length bs = Suc m" using p(2) by (cases bs) auto
    have "index_entries options (bs @ [[(k, v)]]) (Suc m) = index_entries options bs m @
        [(op_FindShortestSeparator options (tb_last_key r) k, handle_bytes (tb_pending_handle r))]"
      using index_entries_snoc [of m bs "[[(k, v)]]" "[]" options] m p(2,4,5)
      by (simp add: index_entries_Suc index_key_def nth_append last_conv_nth)
    then show ?thesis using True p(1,3) m by (simp add: r1_def add_index_entry_def build_snoc handle_bytes_def)
  next
    case False
    then have "tb_index_block r = add_all 1 (index_entries options (bs @ [cur]) (length bs))" "cur = [] \<longrightarrow> bs = []"
      using assms(1) by (simp_all add: built_def)
    moreover have "index_entries options (bs @ [cur]) (length bs) = index_entries options (bs @ [cur @ [(k, v)]]) (length bs)"
      if "cur \<noteq> []" using that by (intro index_entries_snoc) simp_all
    moreover have "index_entries options xs 0 = []" for xs by (simp add: index_entries_def)
    ultimately show ?thesis using False by (cases "cur = []") (simp_all add: r1_def)
  qed
  have built2: "built bs (cur @ [(k, v)]) r2"
  proof -
    have "filtering (filter_keys iv bs @ map (\<lambda>e. (length (data_part iv bs), fst e)) cur) (length (data_part iv bs)) r1"
      by (subst filtering_cong [OF same(5)]) (use assms(1) in \<open>simp add: built_def\<close>)
    from filtering_AddKey [OF this, of k]
    have "filtering (filter_keys iv bs @ map (\<lambda>e. (length (data_part iv bs), fst e)) (cur @ [(k, v)])) (length (data_part iv bs)) r2"
      by (subst filtering_cong [of r2 "on_filter options (\<lambda>policy. FilterBlock_AddKey k) r1"]) (simp_all add: r2_def)
    moreover have "tb_status r = Status_OK" "contents (tb_file r) = data_part iv bs"
      "tb_offset r = of_nat (length (data_part iv bs))" "tb_data_block r = add_all iv cur" "[] \<notin> set bs"
      using assms(1) by (simp_all add: built_def)
    ultimately show ?thesis using same index by (simp add: built_def [of bs "cur @ [(k, v)]"] r2_def build_snoc)
  qed
  have A: "TableBuilder_Add options fappend fflush k v r =
      (if op_block_size options \<le> CurrentSizeEstimate (tb_data_block r2)
       then TableBuilder_Flush options fappend fflush r2 else Some r2)"
    using ok by (simp add: TableBuilder_Add_def Let_def r1_def r2_def)
  show ?thesis
  proof (cases "op_block_size options \<le> CurrentSizeEstimate (tb_data_block r2)")
    case True
    then have "built (bs @ [cur @ [(k, v)]]) [] r'"
      using Flush_built [OF built2 _ _ assms(3,4)] A assms(2) by simp
    then show ?thesis by (intro exI [of _ "bs @ [cur @ [(k, v)]]"] exI [of _ "[]"]) simp
  next
    case False
    then show ?thesis using built2 A assms(2) by (intro exI [of _ bs] exI [of _ "cur @ [(k, v)]"]) simp
  qed
qed

section \<open>Finishing\<close>

lemma Finish_filter_ok:
  assumes "Finish_filter options fappend r = Some (h, r')" and "TableBuilder_ok r'" and "filtering rs now r"
    and "tb_offset r = of_nat (length (contents (tb_file r)))"
  shows "TableBuilder_ok r \<and> (\<exists>fb f. (\<forall>policy. op_filter_policy options = Some policy \<longrightarrow>
        h = handle_of (length (contents (tb_file r))) (length fb) \<and>
        (\<exists>b. matching_policy.filter_holds policy rs now b \<and> fb = fst (FilterBlock_Finish policy b))) \<and>
      contents f = contents (tb_file r) @ filter_part options fb \<and>
      tb_offset r' = of_nat (length (contents f)) \<and> tb_file r' = f \<and>
      tb_pending_index_entry r' = tb_pending_index_entry r \<and> tb_last_key r' = tb_last_key r \<and>
      tb_index_block r' = tb_index_block r \<and> tb_pending_handle r' = tb_pending_handle r)"
proof (cases "op_filter_policy options")
  case None
  then have "r' = r" using assms(1) by (simp add: Finish_filter_def)
  then show ?thesis using assms(2,4) None by (auto simp: filter_part_def)
next
  case (Some policy)
  then obtain b where b: "tb_filter_block r = Some b" "matching_policy.filter_holds policy rs now b"
    using assms(3) by (auto simp: filtering_def)
  have ok: "TableBuilder_ok r"
  proof (rule ccontr)
    assume "\<not> TableBuilder_ok r"
    then have "r' = r" using assms(1) Some b(1) by (simp add: Finish_filter_def)
    then show False using assms(2) \<open>\<not> TableBuilder_ok r\<close> by simp
  qed
  obtain fb b' where F: "FilterBlock_Finish policy b = (fb, b')" by (cases "FilterBlock_Finish policy b")
  then have w: "WriteRawBlock fappend fb kNoCompression (r\<lparr>tb_filter_block := Some b'\<rparr>) = Some (h, r')"
    using assms(1) Some b(1) ok by (simp add: Finish_filter_def)
  from WriteRawBlock_ok [OF w assms(2)] show ?thesis
    using Some b(2) F assms(4) ok by (auto simp: filter_part_def handle_of_def intro!: exI [of _ fb])
qed

lemma Finish_metaindex_ok:
  assumes "Finish_metaindex options fappend fh r = Some (h, r')" and "TableBuilder_ok r'"
    and "op_filter_policy options \<noteq> None \<Longrightarrow> fh = handle_of (length (data_part iv bs)) (length fb)"
    and "tb_offset r = of_nat (length (contents (tb_file r)))"
  shows "TableBuilder_ok r \<and> h = handle_of (length (contents (tb_file r))) (length (meta_block options bs fb)) \<and>
    (\<exists>f. contents f = contents (tb_file r) @ stored (meta_block options bs fb) \<and>
      r' = r\<lparr>tb_status := Status_OK, tb_file := f, tb_offset := of_nat (length (contents f))\<rparr>)"
proof -
  have ok: "TableBuilder_ok r"
  proof (rule ccontr)
    assume "\<not> TableBuilder_ok r"
    then have "r' = r" using assms(1) by (simp add: Finish_metaindex_def)
    then show False using assms(2) \<open>\<not> TableBuilder_ok r\<close> by simp
  qed
  have m: "(case op_filter_policy options of None \<Rightarrow> BlockBuilder_Reset
      | Some policy \<Rightarrow> BlockBuilder_Add iv (filter_key policy) (BlockHandle_EncodeTo fh []) BlockBuilder_Reset) =
      add_all iv (meta_entries options bs fb)"
    using assms(3) by (auto simp: add_all_def meta_entries_def handle_bytes_def split: option.split)
  obtain block r1 where w: "WriteBlock options fappend (add_all iv (meta_entries options bs fb)) r = Some (h, block, r1)" "r1 = r'"
    using assms(1) ok unfolding Finish_metaindex_def m by (auto split: Option.bind_splits)
  have "fst (BlockBuilder_Finish (add_all iv (meta_entries options bs fb))) = meta_block options bs fb"
    by (simp add: meta_block_def built_block_def)
  from WriteBlock_ok [OF w(1) _ this] w(2) assms(2,4) ok show ?thesis by (auto simp: handle_of_def)
qed

lemma Finish_index_ok:
  assumes "Finish_index options fappend r = Some (h, r')" and "TableBuilder_ok r'"
    and "tb_offset r = of_nat (length (contents (tb_file r)))"
    and "if tb_pending_index_entry r
      then bs \<noteq> [] \<and> tb_index_block r = add_all 1 (index_entries options bs (length bs - 1)) \<and>
        tb_pending_handle r = block_handle iv bs (length bs - 1) \<and> tb_last_key r = fst (last (last bs))
      else bs = [] \<and> tb_index_block r = add_all 1 []"
  shows "TableBuilder_ok r \<and> h = handle_of (length (contents (tb_file r))) (length (index_block options bs)) \<and>
    (\<exists>f. contents f = contents (tb_file r) @ stored (index_block options bs) \<and> tb_file r' = f \<and>
      tb_offset r' = of_nat (length (contents f)))"
proof -
  have ok: "TableBuilder_ok r"
  proof (rule ccontr)
    assume "\<not> TableBuilder_ok r"
    then have "r' = r" using assms(1) by (simp add: Finish_index_def)
    then show False using assms(2) \<open>\<not> TableBuilder_ok r\<close> by simp
  qed
  define r1 where "r1 = (if tb_pending_index_entry r
    then add_index_entry (op_FindShortSuccessor options (tb_last_key r)) r else r)"
  have r1: "tb_file r1 = tb_file r" "tb_offset r1 = tb_offset r" by (simp_all add: r1_def add_index_entry_def)
  have i: "tb_index_block r1 = add_all 1 (index_entries options bs (length bs))"
  proof (cases "tb_pending_index_entry r")
    case True
    then obtain m where m: "length bs = Suc m" using assms(4) by (cases bs) auto
    then have "last bs = bs ! m" by (cases bs rule: rev_cases) (simp_all add: nth_append)
    then show ?thesis
      using True assms(4) m by (simp add: r1_def add_index_entry_def index_entries_Suc index_key_def build_snoc handle_bytes_def)
  next
    case False
    then show ?thesis using assms(4) by (simp add: r1_def index_entries_def)
  qed
  obtain block r2 where w: "WriteBlock options fappend (tb_index_block r1) r1 = Some (h, block, r2)"
    "r' = r2\<lparr>tb_index_block := block\<rparr>"
    using assms(1) ok by (auto simp: Finish_index_def Let_def r1_def [symmetric] split: Option.bind_splits)
  have "fst (BlockBuilder_Finish (tb_index_block r1)) = index_block options bs"
    by (simp add: i index_block_def built_block_def)
  from WriteBlock_ok [OF w(1) _ this] w(2) assms(2,3) ok r1 show ?thesis
    by (auto simp: handle_of_def TableBuilder_ok_def)
qed

lemma Finish_footer_ok:
  assumes "Finish_footer fappend mh ih r = Some (Status_OK, r')" and "tb_offset r = of_nat (length (contents (tb_file r)))"
  shows "TableBuilder_ok r \<and>
    contents (tb_file r') = contents (tb_file r) @ Footer_EncodeTo \<lparr>ft_metaindex = mh, ft_index = ih\<rparr> [] \<and>
    tb_offset r' = of_nat (length (contents (tb_file r')))"
proof -
  have "TableBuilder_ok r"
    using assms(1) by (auto simp: Finish_footer_def TableBuilder_ok_def split: if_splits)
  then show ?thesis
    using assms append_ok by (auto simp: Finish_footer_def Let_def split: Option.bind_splits)
qed

text \<open>No step takes away from the file, and none after a failure succeeds.\<close>

lemma WriteBlock_grows:
  "WriteBlock options fappend block r = Some (h, block', r') \<Longrightarrow> TableBuilder_ok r' \<Longrightarrow>
    prefix (contents (tb_file r)) (contents (tb_file r'))"
  using WriteBlock_ok [of block r h block' r'] by auto

lemma Finish_grows:
  "Finish_filter options fappend r = Some (h, r') \<Longrightarrow> TableBuilder_ok r' \<Longrightarrow>
    TableBuilder_ok r \<and> prefix (contents (tb_file r)) (contents (tb_file r'))"
  "Finish_metaindex options fappend fh r = Some (h, r') \<Longrightarrow> TableBuilder_ok r' \<Longrightarrow>
    TableBuilder_ok r \<and> prefix (contents (tb_file r)) (contents (tb_file r'))"
  "Finish_index options fappend r = Some (h, r') \<Longrightarrow> TableBuilder_ok r' \<Longrightarrow>
    TableBuilder_ok r \<and> prefix (contents (tb_file r)) (contents (tb_file r'))"
  "Finish_footer fappend mh ih r = Some (Status_OK, r'') \<Longrightarrow>
    TableBuilder_ok r \<and> prefix (contents (tb_file r)) (contents (tb_file r''))"
proof -
  assume a: "Finish_filter options fappend r = Some (h, r')" "TableBuilder_ok r'"
  then show "TableBuilder_ok r \<and> prefix (contents (tb_file r)) (contents (tb_file r'))"
  proof (cases "op_filter_policy options \<noteq> None \<and> tb_filter_block r \<noteq> None \<and> TableBuilder_ok r")
    case True
    then obtain data b where "WriteRawBlock fappend data kNoCompression (r\<lparr>tb_filter_block := Some b\<rparr>) = Some (h, r')"
      using a(1) by (auto simp: Finish_filter_def split: prod.splits)
    from WriteRawBlock_ok [OF this a(2)] True show ?thesis by auto
  next
    case False
    then have "r' = r" using a(1) by (auto simp: Finish_filter_def split: option.splits if_splits)
    then show ?thesis using a(2) by simp
  qed
next
  assume "Finish_metaindex options fappend fh r = Some (h, r')" "TableBuilder_ok r'"
  then show "TableBuilder_ok r \<and> prefix (contents (tb_file r)) (contents (tb_file r'))"
    using WriteBlock_grows by (fastforce simp: Finish_metaindex_def split: if_splits Option.bind_splits)
next
  assume a: "Finish_index options fappend r = Some (h, r')" "TableBuilder_ok r'"
  have e: "tb_file (if tb_pending_index_entry r then add_index_entry k r else r) = tb_file r" for k
    by (simp add: add_index_entry_def)
  have ok: "TableBuilder_ok r" using a by (auto simp: Finish_index_def split: if_splits)
  then obtain block r1 k where "WriteBlock options fappend (tb_index_block (if tb_pending_index_entry r then add_index_entry k r else r))
      (if tb_pending_index_entry r then add_index_entry k r else r) = Some (h, block, r1)" "r' = r1\<lparr>tb_index_block := block\<rparr>"
    using a(1) by (fastforce simp: Finish_index_def Let_def split: Option.bind_splits)
  from WriteBlock_grows [OF this(1)] this(2) a(2) ok show "TableBuilder_ok r \<and> prefix (contents (tb_file r)) (contents (tb_file r'))"
    unfolding e by (simp add: TableBuilder_ok_def)
next
  assume a: "Finish_footer fappend mh ih r = Some (Status_OK, r'')"
  then have "TableBuilder_ok r" by (auto simp: Finish_footer_def TableBuilder_ok_def split: if_splits)
  then show "TableBuilder_ok r \<and> prefix (contents (tb_file r)) (contents (tb_file r''))"
    using a append_ok by (auto simp: Finish_footer_def Let_def split: Option.bind_splits)
qed

lemma Flush_grows:
  assumes "TableBuilder_Flush options fappend fflush r = Some r'" and "TableBuilder_ok r'"
  shows "TableBuilder_ok r \<and> prefix (contents (tb_file r)) (contents (tb_file r'))"
proof (cases "TableBuilder_ok r \<and> bb_buffer (tb_data_block r) \<noteq> []")
  case True
  then obtain h block r1 where w: "WriteBlock options fappend (tb_data_block r) r = Some (h, block, r1)"
    using assms(1) by (auto simp: TableBuilder_Flush_def split: Option.bind_splits)
  have ok1: "TableBuilder_ok r1"
  proof (rule ccontr)
    assume "\<not> TableBuilder_ok r1"
    then have "tb_status r' = tb_status r1"
      using assms(1) True w by (auto simp: TableBuilder_Flush_def Let_def TableBuilder_ok_def split: if_splits)
    then show False using \<open>\<not> TableBuilder_ok r1\<close> assms(2) by (simp add: TableBuilder_ok_def)
  qed
  then obtain s g where g: "fflush (tb_file r1) = Some (s, g)" "tb_status r' = s" "tb_file r' = g"
    using assms(1) True w by (auto simp: TableBuilder_Flush_def TableBuilder_ok_def Let_def split: Option.bind_splits)
  then have "s = Status_OK" using assms(2) by (simp add: TableBuilder_ok_def Status_ok_def Status_OK_def)
  then show ?thesis using WriteBlock_grows [OF w ok1] flush_ok [of "tb_file r1" g] g True by simp
next
  case False
  then show ?thesis using assms by (auto simp: TableBuilder_Flush_def split: if_splits)
qed

text \<open>The steps of a successful end.\<close>

lemma Finish_steps:
  assumes "TableBuilder_Finish options fappend fflush r = Some (Status_OK, r')"
  obtains r0 fh r1 mh r2 ih r3 where
    "TableBuilder_Flush options fappend fflush r = Some r0"
    "Finish_filter options fappend (r0\<lparr>tb_closed := True\<rparr>) = Some (fh, r1)"
    "Finish_metaindex options fappend fh r1 = Some (mh, r2)"
    "Finish_index options fappend r2 = Some (ih, r3)"
    "Finish_footer fappend mh ih r3 = Some (Status_OK, r')"
    "TableBuilder_ok r" "TableBuilder_ok r0" "TableBuilder_ok r1" "TableBuilder_ok r2" "TableBuilder_ok r3"
    "prefix (contents (tb_file r)) (contents (tb_file r0))" "prefix (contents (tb_file r0)) (contents (tb_file r'))"
proof -
  obtain r0 fh r1 mh r2 ih r3 where
    r0: "TableBuilder_Flush options fappend fflush r = Some r0" and
    r1: "Finish_filter options fappend (r0\<lparr>tb_closed := True\<rparr>) = Some (fh, r1)" and
    r2: "Finish_metaindex options fappend fh r1 = Some (mh, r2)" and
    r3: "Finish_index options fappend r2 = Some (ih, r3)" and
    r4: "Finish_footer fappend mh ih r3 = Some (Status_OK, r')"
    using assms by (auto simp: TableBuilder_Finish_def split: Option.bind_splits)
  note g4 = Finish_grows(4) [OF r4]
  note g3 = Finish_grows(3) [OF r3 conjunct1 [OF g4]]
  note g2 = Finish_grows(2) [OF r2 conjunct1 [OF g3]]
  note g1 = Finish_grows(1) [OF r1 conjunct1 [OF g2]]
  have ok0: "TableBuilder_ok r0" using g1 by (simp add: TableBuilder_ok_def)
  note g0 = Flush_grows [OF r0 ok0]
  have "prefix (contents (tb_file r0)) (contents (tb_file r'))"
    using g1 g2 g3 g4 prefix_order.trans by fastforce
  then show ?thesis
    by (rule that [OF r0 r1 r2 r3 r4 conjunct1 [OF g0] ok0 conjunct1 [OF g2] conjunct1 [OF g3] conjunct1 [OF g4] conjunct2 [OF g0]])
qed

lemma Finish_built:
  assumes "built bs cur r" and "TableBuilder_Finish options fappend fflush r = Some (Status_OK, r')"
    and "offsets_fit (tb_file r')"
  shows "laid_out (concat bs @ cur) (contents (tb_file r')) \<and> TableBuilder_FileSize r' = of_nat (length (contents (tb_file r')))"
proof -
  obtain r0 fh r1 mh r2 ih r3 where
    r0: "TableBuilder_Flush options fappend fflush r = Some r0" and
    r1: "Finish_filter options fappend (r0\<lparr>tb_closed := True\<rparr>) = Some (fh, r1)" and
    r2: "Finish_metaindex options fappend fh r1 = Some (mh, r2)" and
    r3: "Finish_index options fappend r2 = Some (ih, r3)" and
    r4: "Finish_footer fappend mh ih r3 = Some (Status_OK, r')" and
    ok: "TableBuilder_ok r" and ok0: "TableBuilder_ok r0" and ok1: "TableBuilder_ok r1" and
    ok2: "TableBuilder_ok r2" and ok3: "TableBuilder_ok r3" and
    "prefix (contents (tb_file r)) (contents (tb_file r0))" and
    pre: "prefix (contents (tb_file r0)) (contents (tb_file r'))"
    by (rule Finish_steps [OF assms(2)])
  have len: "offsets_fit (tb_file r0)" using assms(3) pre offsets_fit_prefix by blast
  obtain cs where cs: "built cs [] r0" "concat cs = concat bs @ cur"
  proof (cases "cur = []")
    case True
    then have "r0 = r" using r0 assms(1) build_empty_buffer [of cur]
      by (simp add: TableBuilder_Flush_def built_def split: if_splits)
    then show ?thesis using that [of bs] assms(1) True by simp
  next
    case False
    show ?thesis using that [of "bs @ [cur]"] Flush_built [OF assms(1) False r0 ok0 len] by simp
  qed
  let ?r0 = "r0\<lparr>tb_closed := True\<rparr>"
  have b: "contents (tb_file ?r0) = data_part iv cs" "tb_offset ?r0 = of_nat (length (contents (tb_file ?r0)))"
    "[] \<notin> set cs" and fil: "filtering (filter_keys iv cs) (length (data_part iv cs)) ?r0"
    and idx: "if tb_pending_index_entry r0
      then cs \<noteq> [] \<and> tb_index_block r0 = add_all 1 (index_entries options cs (length cs - 1)) \<and>
        tb_pending_handle r0 = block_handle iv cs (length cs - 1) \<and> tb_last_key r0 = fst (last (last cs))
      else cs = [] \<and> tb_index_block r0 = add_all 1 []"
    using cs(1) filtering_cong [of ?r0 r0] by (auto simp: built_def index_entries_def split: if_splits)
  from Finish_filter_ok [OF r1 ok1 fil b(2)] obtain fb f where
    f: "\<forall>policy. op_filter_policy options = Some policy \<longrightarrow>
        fh = handle_of (length (contents (tb_file ?r0))) (length fb) \<and>
        (\<exists>b. matching_policy.filter_holds policy (filter_keys iv cs) (length (data_part iv cs)) b \<and> fb = fst (FilterBlock_Finish policy b))"
      "contents f = contents (tb_file ?r0) @ filter_part options fb"
      "tb_offset r1 = of_nat (length (contents f))" "tb_file r1 = f"
    and same1: "tb_pending_index_entry r1 = tb_pending_index_entry ?r0" "tb_last_key r1 = tb_last_key ?r0"
      "tb_index_block r1 = tb_index_block ?r0" "tb_pending_handle r1 = tb_pending_handle ?r0"
    by blast
  have c1: "contents (tb_file r1) = data_part iv cs @ filter_part options fb" "tb_offset r1 = of_nat (length (contents (tb_file r1)))"
    using f(2-4) b(1) by simp_all
  note f1 = f(1) [unfolded b(1), rule_format]
  have fh: "op_filter_policy options \<noteq> None \<Longrightarrow> fh = handle_of (length (data_part iv cs)) (length fb)" using f1 by auto
  obtain f2 where m: "mh = handle_of (length (contents (tb_file r1))) (length (meta_block options cs fb))"
    "contents f2 = contents (tb_file r1) @ stored (meta_block options cs fb)"
    "r2 = r1\<lparr>tb_status := Status_OK, tb_file := f2, tb_offset := of_nat (length (contents f2))\<rparr>"
    using Finish_metaindex_ok [OF r2 ok2 fh c1(2)] by auto
  have i: "ih = handle_of (length (contents (tb_file r2))) (length (index_block options cs))"
    "contents (tb_file r3) = contents (tb_file r2) @ stored (index_block options cs)"
    "tb_offset r3 = of_nat (length (contents (tb_file r3)))"
    using Finish_index_ok [OF r3 ok3, of cs] m(3) idx same1 by auto
  from Finish_footer_ok [OF r4 i(3)]
  have e: "contents (tb_file r') = table_bytes options cs fb" "tb_offset r' = of_nat (length (contents (tb_file r')))"
    using m i c1(1) by (simp_all add: table_bytes_def table_footer_def Let_def add.assoc)
  have "\<exists>now b. matching_policy.filter_holds policy (filter_keys iv cs) now b \<and> fb = fst (FilterBlock_Finish policy b)"
    if "op_filter_policy options = Some policy" for policy
    using f1 [OF that] by blast
  then show ?thesis
    using e cs(2) b(3) unfolding laid_out_def TableBuilder_FileSize_def by (intro conjI exI [of _ cs] exI [of _ fb]) auto
qed

lemma Add_grows:
  assumes "TableBuilder_Add options fappend fflush k v r = Some r'" and "TableBuilder_ok r'"
  shows "TableBuilder_ok r \<and> prefix (contents (tb_file r)) (contents (tb_file r'))"
proof -
  have ok: "TableBuilder_ok r" using assms by (auto simp: TableBuilder_Add_def split: if_splits)
  let ?r1 = "on_filter options (\<lambda>policy. FilterBlock_AddKey k) (if tb_pending_index_entry r
    then add_index_entry (op_FindShortestSeparator options (tb_last_key r) k) r else r)"
  let ?r2 = "?r1\<lparr>tb_last_key := k, tb_num_entries := tb_num_entries ?r1 + 1, tb_data_block := BlockBuilder_Add iv k v (tb_data_block ?r1)\<rparr>"
  have "tb_file ?r2 = tb_file r" by (simp add: add_index_entry_def)
  moreover have "TableBuilder_Flush options fappend fflush ?r2 = Some r' \<or> ?r2 = r'"
    using assms(1) ok by (simp add: TableBuilder_Add_def Let_def split: if_splits)
  ultimately show ?thesis using Flush_grows [of ?r2 r'] assms(2) ok by auto
qed

lemma AddAll_grows:
  "TableBuilder_AddAll options fappend fflush es r = Some r' \<Longrightarrow> TableBuilder_ok r' \<Longrightarrow>
    TableBuilder_ok r \<and> prefix (contents (tb_file r)) (contents (tb_file r'))"
proof (induction es arbitrary: r)
  case (Cons e es)
  obtain k v where e: "e = (k, v)" by (cases e)
  then obtain r1 where r1: "TableBuilder_Add options fappend fflush k v r = Some r1"
    "TableBuilder_AddAll options fappend fflush es r1 = Some r'"
    using Cons.prems(1) by (auto split: Option.bind_splits)
  then show ?case using Cons.IH [OF r1(2) Cons.prems(2)] Add_grows [OF r1(1)] prefix_order.trans by blast
qed simp

lemma AddAll_built:
  "TableBuilder_AddAll options fappend fflush es r = Some r' \<Longrightarrow> TableBuilder_ok r' \<Longrightarrow>
    offsets_fit (tb_file r') \<Longrightarrow> built bs cur r \<Longrightarrow>
    \<exists>bs' cur'. built bs' cur' r' \<and> concat bs' @ cur' = concat bs @ cur @ es"
proof (induction es arbitrary: r bs cur)
  case (Cons e es)
  obtain k v where e: "e = (k, v)" by (cases e)
  then obtain r1 where r1: "TableBuilder_Add options fappend fflush k v r = Some r1"
    "TableBuilder_AddAll options fappend fflush es r1 = Some r'"
    using Cons.prems(1) by (auto split: Option.bind_splits)
  have g: "TableBuilder_ok r1" "offsets_fit (tb_file r1)"
    using AddAll_grows [OF r1(2) Cons.prems(2)] Cons.prems(3) offsets_fit_prefix by blast+
  obtain bs1 cur1 where "built bs1 cur1 r1" "concat bs1 @ cur1 = concat bs @ cur @ [(k, v)]"
    using Add_built [OF Cons.prems(4) r1(1) g] by blast
  with Cons.IH [OF r1(2) Cons.prems(2,3)] show ?case by (metis append.assoc append_Cons append_Nil e)
qed (intro exI [of _ _], auto)

lemma TableBuilder_Build_laid_out:
  assumes "contents file = []" and "TableBuilder_Build options fappend fflush es file = Some (Status_OK, r)"
    and "offsets_fit (tb_file r)"
  shows "laid_out es (contents (tb_file r)) \<and> TableBuilder_FileSize r = of_nat (length (contents (tb_file r)))"
proof -
  obtain r1 where r1: "TableBuilder_AddAll options fappend fflush es (TableBuilder_new options file) = Some r1"
    "TableBuilder_Finish options fappend fflush r1 = Some (Status_OK, r)"
    using assms(2) by (auto simp: TableBuilder_Build_def split: Option.bind_splits)
  have ok: "TableBuilder_ok r1 \<and> prefix (contents (tb_file r1)) (contents (tb_file r))"
    by (rule Finish_steps [OF r1(2)]) (use prefix_order.trans in blast)
  then have "offsets_fit (tb_file r1)" using assms(3) offsets_fit_prefix by blast
  then obtain bs cur where "built bs cur r1" "concat bs @ cur = es"
    using AddAll_built [OF r1(1) _ _ built_new [OF assms(1)]] ok by auto
  then show ?thesis using Finish_built [OF _ r1(2) assms(3)] by auto
qed

end

end
