(* ===== verification/Ldb_Table_Read.thy ===== *)
theory Ldb_Table_Read
  imports Ldb_Table Ldb_Table_Layout
begin

text \<open>
  Reading what the builder has written: the block function finds each data block, so the iterator of the
  table goes through its entries and a lookup finds the entry.
\<close>

section \<open>The contract of a cache\<close>

text \<open>A cache may forget, but does not make up blocks; \<open>cache_ok\<close> is its invariant.\<close>

locale block_cache =
  fixes cache :: "'c BlockCache option"
    and cache_ok :: "'c \<Rightarrow> bool"
    and cached :: "'c \<Rightarrow> slice \<Rightarrow> Block \<Rightarrow> bool"
  assumes lookup_ok: "cache = Some ops \<Longrightarrow> cache_ok c \<Longrightarrow> cache_Lookup ops c k = (r, c') \<Longrightarrow>
      cache_ok c' \<and> (\<forall>b. r = Some b \<longrightarrow> cached c k b) \<and> (\<forall>k' b. cached c' k' b \<longrightarrow> cached c k' b)"
    and insert_ok: "cache = Some ops \<Longrightarrow> cache_ok c \<Longrightarrow>
      cache_ok (cache_Insert ops c k b) \<and> (\<forall>k' b'. cached (cache_Insert ops c k b) k' b' \<longrightarrow> k' = k \<and> b' = b \<or> cached c k' b')"
    and new_id_ok: "cache = Some ops \<Longrightarrow> cache_ok c \<Longrightarrow> cache_NewId ops c = (n, c') \<Longrightarrow> cache_ok c'"

text \<open>A new id has not been used for a block of the cache.\<close>

definition unused_id :: "'c BlockCache option \<Rightarrow> ('c \<Rightarrow> slice \<Rightarrow> Block \<Rightarrow> bool) \<Rightarrow> 'c \<Rightarrow> bool" where
  "unused_id cache cached c \<longleftrightarrow> (\<forall>ops n c' start b. cache = Some ops \<longrightarrow> cache_NewId ops c = (n, c') \<longrightarrow>
     \<not> cached c' (cache_key n start) b)"

section \<open>Positions in the file\<close>

lemma EncodeFixed64_inject: "EncodeFixed64 a = EncodeFixed64 b \<longleftrightarrow> a = b"
  by (metis DecodeFixed64_Encode append_Nil2 option.inject)

lemma handle_bytes_inject: "handle_bytes h = handle_bytes h' \<longleftrightarrow> h = h'"
proof
  assume e: "handle_bytes h = handle_bytes h'"
  have "(Status_OK, h, [] :: slice) = BlockHandle_DecodeFrom BlockHandle_new (handle_bytes h @ [])"
    by (rule BlockHandle_roundtrip [symmetric])
  also have "\<dots> = (Status_OK, h', [])" unfolding e by (rule BlockHandle_roundtrip)
  finally show "h = h'" by (rule Pair_inject) (elim Pair_inject)
qed simp

lemma u64_of_nat_inject: "a < 2 ^ 64 \<Longrightarrow> b < 2 ^ 64 \<Longrightarrow> (of_nat a :: u64) = of_nat b \<longleftrightarrow> a = b"
proof -
  assume "a < 2 ^ 64" "b < 2 ^ 64"
  then have "unat (of_nat a :: u64) = a" "unat (of_nat b :: u64) = b" by (simp_all add: unat_of_nat_mod)
  then show ?thesis by metis
qed

lemma data_part_split:
  "j < length bs \<Longrightarrow> data_part iv bs = data_part iv (take j bs) @ stored (built_block iv (bs ! j)) @ data_part iv (drop (Suc j) bs)"
proof -
  assume "j < length bs"
  then have "data_part iv (take j bs @ bs ! j # drop (Suc j) bs) = data_part iv bs" by (simp add: id_take_nth_drop [symmetric])
  then show ?thesis unfolding data_part_def map_append concat_append list.map concat.simps by simp
qed

lemma block_start_less: "i < j \<Longrightarrow> j \<le> length bs \<Longrightarrow> block_start iv bs i < block_start iv bs j"
proof (induction j)
  case (Suc j)
  have "block_start iv bs (Suc j) = block_start iv bs j + length (stored (built_block iv (bs ! j)))"
    using Suc.prems(2) by (simp add: block_start_def take_Suc_conv_app_nth data_part_snoc)
  then show ?case using Suc by (cases "i = j") auto
qed simp

lemma block_start_le: "j \<le> length bs \<Longrightarrow> block_start iv bs j \<le> length (data_part iv bs)"
  using block_start_less [of j "length bs" bs iv] by (cases "j = length bs") (simp_all add: block_start_def)

lemma block_size_le: "j < length bs \<Longrightarrow> length (built_block iv (bs ! j)) \<le> length (data_part iv bs)"
  by (subst data_part_split [of j bs]) simp_all

lemma block_handle_inject:
  assumes "length (data_part iv bs) < 2 ^ 64" and "i < length bs" and "j < length bs"
  shows "block_handle iv bs i = block_handle iv bs j \<longleftrightarrow> i = j"
proof
  assume "block_handle iv bs i = block_handle iv bs j"
  then have "of_nat (block_start iv bs i) = (of_nat (block_start iv bs j) :: u64)" by (simp add: block_handle_def handle_of_def)
  moreover have "block_start iv bs i < 2 ^ 64" "block_start iv bs j < 2 ^ 64"
    using block_start_le [of i bs iv] block_start_le [of j bs iv] assms by simp_all
  ultimately have "block_start iv bs i = block_start iv bs j" by (simp add: u64_of_nat_inject)
  then show "i = j" using block_start_less [of i j bs iv] block_start_less [of j i bs iv] assms by (metis less_imp_le nat_neq_iff)
qed simp

context table_options
begin

lemma index_indexes:
  assumes "[] \<notin> set bs" and "length (data_part iv bs) < 2 ^ 64"
  shows "indexes valid (op_Compare options) bs (index_entries options bs (length bs))"
  unfolding indexes_def
proof (intro conjI impI allI)
  show "length (index_entries options bs (length bs)) = length bs" by (simp add: index_entries_def)
  show "[] \<notin> set bs" by fact
  show "distinct (map snd (index_entries options bs (length bs)))"
    using block_handle_inject [OF assms(2)] by (auto simp: index_entries_def distinct_map inj_on_def handle_bytes_inject o_def)
  fix j
  assume inc: "increasing valid (op_Compare options) (concat bs)" and j: "j < length bs"
  have ne: "bs ! i \<noteq> []" if "i < length bs" for i using assms(1) that nth_mem by metis
  have v: "valid (fst e)" if "i < length bs" "e \<in> set (bs ! i)" for i e
    using increasing_block [OF inc that(1)] that(2) by (simp add: increasing_def)
  let ?a = "fst (last (bs ! j))" and ?b = "fst (hd (bs ! Suc j))"
  have a: "valid ?a" using v [OF j] ne [OF j] by simp
  have n: "fst (index_entries options bs (length bs) ! j) = index_key options bs j" using j by (simp add: index_entries_def)
  have ab: "valid ?b" "op_Compare options ?a ?b < 0" if "Suc j < length bs"
  proof -
    have h: "hd (bs ! Suc j) \<in> set (bs ! Suc j)" using ne [OF that] by simp
    then show "valid ?b" using v [OF that] by blast
    have "bs ! Suc j \<in> set (drop (Suc j) bs)" using that by (metis Cons_nth_drop_Suc list.set_intros(1))
    then have "hd (bs ! Suc j) \<in> set (concat (drop (Suc j) bs))" using h by auto
    moreover have "last (bs ! j) \<in> set (bs ! j)" using ne [OF j] by simp
    ultimately show "op_Compare options ?a ?b < 0"
      using inc unfolding concat_split [OF j] increasing_append set_append by blast
  qed
  show "valid (fst (index_entries options bs (length bs) ! j))"
    unfolding n using a ab(1) valid_separator valid_successor by (simp add: index_key_def)
  show "op_Compare options ?a (fst (index_entries options bs (length bs) ! j)) \<le> 0"
    unfolding n using a ab(1) separator_ge successor_ge by (simp add: index_key_def)
  show "op_Compare options (fst (index_entries options bs (length bs) ! j)) ?b < 0" if "Suc j < length bs"
    unfolding n using a ab [OF that] separator_less that by (simp add: index_key_def)
qed

end

section \<open>Tables on such a file\<close>

locale table_reader = table_options options valid ok same + random_access_file read good contents + block_cache cache cache_ok cached
  for options :: TableOptions and valid :: "slice \<Rightarrow> bool" and ok :: "slice list \<Rightarrow> bool"
    and same :: "slice \<Rightarrow> slice \<Rightarrow> bool"
    and read :: "'f random_read" and good :: "'f \<Rightarrow> bool" and contents :: "'f \<Rightarrow> slice"
    and cache :: "'c BlockCache option" and cache_ok :: "'c \<Rightarrow> bool" and cached :: "'c \<Rightarrow> slice \<Rightarrow> Block \<Rightarrow> bool" +
  fixes ro :: ReadOptions
begin

abbreviation "cmp \<equiv> op_Compare options"

text \<open>What the table's cache holds for its blocks is right.\<close>

definition coherent :: "'c \<Rightarrow> u64 \<Rightarrow> entries list \<Rightarrow> bool" where
  "coherent c cache_id bs \<longleftrightarrow> (cache \<noteq> None \<longrightarrow> cache_ok c \<and>
     (\<forall>j < length bs. \<forall>b. cached c (cache_key cache_id (of_nat (block_start iv bs j))) b \<longrightarrow> Block_new (built_block iv (bs ! j)) = Some b))"

definition table_on :: "entries list \<Rightarrow> slice \<Rightarrow> ('f, 'c) Table \<Rightarrow> bool" where
  "table_on bs fb t \<longleftrightarrow> good (tbl_file t) \<and> contents (tbl_file t) = table_bytes options bs fb \<and>
     length (table_bytes options bs fb) < 2 ^ 32 \<and> [] \<notin> set bs \<and> coherent (tbl_cache t) (tbl_cache_id t) bs"

definition table_serves :: "('f, 'c) Table \<Rightarrow> entries list \<Rightarrow> entries \<Rightarrow> bool" where
  "table_serves t bs idx \<longleftrightarrow> idx = index_entries options bs (length bs) \<and> (\<exists>fb. table_on bs fb t)"

lemma data_part_le: "length (data_part iv bs) \<le> length (table_bytes options bs fb)"
  by (simp add: table_bytes_def)

lemma read_block_at:
  assumes "table_on bs fb t" and "j < length bs"
  shows "\<exists>bc b g. read_block read ro (block_handle iv bs j) t = Some (Status_OK, Some (bc, b), t\<lparr>tbl_file := g\<rparr>) \<and>
    Block_new (built_block iv (bs ! j)) = Some b \<and> table_on bs fb (t\<lparr>tbl_file := g\<rparr>)"
proof -
  have t: "good (tbl_file t)" "contents (tbl_file t) = table_bytes options bs fb" "length (table_bytes options bs fb) < 2 ^ 32"
    using assms(1) by (simp_all add: table_on_def)
  have small: "length (built_block iv (bs ! j)) < 2 ^ 32" using block_size_le [OF assms(2), of iv] data_part_le [of bs fb] t(3) by linarith
  obtain b it where b: "Block_new (built_block iv (bs ! j)) = Some b" using open_block_of [OF interval_pos small] by blast
  obtain rest where "contents (tbl_file t) = data_part iv (take j bs) @ stored (built_block iv (bs ! j)) @ rest"
    unfolding t(2) table_bytes_def data_part_split [OF assms(2)] by simp
  from ReadBlock_stored [OF t(1) this, of "ro_verify_checksums ro"] t obtain bc g where
    "ReadBlock read (ro_verify_checksums ro) (block_handle iv bs j) (tbl_file t) = Some (Status_OK, bc, g)"
    "bc_data bc = built_block iv (bs ! j)" "good g" "contents g = contents (tbl_file t)"
    by (auto simp: block_handle_def block_start_def)
  then show ?thesis using b assms(1) by (auto simp: read_block_def table_on_def)
qed

lemma coherent_lookup:
  "cache = Some ops \<Longrightarrow> cache_Lookup ops c k = (r, c') \<Longrightarrow> coherent c n bs \<Longrightarrow> coherent c' n bs"
  unfolding coherent_def using lookup_ok by blast

lemma coherent_insert:
  assumes "cache = Some ops" and "coherent c n bs" and "j < length bs" and "Block_new (built_block iv (bs ! j)) = Some b"
    and "length (data_part iv bs) < 2 ^ 64"
  shows "coherent (cache_Insert ops c (cache_key n (of_nat (block_start iv bs j))) b) n bs"
  unfolding coherent_def
proof (intro impI conjI allI)
  have ok: "cache_ok c" using assms(1,2) unfolding coherent_def by blast
  note ins = insert_ok [OF assms(1) ok, of "cache_key n (of_nat (block_start iv bs j))" b]
  show "cache_ok (cache_Insert ops c (cache_key n (of_nat (block_start iv bs j))) b)" using ins by blast
  fix i b'
  assume i: "i < length bs" and
    "cached (cache_Insert ops c (cache_key n (of_nat (block_start iv bs j))) b) (cache_key n (of_nat (block_start iv bs i))) b'"
  with ins have "cache_key n (of_nat (block_start iv bs i)) = cache_key n (of_nat (block_start iv bs j)) \<and> b' = b \<or>
    cached c (cache_key n (of_nat (block_start iv bs i))) b'" by blast
  then show "Block_new (built_block iv (bs ! i)) = Some b'"
  proof
    assume a: "cache_key n (of_nat (block_start iv bs i)) = cache_key n (of_nat (block_start iv bs j)) \<and> b' = b"
    then have "of_nat (block_start iv bs i) = (of_nat (block_start iv bs j) :: u64)"
      by (simp add: cache_key_def EncodeFixed64_inject)
    moreover have "block_start iv bs i < 2 ^ 64" "block_start iv bs j < 2 ^ 64"
      using block_start_le [of i bs iv] block_start_le [of j bs iv] i assms(3,5) by simp_all
    ultimately have "block_start iv bs i = block_start iv bs j" by (simp add: u64_of_nat_inject)
    then have "i = j" using block_start_less [of i j bs iv] block_start_less [of j i bs iv] i assms(3)
      by (metis less_imp_le nat_neq_iff)
    then show ?thesis using a assms(4) by simp
  next
    assume "cached c (cache_key n (of_nat (block_start iv bs i))) b'"
    then show ?thesis using assms(1,2) i unfolding coherent_def by blast
  qed
qed

lemma BlockReader_serves:
  assumes "table_on bs fb t" and "j < length bs"
  shows "\<exists>d t'. BlockReader read cache ro t (handle_bytes (block_handle iv bs j)) = Some (d, t') \<and>
    block_opened (bs ! j) d \<and> table_on bs fb t' \<and> tbl_filter t' = tbl_filter t \<and> tbl_index_block t' = tbl_index_block t"
proof -
  have small: "length (data_part iv bs) < 2 ^ 32" using assms(1) data_part_le [of bs fb] by (simp add: table_on_def)
  then have "length (built_block iv (bs ! j)) < 2 ^ 32" using block_size_le [OF assms(2), of iv] by linarith
  from open_block_of [OF interval_pos this] obtain b d where
    b: "Block_new (built_block iv (bs ! j)) = Some b" "Block_NewIterator b = Some d" "block_opened (bs ! j) d" by blast
  have h: "BlockHandle_DecodeFrom BlockHandle_new (handle_bytes (block_handle iv bs j)) = (Status_OK, block_handle iv bs j, [])"
    using BlockHandle_roundtrip [of BlockHandle_new "block_handle iv bs j" "[]"] by simp
  have o: "bh_offset (block_handle iv bs j) = of_nat (block_start iv bs j)" by (simp add: block_handle_def handle_of_def)
  show ?thesis
  proof (cases cache)
    case None
    obtain bc b' g where "read_block read ro (block_handle iv bs j) t = Some (Status_OK, Some (bc, b'), t\<lparr>tbl_file := g\<rparr>)"
      "Block_new (built_block iv (bs ! j)) = Some b'" "table_on bs fb (t\<lparr>tbl_file := g\<rparr>)"
      using read_block_at [OF assms] by blast
    then show ?thesis using b h None by (simp add: BlockReader_def)
  next
    case (Some ops)
    let ?k = "cache_key (tbl_cache_id t) (of_nat (block_start iv bs j))"
    obtain r c where l: "cache_Lookup ops (tbl_cache t) ?k = (r, c)" by (cases "cache_Lookup ops (tbl_cache t) ?k")
    let ?t = "t\<lparr>tbl_cache := c\<rparr>"
    have t: "table_on bs fb ?t" using assms(1) coherent_lookup [OF Some l] by (simp add: table_on_def)
    show ?thesis
    proof (cases r)
      case hit: (Some b')
      have co: "coherent (tbl_cache t) (tbl_cache_id t) bs" using assms(1) by (simp add: table_on_def)
      then have "cached (tbl_cache t) ?k b'" using lookup_ok [OF Some _ l] Some hit unfolding coherent_def by blast
      moreover note co
      ultimately have "Block_new (built_block iv (bs ! j)) = Some b'" using assms(2) Some unfolding coherent_def by blast
      then have "b' = b" using b(1) by simp
      then show ?thesis using b h o l hit Some t by (simp add: BlockReader_def Let_def)
    next
      case miss: None
      obtain bc b' g where rb: "read_block read ro (block_handle iv bs j) ?t = Some (Status_OK, Some (bc, b'), ?t\<lparr>tbl_file := g\<rparr>)"
        "Block_new (built_block iv (bs ! j)) = Some b'" "table_on bs fb (?t\<lparr>tbl_file := g\<rparr>)"
        using read_block_at [OF t assms(2)] by blast
      then have "b' = b" using b(1) by simp
      let ?t2 = "if bc_cachable bc \<and> ro_fill_cache ro then t\<lparr>tbl_cache := cache_Insert ops c ?k b, tbl_file := g\<rparr> else ?t\<lparr>tbl_file := g\<rparr>"
      have "table_on bs fb ?t2"
        using rb(3) coherent_insert [OF Some _ assms(2) b(1), of c "tbl_cache_id t"] small by (simp add: table_on_def)
      moreover have "BlockReader read cache ro t (handle_bytes (block_handle iv bs j)) = Some (d, ?t2)"
        using b(2) h o l miss Some rb(1) \<open>b' = b\<close> by (simp add: BlockReader_def Let_def)
      ultimately show ?thesis using b(3) by auto
    qed
  qed
qed

end

sublocale table_reader \<subseteq> two_level valid cmp "Block_Iter cmp" block_opened block_on "Block_Iter cmp" block_opened block_on
  "BlockReader read cache ro" table_serves
proof
  fix t :: "('f, 'c) Table" and bs idx j
  assume s: "table_serves t bs idx"
  then obtain fb where t: "idx = index_entries options bs (length bs)" "table_on bs fb t" by (auto simp: table_serves_def)
  have "length (data_part iv bs) < 2 ^ 64" using t(2) data_part_le [of bs fb] by (simp add: table_on_def)
  then show "indexes valid cmp bs idx" using index_indexes t by (simp add: table_on_def)
  assume j: "j < length bs"
  then have "snd (idx ! j) = handle_bytes (block_handle iv bs j)" using t(1) by (simp add: index_entries_def)
  then show "\<exists>d t'. BlockReader read cache ro t (snd (idx ! j)) = Some (d, t') \<and> block_opened (bs ! j) d \<and> table_serves t' bs idx"
    using BlockReader_serves [OF t(2) j] t(1) by (auto simp: table_serves_def)
qed

end
