(* ===== verification/Ldb_Table_Get.thy ===== *)
theory Ldb_Table_Get
  imports Ldb_Table_Read
begin

text \<open>
  Lookups and the opening of a table: \<open>InternalGet\<close> finds the first entry that is not before the key
  unless the filter rules the key out, and \<open>Open\<close> gives a table for which all of this holds.
\<close>

section \<open>Lookups\<close>

context table_reader
begin

text \<open>The filter, if there is one, matches the keys of each block.\<close>

definition filter_serves :: "entries list \<Rightarrow> FilterBlockReader option \<Rightarrow> bool" where
  "filter_serves bs filt \<longleftrightarrow> (\<forall>policy reader. op_filter_policy options = Some policy \<longrightarrow> filt = Some reader \<longrightarrow>
     (\<forall>start key. FilterBlock_KeyMayMatch policy reader start key \<noteq> None) \<and>
     (\<forall>j < length bs. \<forall>e \<in> set (bs ! j). \<forall>key. same (fst e) key \<longrightarrow>
        FilterBlock_KeyMayMatch policy reader (of_nat (block_start iv bs j)) key = Some True))"

definition table_ready :: "entries list \<Rightarrow> ('f, 'c) Table \<Rightarrow> bool" where
  "table_ready bs t \<longleftrightarrow> (\<exists>fb. table_on bs fb t) \<and> filter_serves bs (tbl_filter t) \<and>
     (\<exists>it. Block_NewIterator (tbl_index_block t) = Some it \<and> block_opened (index_entries options bs (length bs)) it)"

lemma filter_rejects_block:
  assumes "filter_serves bs (tbl_filter t)" and "j < length bs"
  shows "\<exists>r. filter_rejects options t (handle_bytes (block_handle iv bs j)) k = Some r \<and>
    (r \<longrightarrow> (\<forall>e \<in> set (bs ! j). \<not> same (fst e) k))"
proof -
  have h: "BlockHandle_DecodeFrom BlockHandle_new (handle_bytes (block_handle iv bs j)) = (Status_OK, block_handle iv bs j, [])"
    using BlockHandle_roundtrip [of BlockHandle_new "block_handle iv bs j" "[]"] by simp
  have o: "bh_offset (block_handle iv bs j) = of_nat (block_start iv bs j)" by (simp add: block_handle_def handle_of_def)
  show ?thesis
  proof (cases "tbl_filter t")
    case (Some reader)
    show ?thesis
    proof (cases "op_filter_policy options")
      case policy: (Some policy)
      note f = assms(1) [unfolded filter_serves_def, rule_format, OF policy Some]
      obtain m where m: "FilterBlock_KeyMayMatch policy reader (of_nat (block_start iv bs j)) k = Some m" using f by blast
      then have "filter_rejects options t (handle_bytes (block_handle iv bs j)) k = Some (\<not> m)"
        by (simp add: filter_rejects_def Some policy h o)
      moreover have "m" if "e \<in> set (bs ! j)" "same (fst e) k" for e
        using f assms(2) that m by fastforce
      ultimately show ?thesis by blast
    qed (intro exI [of _ False], simp add: filter_rejects_def Some)
  qed (intro exI [of _ False], simp add: filter_rejects_def)
qed

text \<open>A key in the gap after the last key of a block is not the first key of the next.\<close>

lemma gap_after_block:
  assumes "indexes valid cmp bs (index_entries options bs (length bs))" and "increasing valid cmp (concat bs)" and "valid k"
    and "j = lower cmp k (index_entries options bs (length bs))" and "Suc j < length bs"
    and "lower cmp k (bs ! j) = length (bs ! j)"
  shows "\<not> same (fst (hd (bs ! Suc j))) k"
proof -
  let ?idx = "index_entries options bs (length bs)"
  let ?a = "last (bs ! j)" and ?b = "hd (bs ! Suc j)"
  have j: "j < length bs" using assms(5) by simp
  note len = indexesD(1,2) [OF assms(1)]
  note I = indexesD(3-5) [OF assms(1,2)]
  have ne: "bs ! j \<noteq> []" "bs ! Suc j \<noteq> []" using len(2) j assms(5) by simp_all
  have inc: "increasing valid cmp (bs ! j)" "increasing valid cmp (bs ! Suc j)"
    using increasing_block [OF assms(2)] j assms(5) by simp_all
  have v: "valid (fst ?a)" "valid (fst ?b)" using inc ne by (simp_all add: increasing_def)
  have sep: "fst (?idx ! j) = op_FindShortestSeparator options (fst ?a) (fst ?b)"
    using assms(5) by (simp add: index_entries_def index_key_def)
  have "cmp (fst (bs ! j ! (length (bs ! j) - 1))) k < 0"
    using increasing_lower [OF inc(1) assms(3), of "length (bs ! j) - 1"] ne(1) assms(6) by simp
  then have "cmp (fst ?a) k < 0" using ne(1) by (simp add: last_conv_nth)
  moreover have "cmp k (fst (?idx ! j)) \<le> 0"
  proof -
    have "\<not> cmp (fst (?idx ! j)) k < 0"
      using increasing_lower [OF index_increasing [OF assms(1,2)] assms(3), of j] j len(1) assms(4) by simp
    then show ?thesis using le_swap [OF I(1) [OF j] assms(3)] by simp
  qed
  moreover have "cmp (fst ?a) (fst ?b) < 0"
    using le_less [OF v(1) I(1) [OF j] v(2)] I(2) [OF j] I(3) [OF j assms(5)] by simp
  ultimately show ?thesis using gap [OF v assms(3)] unfolding sep by blast
qed

lemma InternalGet_finds:
  assumes "table_ready bs t" and "increasing valid cmp (concat bs)" and "valid k"
  defines "rest \<equiv> dropWhile (\<lambda>e. cmp (fst e) k < 0) (concat bs)"
  shows "\<exists>res t'. InternalGet options read cache ro k t = Some (Status_OK, res, t') \<and> table_ready bs t' \<and>
    (res = None \<or> rest \<noteq> [] \<and> res = Some (hd rest)) \<and> (rest \<noteq> [] \<and> same (fst (hd rest)) k \<longrightarrow> res = Some (hd rest))"
proof -
  let ?idx = "index_entries options bs (length bs)"
  define j where "j = lower cmp k ?idx"
  obtain fb i where t: "table_on bs fb t" "filter_serves bs (tbl_filter t)"
    "Block_NewIterator (tbl_index_block t) = Some i" "block_opened ?idx i"
    using assms(1) by (auto simp: table_ready_def)
  have "length (data_part iv bs) < 2 ^ 64" using t(1) data_part_le [of bs fb] by (simp add: table_on_def)
  then have ind: "indexes valid cmp bs ?idx" using index_indexes t(1) by (simp add: table_on_def)
  note len = indexesD(1,2) [OF ind]
  obtain i' where i': "vt_Seek (Block_Iter cmp) k i = Some i'" "block_on ?idx j i'"
    using block.seek_on [OF t(4) index_increasing [OF ind assms(2)] assms(3)] unfolding j_def by blast
  have iok: "vt_status (Block_Iter cmp) i' = Status_OK" using block.on_opened [OF i'(2)] block.opened_status by blast
  have low: "lower cmp k (concat bs) = (if j < length bs then before_block bs j + lower cmp k (bs ! j) else length (concat bs))"
    using lower_index [OF ind assms(2,3)] by (simp add: j_def)
  have rest: "rest = drop (lower cmp k (concat bs)) (concat bs)" by (simp add: rest_def drop_lower)
  show ?thesis
  proof (cases "j < length bs")
    case False
    then have "\<not> vt_Valid (Block_Iter cmp) i'" using block.on_Valid [OF i'(2)] len(1) by simp
    then show ?thesis using t(3) i'(1) iok assms(1) rest low False by (simp add: InternalGet_def Let_def)
  next
    case True
    define m where "m = lower cmp k (bs ! j)"
    have m: "m \<le> length (bs ! j)" by (simp add: m_def lower_le)
    have here: "rest \<noteq> [] \<and> hd rest = bs ! j ! m" if "m < length (bs ! j)"
      using nth_block [OF True that] before_block_le [OF True] that low True rest by (auto simp: m_def hd_drop_conv_nth)
    have past: "\<not> same (fst (hd rest)) k" if "m = length (bs ! j)" "rest \<noteq> []"
    proof -
      have l: "lower cmp k (concat bs) = before_block bs (Suc j)" using low True that(1) by (simp add: m_def before_block_Suc)
      have S: "Suc j < length bs"
      proof (rule ccontr)
        assume "\<not> Suc j < length bs"
        then have "Suc j = length bs" using True by simp
        then show False using l rest that(2) by simp
      qed
      then have "0 < length (bs ! Suc j)" using len(2) by simp
      then have "before_block bs (Suc j) < length (concat bs)" using before_block_le [OF S] by linarith
      then have "hd rest = hd (bs ! Suc j)"
        using nth_block [OF S, of 0] len(2) [OF S] l rest by (simp add: hd_drop_conv_nth hd_conv_nth)
      then show ?thesis using gap_after_block [OF ind assms(2,3) j_def S] that(1) by (simp add: m_def)
    qed
    have valid: "vt_Valid (Block_Iter cmp) i'" using block.on_Valid [OF i'(2)] len(1) True by simp
    have val: "vt_value (Block_Iter cmp) i' = Some (handle_bytes (block_handle iv bs j))"
      using block.on_entry [OF i'(2)] len(1) True by (simp add: index_entries_def)
    obtain r where r: "filter_rejects options t (handle_bytes (block_handle iv bs j)) k = Some r"
      "r \<longrightarrow> (\<forall>e \<in> set (bs ! j). \<not> same (fst e) k)"
      using filter_rejects_block [OF t(2) True] by blast
    show ?thesis
    proof (cases r)
      case rejected: True
      then have "InternalGet options read cache ro k t = Some (Status_OK, None, t)"
        using t(3) i'(1) iok valid val r(1) by (simp add: InternalGet_def Let_def)
      moreover have "\<not> same (fst (hd rest)) k" if "rest \<noteq> []"
      proof (cases "m < length (bs ! j)")
        case inside: True
        then show ?thesis using here r(2) rejected by simp
      qed (use past that m in simp)
      ultimately show ?thesis using assms(1) by blast
    next
      case accepted: False
      obtain d t' where d: "BlockReader read cache ro t (handle_bytes (block_handle iv bs j)) = Some (d, t')"
        "block_opened (bs ! j) d" "table_on bs fb t'" "tbl_filter t' = tbl_filter t" "tbl_index_block t' = tbl_index_block t"
        using BlockReader_serves [OF t(1) True] by blast
      obtain d' where d': "vt_Seek (Block_Iter cmp) k d = Some d'" "block_on (bs ! j) m d'"
        using block.seek_on [OF d(2) increasing_block [OF assms(2) True] assms(3)] unfolding m_def by blast
      have dok: "vt_status (Block_Iter cmp) d' = Status_OK" using block.on_opened [OF d'(2)] block.opened_status by blast
      have ready: "table_ready bs t'" using assms(1) d(3-5) by (auto simp: table_ready_def)
      show ?thesis
      proof (cases "m < length (bs ! j)")
        case inside: True
        then have "InternalGet options read cache ro k t = Some (Status_OK, Some (bs ! j ! m), t')"
          using t(3) i'(1) iok valid val r(1) accepted d(1) d' dok block.on_Valid [OF d'(2)] block.on_entry [OF d'(2)]
          by (simp add: InternalGet_def Let_def)
        then show ?thesis using here [OF inside] ready by auto
      next
        case outside: False
        then have "InternalGet options read cache ro k t = Some (Status_OK, None, t')"
          using t(3) i'(1) iok valid val r(1) accepted d(1) d' dok block.on_Valid [OF d'(2)]
          by (simp add: InternalGet_def Let_def)
        then show ?thesis using past outside m ready by auto
      qed
    qed
  qed
qed

section \<open>Opening\<close>

definition filter_built :: "entries list \<Rightarrow> slice \<Rightarrow> bool" where
  "filter_built bs fb \<longleftrightarrow> (\<forall>policy. op_filter_policy options = Some policy \<longrightarrow>
     (\<exists>now b. matching_policy.filter_holds policy (filter_keys iv bs) now b \<and> fb = fst (FilterBlock_Finish policy b)))"

lemma filter_key_in:
  assumes "j < length bs" and "e \<in> set (bs ! j)"
  shows "(block_start iv bs j, fst e) \<in> set (filter_keys iv bs)"
  using assms by (auto simp: filter_keys_def)

lemma filter_reader_serves:
  assumes "filter_built bs fb" and "op_filter_policy options = Some policy" and "length fb < 2 ^ 32"
    and "length (data_part iv bs) < 2 ^ 64" and "\<And>g. sublist g (map fst (concat bs)) \<Longrightarrow> ok g"
  shows "\<exists>r. FilterBlockReader_new fb = Some r \<and> filter_serves bs (Some r)"
proof -
  obtain now b where b: "matching_policy.filter_holds policy (filter_keys iv bs) now b" "fb = fst (FilterBlock_Finish policy b)"
    using assms(1,2) by (auto simp: filter_built_def)
  have "ok g" if "sublist g (map snd (filter_keys iv bs))" for g using assms(5) that by (simp add: map_snd_filter_keys)
  from matching_policy.no_false_negatives [OF filter_policy_ok [OF assms(2)] b(1) _ this] assms(3) b(2)
  obtain r where r: "FilterBlockReader_new fb = Some r" "\<forall>start key. FilterBlock_KeyMayMatch policy r start key \<noteq> None"
    "\<forall>(n, k)\<in>set (filter_keys iv bs). \<forall>key. n < 2 ^ 64 \<longrightarrow> same k key \<longrightarrow> FilterBlock_KeyMayMatch policy r (of_nat n) key = Some True"
    by auto
  have "FilterBlock_KeyMayMatch policy r (of_nat (block_start iv bs j)) key = Some True"
    if "j < length bs" "e \<in> set (bs ! j)" "same (fst e) key" for j e key
  proof -
    have "block_start iv bs j < 2 ^ 64" using block_start_le [of j bs iv] that(1) assms(4) by simp
    then show ?thesis using bspec [OF r(3) filter_key_in [OF that(1,2)]] that(3) by simp
  qed
  then show ?thesis using r(1,2) assms(2) by (auto simp: filter_serves_def)
qed

lemma meta_seek:
  assumes "op_filter_policy options = Some policy" and "block_opened (meta_entries options bs fb) it"
  shows "\<exists>it'. vt_Seek (Block_Iter Slice_compare) (filter_key policy) it = Some it' \<and> vt_Valid (Block_Iter Slice_compare) it' \<and>
    vt_key (Block_Iter Slice_compare) it' = filter_key policy \<and>
    vt_value (Block_Iter Slice_compare) it' = Some (handle_bytes (handle_of (length (data_part iv bs)) (length fb)))"
proof -
  have o: "key_order (\<lambda>_. True) Slice_compare" by unfold_locales
  note B = slice_order.Block_Iter_ordered [OF slice_order.intro [OF o]]
  let ?es = "meta_entries options bs fb"
  have es: "?es = [(filter_key policy, handle_bytes (handle_of (length (data_part iv bs)) (length fb)))]"
    using assms(1) by (simp add: meta_entries_def)
  have "increasing (\<lambda>_. True) Slice_compare ?es" by (simp add: es increasing_def)
  from ordered_iterator.seek_on [OF B assms(2) this, of "filter_key policy"]
  obtain it' where it': "vt_Seek (Block_Iter Slice_compare) (filter_key policy) it = Some it'"
    "block_on ?es (lower Slice_compare (filter_key policy) ?es) it'" by blast
  moreover have "lower Slice_compare (filter_key policy) ?es = 0" by (simp add: es lower_def Slice_compare_order)
  ultimately show ?thesis
    using ordered_iterator.on_Valid [OF B it'(2)] ordered_iterator.on_entry [OF B it'(2)] by (simp add: es)
qed

lemma ReadMeta_filter:
  assumes "good (tbl_file t)" and "contents (tbl_file t) = table_bytes options bs fb" and "length (table_bytes options bs fb) < 2 ^ 32"
    and "tbl_metaindex_handle t = ft_metaindex (table_footer options bs fb)" and "tbl_filter t = None"
    and "filter_built bs fb" and "\<And>g. sublist g (map fst (concat bs)) \<Longrightarrow> ok g"
  shows "\<exists>f filt. ReadMeta options read t = Some (t\<lparr>tbl_file := f, tbl_filter := filt\<rparr>) \<and> filter_serves bs filt \<and>
    good f \<and> contents f = contents (tbl_file t)"
proof (cases "op_filter_policy options")
  case None
  then have "ReadMeta options read t = Some (t\<lparr>tbl_file := tbl_file t, tbl_filter := None\<rparr>)"
    using assms(5) by (simp add: ReadMeta_def)
  then show ?thesis using assms(1) None unfolding filter_serves_def by (intro exI [of _ "tbl_file t"] exI [of _ None]) simp
next
  case (Some policy)
  let ?m = "meta_block options bs fb" and ?d = "data_part iv bs"
  let ?h = "handle_of (length (?d @ filter_part options fb)) (length ?m)"
  have bytes: "contents (tbl_file t) = (?d @ filter_part options fb) @ stored ?m @
      stored (index_block options bs) @ Footer_EncodeTo (table_footer options bs fb) []"
    "contents (tbl_file t) = ?d @ stored fb @ stored ?m @ stored (index_block options bs) @
      Footer_EncodeTo (table_footer options bs fb) []"
    using assms(2) Some by (simp_all add: table_bytes_def filter_part_def)
  have small: "length (contents (tbl_file t)) < 2 ^ 63" "length fb < 2 ^ 32" "length ?m < 2 ^ 32" "length ?d < 2 ^ 64"
    using assms(3) assms(2) [symmetric] arg_cong [OF bytes(2), of length] by simp_all
  have h: "tbl_metaindex_handle t = ?h" using assms(4) by (simp add: table_footer_def Let_def)
  from ReadBlock_stored [OF assms(1) bytes(1) small(1), of "op_paranoid_checks options"] obtain bc f where
    f: "ReadBlock read (op_paranoid_checks options) ?h (tbl_file t) = Some (Status_OK, bc, f)" "bc_data bc = ?m"
    "good f" "contents f = contents (tbl_file t)" by auto
  from ReadBlock_stored [OF f(3), of ?d fb, unfolded f(4), OF bytes(2) small(1), of "op_paranoid_checks options"] obtain bc' g where
    g: "ReadBlock read (op_paranoid_checks options) (handle_of (length ?d) (length fb)) f = Some (Status_OK, bc', g)"
    "bc_data bc' = fb" "good g" "contents g = contents (tbl_file t)" by auto
  obtain b it where b: "Block_new ?m = Some b" "Block_NewIterator b = Some it" "block_opened (meta_entries options bs fb) it"
    using open_block_of [OF interval_pos, of "meta_entries options bs fb"] small(3) unfolding meta_block_def by blast
  obtain it' where it': "vt_Seek (Block_Iter Slice_compare) (filter_key policy) it = Some it'" "vt_Valid (Block_Iter Slice_compare) it'"
    "vt_key (Block_Iter Slice_compare) it' = filter_key policy"
    "vt_value (Block_Iter Slice_compare) it' = Some (handle_bytes (handle_of (length ?d) (length fb)))"
    using meta_seek [OF Some b(3)] by blast
  obtain r where r: "FilterBlockReader_new fb = Some r" "filter_serves bs (Some r)"
    using filter_reader_serves [OF assms(6) Some small(2,4) assms(7)] by blast
  have "BlockHandle_DecodeFrom BlockHandle_new (handle_bytes (handle_of (length ?d) (length fb))) = (Status_OK, handle_of (length ?d) (length fb), [])"
    using BlockHandle_roundtrip [of BlockHandle_new _ "[]"] by simp
  then have "ReadFilter options read (handle_bytes (handle_of (length ?d) (length fb))) (t\<lparr>tbl_file := f\<rparr>) =
      Some (t\<lparr>tbl_file := g, tbl_filter := Some r\<rparr>)"
    using g(1,2) r(1) by (simp add: ReadFilter_def)
  then have "ReadMeta options read t = Some (t\<lparr>tbl_file := g, tbl_filter := Some r\<rparr>)"
    using Some f(1,2) b(1,2) it' by (simp add: ReadMeta_def h Let_def)
  then show ?thesis using r(2) g(3,4) by blast
qed

lemma Table_Open_ready:
  assumes "good file" and "contents file = table_bytes options bs fb" and "length (contents file) < 2 ^ 32" and "[] \<notin> set bs"
    and "filter_built bs fb" and "\<And>g. sublist g (map fst (concat bs)) \<Longrightarrow> ok g" and "unused_id cache cached c" and "cache \<noteq> None \<longrightarrow> cache_ok c"
  shows "\<exists>t. Table_Open options read cache file (of_nat (length (contents file))) c = Some (Status_OK, Some t) \<and> table_ready bs t"
proof -
  let ?F = "table_footer options bs fb" and ?i = "index_block options bs"
  let ?before = "data_part iv bs @ filter_part options fb @ stored (meta_block options bs fb)"
  let ?size = "of_nat (length (contents file)) :: u64"
  let ?idx = "index_entries options bs (length bs)"
  have bytes: "contents file = ?before @ stored ?i @ Footer_EncodeTo ?F []" using assms(2) by (simp add: table_bytes_def)
  have len: "length (contents file) = length ?before + length (stored ?i) + 48" using bytes by (simp add: length_Footer)
  have u: "unat ?size = length (contents file)" "unat (?size - 48) = length (contents file) - 48" "unat (48 :: u64) = 48"
  proof -
    show u: "unat ?size = length (contents file)" using assms(3) by (simp add: unat_of_nat_mod)
    then have "48 \<le> ?size" using len by (simp add: word_le_nat_alt)
    then show "unat (?size - 48) = length (contents file) - 48" using u by (simp add: unat_sub)
  qed simp
  have big: "\<not> ?size < of_nat kEncodedLength" using len u(1) by (simp add: word_less_nat_alt kEncodedLength_def kMaxEncodedLength_def)
  obtain direct f where f: "read (?size - 48) 48 file = Some (Status_OK, Footer_EncodeTo ?F [], direct, f)"
    "good f" "contents f = contents file"
    using read_within [OF assms(1), of "?size - 48" 48] u len bytes by (auto simp: length_Footer)
  have ih: "ft_index ?F = handle_of (length ?before) (length ?i)" by (simp add: table_footer_def Let_def add.assoc)
  from ReadBlock_stored [OF f(2), of ?before ?i, unfolded f(3), OF bytes, of "op_paranoid_checks options"] assms(3)
  obtain bc g where g: "ReadBlock read (op_paranoid_checks options) (ft_index ?F) f = Some (Status_OK, bc, g)"
    "bc_data bc = ?i" "good g" "contents g = contents file" unfolding ih by auto
  have "length ?i < 2 ^ 32" using len assms(3) by simp
  then obtain b it where b: "Block_new ?i = Some b" "Block_NewIterator b = Some it" "block_opened ?idx it"
    using open_block_of [of 1 ?idx] unfolding index_block_def by auto
  obtain n c' where n: "(case cache of None \<Rightarrow> (0, c) | Some ops \<Rightarrow> cache_NewId ops c) = (n, c')"
    by (cases "case cache of None \<Rightarrow> (0, c) | Some ops \<Rightarrow> cache_NewId ops c")
  let ?t = "\<lparr>tbl_file = g, tbl_cache = c', tbl_cache_id = n, tbl_filter = None,
    tbl_metaindex_handle = ft_metaindex ?F, tbl_index_block = b\<rparr>"
  have "length (table_bytes options bs fb) < 2 ^ 32" using assms(2,3) by simp
  with ReadMeta_filter [of ?t bs fb] g(3,4) assms(2,5,6) obtain h filt where
    h: "ReadMeta options read ?t = Some (?t\<lparr>tbl_file := h, tbl_filter := filt\<rparr>)" "filter_serves bs filt" "good h" "contents h = contents file"
    by auto
  let ?u = "?t\<lparr>tbl_file := h, tbl_filter := filt\<rparr>"
  have "Table_Open options read cache file ?size c = Some (Status_OK, Some ?u)"
    using big f(1) g(1,2) b(1) n h(1) Footer_roundtrip
    by (simp add: Table_Open_def Let_def kEncodedLength_def kMaxEncodedLength_def)
  moreover have "coherent c' n bs"
    using assms(7,8) n new_id_ok unfolding coherent_def unused_id_def by (cases cache) auto
  then have "table_ready bs ?u"
    using h(2-4) b(2,3) assms(2-4) unfolding table_ready_def table_on_def by (auto intro!: exI [of _ fb])
  ultimately show ?thesis by blast
qed

section \<open>The whole table\<close>

lemma laid_out_opens:
  assumes "good file" and "laid_out es (contents file)" and "length (contents file) < 2 ^ 32"
    and "\<And>g. sublist g (map fst es) \<Longrightarrow> ok g" and "unused_id cache cached c" and "cache \<noteq> None \<longrightarrow> cache_ok c"
  shows "\<exists>t bs. Table_Open options read cache file (of_nat (length (contents file))) c = Some (Status_OK, Some t) \<and>
    concat bs = es \<and> table_ready bs t"
proof -
  obtain bs fb where "concat bs = es" "[] \<notin> set bs" "contents file = table_bytes options bs fb" "filter_built bs fb"
    using assms(2) by (auto simp: laid_out_def filter_built_def)
  then show ?thesis using Table_Open_ready [OF assms(1) _ assms(3)] assms(4-6) by blast
qed

lemma ready_iterator:
  assumes "table_ready bs t"
  shows "\<exists>it. Table_NewIterator options t = Some it \<and> tl_opened (concat bs) it"
proof -
  obtain fb i where "table_on bs fb t" "Block_NewIterator (tbl_index_block t) = Some i"
    "block_opened (index_entries options bs (length bs)) i" using assms by (auto simp: table_ready_def)
  then show ?thesis
    using NewTwoLevelIterator_opened [of t bs "index_entries options bs (length bs)" i] unfolding table_serves_def
    by (auto simp: Table_NewIterator_def)
qed

text \<open>The entries that are not before the key, and what a lookup makes of them.\<close>

definition get_result :: "entries \<Rightarrow> slice \<Rightarrow> (slice \<times> slice) option \<Rightarrow> bool" where
  "get_result es k res \<longleftrightarrow> (let rest = dropWhile (\<lambda>e. cmp (fst e) k < 0) es in
     (res = None \<or> rest \<noteq> [] \<and> res = Some (hd rest)) \<and> (rest \<noteq> [] \<and> same (fst (hd rest)) k \<longrightarrow> res = Some (hd rest)))"

lemma laid_out_reads:
  assumes "good file" and "laid_out es (contents file)" and "length (contents file) < 2 ^ 32"
    and "\<And>g. sublist g (map fst es) \<Longrightarrow> ok g" and "unused_id cache cached c" and "cache \<noteq> None \<longrightarrow> cache_ok c"
    and "increasing valid cmp es" and "length es < n"
  defines "vt \<equiv> Table_Iter options read cache ro"
  shows "\<exists>t it. Table_Open options read cache file (of_nat (length (contents file))) c = Some (Status_OK, Some t) \<and>
    Table_NewIterator options t = Some it \<and>
    (vt_SeekToFirst vt it \<bind> iter_walk vt (vt_Next vt) n) = Some es \<and>
    (vt_SeekToLast vt it \<bind> iter_walk vt (vt_Prev vt) (Suc n)) = Some (rev es) \<and>
    (\<forall>k. valid k \<longrightarrow> (vt_Seek vt k it \<bind> iter_walk vt (vt_Next vt) n) = Some (dropWhile (\<lambda>e. cmp (fst e) k < 0) es) \<and>
      (\<exists>res t'. InternalGet options read cache ro k t = Some (Status_OK, res, t') \<and> get_result es k res))"
proof -
  obtain t bs where t: "Table_Open options read cache file (of_nat (length (contents file))) c = Some (Status_OK, Some t)"
    "concat bs = es" "table_ready bs t"
    using laid_out_opens [OF assms(1-3) _ assms(5,6)] assms(4) by blast
  obtain it where it: "Table_NewIterator options t = Some it" "tl_opened es it" using ready_iterator [OF t(3)] t(2) by blast
  have vt: "vt = TwoLevel_Iter (Block_Iter cmp) (Block_Iter cmp) (BlockReader read cache ro)" by (simp add: vt_def Table_Iter_def)
  have first: "\<exists>it'. vt_SeekToFirst vt it = Some it' \<and> tl_on es 0 it'" unfolding vt by (rule first_on [OF it(2)])
  have last: "\<exists>it'. vt_SeekToLast vt it = Some it' \<and> tl_on es (length es - 1) it'" unfolding vt by (rule last_on [OF it(2)])
  have "(vt_SeekToFirst vt it \<bind> iter_walk vt (vt_Next vt) n) = Some es"
    using first walk_next [of es 0] assms(8) unfolding vt by auto
  moreover have "(vt_SeekToLast vt it \<bind> iter_walk vt (vt_Prev vt) (Suc n)) = Some (rev es)"
  proof -
    obtain b where b: "vt_SeekToLast vt it = Some b" "tl_on es (length es - 1) b" using last by blast
    show ?thesis
    proof (cases "es = []")
      case True
      then show ?thesis using b on_Valid [of es _ b] unfolding vt by simp
    next
      case False
      then show ?thesis using b walk_prev [OF b(2), of "Suc n"] assms(8) unfolding vt by simp
    qed
  qed
  moreover have "(vt_Seek vt k it \<bind> iter_walk vt (vt_Next vt) n) = Some (dropWhile (\<lambda>e. cmp (fst e) k < 0) es)" if "valid k" for k
    using walks(3) [OF it(2) assms(7) that assms(8)] unfolding vt .
  moreover have "\<exists>res t'. InternalGet options read cache ro k t = Some (Status_OK, res, t') \<and> get_result es k res" if "valid k" for k
    using InternalGet_finds [OF t(3) _ that] assms(7) t(2) unfolding get_result_def Let_def by blast
  ultimately show ?thesis using t(1) it(1) by blast
qed

end

end
