(* ===== verification/Ldb_Table_Options.thy ===== *)
theory Ldb_Table_Options
  imports Ldb_Table_Get
begin

text \<open>
  The options that tables are written and read with: the defaults (\<open>include/leveldb/options.h\<close>), the
  Bloom filter as a policy, and the options of the database, whose tables hold internal keys
  (\<open>SanitizeOptions\<close> in \<open>db/db_impl.cc\<close>).  Both kinds meet the contract of tables.
\<close>

section \<open>Options\<close>

definition Options_new :: TableOptions where
  "Options_new =
     \<lparr>op_Compare = Slice_compare, op_FindShortestSeparator = Bytewise_FindShortestSeparator,
      op_FindShortSuccessor = Bytewise_FindShortSuccessor, op_block_size = 4 * 1024, op_restart_interval = 16,
      op_compression = kSnappyCompression, op_filter_policy = None, op_paranoid_checks = False\<rparr>"

definition ReadOptions_new :: ReadOptions where
  "ReadOptions_new = \<lparr>ro_verify_checksums = False, ro_fill_cache = True\<rparr>"

definition NewBloomFilterPolicy :: "BloomFilterPolicy \<Rightarrow> FilterPolicy" where
  "NewBloomFilterPolicy p = user_policy (bytes ''leveldb.BuiltinBloomFilter2'') (Bloom_CreateFilter p) Bloom_KeyMayMatch"

definition InternalFilterPolicy :: "FilterPolicy \<Rightarrow> FilterPolicy" where
  "InternalFilterPolicy policy = internal_policy (fp_Name policy) (fp_CreateFilter policy) (fp_KeyMayMatch policy)"

text \<open>The bounds are of type \<open>int\<close>, and so is the value that is compared with them.\<close>

definition ClipToRange :: "size_t \<Rightarrow> u32 \<Rightarrow> u32 \<Rightarrow> size_t" where
  "ClipToRange v minvalue maxvalue =
     (let v = (if maxvalue <s (ucast v :: u32) then scast maxvalue else v)
      in if (ucast v :: u32) <s minvalue then scast minvalue else v)"

definition SanitizeOptions :: "TableOptions \<Rightarrow> TableOptions" where
  "SanitizeOptions src =
     src\<lparr>op_Compare := InternalKey_Compare (op_Compare src),
         op_FindShortestSeparator := InternalKey_FindShortestSeparator (op_Compare src) (op_FindShortestSeparator src),
         op_FindShortSuccessor := InternalKey_FindShortSuccessor (op_Compare src) (op_FindShortSuccessor src),
         op_filter_policy := map_option InternalFilterPolicy (op_filter_policy src),
         op_block_size := unat (ClipToRange (of_nat (op_block_size src)) (push_bit 10 1) (push_bit 20 4))\<rparr>"

section \<open>They meet the contract of tables\<close>

context user_comparator
begin

text \<open>A key between \<open>a\<close> and its separator from \<open>b\<close> is not \<open>b\<close>, and does not have its user key.\<close>

lemma user_gap:
  assumes "valid a" "valid b" "valid t" and "cmp t (separator a b) \<le> 0" and "cmp a b < 0"
  shows "b \<noteq> t"
proof -
  have "cmp t b < 0"
    using cmp_le_less_trans [OF assms(3) valid_separator [OF assms(1,2)] assms(2,4)] separator_less [OF assms(1,2,5)] by simp
  then show ?thesis using cmp_self [OF assms(2)] by auto
qed

lemma internal_gap:
  assumes "ivalid a" "ivalid b" "ivalid t" and "InternalKey_Compare cmp a t < 0"
    and "InternalKey_Compare cmp t (InternalKey_FindShortestSeparator cmp separator a b) \<le> 0"
  shows "ExtractUserKey b \<noteq> ExtractUserKey t"
  using isep [OF assms(1,2)]
proof
  assume "InternalKey_FindShortestSeparator cmp separator a b = a"
  then have "InternalKey_Compare cmp t a \<le> 0" using assms(5) by simp
  then show ?thesis using assms(4) internal.cmp_swap [OF assms(1,3)] by linarith
next
  let ?u = ExtractUserKey
  assume s: "cmp (?u a) (?u b) < 0 \<and> (\<exists>tmp. tmp = separator (?u a) (?u b) \<and> cmp (?u a) tmp < 0 \<and>
      InternalKey_FindShortestSeparator cmp separator a b = PutFixed64 tmp (PackSequenceAndType kMaxSequenceNumber kValueTypeForSeek))"
  then obtain tmp where tmp: "tmp = separator (?u a) (?u b)"
    "InternalKey_FindShortestSeparator cmp separator a b = PutFixed64 tmp (PackSequenceAndType kMaxSequenceNumber kValueTypeForSeek)"
    by blast
  have v: "valid (?u a)" "valid (?u b)" "valid (?u t)" using assms(1-3) by (simp_all add: ivalid_def)
  have "ivalid (InternalKey_FindShortestSeparator cmp separator a b)" by (rule internal.valid_separator [OF assms(1,2)])
  from icmp(2) [OF assms(3) this] assms(5) have "\<not> cmp tmp (?u t) < 0" unfolding tmp(2) by auto
  then have "cmp (?u t) tmp \<le> 0" using cmp_swap [of tmp "?u t"] valid_separator [OF v(1,2)] v(3) tmp(1) cmp_total [of tmp "?u t"]
    by (cases "tmp = ?u t") auto
  then show ?thesis using user_gap [OF v] s unfolding tmp(1) by blast
qed

end

text \<open>Options with the bytewise comparator, and the Bloom filter if there is a filter.\<close>

locale bytewise_options =
  fixes options :: TableOptions
    and bloom :: "BloomFilterPolicy option"
  assumes comparator_bytewise: "op_Compare options = Slice_compare"
      "op_FindShortestSeparator options = Bytewise_FindShortestSeparator"
      "op_FindShortSuccessor options = Bytewise_FindShortSuccessor"
    and filter_bloom: "op_filter_policy options = map_option NewBloomFilterPolicy bloom"
    and restart_interval: "0 < op_restart_interval options"

definition bloom_ok :: "BloomFilterPolicy option \<Rightarrow> slice list \<Rightarrow> bool" where
  "bloom_ok bloom keys \<longleftrightarrow> (\<forall>p. bloom = Some p \<longrightarrow> bloom_size_ok p keys)"

lemma bloom_ok_sublist: "bloom_ok bloom keys \<Longrightarrow> sublist g keys \<Longrightarrow> bloom_ok bloom g"
proof -
  assume ok: "bloom_ok bloom keys" and "sublist g keys"
  then have "length g \<le> length keys" by (simp add: sublist_length_le)
  then have "length g * n \<le> length keys * n" for n by simp
  then show ?thesis using ok le_less_trans unfolding bloom_ok_def bloom_size_ok_def by blast
qed

context bytewise_options
begin

lemma user_table_options: "table_options options (\<lambda>_. True) (bloom_ok bloom) (=)"
proof (intro table_options.intro table_options_axioms.intro)
  show "comparator (\<lambda>_. True) (op_Compare options) (op_FindShortestSeparator options) (op_FindShortSuccessor options)"
    unfolding comparator_bytewise by (rule bytewise.comparator_axioms)
  show "0 < op_restart_interval options" by (rule restart_interval)
  show "matching_policy (bloom_ok bloom) policy (=)" if f: "op_filter_policy options = Some policy" for policy
  proof -
    obtain p where p: "bloom = Some p" "policy = NewBloomFilterPolicy p" using filter_bloom f by (cases bloom) auto
    have "bloom_ok bloom = bloom_size_ok p" by (rule ext) (simp add: bloom_ok_def p(1))
    then show ?thesis using bloom.user.matching_policy_axioms by (simp add: p(2) NewBloomFilterPolicy_def)
  qed
  show "b \<noteq> t" if "op_Compare options t (op_FindShortestSeparator options a b) \<le> 0" "op_Compare options a b < 0" for a b t
    using that bytewise.user_gap [where a = a and b = b and t = t] unfolding comparator_bytewise by simp
qed

lemma db_table_options:
  "table_options (SanitizeOptions options) bytewise.ivalid (\<lambda>keys. bloom_ok bloom (map ExtractUserKey keys))
     (\<lambda>a b. ExtractUserKey a = ExtractUserKey b)"
proof (intro table_options.intro table_options_axioms.intro)
  have c: "op_Compare (SanitizeOptions options) = InternalKey_Compare Slice_compare"
    "op_FindShortestSeparator (SanitizeOptions options)
      = InternalKey_FindShortestSeparator Slice_compare Bytewise_FindShortestSeparator"
    "op_FindShortSuccessor (SanitizeOptions options) = InternalKey_FindShortSuccessor Slice_compare Bytewise_FindShortSuccessor"
    by (simp_all add: SanitizeOptions_def comparator_bytewise)
  show "comparator bytewise.ivalid (op_Compare (SanitizeOptions options)) (op_FindShortestSeparator (SanitizeOptions options))
      (op_FindShortSuccessor (SanitizeOptions options))"
    unfolding c by (rule bytewise.internal_comparator)
  show "0 < op_restart_interval (SanitizeOptions options)" using restart_interval by (simp add: SanitizeOptions_def)
  show "matching_policy (\<lambda>keys. bloom_ok bloom (map ExtractUserKey keys)) policy (\<lambda>a b. ExtractUserKey a = ExtractUserKey b)"
    if f: "op_filter_policy (SanitizeOptions options) = Some policy" for policy
  proof -
    obtain p where p: "bloom = Some p" "policy = InternalFilterPolicy (NewBloomFilterPolicy p)"
      using filter_bloom f by (auto simp: SanitizeOptions_def)
    have "bloom_ok bloom = bloom_size_ok p" by (rule ext) (simp add: bloom_ok_def p(1))
    then show ?thesis
      using bloom.internal.matching_policy_axioms by (simp add: p(2) NewBloomFilterPolicy_def InternalFilterPolicy_def user_policy_def)
  qed
  show "ExtractUserKey b \<noteq> ExtractUserKey t"
    if "bytewise.ivalid a" "bytewise.ivalid b" "bytewise.ivalid t" "op_Compare (SanitizeOptions options) a t < 0"
      "op_Compare (SanitizeOptions options) t (op_FindShortestSeparator (SanitizeOptions options) a b) \<le> 0" for a b t
    using that bytewise.internal_gap [of a b t] unfolding c by simp
qed

end

sublocale bytewise_options \<subseteq> user: table_options options "\<lambda>_. True" "bloom_ok bloom" "(=)"
  by (rule user_table_options)

sublocale bytewise_options \<subseteq> db: table_options "SanitizeOptions options" bytewise.ivalid
  "\<lambda>keys. bloom_ok bloom (map ExtractUserKey keys)" "\<lambda>a b. ExtractUserKey a = ExtractUserKey b"
  by (rule db_table_options)

text \<open>The default options, with any number of bits for a key of the filter.\<close>

interpretation default_options: bytewise_options
  "Options_new\<lparr>op_filter_policy := map_option NewBloomFilterPolicy bloom\<rparr>" bloom for bloom
  by unfold_locales (simp_all add: Options_new_def)

end
