(* ===== verification/Ldb_Cache.thy ===== *)
theory Ldb_Cache
  imports Ldb_Bloom "HOL-Library.Monad_Syntax"
begin

text \<open>
  The cache of leveldb (\<open>util/cache.cc\<close>): a hash table of handles, a cache that evicts the entry used
  least recently, and sixteen of these behind one interface.

  Handles are addresses.  A bucket of the table, and the two circular lists of the cache, are the lists of
  the addresses met along \<open>next_hash\<close> and, from the oldest entry to the newest, along \<open>next\<close>.
\<close>

section \<open>Handles\<close>

record 'v LRUHandle =
  lh_value :: 'v
  lh_charge :: size_t
  lh_key :: slice
  lh_in_cache :: bool
  lh_refs :: u32
  lh_hash :: u32

section \<open>The table of handles\<close>

record HandleTable =
  ht_length :: u32
  ht_elems :: u32
  ht_list :: "nat list list"

definition ht_slot :: "u32 \<Rightarrow> u32 \<Rightarrow> nat" where
  "ht_slot n hash = unat (hash AND (n - 1))"

text \<open>The chain of a slot, before and from the pointer that is returned.\<close>

definition ht_FindPointer :: "(nat \<Rightarrow> 'v LRUHandle) \<Rightarrow> slice \<Rightarrow> u32 \<Rightarrow> HandleTable \<Rightarrow> nat list \<times> nat list" where
  "ht_FindPointer mem key hash t =
     (let chain = ht_list t ! ht_slot (ht_length t) hash;
          other = (\<lambda>h. lh_hash (mem h) \<noteq> hash \<or> key \<noteq> lh_key (mem h))
      in (takeWhile other chain, dropWhile other chain))"

definition ht_Lookup :: "(nat \<Rightarrow> 'v LRUHandle) \<Rightarrow> slice \<Rightarrow> u32 \<Rightarrow> HandleTable \<Rightarrow> nat option" where
  "ht_Lookup mem key hash t =
     (case ht_FindPointer mem key hash t of (_, []) \<Rightarrow> None | (_, h # _) \<Rightarrow> Some h)"

text \<open>\<open>None\<close>: the loop does not end.\<close>

partial_function (option) ht_grow :: "u32 \<Rightarrow> u32 \<Rightarrow> u32 option" where
  "ht_grow elems new_length = (if new_length < elems then ht_grow elems (new_length * 2) else Some new_length)"

definition ht_Resize :: "(nat \<Rightarrow> 'v LRUHandle) \<Rightarrow> HandleTable \<Rightarrow> HandleTable option" where
  "ht_Resize mem t = do {
     new_length \<leftarrow> ht_grow (ht_elems t) 4;
     let move = (\<lambda>new_list h. let i = ht_slot new_length (lh_hash (mem h)) in new_list[i := h # new_list ! i]);
     let new_list = foldl move (replicate (unat new_length) []) (concat (take (unat (ht_length t)) (ht_list t)));
     Some (t\<lparr>ht_length := new_length, ht_list := new_list\<rparr>) }"

definition HandleTable_new :: "(nat \<Rightarrow> 'v LRUHandle) \<Rightarrow> HandleTable option" where
  "HandleTable_new mem = ht_Resize mem \<lparr>ht_length = 0, ht_elems = 0, ht_list = []\<rparr>"

definition ht_Insert :: "(nat \<Rightarrow> 'v LRUHandle) \<Rightarrow> nat \<Rightarrow> HandleTable \<Rightarrow> (nat option \<times> HandleTable) option" where
  "ht_Insert mem h t =
     (let hash = lh_hash (mem h); i = ht_slot (ht_length t) hash
      in case ht_FindPointer mem (lh_key (mem h)) hash t of
           (before, old # next_hash) \<Rightarrow> Some (Some old, t\<lparr>ht_list := (ht_list t)[i := before @ h # next_hash]\<rparr>)
         | (before, []) \<Rightarrow>
             (let t = t\<lparr>ht_list := (ht_list t)[i := before @ [h]], ht_elems := ht_elems t + 1\<rparr>
              in if ht_length t < ht_elems t then map_option (\<lambda>t. (None, t)) (ht_Resize mem t) else Some (None, t)))"

definition ht_Remove :: "(nat \<Rightarrow> 'v LRUHandle) \<Rightarrow> slice \<Rightarrow> u32 \<Rightarrow> HandleTable \<Rightarrow> nat option \<times> HandleTable" where
  "ht_Remove mem key hash t =
     (case ht_FindPointer mem key hash t of
        (before, result # next_hash) \<Rightarrow>
          (Some result, t\<lparr>ht_list := (ht_list t)[ht_slot (ht_length t) hash := before @ next_hash],
                          ht_elems := ht_elems t - 1\<rparr>)
      | (before, []) \<Rightarrow> (None, t))"

section \<open>One cache\<close>

text \<open>
  The memory of its handles, with the address that \<open>malloc\<close> gives next, is part of the state, and so are
  the calls of deleters.
\<close>

record 'v LRUCache =
  lc_capacity :: size_t
  lc_usage :: size_t
  lc_lru :: "nat list"
  lc_in_use :: "nat list"
  lc_table :: HandleTable
  lc_memory :: "nat \<Rightarrow> 'v LRUHandle option"
  lc_fresh :: nat
  lc_deleted :: "(slice \<times> 'v) list"

definition lc_at :: "'v LRUCache \<Rightarrow> nat \<Rightarrow> 'v LRUHandle" where
  "lc_at c e = the (lc_memory c e)"

definition lc_set :: "nat \<Rightarrow> 'v LRUHandle \<Rightarrow> 'v LRUCache \<Rightarrow> 'v LRUCache" where
  "lc_set e h c = c\<lparr>lc_memory := (lc_memory c)(e := Some h)\<rparr>"

definition LRUCache_new :: "'v LRUCache option" where
  "LRUCache_new = do {
     table \<leftarrow> HandleTable_new (\<lambda>_. undefined :: 'v LRUHandle);
     Some \<lparr>lc_capacity = 0, lc_usage = 0, lc_lru = [], lc_in_use = [], lc_table = table,
           lc_memory = (\<lambda>_. None), lc_fresh = 0, lc_deleted = []\<rparr> }"

definition LRU_SetCapacity :: "size_t \<Rightarrow> 'v LRUCache \<Rightarrow> 'v LRUCache" where
  "LRU_SetCapacity capacity c = c\<lparr>lc_capacity := capacity\<rparr>"

definition LRU_Remove :: "nat \<Rightarrow> 'v LRUCache \<Rightarrow> 'v LRUCache" where
  "LRU_Remove e c = c\<lparr>lc_lru := removeAll e (lc_lru c), lc_in_use := removeAll e (lc_in_use c)\<rparr>"

definition LRU_Append_in_use :: "nat \<Rightarrow> 'v LRUCache \<Rightarrow> 'v LRUCache" where
  "LRU_Append_in_use e c = c\<lparr>lc_in_use := lc_in_use c @ [e]\<rparr>"

definition LRU_Append_lru :: "nat \<Rightarrow> 'v LRUCache \<Rightarrow> 'v LRUCache" where
  "LRU_Append_lru e c = c\<lparr>lc_lru := lc_lru c @ [e]\<rparr>"

text \<open>\<open>None\<close> in what follows: a handle that has been freed is used, or a loop does not end.\<close>

definition LRU_Ref :: "nat \<Rightarrow> 'v LRUCache \<Rightarrow> 'v LRUCache option" where
  "LRU_Ref e c = do {
     h \<leftarrow> lc_memory c e;
     let c = (if lh_refs h = 1 \<and> lh_in_cache h then LRU_Append_in_use e (LRU_Remove e c) else c);
     Some (lc_set e (h\<lparr>lh_refs := lh_refs h + 1\<rparr>) c) }"

definition LRU_Unref :: "nat \<Rightarrow> 'v LRUCache \<Rightarrow> 'v LRUCache option" where
  "LRU_Unref e c = do {
     h \<leftarrow> lc_memory c e;
     let h = h\<lparr>lh_refs := lh_refs h - 1\<rparr>;
     let c = lc_set e h c;
     Some (if lh_refs h = 0
           then c\<lparr>lc_deleted := lc_deleted c @ [(lh_key h, lh_value h)], lc_memory := (lc_memory c)(e := None)\<rparr>
           else if lh_in_cache h \<and> lh_refs h = 1 then LRU_Append_lru e (LRU_Remove e c)
           else c) }"

text \<open>Removes an entry that is no longer in the table.\<close>

definition LRU_FinishErase :: "nat option \<Rightarrow> 'v LRUCache \<Rightarrow> 'v LRUCache option" where
  "LRU_FinishErase result c =
     (case result of
        None \<Rightarrow> Some c
      | Some e \<Rightarrow> do {
          h \<leftarrow> lc_memory c e;
          let c = lc_set e (h\<lparr>lh_in_cache := False\<rparr>) (LRU_Remove e c);
          LRU_Unref e (c\<lparr>lc_usage := lc_usage c - lh_charge h\<rparr>) })"

definition LRU_Lookup :: "slice \<Rightarrow> u32 \<Rightarrow> 'v LRUCache \<Rightarrow> (nat option \<times> 'v LRUCache) option" where
  "LRU_Lookup key hash c =
     (case ht_Lookup (lc_at c) key hash (lc_table c) of
        None \<Rightarrow> Some (None, c)
      | Some e \<Rightarrow> do { c \<leftarrow> LRU_Ref e c; Some (Some e, c) })"

definition LRU_Release :: "nat \<Rightarrow> 'v LRUCache \<Rightarrow> 'v LRUCache option" where
  "LRU_Release e c = LRU_Unref e c"

definition LRU_Erase :: "slice \<Rightarrow> u32 \<Rightarrow> 'v LRUCache \<Rightarrow> 'v LRUCache option" where
  "LRU_Erase key hash c =
     (case ht_Remove (lc_at c) key hash (lc_table c) of
        (result, table) \<Rightarrow> LRU_FinishErase result (c\<lparr>lc_table := table\<rparr>))"

text \<open>Removes the oldest entry that is not in use, from the table and from the cache.\<close>

definition LRU_evict :: "nat \<Rightarrow> 'v LRUCache \<Rightarrow> 'v LRUCache option" where
  "LRU_evict old c = do { h \<leftarrow> lc_memory c old; LRU_Erase (lh_key h) (lh_hash h) c }"

partial_function (option) LRU_shrink :: "'v LRUCache \<Rightarrow> 'v LRUCache option" where
  "LRU_shrink c =
     (case lc_lru c of
        [] \<Rightarrow> Some c
      | old # _ \<Rightarrow> if lc_capacity c < lc_usage c then LRU_evict old c \<bind> LRU_shrink else Some c)"

definition LRU_Insert :: "slice \<Rightarrow> u32 \<Rightarrow> 'v \<Rightarrow> size_t \<Rightarrow> 'v LRUCache \<Rightarrow> (nat \<times> 'v LRUCache) option" where
  "LRU_Insert key hash v charge c = do {
     let e = lc_fresh c;
     let h = \<lparr>lh_value = v, lh_charge = charge, lh_key = key, lh_in_cache = False, lh_refs = 1, lh_hash = hash\<rparr>;
     let c = lc_set e h (c\<lparr>lc_fresh := e + 1\<rparr>);
     c \<leftarrow> (if 0 < lc_capacity c
           then do {
             let c = LRU_Append_in_use e (lc_set e (h\<lparr>lh_refs := lh_refs h + 1, lh_in_cache := True\<rparr>) c);
             let c = c\<lparr>lc_usage := lc_usage c + charge\<rparr>;
             (old, table) \<leftarrow> ht_Insert (lc_at c) e (lc_table c);
             LRU_FinishErase old (c\<lparr>lc_table := table\<rparr>) }
           else Some c);
     c \<leftarrow> LRU_shrink c;
     Some (e, c) }"

partial_function (option) LRU_Prune :: "'v LRUCache \<Rightarrow> 'v LRUCache option" where
  "LRU_Prune c = (case lc_lru c of [] \<Rightarrow> Some c | e # _ \<Rightarrow> LRU_evict e c \<bind> LRU_Prune)"

definition LRU_TotalCharge :: "'v LRUCache \<Rightarrow> size_t" where
  "LRU_TotalCharge c = lc_usage c"

section \<open>Sixteen caches\<close>

definition kNumShardBits :: nat where
  "kNumShardBits = 4"

definition kNumShards :: nat where
  "kNumShards = 2 ^ kNumShardBits"

record 'v ShardedLRUCache =
  sc_shard :: "'v LRUCache list"
  sc_last_id :: u64

definition HashSlice :: "slice \<Rightarrow> u32" where
  "HashSlice s = Hash s 0"

definition Shard :: "u32 \<Rightarrow> nat" where
  "Shard hash = unat (drop_bit (32 - kNumShardBits) hash)"

definition NewLRUCache :: "size_t \<Rightarrow> 'v ShardedLRUCache option" where
  "NewLRUCache capacity = do {
     shard \<leftarrow> LRUCache_new;
     let per_shard = (capacity + of_nat (kNumShards - 1)) div of_nat kNumShards;
     Some \<lparr>sc_shard = replicate kNumShards (LRU_SetCapacity per_shard shard), sc_last_id = 0\<rparr> }"

text \<open>Each shard has a memory of its own, so a handle of the whole is one of a shard.\<close>

type_synonym handle = "nat \<times> nat"

definition Cache_Insert :: "slice \<Rightarrow> 'v \<Rightarrow> size_t \<Rightarrow> 'v ShardedLRUCache \<Rightarrow> (handle \<times> 'v ShardedLRUCache) option" where
  "Cache_Insert key v charge c = do {
     let hash = HashSlice key;
     let s = Shard hash;
     (e, shard) \<leftarrow> LRU_Insert key hash v charge (sc_shard c ! s);
     Some ((s, e), c\<lparr>sc_shard := (sc_shard c)[s := shard]\<rparr>) }"

definition Cache_Lookup :: "slice \<Rightarrow> 'v ShardedLRUCache \<Rightarrow> (handle option \<times> 'v ShardedLRUCache) option" where
  "Cache_Lookup key c = do {
     let hash = HashSlice key;
     let s = Shard hash;
     (e, shard) \<leftarrow> LRU_Lookup key hash (sc_shard c ! s);
     Some (map_option (Pair s) e, c\<lparr>sc_shard := (sc_shard c)[s := shard]\<rparr>) }"

definition handle_at :: "handle \<Rightarrow> 'v ShardedLRUCache \<Rightarrow> 'v LRUHandle option" where
  "handle_at h c = lc_memory (sc_shard c ! fst h) (snd h)"

definition Cache_Release :: "handle \<Rightarrow> 'v ShardedLRUCache \<Rightarrow> 'v ShardedLRUCache option" where
  "Cache_Release handle c = do {
     h \<leftarrow> handle_at handle c;
     let s = Shard (lh_hash h);
     shard \<leftarrow> LRU_Release (snd handle) (sc_shard c ! s);
     Some (c\<lparr>sc_shard := (sc_shard c)[s := shard]\<rparr>) }"

definition Cache_Erase :: "slice \<Rightarrow> 'v ShardedLRUCache \<Rightarrow> 'v ShardedLRUCache option" where
  "Cache_Erase key c = do {
     let hash = HashSlice key;
     let s = Shard hash;
     shard \<leftarrow> LRU_Erase key hash (sc_shard c ! s);
     Some (c\<lparr>sc_shard := (sc_shard c)[s := shard]\<rparr>) }"

definition Cache_Value :: "handle \<Rightarrow> 'v ShardedLRUCache \<Rightarrow> 'v option" where
  "Cache_Value h c = map_option lh_value (handle_at h c)"

definition Cache_NewId :: "'v ShardedLRUCache \<Rightarrow> u64 \<times> 'v ShardedLRUCache" where
  "Cache_NewId c = (let n = sc_last_id c + 1 in (n, c\<lparr>sc_last_id := n\<rparr>))"

fun prune_all :: "'v LRUCache list \<Rightarrow> 'v LRUCache list option" where
  "prune_all [] = Some []"
| "prune_all (s # ss) = do { s \<leftarrow> LRU_Prune s; ss \<leftarrow> prune_all ss; Some (s # ss) }"

definition Cache_Prune :: "'v ShardedLRUCache \<Rightarrow> 'v ShardedLRUCache option" where
  "Cache_Prune c = map_option (\<lambda>ss. c\<lparr>sc_shard := ss\<rparr>) (prune_all (sc_shard c))"

definition Cache_TotalCharge :: "'v ShardedLRUCache \<Rightarrow> size_t" where
  "Cache_TotalCharge c = sum_list (map LRU_TotalCharge (sc_shard c))"

end
