(* ===== verification/Ldb_Handle_Table.thy ===== *)
theory Ldb_Handle_Table
  imports Ldb_Cache "HOL-Library.Multiset"
begin

text \<open>
  The hash table of handles holds a set of them, each in the chain of its hash and no two with the same
  key and hash, and resizing keeps it.
\<close>

section \<open>Slots\<close>

lemma ht_slot_mod: "k < 32 \<Longrightarrow> ht_slot (2 ^ k) hash = unat hash mod 2 ^ k"
proof -
  assume "k < 32"
  have "hash AND (2 ^ k - 1) = take_bit k hash" by (simp only: take_bit_eq_mask mask_eq_exp_minus_1)
  then have "ht_slot (2 ^ k) hash = take_bit k (unat hash)" by (simp only: ht_slot_def unsigned_take_bit_eq)
  then show ?thesis by (simp only: take_bit_eq_mod)
qed

lemma unat_power_two: "k < 32 \<Longrightarrow> unat (2 ^ k :: u32) = 2 ^ k"
proof -
  assume "k < 32"
  then have "(2 :: nat) ^ k < 2 ^ 32" by (intro power_strict_increasing) simp_all
  then have "unat (of_nat (2 ^ k) :: u32) = 2 ^ k" unfolding unat_of_nat_mod by simp
  then show ?thesis by simp
qed

lemma ht_slot_less: "k < 32 \<Longrightarrow> ht_slot (2 ^ k) hash < unat (2 ^ k :: u32)"
  by (simp add: ht_slot_mod unat_power_two)

section \<open>The invariant\<close>

definition table_ok :: "(nat \<Rightarrow> 'v LRUHandle) \<Rightarrow> HandleTable \<Rightarrow> nat set \<Rightarrow> bool" where
  "table_ok mem t as \<longleftrightarrow> finite as \<and> (\<exists>k < 32. ht_length t = 2 ^ k) \<and> length (ht_list t) = unat (ht_length t) \<and>
     mset (concat (ht_list t)) = mset_set as \<and> unat (ht_elems t) = card as \<and> card as \<le> unat (ht_length t) \<and>
     (\<forall>i < length (ht_list t). \<forall>a \<in> set (ht_list t ! i). ht_slot (ht_length t) (lh_hash (mem a)) = i) \<and>
     inj_on (\<lambda>a. (lh_hash (mem a), lh_key (mem a))) as"

text \<open>Only the keys and hashes of its handles matter.\<close>

lemma table_ok_cong:
  assumes "\<And>a. a \<in> as \<Longrightarrow> lh_hash (mem a) = lh_hash (mem' a) \<and> lh_key (mem a) = lh_key (mem' a)" and "table_ok mem t as"
  shows "table_ok mem' t as"
proof -
  have m: "mset (concat (ht_list t)) = mset_set as" and f: "finite as" using assms(2) by (simp_all add: table_ok_def)
  have "set (concat (ht_list t)) = as" using arg_cong [OF m, of set_mset] f by simp
  then have mem: "a \<in> as" if "i < length (ht_list t)" "a \<in> set (ht_list t ! i)" for a i
    using that nth_mem [OF that(1)] by auto
  have "\<forall>i < length (ht_list t). \<forall>a \<in> set (ht_list t ! i). ht_slot (ht_length t) (lh_hash (mem' a)) = i"
    using assms(2) assms(1) [OF mem] unfolding table_ok_def by metis
  moreover have "inj_on (\<lambda>a. (lh_hash (mem' a), lh_key (mem' a))) as \<longleftrightarrow> inj_on (\<lambda>a. (lh_hash (mem a), lh_key (mem a))) as"
    using assms(1) by (intro inj_on_cong) simp
  ultimately show ?thesis using assms(2) unfolding table_ok_def by blast
qed

lemma table_okD:
  assumes "table_ok mem t as"
  shows "set (concat (ht_list t)) = as" and "distinct (concat (ht_list t))"
    and "ht_slot (ht_length t) hash < length (ht_list t)"
    and "a \<in> as \<Longrightarrow> a \<in> set (ht_list t ! ht_slot (ht_length t) (lh_hash (mem a)))"
    and "a \<in> as \<Longrightarrow> b \<in> as \<Longrightarrow> lh_hash (mem a) = lh_hash (mem b) \<Longrightarrow> lh_key (mem a) = lh_key (mem b) \<Longrightarrow> a = b"
proof -
  have m: "mset (concat (ht_list t)) = mset_set as" and f: "finite as" using assms by (simp_all add: table_ok_def)
  show s: "set (concat (ht_list t)) = as" using arg_cong [OF m, of set_mset] f by simp
  show "distinct (concat (ht_list t))"
    using m f by (simp add: distinct_count_atmost_1 s del: set_concat)
  show "ht_slot (ht_length t) hash < length (ht_list t)" using assms ht_slot_less by (auto simp: table_ok_def)
  show "a \<in> set (ht_list t ! ht_slot (ht_length t) (lh_hash (mem a)))" if a: "a \<in> as"
  proof -
    from a s obtain c where "c \<in> set (ht_list t)" "a \<in> set c" by auto
    then obtain i where "i < length (ht_list t)" "a \<in> set (ht_list t ! i)" by (auto simp: in_set_conv_nth [of c])
    then show ?thesis using assms by (auto simp: table_ok_def)
  qed
  show "a \<in> as \<Longrightarrow> b \<in> as \<Longrightarrow> lh_hash (mem a) = lh_hash (mem b) \<Longrightarrow> lh_key (mem a) = lh_key (mem b) \<Longrightarrow> a = b"
    using assms by (auto simp: table_ok_def inj_on_def)
qed

text \<open>Replacing one chain.\<close>

lemma mset_concat_update:
  "i < length l \<Longrightarrow> mset (concat (l[i := c])) + mset (l ! i) = mset (concat l) + mset c"
proof (induction l arbitrary: i)
  case (Cons x l)
  then show ?case by (cases i) (simp_all add: ac_simps)
qed simp

section \<open>Resizing\<close>

lemmas ht_grow_induct = ht_grow.raw_induct [split_format (complete), rotated 1, consumes 1, case_names step]

lemma ht_grow_Some:
  assumes "ht_grow elems n = Some m"
  shows "elems \<le> m \<and> (n = 0 \<longrightarrow> elems = 0) \<and> ((\<exists>k < 32. n = 2 ^ k) \<longrightarrow> (\<exists>j < 32. m = 2 ^ j))"
  using assms
proof (induction rule: ht_grow_induct)
  case (step grow elems n m)
  show ?case
  proof (cases "n < elems")
    case True
    then have IH: "elems \<le> m" "n * 2 = 0 \<longrightarrow> elems = 0" "(\<exists>k < 32. n * 2 = 2 ^ k) \<longrightarrow> (\<exists>j < 32. m = 2 ^ j)"
      using step by auto
    have pos: "elems \<noteq> 0" using True by auto
    have "\<exists>j < 32. m = 2 ^ j" if k: "k < 32" "n = 2 ^ k" for k
    proof (cases "k = 31")
      case False
      then have "Suc k < 32 \<and> n * 2 = 2 ^ Suc k" using k by simp
      then show ?thesis using IH(3) by blast
    next
      case True
      then have "n * 2 = 0" using k(2) by simp
      then show ?thesis using IH(2) pos by blast
    qed
    moreover have "n \<noteq> 0" using IH(2) pos by auto
    ultimately show ?thesis using IH(1) by blast
  next
    case False
    then show ?thesis using step by (auto simp: word_gt_0)
  qed
qed

text \<open>It ends unless there are more than \<open>2\<^sup>3\<^sup>1\<close> handles.\<close>

lemma ht_grow_returns: "elems \<le> 2 ^ 31 \<Longrightarrow> k < 32 \<Longrightarrow> ht_grow elems (2 ^ k) \<noteq> None"
proof (induction "31 - k" arbitrary: k)
  case 0
  then have "k = 31" by simp
  then have "\<not> (2 :: u32) ^ k < elems" using 0 by (simp only: not_less)
  then show ?case by (subst ht_grow.simps) simp
next
  case (Suc d)
  then have "d = 31 - Suc k" "Suc k < 32" by simp_all
  then have "ht_grow elems (2 ^ Suc k) \<noteq> None" using Suc.hyps(1) Suc.prems(1) by blast
  then show ?case by (subst ht_grow.simps) (simp add: mult.commute)
qed

text \<open>Moving handles to the head of the chain of their slot.\<close>

definition ht_move :: "(nat \<Rightarrow> 'v LRUHandle) \<Rightarrow> u32 \<Rightarrow> nat list list \<Rightarrow> nat \<Rightarrow> nat list list" where
  "ht_move mem n l h = (let i = ht_slot n (lh_hash (mem h)) in l[i := h # l ! i])"

lemma ht_moves:
  assumes "n = 2 ^ k" and "k < 32" and "length l = unat n"
    and "\<forall>i < length l. \<forall>a \<in> set (l ! i). ht_slot n (lh_hash (mem a)) = i"
  shows "length (foldl (ht_move mem n) l hs) = unat n \<and>
    mset (concat (foldl (ht_move mem n) l hs)) = mset (concat l) + mset hs \<and>
    (\<forall>i < unat n. \<forall>a \<in> set (foldl (ht_move mem n) l hs ! i). ht_slot n (lh_hash (mem a)) = i)"
  using assms(3,4)
proof (induction hs arbitrary: l)
  case (Cons h hs)
  let ?i = "ht_slot n (lh_hash (mem h))"
  let ?l = "l[?i := h # l ! ?i]"
  have i: "?i < length l" using ht_slot_less [OF assms(2)] assms(1) Cons.prems(1) by simp
  have slots: "\<forall>i < length ?l. \<forall>a \<in> set (?l ! i). ht_slot n (lh_hash (mem a)) = i"
    using Cons.prems(2) i by (auto simp: nth_list_update)
  have len: "length ?l = unat n" using Cons.prems(1) by simp
  note IH = Cons.IH [OF len slots]
  have M: "mset (concat ?l) = add_mset h (mset (concat l))"
    using mset_concat_update [OF i, of "h # l ! ?i"] by simp
  have F: "foldl (ht_move mem n) l (h # hs) = foldl (ht_move mem n) ?l hs" by (simp add: ht_move_def Let_def)
  show ?case unfolding F using IH unfolding M mset.simps union_mset_add_mset_left union_mset_add_mset_right by blast
qed simp

text \<open>The invariant but for the number of slots.\<close>

lemma ht_Resize_ok:
  assumes "ht_Resize mem t = Some t'" and "length (ht_list t) = unat (ht_length t)"
    and "finite as" and "mset (concat (ht_list t)) = mset_set as" and "unat (ht_elems t) = card as"
    and "inj_on (\<lambda>a. (lh_hash (mem a), lh_key (mem a))) as"
  shows "table_ok mem t' as"
proof -
  obtain n where n: "ht_grow (ht_elems t) 4 = Some n"
    "t' = t\<lparr>ht_length := n, ht_list := foldl (ht_move mem n) (replicate (unat n) []) (concat (ht_list t))\<rparr>"
    using assms(1,2) by (auto simp: ht_Resize_def ht_move_def [abs_def] split: Option.bind_splits)
  have "\<exists>k < 32. (4 :: u32) = 2 ^ k" by (intro exI [of _ 2]) simp
  then obtain k where k: "n = 2 ^ k" "k < 32" and le: "ht_elems t \<le> n" using ht_grow_Some [OF n(1)] by blast
  have "mset (concat (replicate m [])) = ({#} :: nat multiset)" for m by (induction m) simp_all
  then show ?thesis
    using ht_moves [OF k, of "replicate (unat n) []" mem "concat (ht_list t)"] assms(3-6) n(2) k le
    unfolding table_ok_def by (auto simp: word_le_nat_alt)
qed

lemma ht_Resize_returns: "unat (ht_elems t) \<le> 2 ^ 31 \<Longrightarrow> ht_Resize mem t \<noteq> None"
  using ht_grow_returns [of "ht_elems t" 2] by (auto simp: ht_Resize_def word_le_nat_alt)

lemma HandleTable_new_ok: "\<exists>t. HandleTable_new mem = Some t \<and> table_ok mem' t {}"
proof -
  obtain t where t: "HandleTable_new mem = Some t"
    using ht_Resize_returns [of "\<lparr>ht_length = 0, ht_elems = 0, ht_list = []\<rparr>" mem] by (auto simp: HandleTable_new_def)
  then have "table_ok mem t {}" using ht_Resize_ok [of mem _ t "{}"] by (simp add: HandleTable_new_def)
  then show ?thesis using t table_ok_cong [of "{}" mem mem' t] by blast
qed

section \<open>Operations\<close>

text \<open>The chain splits at the handle with the key and hash, if there is one.\<close>

lemma ht_FindPointer_cases:
  assumes "table_ok mem t as"
  obtains before e rest where "ht_FindPointer mem key hash t = (before, e # rest)" "e \<in> as" "lh_hash (mem e) = hash"
      "lh_key (mem e) = key" "ht_list t ! ht_slot (ht_length t) hash = before @ e # rest"
  | "ht_FindPointer mem key hash t = (ht_list t ! ht_slot (ht_length t) hash, [])"
      "\<forall>a \<in> as. \<not> (lh_hash (mem a) = hash \<and> lh_key (mem a) = key)"
proof -
  let ?c = "ht_list t ! ht_slot (ht_length t) hash"
  let ?P = "\<lambda>h. lh_hash (mem h) \<noteq> hash \<or> key \<noteq> lh_key (mem h)"
  have F: "ht_FindPointer mem key hash t = (takeWhile ?P ?c, dropWhile ?P ?c)" by (simp add: ht_FindPointer_def Let_def)
  have slot: "?c \<in> set (ht_list t)" using table_okD(3) [OF assms] nth_mem by blast
  show ?thesis
  proof (cases "dropWhile ?P ?c")
    case Nil
    then have all: "\<forall>h \<in> set ?c. ?P h" by (simp add: dropWhile_eq_Nil_conv)
    then have "takeWhile ?P ?c = ?c" by (simp only: takeWhile_eq_all_conv)
    moreover have "\<forall>a \<in> as. \<not> (lh_hash (mem a) = hash \<and> lh_key (mem a) = key)"
      using all table_okD(4) [OF assms] by blast
    ultimately show ?thesis using that(2) F Nil by simp
  next
    case (Cons e rest)
    then have P: "lh_hash (mem e) = hash" "lh_key (mem e) = key" using hd_dropWhile [of ?P ?c] by simp_all
    have c: "?c = takeWhile ?P ?c @ e # rest" using takeWhile_dropWhile_id [of ?P ?c] unfolding Cons by (rule sym)
    have "e \<in> set (dropWhile ?P ?c)" unfolding Cons by simp
    then have "e \<in> set ?c" by (rule set_dropWhileD)
    then have e: "e \<in> as" using table_okD(1) [OF assms] slot by auto
    show ?thesis by (rule that(1) [OF F [unfolded Cons] e P c])
  qed
qed

lemma ht_Lookup_ok:
  assumes "table_ok mem t as"
  shows "ht_Lookup mem key hash t = Some e \<longleftrightarrow> e \<in> as \<and> lh_hash (mem e) = hash \<and> lh_key (mem e) = key"
  by (rule ht_FindPointer_cases [OF assms, of key hash])
    (use table_okD(5) [OF assms] in \<open>auto simp: ht_Lookup_def\<close>)

text \<open>A chain with the same handles in other places, without one, or with one more.\<close>

lemma table_ok_chain:
  assumes "table_ok mem t as" and "c = ht_list t ! ht_slot (ht_length t) hash"
    and "finite as'" and "mset c' + mset_set as = mset c + mset_set as'" and "unat elems = card as'"
    and "\<forall>a \<in> set c'. ht_slot (ht_length t) (lh_hash (mem a)) = ht_slot (ht_length t) hash"
    and "inj_on (\<lambda>a. (lh_hash (mem a), lh_key (mem a))) as'"
    and "t' = t\<lparr>ht_list := (ht_list t)[ht_slot (ht_length t) hash := c'], ht_elems := elems\<rparr>"
  shows "mset (concat (ht_list t')) = mset_set as' \<and> (card as' \<le> unat (ht_length t) \<longrightarrow> table_ok mem t' as')"
proof -
  note slot = table_okD(3) [OF assms(1), of hash]
  have "mset (concat (ht_list t')) + mset c = mset (concat (ht_list t)) + mset c'"
    using mset_concat_update [OF slot, of c'] assms(2,8) by simp
  also have "\<dots> = mset_set as' + mset c" using assms(1,4) by (simp add: table_ok_def ac_simps)
  finally have m: "mset (concat (ht_list t')) = mset_set as'" by simp
  have "\<forall>i < length (ht_list t'). \<forall>a \<in> set (ht_list t' ! i). ht_slot (ht_length t) (lh_hash (mem a)) = i"
    using assms(1,6,8) slot by (auto simp: table_ok_def nth_list_update)
  then show ?thesis using m assms(1,3,5,7,8) by (simp add: table_ok_def)
qed

lemma ht_Remove_ok:
  assumes "table_ok mem t as" and "e \<in> as"
  shows "\<exists>t'. ht_Remove mem (lh_key (mem e)) (lh_hash (mem e)) t = (Some e, t') \<and> table_ok mem t' (as - {e})"
proof (rule ht_FindPointer_cases [OF assms(1), of "lh_key (mem e)" "lh_hash (mem e)"])
  fix before e' rest
  let ?hash = "lh_hash (mem e)"
  assume F: "ht_FindPointer mem (lh_key (mem e)) ?hash t = (before, e' # rest)" and e': "e' \<in> as" "lh_hash (mem e') = ?hash"
    "lh_key (mem e') = lh_key (mem e)" and c: "ht_list t ! ht_slot (ht_length t) ?hash = before @ e' # rest"
  have "e' = e" using table_okD(5) [OF assms(1) e'(1) assms(2)] e' by simp
  have fin: "finite as" and el: "unat (ht_elems t) = card as" and le: "card as \<le> unat (ht_length t)"
    and inj: "inj_on (\<lambda>a. (lh_hash (mem a), lh_key (mem a))) as" using assms(1) by (simp_all add: table_ok_def)
  let ?t = "t\<lparr>ht_list := (ht_list t)[ht_slot (ht_length t) ?hash := before @ rest], ht_elems := ht_elems t - 1\<rparr>"
  have "0 < card as" using fin assms(2) by (auto simp: card_gt_0_iff)
  then have "1 \<le> ht_elems t" using el by (simp add: word_le_nat_alt)
  then have "unat (ht_elems t - 1) = card (as - {e})" using el fin assms(2) by (simp add: unat_sub)
  moreover have "mset (before @ rest) + mset_set as = mset (before @ e' # rest) + mset_set (as - {e})"
    using fin assms(2) \<open>e' = e\<close> by (simp add: mset_set.remove)
  moreover have "\<forall>a \<in> set (before @ rest). ht_slot (ht_length t) (lh_hash (mem a)) = ht_slot (ht_length t) ?hash"
    using assms(1) table_okD(3) [OF assms(1), of ?hash] c by (auto simp: table_ok_def)
  moreover have "inj_on (\<lambda>a. (lh_hash (mem a), lh_key (mem a))) (as - {e})" using inj by (rule inj_on_diff)
  moreover have "card (as - {e}) \<le> unat (ht_length t)" using le fin by (meson card_Diff1_le le_trans)
  ultimately have "table_ok mem ?t (as - {e})"
    using table_ok_chain [OF assms(1) c [symmetric], of "as - {e}" "before @ rest" "ht_elems t - 1" ?t] fin by simp
  then show ?thesis using F \<open>e' = e\<close> by (simp add: ht_Remove_def)
next
  assume "\<forall>a \<in> as. \<not> (lh_hash (mem a) = lh_hash (mem e) \<and> lh_key (mem a) = lh_key (mem e))"
  then show ?thesis using assms(2) by blast
qed

lemma ht_Remove_none:
  assumes "table_ok mem t as" and "\<forall>a \<in> as. \<not> (lh_hash (mem a) = hash \<and> lh_key (mem a) = key)"
  shows "ht_Remove mem key hash t = (None, t)"
  by (rule ht_FindPointer_cases [OF assms(1), of key hash]) (use assms(2) in \<open>auto simp: ht_Remove_def\<close>)

text \<open>A new handle takes the place of one with its key and hash.\<close>

lemma ht_Insert_ok:
  assumes "table_ok mem t as" and "e \<notin> as"
  defines "old \<equiv> ht_Lookup mem (lh_key (mem e)) (lh_hash (mem e)) t"
  shows "card as < 2 ^ 31 \<Longrightarrow> \<exists>t'. ht_Insert mem e t = Some (old, t')"
    and "ht_Insert mem e t = Some (r, t') \<Longrightarrow> r = old \<and> table_ok mem t' (insert e as - set_option old)"
proof -
  let ?hash = "lh_hash (mem e)" and ?key = "lh_key (mem e)"
  let ?i = "ht_slot (ht_length t) ?hash"
  have fin: "finite as" and el: "unat (ht_elems t) = card as" and le: "card as \<le> unat (ht_length t)"
    and len: "\<exists>k < 32. ht_length t = 2 ^ k"
    and inj: "inj_on (\<lambda>a. (lh_hash (mem a), lh_key (mem a))) as" using assms(1) by (simp_all add: table_ok_def)
  have chain: "\<forall>a \<in> set (ht_list t ! ?i). ht_slot (ht_length t) (lh_hash (mem a)) = ?i"
    using assms(1) table_okD(3) [OF assms(1), of ?hash] by (auto simp: table_ok_def)
  have "(card as < 2 ^ 31 \<longrightarrow> (\<exists>t'. ht_Insert mem e t = Some (old, t'))) \<and>
    (\<forall>r t'. ht_Insert mem e t = Some (r, t') \<longrightarrow> r = old \<and> table_ok mem t' (insert e as - set_option old))"
  proof (rule ht_FindPointer_cases [OF assms(1), of ?key ?hash])
    fix before q rest
    assume F: "ht_FindPointer mem ?key ?hash t = (before, q # rest)" and q: "q \<in> as" "lh_hash (mem q) = ?hash"
      "lh_key (mem q) = ?key" and c: "ht_list t ! ?i = before @ q # rest"
    let ?t = "t\<lparr>ht_list := (ht_list t)[?i := before @ e # rest], ht_elems := ht_elems t\<rparr>"
    let ?as = "insert e as - {q}"
    have old: "old = Some q" by (simp add: old_def ht_Lookup_def F)
    have ne: "e \<noteq> q" using assms(2) q(1) by blast
    have "card ?as = card as" using fin assms(2) q(1) ne by (simp add: card_insert_if card_Diff_singleton)
    moreover have "mset (before @ e # rest) + mset_set as = mset (before @ q # rest) + mset_set ?as"
      using fin assms(2) q(1) ne by (simp add: mset_set.remove insert_Diff_if)
    moreover have "inj_on (\<lambda>a. (lh_hash (mem a), lh_key (mem a))) ?as"
      using inj q table_okD(5) [OF assms(1)] by (auto simp: inj_on_def)
    ultimately have "table_ok mem ?t ?as"
      using table_ok_chain [OF assms(1) c [symmetric], of ?as "before @ e # rest" "ht_elems t" ?t] fin el le chain c by simp
    then show ?thesis using F old by (simp add: ht_Insert_def)
  next
    assume F: "ht_FindPointer mem ?key ?hash t = (ht_list t ! ?i, [])"
      and no: "\<forall>a \<in> as. \<not> (lh_hash (mem a) = ?hash \<and> lh_key (mem a) = ?key)"
    let ?t = "t\<lparr>ht_list := (ht_list t)[?i := ht_list t ! ?i @ [e]], ht_elems := ht_elems t + 1\<rparr>"
    have old: "old = None" by (simp add: old_def ht_Lookup_def F)
    have small: "card as \<le> 2 ^ 31"
    proof -
      obtain k where "k < 32" "ht_length t = 2 ^ k" using len by blast
      moreover from this have "(2 :: nat) ^ k \<le> 2 ^ 31" by (intro power_increasing) simp_all
      ultimately show ?thesis using le by (simp add: unat_power_two)
    qed
    have elems: "unat (ht_elems t + 1) = card (insert e as)"
      using el small fin assms(2) by (simp add: unat_word_ariths)
    have inj': "inj_on (\<lambda>a. (lh_hash (mem a), lh_key (mem a))) (insert e as)" using inj no by (auto simp: inj_on_insert)
    have T: "mset (concat (ht_list ?t)) = mset_set (insert e as) \<and> (card (insert e as) \<le> unat (ht_length t) \<longrightarrow> table_ok mem ?t (insert e as))"
      by (rule table_ok_chain [OF assms(1) refl _ _ elems _ inj' refl]) (use fin assms(2) chain in simp_all)
    have ins: "ht_Insert mem e t = (if ht_length t < ht_elems t + 1 then map_option (\<lambda>t. (None, t)) (ht_Resize mem ?t) else Some (None, ?t))"
      by (simp add: ht_Insert_def F Let_def)
    show ?thesis
    proof (intro conjI impI allI)
      assume "card as < 2 ^ 31"
      then have "ht_Resize mem ?t \<noteq> None" using ht_Resize_returns [of ?t mem] elems fin assms(2) by simp
      then show "\<exists>t'. ht_Insert mem e t = Some (old, t')" using ins old by auto
    next
      fix r t'
      assume r: "ht_Insert mem e t = Some (r, t')"
      show "r = old" using r ins old by (auto split: if_splits)
      show "table_ok mem t' (insert e as - set_option old)"
      proof (cases "ht_length t < ht_elems t + 1")
        case True
        then have "ht_Resize mem ?t = Some t'" using r ins by auto
        then have "table_ok mem t' (insert e as)"
          by (rule ht_Resize_ok) (use T elems inj' fin assms(1) in \<open>simp_all add: table_ok_def\<close>)
        then show ?thesis using old by simp
      next
        case False
        then have "card (insert e as) \<le> unat (ht_length t)" using elems by (simp add: not_less word_le_nat_alt)
        then show ?thesis using T r ins False old by simp
      qed
    qed
  qed
  then show "card as < 2 ^ 31 \<Longrightarrow> \<exists>t'. ht_Insert mem e t = Some (old, t')"
    "ht_Insert mem e t = Some (r, t') \<Longrightarrow> r = old \<and> table_ok mem t' (insert e as - set_option old)"
    by blast+
qed

end
