(* ===== verification/Ldb_Cache_Inv.thy ===== *)
theory Ldb_Cache_Inv
  imports Ldb_Handle_Table
begin

text \<open>
  The invariant of one cache, with the number of references that clients hold: what is in the two lists
  and in the table, what the references and the usage count, and that each entry is deleted once.
\<close>

section \<open>The invariant\<close>

definition in_cache :: "'v LRUCache \<Rightarrow> nat \<Rightarrow> bool" where
  "in_cache c e \<longleftrightarrow> (\<exists>h. lc_memory c e = Some h \<and> lh_in_cache h)"

definition lists_ok :: "(nat \<Rightarrow> nat) \<Rightarrow> 'v LRUCache \<Rightarrow> bool" where
  "lists_ok r c \<longleftrightarrow> distinct (lc_lru c) \<and> set (lc_lru c) = {e. in_cache c e \<and> r e = 0} \<and>
     distinct (lc_in_use c) \<and> set (lc_in_use c) = {e. in_cache c e \<and> 0 < r e}"

text \<open>\<open>r\<close> counts the references of clients; the cache itself has one more to what is in it.\<close>

definition counts_ok :: "(nat \<Rightarrow> nat) \<Rightarrow> 'v LRUCache \<Rightarrow> bool" where
  "counts_ok r c \<longleftrightarrow> (\<forall>e h. lc_memory c e = Some h \<longrightarrow>
       e < lc_fresh c \<and> unat (lh_refs h) = r e + of_bool (lh_in_cache h) \<and> (lh_in_cache h \<or> 0 < r e)) \<and>
     (\<forall>e. lc_memory c e = None \<longrightarrow> r e = 0)"

definition usage_ok :: "'v LRUCache \<Rightarrow> bool" where
  "usage_ok c \<longleftrightarrow> lc_usage c = (\<Sum>e \<in> Collect (in_cache c). lh_charge (lc_at c e))"

definition lru_entry :: "'v LRUHandle \<Rightarrow> slice \<times> 'v" where
  "lru_entry h = (lh_key h, lh_value h)"

text \<open>What has been inserted has been deleted or is still there.\<close>

definition deleted_ok :: "(slice \<times> 'v) multiset \<Rightarrow> 'v LRUCache \<Rightarrow> bool" where
  "deleted_ok ins c \<longleftrightarrow> mset (lc_deleted c) + image_mset (\<lambda>e. lru_entry (lc_at c e)) (mset_set (dom (lc_memory c))) = ins"

definition lru_inv :: "(nat \<Rightarrow> nat) \<Rightarrow> (slice \<times> 'v) multiset \<Rightarrow> nat set \<Rightarrow> 'v LRUCache \<Rightarrow> bool" where
  "lru_inv r ins as c \<longleftrightarrow> lists_ok r c \<and> counts_ok r c \<and> usage_ok c \<and> deleted_ok ins c \<and> table_ok (lc_at c) (lc_table c) as"

definition lru_ok :: "(nat \<Rightarrow> nat) \<Rightarrow> (slice \<times> 'v) multiset \<Rightarrow> 'v LRUCache \<Rightarrow> bool" where
  "lru_ok r ins c \<longleftrightarrow> lru_inv r ins (Collect (in_cache c)) c"

lemma counts_okD:
  assumes "counts_ok r c"
  shows "lc_memory c e = Some h \<Longrightarrow> e < lc_fresh c"
    and "lc_memory c e = Some h \<Longrightarrow> unat (lh_refs h) = r e + of_bool (lh_in_cache h)"
    and "lc_memory c e = Some h \<Longrightarrow> lh_in_cache h \<or> 0 < r e"
    and "0 < r e \<Longrightarrow> \<exists>h. lc_memory c e = Some h"
  using assms by (auto simp: counts_ok_def)

lemma finite_memory: "counts_ok r c \<Longrightarrow> finite (dom (lc_memory c))"
  by (rule finite_subset [of _ "{..<lc_fresh c}"]) (auto simp: counts_ok_def)

lemma finite_in_cache: "counts_ok r c \<Longrightarrow> finite (Collect (in_cache c))"
  by (rule finite_subset [OF _ finite_memory]) (auto simp: in_cache_def)

lemma sum_charges_cong:
  "(\<And>x. x \<in> A \<Longrightarrow> lh_charge (lc_at c x) = lh_charge (lc_at c' x)) \<Longrightarrow>
    (\<Sum>e \<in> A. lh_charge (lc_at c e)) = (\<Sum>e \<in> A. lh_charge (lc_at c' e))"
  by (rule sum.cong) simp_all

text \<open>A handle whose count alone has changed.\<close>

lemma set_refs:
  assumes "lc_memory c e = Some h" and "h' = h\<lparr>lh_refs := n\<rparr>" and "lc_memory c' = (lc_memory c)(e := Some h')"
    and "lc_usage c' = lc_usage c" and "lc_deleted c' = lc_deleted c" and "lc_table c' = lc_table c"
  shows "in_cache c' = in_cache c" and "usage_ok c \<Longrightarrow> usage_ok c'" and "deleted_ok ins c \<Longrightarrow> deleted_ok ins c'"
    and "table_ok (lc_at c) (lc_table c) as \<Longrightarrow> table_ok (lc_at c') (lc_table c') as"
proof -
  show i: "in_cache c' = in_cache c" using assms(1-3) by (auto simp: in_cache_def fun_eq_iff)
  have a: "lh_charge (lc_at c' x) = lh_charge (lc_at c x)" "lru_entry (lc_at c' x) = lru_entry (lc_at c x)"
    "lh_key (lc_at c' x) = lh_key (lc_at c x)" "lh_hash (lc_at c' x) = lh_hash (lc_at c x)" for x
    using assms(1-3) by (auto simp: lc_at_def lru_entry_def)
  show "usage_ok c'" if "usage_ok c" using that assms(4) by (simp add: usage_ok_def i a)
  have "dom (lc_memory c') = dom (lc_memory c)" using assms(1,3) by auto
  then show "deleted_ok ins c'" if "deleted_ok ins c" using that assms(5) by (simp add: deleted_ok_def a)
  show "table_ok (lc_at c') (lc_table c') as" if "table_ok (lc_at c) (lc_table c) as"
    unfolding assms(6) by (rule table_ok_cong [OF _ that]) (simp add: a)
qed

section \<open>References\<close>

lemma LRU_Ref_ok:
  assumes "lru_ok r ins c" and "lc_memory c e = Some h" and "r e + 2 < 2 ^ 32"
  shows "\<exists>c'. LRU_Ref e c = Some c' \<and> lru_ok (r(e := r e + 1)) ins c' \<and>
    lc_memory c' = (lc_memory c)(e := Some (h\<lparr>lh_refs := lh_refs h + 1\<rparr>)) \<and> lc_capacity c' = lc_capacity c"
proof -
  let ?h = "h\<lparr>lh_refs := lh_refs h + 1\<rparr>"
  define c1 where "c1 = (if lh_refs h = 1 \<and> lh_in_cache h then LRU_Append_in_use e (LRU_Remove e c) else c)"
  let ?c = "lc_set e ?h c1" and ?r = "r(e := r e + 1)"
  have inv: "lists_ok r c" "counts_ok r c" "usage_ok c" "deleted_ok ins c" "table_ok (lc_at c) (lc_table c) (Collect (in_cache c))"
    using assms(1) by (simp_all add: lru_ok_def lru_inv_def)
  have same: "lc_memory c1 = lc_memory c" "lc_usage c1 = lc_usage c" "lc_deleted c1 = lc_deleted c" "lc_table c1 = lc_table c"
    "lc_fresh c1 = lc_fresh c" "lc_capacity c1 = lc_capacity c"
    by (simp_all add: c1_def LRU_Append_in_use_def LRU_Remove_def)
  have mem: "lc_memory ?c = (lc_memory c)(e := Some ?h)" by (simp add: lc_set_def same)
  note S = set_refs [OF assms(2) refl mem, simplified lc_set_def, simplified, OF same(2-4)]
  have i: "in_cache ?c = in_cache c" using S(1) by (simp add: lc_set_def)
  note refs = counts_okD(2) [OF inv(2) assms(2)]
  have one: "lh_refs h = 1 \<and> lh_in_cache h \<longleftrightarrow> in_cache c e \<and> r e = 0"
    using refs assms(2) counts_okD(3) [OF inv(2) assms(2)] by (auto simp: in_cache_def word_unat_eq_iff)
  have "unat (lh_refs h + 1) = unat (lh_refs h) + 1" using refs assms(3) by (simp add: unat_word_ariths)
  then have "counts_ok ?r ?c"
    using inv(2) refs counts_okD(1) [OF inv(2) assms(2)] by (auto simp: counts_ok_def mem lc_set_def same)
  moreover have "lists_ok ?r ?c"
  proof (cases "in_cache c e \<and> r e = 0")
    case True
    then have "c1 = LRU_Append_in_use e (LRU_Remove e c)" using one by (simp add: c1_def)
    then show ?thesis using True inv(1) unfolding lists_ok_def i
      by (auto simp: LRU_Append_in_use_def LRU_Remove_def lc_set_def distinct_removeAll)
  next
    case False
    then have "c1 = c" using one by (auto simp: c1_def)
    then show ?thesis using False inv(1) unfolding lists_ok_def i by (auto simp: lc_set_def)
  qed
  moreover have "usage_ok ?c" "deleted_ok ins ?c" "table_ok (lc_at ?c) (lc_table ?c) (Collect (in_cache c))"
    using S(2-4) inv(3-5) by (simp_all add: lc_set_def same)
  ultimately have "lru_ok ?r ins ?c" by (simp add: lru_ok_def lru_inv_def i)
  moreover have "LRU_Ref e c = Some ?c" using assms(2) by (simp add: LRU_Ref_def c1_def Let_def)
  ultimately show ?thesis using mem same(6) by (auto simp: lc_set_def)
qed

lemma mset_set_fun_upd_None:
  assumes "finite (dom m)" and "m e = Some h"
  shows "mset_set (dom m) = add_mset e (mset_set (dom (m(e := None))))"
proof -
  have "dom (m(e := None)) = dom m - {e}" by simp
  moreover have "e \<in> dom m" using assms(2) by blast
  ultimately show ?thesis using assms(1) by (simp add: mset_set.remove)
qed

lemma LRU_Unref_ok:
  assumes "lru_ok r ins c" and "0 < r e"
  shows "\<exists>c' h. LRU_Unref e c = Some c' \<and> lru_ok (r(e := r e - 1)) ins c' \<and> lc_memory c e = Some h \<and>
    lc_memory c' = (lc_memory c)(e := (if r e = 1 \<and> \<not> lh_in_cache h then None else Some (h\<lparr>lh_refs := lh_refs h - 1\<rparr>))) \<and>
    lc_capacity c' = lc_capacity c"
proof -
  have inv: "lists_ok r c" "counts_ok r c" "usage_ok c" "deleted_ok ins c" "table_ok (lc_at c) (lc_table c) (Collect (in_cache c))"
    using assms(1) by (simp_all add: lru_ok_def lru_inv_def)
  obtain h where h: "lc_memory c e = Some h" using counts_okD(4) [OF inv(2) assms(2)] by blast
  let ?h = "h\<lparr>lh_refs := lh_refs h - 1\<rparr>" and ?r = "r(e := r e - 1)"
  let ?c1 = "lc_set e ?h c"
  note refs = counts_okD(2) [OF inv(2) h]
  have "1 \<le> lh_refs h" using refs assms(2) by (simp add: word_le_nat_alt)
  then have dec: "unat (lh_refs h - 1) = unat (lh_refs h) - 1" by (simp add: unat_sub)
  have zero: "lh_refs h - 1 = 0 \<longleftrightarrow> r e = 1 \<and> \<not> lh_in_cache h"
    using refs dec assms(2) by (auto simp: word_unat_eq_iff)
  have one: "lh_in_cache h \<and> lh_refs h - 1 = 1 \<longleftrightarrow> lh_in_cache h \<and> r e = 1"
    using refs dec assms(2) by (auto simp: word_unat_eq_iff)
  have mem: "lc_memory ?c1 = (lc_memory c)(e := Some ?h)" by (simp add: lc_set_def)
  note S = set_refs [OF h refl mem]
  show ?thesis
  proof (cases "r e = 1 \<and> \<not> lh_in_cache h")
    case True
    let ?c = "c\<lparr>lc_deleted := lc_deleted c @ [lru_entry h], lc_memory := (lc_memory c)(e := None)\<rparr>"
    have not: "\<not> in_cache c e" using True h by (simp add: in_cache_def)
    have i: "in_cache ?c = in_cache c" using True h by (auto simp: in_cache_def fun_eq_iff)
    have at: "lc_at ?c x = lc_at c x" if "x \<noteq> e" for x using that by (simp add: lc_at_def)
    have "lists_ok ?r ?c" using inv(1) not True unfolding lists_ok_def i by auto
    moreover have "counts_ok ?r ?c" using inv(2) True by (auto simp: counts_ok_def)
    moreover have "usage_ok ?c"
      using inv(3) not sum_charges_cong [of "Collect (in_cache c)" ?c c] at unfolding usage_ok_def i by fastforce
    moreover have "deleted_ok ins ?c"
    proof -
      have "image_mset (\<lambda>x. lru_entry (lc_at ?c x)) (mset_set (dom (lc_memory ?c))) =
          image_mset (\<lambda>x. lru_entry (lc_at c x)) (mset_set (dom (lc_memory ?c)))"
        using finite_memory [OF inv(2)] by (intro image_mset_cong) (auto simp: lc_at_def)
      moreover have "mset_set (dom (lc_memory c)) = add_mset e (mset_set (dom (lc_memory ?c)))"
        using mset_set_fun_upd_None [OF finite_memory [OF inv(2)] h] by simp
      moreover have "lru_entry (lc_at c e) = lru_entry h" by (simp add: lc_at_def h)
      ultimately show ?thesis using inv(4) by (simp add: deleted_ok_def)
    qed
    moreover have "table_ok (lc_at ?c) (lc_table ?c) (Collect (in_cache c))"
      using table_ok_cong [OF _ inv(5), of "lc_at ?c"] not at by fastforce
    ultimately have "lru_ok ?r ins ?c" by (simp add: lru_ok_def lru_inv_def i)
    moreover have "LRU_Unref e c = Some ?c" using h True zero by (simp add: LRU_Unref_def lc_set_def lru_entry_def)
    ultimately show ?thesis using h True by auto
  next
    case False
    define c' where "c' = (if lh_in_cache h \<and> r e = 1 then LRU_Append_lru e (LRU_Remove e ?c1) else ?c1)"
    have same: "lc_memory c' = lc_memory ?c1" "lc_usage c' = lc_usage c" "lc_deleted c' = lc_deleted c" "lc_table c' = lc_table c"
      "lc_fresh c' = lc_fresh c" "lc_capacity c' = lc_capacity c"
      by (simp_all add: c'_def LRU_Append_lru_def LRU_Remove_def lc_set_def)
    note S = set_refs [OF h refl mem [folded same(1)] same(2-4)]
    have "lists_ok ?r c'"
    proof (cases "lh_in_cache h \<and> r e = 1")
      case True
      then have "c' = LRU_Append_lru e (LRU_Remove e ?c1)" "in_cache c e" using h by (simp_all add: c'_def in_cache_def)
      then show ?thesis using True inv(1) unfolding lists_ok_def S(1)
        by (auto simp: LRU_Append_lru_def LRU_Remove_def lc_set_def distinct_removeAll)
    next
      case lists: False
      then have "c' = ?c1" by (auto simp: c'_def)
      moreover have "in_cache c e \<longrightarrow> 1 < r e" using lists h assms(2) by (auto simp: in_cache_def)
      ultimately show ?thesis using inv(1) unfolding lists_ok_def S(1) by (auto simp: lc_set_def)
    qed
    moreover have "counts_ok ?r c'"
      using inv(2) refs dec False assms(2) counts_okD(1) [OF inv(2) h] h
      unfolding counts_ok_def same(1,5) mem by (auto simp: of_bool_def split: if_splits)
    ultimately have "lru_ok ?r ins c'" using S inv(3-5) by (simp add: lru_ok_def lru_inv_def)
    moreover have "LRU_Unref e c = Some c'" using h False zero one by (auto simp: LRU_Unref_def c'_def Let_def)
    ultimately show ?thesis using h False same(1,6) mem by auto
  qed
qed

section \<open>Erasing\<close>

text \<open>An entry that has been taken out of the table is taken out of the cache, and deleted if nobody uses it.\<close>

lemma LRU_FinishErase_ok:
  assumes "lru_inv r ins (Collect (in_cache c) - {e}) c" and "in_cache c e"
  shows "\<exists>c' h. LRU_FinishErase (Some e) c = Some c' \<and> lru_ok r ins c' \<and> lc_memory c e = Some h \<and>
    lc_memory c' = (lc_memory c)(e := (if r e = 0 then None else Some (h\<lparr>lh_in_cache := False, lh_refs := lh_refs h - 1\<rparr>))) \<and>
    lc_lru c' = removeAll e (lc_lru c) \<and> lc_capacity c' = lc_capacity c"
proof -
  have inv: "lists_ok r c" "counts_ok r c" "usage_ok c" "deleted_ok ins c"
    "table_ok (lc_at c) (lc_table c) (Collect (in_cache c) - {e})"
    using assms(1) by (simp_all add: lru_inv_def)
  obtain h where h: "lc_memory c e = Some h" "lh_in_cache h" using assms(2) by (auto simp: in_cache_def)
  let ?h = "h\<lparr>lh_in_cache := False, lh_refs := lh_refs h - 1\<rparr>"
  note refs = counts_okD(2) [OF inv(2) h(1)]
  have "1 \<le> lh_refs h" using refs h(2) by (simp add: word_le_nat_alt)
  then have dec: "unat (lh_refs h - 1) = r e" using refs h(2) by (simp add: unat_sub)
  then have zero: "lh_refs h - 1 = 0 \<longleftrightarrow> r e = 0" by (auto simp: word_unat_eq_iff)
  define c' where "c' = c\<lparr>lc_lru := removeAll e (lc_lru c), lc_in_use := removeAll e (lc_in_use c),
    lc_usage := lc_usage c - lh_charge h,
    lc_deleted := (if r e = 0 then lc_deleted c @ [lru_entry h] else lc_deleted c),
    lc_memory := (lc_memory c)(e := (if r e = 0 then None else Some ?h))\<rparr>"
  have run: "LRU_FinishErase (Some e) c = Some c'"
    using h zero by (auto simp: LRU_FinishErase_def LRU_Unref_def LRU_Remove_def lc_set_def c'_def Let_def lru_entry_def)
  have i: "Collect (in_cache c') = Collect (in_cache c) - {e}" by (auto simp: in_cache_def c'_def split: if_splits)
  then have i': "in_cache c' x \<longleftrightarrow> in_cache c x \<and> x \<noteq> e" for x by auto
  have at: "lc_at c' x = lc_at c x" if "x \<noteq> e" for x using that by (simp add: lc_at_def c'_def)
  have "lists_ok r c'" using inv(1) unfolding lists_ok_def i' by (auto simp: c'_def distinct_removeAll)
  moreover have "counts_ok r c'"
    using inv(2) dec counts_okD(1) [OF inv(2) h(1)] by (auto simp: counts_ok_def c'_def)
  moreover have "usage_ok c'"
  proof -
    have "(\<Sum>x \<in> Collect (in_cache c). lh_charge (lc_at c x)) = lh_charge h + (\<Sum>x \<in> Collect (in_cache c) - {e}. lh_charge (lc_at c x))"
      using sum.remove [OF finite_in_cache [OF inv(2)], of e "\<lambda>x. lh_charge (lc_at c x)"] assms(2) h(1) by (simp add: lc_at_def)
    also have "(\<Sum>x \<in> Collect (in_cache c) - {e}. lh_charge (lc_at c x)) = (\<Sum>x \<in> Collect (in_cache c) - {e}. lh_charge (lc_at c' x))"
      by (rule sum_charges_cong) (simp add: at)
    finally have S: "(\<Sum>x \<in> Collect (in_cache c). lh_charge (lc_at c x)) =
        lh_charge h + (\<Sum>x \<in> Collect (in_cache c) - {e}. lh_charge (lc_at c' x))" .
    have U: "lc_usage c' = lc_usage c - lh_charge h" by (simp add: c'_def)
    show ?thesis unfolding usage_ok_def i U inv(3) [unfolded usage_ok_def] S by (rule add_diff_cancel_left')
  qed
  moreover have "deleted_ok ins c'"
  proof -
    let ?d = "dom ((lc_memory c)(e := None))"
    have d: "mset_set (dom (lc_memory c)) = add_mset e (mset_set ?d)"
      by (rule mset_set_fun_upd_None [OF finite_memory [OF inv(2)] h(1)])
    have f: "finite ?d" "e \<notin> ?d" using finite_memory [OF inv(2)] by auto
    have im: "image_mset (\<lambda>x. lru_entry (lc_at c' x)) (mset_set ?d) = image_mset (\<lambda>x. lru_entry (lc_at c x)) (mset_set ?d)"
      using f by (intro image_mset_cong) (auto simp: at)
    have e: "lru_entry (lc_at c e) = lru_entry h" by (simp add: lc_at_def h)
    show ?thesis
    proof (cases "r e = 0")
      case True
      then have "dom (lc_memory c') = ?d" by (simp add: c'_def)
      then show ?thesis using inv(4) d im e True by (simp add: deleted_ok_def c'_def)
    next
      case False
      have "dom (lc_memory c') = dom (lc_memory c)" using False h(1) by (auto simp: c'_def)
      then have "mset_set (dom (lc_memory c')) = add_mset e (mset_set ?d)" using d by simp
      moreover have "lru_entry (lc_at c' e) = lru_entry h" using False by (simp add: c'_def lc_at_def lru_entry_def)
      ultimately show ?thesis using inv(4) d im e False by (simp add: deleted_ok_def c'_def)
    qed
  qed
  moreover have "table_ok (lc_at c') (lc_table c') (Collect (in_cache c) - {e})"
    using table_ok_cong [OF _ inv(5), of "lc_at c'"] at by (simp add: c'_def)
  ultimately have "lru_ok r ins c'" by (simp add: lru_ok_def lru_inv_def i)
  then show ?thesis using run h(1) by (auto simp: c'_def)
qed

lemma LRU_Erase_ok:
  assumes "lru_ok r ins c" and "in_cache c e" and "lc_memory c e = Some h"
  shows "\<exists>c'. LRU_Erase (lh_key h) (lh_hash h) c = Some c' \<and> lru_ok r ins c' \<and>
    lc_memory c' = (lc_memory c)(e := (if r e = 0 then None else Some (h\<lparr>lh_in_cache := False, lh_refs := lh_refs h - 1\<rparr>))) \<and>
    lc_lru c' = removeAll e (lc_lru c) \<and> lc_capacity c' = lc_capacity c"
proof -
  have inv: "lists_ok r c" "counts_ok r c" "usage_ok c" "deleted_ok ins c" "table_ok (lc_at c) (lc_table c) (Collect (in_cache c))"
    using assms(1) by (simp_all add: lru_ok_def lru_inv_def)
  have "lc_at c e = h" using assms(3) by (simp add: lc_at_def)
  then obtain t where t: "ht_Remove (lc_at c) (lh_key h) (lh_hash h) (lc_table c) = (Some e, t)"
    "table_ok (lc_at c) t (Collect (in_cache c) - {e})"
    using ht_Remove_ok [OF inv(5), of e] assms(2) by auto
  let ?c = "c\<lparr>lc_table := t\<rparr>"
  have same: "in_cache ?c = in_cache c" "lc_at ?c = lc_at c" by (auto simp: in_cache_def lc_at_def fun_eq_iff)
  have "lru_inv r ins (Collect (in_cache ?c) - {e}) ?c"
    using inv t(2) unfolding lru_inv_def lists_ok_def counts_ok_def usage_ok_def deleted_ok_def same by simp
  from LRU_FinishErase_ok [OF this] assms(2,3) show ?thesis unfolding same by (auto simp: LRU_Erase_def t(1))
qed

lemma LRU_Erase_none:
  assumes "lru_ok r ins c" and "\<And>e h. lc_memory c e = Some h \<Longrightarrow> lh_in_cache h \<Longrightarrow> \<not> (lh_hash h = hash \<and> lh_key h = key)"
  shows "LRU_Erase key hash c = Some c"
proof -
  have "table_ok (lc_at c) (lc_table c) (Collect (in_cache c))" using assms(1) by (simp add: lru_ok_def lru_inv_def)
  moreover have "\<forall>e \<in> Collect (in_cache c). \<not> (lh_hash (lc_at c e) = hash \<and> lh_key (lc_at c e) = key)"
    using assms(2) unfolding in_cache_def lc_at_def by fastforce
  ultimately have "ht_Remove (lc_at c) key hash (lc_table c) = (None, lc_table c)" by (rule ht_Remove_none)
  then show ?thesis by (simp add: LRU_Erase_def LRU_FinishErase_def)
qed

text \<open>The oldest entry that nobody uses.\<close>

lemma LRU_evict_ok:
  assumes "lru_ok r ins c" and "lc_lru c = e # es"
  shows "\<exists>c'. LRU_evict e c = Some c' \<and> lru_ok r ins c' \<and> lc_memory c' = (lc_memory c)(e := None) \<and> r e = 0 \<and>
    lc_lru c' = es \<and> lc_capacity c' = lc_capacity c"
proof -
  have l: "lists_ok r c" using assms(1) by (simp add: lru_ok_def lru_inv_def)
  then have e: "in_cache c e" "r e = 0" "e \<notin> set es" using assms(2) by (auto simp: lists_ok_def)
  then obtain h where h: "lc_memory c e = Some h" by (auto simp: in_cache_def)
  from LRU_Erase_ok [OF assms(1) e(1) h] e h assms(2) show ?thesis by (auto simp: LRU_evict_def)
qed

text \<open>What an eviction leaves: no handle that is in use has changed, and no other is new.\<close>

definition shrunk :: "(nat \<Rightarrow> nat) \<Rightarrow> 'v LRUCache \<Rightarrow> 'v LRUCache \<Rightarrow> bool" where
  "shrunk r c c' \<longleftrightarrow> lc_memory c' \<subseteq>\<^sub>m lc_memory c \<and> (\<forall>e. 0 < r e \<longrightarrow> lc_memory c' e = lc_memory c e) \<and>
     lc_capacity c' = lc_capacity c"

lemma shrunk_refl: "shrunk r c c"
  by (simp add: shrunk_def)

lemma shrunk_evict:
  assumes "lc_memory c1 = (lc_memory c)(e := None)" and "r e = 0" and "lc_capacity c1 = lc_capacity c" and "shrunk r c1 c'"
  shows "shrunk r c c'"
  using assms map_le_trans [of "lc_memory c'" "lc_memory c1" "lc_memory c"] by (auto simp: shrunk_def map_le_def)

lemma LRU_shrink_ok:
  assumes "lru_ok r ins c"
  shows "\<exists>c'. LRU_shrink c = Some c' \<and> lru_ok r ins c' \<and> shrunk r c c' \<and> (lc_usage c' \<le> lc_capacity c' \<or> lc_lru c' = [])"
  using assms
proof (induction "lc_lru c" arbitrary: c)
  case Nil
  then show ?case by (subst LRU_shrink.simps) (simp add: shrunk_refl)
next
  case (Cons e es)
  show ?case
  proof (cases "lc_capacity c < lc_usage c")
    case True
    from LRU_evict_ok [OF Cons.prems Cons.hyps(2) [symmetric]] obtain c1 where c1: "LRU_evict e c = Some c1" "lru_ok r ins c1"
      "lc_memory c1 = (lc_memory c)(e := None)" "r e = 0" "lc_lru c1 = es" "lc_capacity c1 = lc_capacity c" by blast
    from Cons.hyps(1) [OF c1(5) [symmetric] c1(2)] obtain c' where c': "LRU_shrink c1 = Some c'" "lru_ok r ins c'" "shrunk r c1 c'"
      "lc_usage c' \<le> lc_capacity c' \<or> lc_lru c' = []" by blast
    have "LRU_shrink c = Some c'" using c1(1) c'(1) Cons.hyps(2) [symmetric] True by (subst LRU_shrink.simps) simp
    then show ?thesis using c'(2,4) shrunk_evict [OF c1(3,4,6) c'(3)] by blast
  next
    case False
    then have "LRU_shrink c = Some c" using Cons.hyps(2) [symmetric] by (subst LRU_shrink.simps) simp
    then show ?thesis using Cons.prems False by (auto simp: shrunk_refl not_less)
  qed
qed

lemma LRU_Prune_ok:
  assumes "lru_ok r ins c"
  shows "\<exists>c'. LRU_Prune c = Some c' \<and> lru_ok r ins c' \<and> shrunk r c c' \<and> lc_lru c' = []"
  using assms
proof (induction "lc_lru c" arbitrary: c)
  case Nil
  then show ?case by (subst LRU_Prune.simps) (simp add: shrunk_refl)
next
  case (Cons e es)
  from LRU_evict_ok [OF Cons.prems Cons.hyps(2) [symmetric]] obtain c1 where c1: "LRU_evict e c = Some c1" "lru_ok r ins c1"
    "lc_memory c1 = (lc_memory c)(e := None)" "r e = 0" "lc_lru c1 = es" "lc_capacity c1 = lc_capacity c" by blast
  from Cons.hyps(1) [OF c1(5) [symmetric] c1(2)] obtain c' where c': "LRU_Prune c1 = Some c'" "lru_ok r ins c'" "shrunk r c1 c'"
    "lc_lru c' = []" by blast
  have "LRU_Prune c = Some c'" using c1(1) c'(1) Cons.hyps(2) [symmetric] by (subst LRU_Prune.simps) simp
  then show ?case using c'(2,4) shrunk_evict [OF c1(3,4,6) c'(3)] by blast
qed

end
