(* ===== verification/Ldb_Cache_Props.thy ===== *)
theory Ldb_Cache_Props
  imports Ldb_Cache_Inv
begin

text \<open>
  Insertion, and what clients can rely on: in every state that they can reach, the handles they hold are
  there, each operation returns, and what they look up is what was inserted last.
\<close>

section \<open>Insertion\<close>

lemma new_entry_ok:
  assumes "lru_ok r ins c" and "unat (lh_refs h) = 1 + of_bool (lh_in_cache h)"
    and "c' = c\<lparr>lc_fresh := lc_fresh c + 1, lc_memory := (lc_memory c)(lc_fresh c := Some h),
      lc_in_use := (if lh_in_cache h then lc_in_use c @ [lc_fresh c] else lc_in_use c),
      lc_usage := (if lh_in_cache h then lc_usage c + lh_charge h else lc_usage c)\<rparr>"
  shows "lists_ok (r(lc_fresh c := 1)) c'" and "counts_ok (r(lc_fresh c := 1)) c'" and "usage_ok c'"
    and "deleted_ok (add_mset (lru_entry h) ins) c'" and "table_ok (lc_at c') (lc_table c) (Collect (in_cache c))"
    and "Collect (in_cache c') = (if lh_in_cache h then insert (lc_fresh c) (Collect (in_cache c)) else Collect (in_cache c))"
    and "\<not> in_cache c (lc_fresh c)"
proof -
  let ?e = "lc_fresh c"
  have inv: "lists_ok r c" "counts_ok r c" "usage_ok c" "deleted_ok ins c" "table_ok (lc_at c) (lc_table c) (Collect (in_cache c))"
    using assms(1) by (simp_all add: lru_ok_def lru_inv_def)
  have none: "lc_memory c ?e = None"
    using counts_okD(1) [OF inv(2), of ?e] by (cases "lc_memory c ?e") auto
  then have re: "r ?e = 0" using inv(2) by (simp add: counts_ok_def)
  show not: "\<not> in_cache c ?e" using none by (simp add: in_cache_def)
  have i': "in_cache c' x \<longleftrightarrow> (if x = ?e then lh_in_cache h else in_cache c x)" for x
    using assms(3) by (auto simp: in_cache_def)
  show i: "Collect (in_cache c') = (if lh_in_cache h then insert ?e (Collect (in_cache c)) else Collect (in_cache c))"
    using not by (auto simp: i' split: if_splits)
  have at: "lc_at c' x = (if x = ?e then h else lc_at c x)" for x using assms(3) by (simp add: lc_at_def)
  show "lists_ok (r(?e := 1)) c'"
    using inv(1) not unfolding lists_ok_def i' using assms(3) by (auto split: if_splits)
  show "counts_ok (r(?e := 1)) c'"
    using inv(2) assms(2) re unfolding counts_ok_def assms(3) by (auto simp: less_Suc_eq)
  show "usage_ok c'"
  proof -
    have s: "(\<Sum>x \<in> Collect (in_cache c). lh_charge (lc_at c' x)) = lc_usage c"
      using inv(3) not sum_charges_cong [of "Collect (in_cache c)" c' c] unfolding usage_ok_def by (metis at mem_Collect_eq)
    have u: "lc_usage c' = (if lh_in_cache h then lc_usage c + lh_charge h else lc_usage c)" by (simp add: assms(3))
    show ?thesis
      using s not finite_in_cache [OF inv(2)] at [of ?e] unfolding usage_ok_def i u by (simp add: add.commute)
  qed
  show "deleted_ok (add_mset (lru_entry h) ins) c'"
  proof -
    have d: "dom (lc_memory c') = insert ?e (dom (lc_memory c))" using assms(3) by simp
    have "?e \<notin> dom (lc_memory c)" using none by blast
    then have m: "mset_set (dom (lc_memory c')) = add_mset ?e (mset_set (dom (lc_memory c)))"
      unfolding d using finite_memory [OF inv(2)] by simp
    have "image_mset (\<lambda>x. lru_entry (lc_at c' x)) (mset_set (dom (lc_memory c))) =
        image_mset (\<lambda>x. lru_entry (lc_at c x)) (mset_set (dom (lc_memory c)))"
      using \<open>?e \<notin> dom (lc_memory c)\<close> finite_memory [OF inv(2)] by (intro image_mset_cong) (auto simp: at)
    then show ?thesis using inv(4) at [of ?e] unfolding deleted_ok_def m by (simp add: assms(3))
  qed
  show "table_ok (lc_at c') (lc_table c) (Collect (in_cache c))"
    by (rule table_ok_cong [OF _ inv(5)]) (use not in \<open>auto simp: at\<close>)
qed

text \<open>A later state of a handle, and of all but the handle \<open>e\<close>; handles that are in use stay where they are.\<close>

definition derived :: "'v LRUHandle \<Rightarrow> 'v LRUHandle \<Rightarrow> bool" where
  "derived h h' \<longleftrightarrow> lru_entry h' = lru_entry h \<and> lh_hash h' = lh_hash h \<and> (lh_in_cache h' \<longrightarrow> lh_in_cache h)"

definition kept :: "(nat \<Rightarrow> nat) \<Rightarrow> slice \<Rightarrow> u32 \<Rightarrow> nat \<Rightarrow> 'v LRUCache \<Rightarrow> 'v LRUCache \<Rightarrow> bool" where
  "kept r key hash e c c' \<longleftrightarrow>
     (\<forall>x h'. x \<noteq> e \<longrightarrow> lc_memory c' x = Some h' \<longrightarrow> (\<exists>h. lc_memory c x = Some h \<and> derived h h')) \<and>
     (\<forall>x h. 0 < r x \<longrightarrow> lc_memory c x = Some h \<longrightarrow> (\<exists>h'. lc_memory c' x = Some h' \<and> derived h h' \<and>
        (lh_in_cache h' = lh_in_cache h \<or> lh_key h = key \<and> lh_hash h = hash)))"

lemma kept_shrunk:
  assumes "kept r key hash e c c1" and "shrunk r' c1 c'" and "\<And>x. 0 < r x \<Longrightarrow> 0 < r' x"
  shows "kept r key hash e c c'"
  using assms unfolding kept_def shrunk_def map_le_def by (metis domI)

lemma LRU_Insert_first:
  assumes "lru_ok r ins c" and "e = lc_fresh c"
    and "h = \<lparr>lh_value = v, lh_charge = charge, lh_key = key, lh_in_cache = False, lh_refs = 1, lh_hash = hash\<rparr>"
    and "\<not> 0 < lc_capacity c"
  shows "\<exists>c1. c1 = lc_set e h (c\<lparr>lc_fresh := e + 1\<rparr>) \<and> lru_ok (r(e := 1)) (add_mset (key, v) ins) c1 \<and>
    lc_memory c1 e = Some h \<and> kept r key hash e c c1 \<and> lc_capacity c1 = lc_capacity c"
proof -
  let ?c1 = "lc_set e h (c\<lparr>lc_fresh := e + 1\<rparr>)"
  have c1: "?c1 = c\<lparr>lc_fresh := lc_fresh c + 1, lc_memory := (lc_memory c)(lc_fresh c := Some h),
      lc_in_use := (if lh_in_cache h then lc_in_use c @ [lc_fresh c] else lc_in_use c),
      lc_usage := (if lh_in_cache h then lc_usage c + lh_charge h else lc_usage c)\<rparr>"
    using assms(2,3) by (simp add: lc_set_def)
  have h: "unat (lh_refs h) = 1 + of_bool (lh_in_cache h)" "\<not> lh_in_cache h" "lru_entry h = (key, v)"
    using assms(3) by (simp_all add: lru_entry_def)
  have t: "lc_table ?c1 = lc_table c" by (simp add: lc_set_def)
  have "counts_ok r c" using assms(1) by (simp add: lru_ok_def lru_inv_def)
  then have "0 < r x \<Longrightarrow> x \<noteq> e" for x using counts_okD [of r c x] assms(2) by auto
  then have "kept r key hash e c ?c1" by (auto simp: kept_def lc_set_def derived_def)
  moreover have "lru_ok (r(e := 1)) (add_mset (key, v) ins) ?c1"
    using new_entry_ok [OF assms(1) h(1) c1] h(2,3) t by (simp add: lru_ok_def lru_inv_def assms(2))
  ultimately show ?thesis by (simp add: lc_set_def)
qed

lemma LRU_Insert_cached:
  assumes "lru_ok r ins c" and "e = lc_fresh c"
    and "h = \<lparr>lh_value = v, lh_charge = charge, lh_key = key, lh_in_cache = True, lh_refs = 2, lh_hash = hash\<rparr>"
    and "c1 = c\<lparr>lc_fresh := e + 1, lc_memory := (lc_memory c)(e := Some h), lc_in_use := lc_in_use c @ [e],
      lc_usage := lc_usage c + charge\<rparr>"
  shows "card (Collect (in_cache c)) < 2 ^ 31 \<Longrightarrow> ht_Insert (lc_at c1) e (lc_table c1) \<noteq> None"
    and "ht_Insert (lc_at c1) e (lc_table c1) = Some (old, t) \<Longrightarrow>
      \<exists>c2. LRU_FinishErase old (c1\<lparr>lc_table := t\<rparr>) = Some c2 \<and> lru_ok (r(e := 1)) (add_mset (key, v) ins) c2 \<and>
        lc_memory c2 e = Some h \<and> kept r key hash e c c2 \<and> lc_capacity c2 = lc_capacity c"
proof -
  have c1: "c1 = c\<lparr>lc_fresh := lc_fresh c + 1, lc_memory := (lc_memory c)(lc_fresh c := Some h),
      lc_in_use := (if lh_in_cache h then lc_in_use c @ [lc_fresh c] else lc_in_use c),
      lc_usage := (if lh_in_cache h then lc_usage c + lh_charge h else lc_usage c)\<rparr>"
    using assms(2-4) by simp
  have h: "unat (lh_refs h) = 1 + of_bool (lh_in_cache h)" "lh_in_cache h" "lru_entry h = (key, v)" "lh_key h = key" "lh_hash h = hash"
    using assms(3) by (simp_all add: lru_entry_def)
  note N = new_entry_ok [OF assms(1) h(1) c1, folded assms(2), unfolded h(3)]
  have T: "table_ok (lc_at c1) (lc_table c1) (Collect (in_cache c))" using N(5) assms(4) by simp
  have e: "e \<notin> Collect (in_cache c)" using N(7) by simp
  have at: "lc_at c1 e = h" using assms(4) by (simp add: lc_at_def)
  show "card (Collect (in_cache c)) < 2 ^ 31 \<Longrightarrow> ht_Insert (lc_at c1) e (lc_table c1) \<noteq> None"
    using ht_Insert_ok(1) [OF T e] by auto
  have "counts_ok r c" using assms(1) by (simp add: lru_ok_def lru_inv_def)
  then have ne: "0 < r x \<Longrightarrow> x \<noteq> e" for x using counts_okD [of r c x] assms(2) by auto
  assume ins: "ht_Insert (lc_at c1) e (lc_table c1) = Some (old, t)"
  note I = ht_Insert_ok(2) [OF T e ins]
  let ?c = "c1\<lparr>lc_table := t\<rparr>" and ?r = "r(e := 1)" and ?ins = "add_mset (key, v) ins"
  have same: "in_cache ?c = in_cache c1" "lc_at ?c = lc_at c1" by (auto simp: in_cache_def lc_at_def fun_eq_iff)
  have i: "Collect (in_cache c1) = insert e (Collect (in_cache c))" using N(6) h(2) by simp
  have inv: "lru_inv ?r ?ins (Collect (in_cache ?c) - set_option old) ?c"
    using N(1-4) I unfolding lru_inv_def lists_ok_def counts_ok_def usage_ok_def deleted_ok_def same i by simp
  show "\<exists>c2. LRU_FinishErase old ?c = Some c2 \<and> lru_ok ?r ?ins c2 \<and> lc_memory c2 e = Some h \<and> kept r key hash e c c2 \<and>
      lc_capacity c2 = lc_capacity c"
  proof (cases old)
    case None
    then have "lru_ok ?r ?ins ?c" using inv by (simp add: lru_ok_def)
    moreover have "kept r key hash e c ?c" using ne assms(4) by (auto simp: kept_def derived_def)
    ultimately show ?thesis using None assms(4) by (simp add: LRU_FinishErase_def)
  next
    case (Some q)
    then have "ht_Lookup (lc_at c1) key hash (lc_table c1) = Some q" using I at h(4,5) by simp
    then have q: "in_cache c q" "lh_hash (lc_at c1 q) = hash" "lh_key (lc_at c1 q) = key"
      using ht_Lookup_ok [OF T] by auto
    have qe: "q \<noteq> e" using q(1) e by auto
    have qc: "in_cache ?c q" using q(1) i same(1) by auto
    have "lru_inv ?r ?ins (Collect (in_cache ?c) - {q}) ?c" using inv Some by simp
    from LRU_FinishErase_ok [OF this qc] obtain c2 g where c2: "LRU_FinishErase (Some q) ?c = Some c2" "lru_ok ?r ?ins c2"
      "lc_memory ?c q = Some g"
      "lc_memory c2 = (lc_memory ?c)(q := (if ?r q = 0 then None else Some (g\<lparr>lh_in_cache := False, lh_refs := lh_refs g - 1\<rparr>)))"
      "lc_capacity c2 = lc_capacity ?c" by blast
    have g: "lc_memory c q = Some g" "lh_hash g = hash" "lh_key g = key"
      using c2(3) q(2,3) qe assms(4) by (simp_all add: lc_at_def)
    have "kept r key hash e c c2"
      using ne g qe assms(4) unfolding kept_def c2(4) by (auto simp: derived_def lru_entry_def)
    then show ?thesis using c2 Some qe assms(4) by auto
  qed
qed

text \<open>The new entry may take the place of one with its key, and then others are evicted.\<close>

lemma LRU_Insert_ok:
  assumes "lru_ok r ins c"
  defines "e \<equiv> lc_fresh c"
  shows "card (Collect (in_cache c)) < 2 ^ 31 \<Longrightarrow> LRU_Insert key hash v charge c \<noteq> None"
    and "LRU_Insert key hash v charge c = Some (e', c') \<Longrightarrow> e' = e \<and> lru_ok (r(e := 1)) (add_mset (key, v) ins) c' \<and>
      (\<exists>h. lc_memory c' e = Some h \<and> lru_entry h = (key, v) \<and> lh_hash h = hash \<and> (lh_in_cache h \<longleftrightarrow> 0 < lc_capacity c)) \<and>
      kept r key hash e c c' \<and> (lc_usage c' \<le> lc_capacity c' \<or> lc_lru c' = []) \<and> lc_capacity c' = lc_capacity c"
proof -
  let ?r = "r(e := 1)" and ?ins = "add_mset (key, v) ins"
  let ?h = "\<lparr>lh_value = v, lh_charge = charge, lh_key = key, lh_in_cache = False, lh_refs = 1, lh_hash = hash\<rparr>"
  let ?h2 = "?h\<lparr>lh_refs := 2, lh_in_cache := True\<rparr>"
  let ?c1 = "lc_set e ?h (c\<lparr>lc_fresh := e + 1\<rparr>)"
  let ?c2 = "c\<lparr>lc_fresh := e + 1, lc_memory := (lc_memory c)(e := Some ?h2), lc_in_use := lc_in_use c @ [e],
      lc_usage := lc_usage c + charge\<rparr>"
  let ?shrink = "\<lambda>c. LRU_shrink c \<bind> (\<lambda>c. Some (e, c))"
  have run: "LRU_Insert key hash v charge c =
      (if 0 < lc_capacity c
       then ht_Insert (lc_at ?c2) e (lc_table ?c2) \<bind> (\<lambda>(old, table). LRU_FinishErase old (?c2\<lparr>lc_table := table\<rparr>) \<bind> ?shrink)
       else ?shrink ?c1)"
    by (simp add: LRU_Insert_def Let_def lc_set_def LRU_Append_in_use_def e_def split_def)
  have final: "\<exists>c'. ?shrink d = Some (e, c') \<and> lru_ok ?r ?ins c' \<and>
      (\<exists>h. lc_memory c' e = Some h \<and> lru_entry h = (key, v) \<and> lh_hash h = hash \<and> (lh_in_cache h \<longleftrightarrow> 0 < lc_capacity c)) \<and>
      kept r key hash e c c' \<and> (lc_usage c' \<le> lc_capacity c' \<or> lc_lru c' = []) \<and> lc_capacity c' = lc_capacity c"
    if d: "lru_ok ?r ?ins d" "lc_memory d e = Some g" "lru_entry g = (key, v)" "lh_hash g = hash" "lh_in_cache g \<longleftrightarrow> 0 < lc_capacity c"
      "kept r key hash e c d" "lc_capacity d = lc_capacity c" for d g
  proof -
    obtain c' where c': "LRU_shrink d = Some c'" "lru_ok ?r ?ins c'" "shrunk ?r d c'" "lc_usage c' \<le> lc_capacity c' \<or> lc_lru c' = []"
      using LRU_shrink_ok [OF d(1)] by blast
    have "lc_memory c' e = Some g" "lc_capacity c' = lc_capacity c" using c'(3) d(2,7) by (simp_all add: shrunk_def)
    moreover have "kept r key hash e c c'" by (rule kept_shrunk [OF d(6) c'(3)]) simp
    ultimately show ?thesis using c' d(3-5) by auto
  qed
  have h2: "?h2 = \<lparr>lh_value = v, lh_charge = charge, lh_key = key, lh_in_cache = True, lh_refs = 2, lh_hash = hash\<rparr>" by simp
  note C = LRU_Insert_cached [OF assms(1) meta_eq_to_obj_eq [OF e_def] h2 refl]
  have "(card (Collect (in_cache c)) < 2 ^ 31 \<longrightarrow> LRU_Insert key hash v charge c \<noteq> None) \<and>
    (LRU_Insert key hash v charge c = Some (e', c') \<longrightarrow> e' = e \<and> lru_ok ?r ?ins c' \<and>
      (\<exists>h. lc_memory c' e = Some h \<and> lru_entry h = (key, v) \<and> lh_hash h = hash \<and> (lh_in_cache h \<longleftrightarrow> 0 < lc_capacity c)) \<and>
      kept r key hash e c c' \<and> (lc_usage c' \<le> lc_capacity c' \<or> lc_lru c' = []) \<and> lc_capacity c' = lc_capacity c)"
  proof (cases "0 < lc_capacity c")
    case True
    show ?thesis
    proof (cases "ht_Insert (lc_at ?c2) e (lc_table ?c2)")
      case None
      then show ?thesis using C(1) run True by auto
    next
      case (Some p)
      obtain old t where p: "p = (old, t)" by (cases p)
      from C(2) [of old t] Some p obtain d where d: "LRU_FinishErase old (?c2\<lparr>lc_table := t\<rparr>) = Some d" "lru_ok ?r ?ins d"
        "lc_memory d e = Some ?h2" "kept r key hash e c d" "lc_capacity d = lc_capacity c" by auto
      have "LRU_Insert key hash v charge c = ?shrink d" using run True Some p d(1) by simp
      with final [OF d(2,3) _ _ _ d(4,5)] True show ?thesis by (auto simp: lru_entry_def)
    qed
  next
    case False
    from LRU_Insert_first [OF assms(1) meta_eq_to_obj_eq [OF e_def] refl False, of v charge key hash]
    have d: "lru_ok ?r ?ins ?c1" "lc_memory ?c1 e = Some ?h" "kept r key hash e c ?c1" "lc_capacity ?c1 = lc_capacity c"
      by simp_all
    have "LRU_Insert key hash v charge c = ?shrink ?c1" using run False by simp
    with final [OF d(1,2) _ _ _ d(3,4)] False show ?thesis by (auto simp: lru_entry_def)
  qed
  then show "card (Collect (in_cache c)) < 2 ^ 31 \<Longrightarrow> LRU_Insert key hash v charge c \<noteq> None"
    "LRU_Insert key hash v charge c = Some (e', c') \<Longrightarrow> e' = e \<and> lru_ok ?r ?ins c' \<and>
      (\<exists>h. lc_memory c' e = Some h \<and> lru_entry h = (key, v) \<and> lh_hash h = hash \<and> (lh_in_cache h \<longleftrightarrow> 0 < lc_capacity c)) \<and>
      kept r key hash e c c' \<and> (lc_usage c' \<le> lc_capacity c' \<or> lc_lru c' = []) \<and> lc_capacity c' = lc_capacity c"
    by blast+
qed

section \<open>Lookups\<close>

lemma LRU_Lookup_ok:
  assumes "lru_ok r ins c" and "\<And>e. r e + 2 < 2 ^ 32"
  shows "(\<exists>e c' h. LRU_Lookup key hash c = Some (Some e, c') \<and> lc_memory c e = Some h \<and> lh_in_cache h \<and> lh_key h = key \<and>
      lh_hash h = hash \<and> lru_ok (r(e := r e + 1)) ins c' \<and>
      lc_memory c' = (lc_memory c)(e := Some (h\<lparr>lh_refs := lh_refs h + 1\<rparr>)) \<and> lc_capacity c' = lc_capacity c) \<or>
    LRU_Lookup key hash c = Some (None, c) \<and> (\<forall>e h. lc_memory c e = Some h \<longrightarrow> lh_in_cache h \<longrightarrow> \<not> (lh_key h = key \<and> lh_hash h = hash))"
proof -
  have T: "table_ok (lc_at c) (lc_table c) (Collect (in_cache c))" using assms(1) by (simp add: lru_ok_def lru_inv_def)
  show ?thesis
  proof (cases "ht_Lookup (lc_at c) key hash (lc_table c)")
    case None
    have "\<not> (lh_key h = key \<and> lh_hash h = hash)" if "lc_memory c e = Some h" "lh_in_cache h" for e h
      using None ht_Lookup_ok [OF T, of key hash e] that by (auto simp: in_cache_def lc_at_def)
    then show ?thesis using None by (simp add: LRU_Lookup_def)
  next
    case (Some e)
    then have e: "in_cache c e" "lh_hash (lc_at c e) = hash" "lh_key (lc_at c e) = key"
      using ht_Lookup_ok [OF T, of key hash e] by simp_all
    then obtain h where h: "lc_memory c e = Some h" "lh_in_cache h" "lh_hash h = hash" "lh_key h = key"
      by (auto simp: in_cache_def lc_at_def)
    from LRU_Ref_ok [OF assms(1) h(1) assms(2)] Some h show ?thesis by (auto simp: LRU_Lookup_def)
  qed
qed

section \<open>What clients can reach\<close>

text \<open>
  The states that clients reach with a capacity, with the references they hold and all that has ever
  been inserted: a handle is only released by one who holds it.
\<close>

inductive lru_reach :: "size_t \<Rightarrow> (nat \<Rightarrow> nat) \<Rightarrow> (slice \<times> 'v) multiset \<Rightarrow> 'v LRUCache \<Rightarrow> bool"
  for capacity :: size_t where
  start: "LRUCache_new = Some c \<Longrightarrow> lru_reach capacity (\<lambda>_. 0) {#} (LRU_SetCapacity capacity c)"
| hit: "lru_reach capacity r ins c \<Longrightarrow> (\<And>e. r e + 2 < 2 ^ 32) \<Longrightarrow> LRU_Lookup key hash c = Some (Some e, c') \<Longrightarrow>
    lru_reach capacity (r(e := r e + 1)) ins c'"
| insertion: "lru_reach capacity r ins c \<Longrightarrow> LRU_Insert key hash v charge c = Some (e, c') \<Longrightarrow>
    lru_reach capacity (r(e := 1)) (add_mset (key, v) ins) c'"
| release: "lru_reach capacity r ins c \<Longrightarrow> 0 < r e \<Longrightarrow> LRU_Release e c = Some c' \<Longrightarrow>
    lru_reach capacity (r(e := r e - 1)) ins c'"
| erase: "lru_reach capacity r ins c \<Longrightarrow> LRU_Erase key hash c = Some c' \<Longrightarrow> lru_reach capacity r ins c'"
| prune: "lru_reach capacity r ins c \<Longrightarrow> LRU_Prune c = Some c' \<Longrightarrow> lru_reach capacity r ins c'"

lemma LRUCache_new_start:
  assumes "LRUCache_new = Some c"
  shows "lru_ok (\<lambda>_. 0) {#} (LRU_SetCapacity capacity c)"
proof -
  let ?d = "LRU_SetCapacity capacity c"
  obtain t where t: "HandleTable_new (\<lambda>_. undefined :: 'a LRUHandle) = Some t"
    "c = \<lparr>lc_capacity = 0, lc_usage = 0, lc_lru = [], lc_in_use = [], lc_table = t,
      lc_memory = (\<lambda>_. None), lc_fresh = 0, lc_deleted = []\<rparr>"
    using assms by (auto simp: LRUCache_new_def split: Option.bind_splits)
  have "table_ok (lc_at ?d) t {}" using HandleTable_new_ok [of "\<lambda>_. undefined :: 'a LRUHandle" "lc_at ?d"] t(1) by auto
  moreover have "in_cache ?d = (\<lambda>_. False)" by (simp add: in_cache_def LRU_SetCapacity_def fun_eq_iff t(2))
  ultimately show ?thesis
    by (simp add: lru_ok_def lru_inv_def lists_ok_def counts_ok_def usage_ok_def deleted_ok_def LRU_SetCapacity_def t(2))
qed

lemma LRUCache_new_returns: "\<exists>c :: 'a LRUCache. LRUCache_new = Some c"
proof -
  obtain t where "HandleTable_new (\<lambda>_. undefined :: 'a LRUHandle) = Some t" by (metis HandleTable_new_ok)
  then show ?thesis unfolding LRUCache_new_def by simp
qed

text \<open>Erasing takes out the entry with the key and hash, if there is one, and changes nothing else.\<close>

lemma LRU_Erase_cases:
  assumes "lru_ok r ins c"
  shows "\<exists>c'. LRU_Erase key hash c = Some c' \<and> lru_ok r ins c' \<and> lc_capacity c' = lc_capacity c"
proof (cases "\<exists>e h. lc_memory c e = Some h \<and> lh_in_cache h \<and> lh_hash h = hash \<and> lh_key h = key")
  case True
  then obtain e h where h: "lc_memory c e = Some h" "in_cache c e" "lh_hash h = hash" "lh_key h = key" by (auto simp: in_cache_def)
  show ?thesis using LRU_Erase_ok [OF assms h(2,1)] h(3,4) by auto
next
  case False
  then show ?thesis using LRU_Erase_none [OF assms, of hash key] assms by auto
qed

lemma lru_reach_ok: "lru_reach capacity r ins c \<Longrightarrow> lru_ok r ins c \<and> lc_capacity c = capacity"
proof (induction rule: lru_reach.induct)
  case (start c)
  have "lc_capacity (LRU_SetCapacity capacity c) = capacity" by (simp add: LRU_SetCapacity_def)
  then show ?case by (rule conjI [OF LRUCache_new_start [OF start]])
next
  case (hit r ins c key hash e c')
  have "lru_ok (r(e := r e + 1)) ins c' \<and> lc_capacity c' = lc_capacity c"
    using LRU_Lookup_ok [OF conjunct1 [OF hit.IH] hit.hyps(2), of key hash] hit.hyps(3) by auto
  then show ?case unfolding hit.IH [THEN conjunct2] .
next
  case (insertion r ins c key hash v charge e c')
  note I = LRU_Insert_ok(2) [OF conjunct1 [OF insertion.IH] insertion.hyps(2)]
  then have "lru_ok (r(e := 1)) (add_mset (key, v) ins) c' \<and> lc_capacity c' = lc_capacity c" by simp
  then show ?case unfolding insertion.IH [THEN conjunct2] .
next
  case (release r ins c e c')
  have "lru_ok (r(e := r e - 1)) ins c' \<and> lc_capacity c' = lc_capacity c"
    using LRU_Unref_ok [OF conjunct1 [OF release.IH] release.hyps(2)] release.hyps(3) by (auto simp: LRU_Release_def)
  then show ?case unfolding release.IH [THEN conjunct2] .
next
  case (erase r ins c key hash c')
  then show ?case using LRU_Erase_cases [of r ins c key hash] by auto
next
  case (prune r ins c c')
  then show ?case using LRU_Prune_ok [of r ins c] by (auto simp: shrunk_def)
qed

section \<open>Properties\<close>

text \<open>
  C0: No use after free, no double free, no leak: in every state of the cache that clients reach, each
  handle they hold is in memory, every operation they may call returns, the usage is the sum of the
  charges of what is cached, and everything that was ever inserted has either been deleted, once, or is
  still in memory, where only entries that are cached or held remain.
\<close>

theorem lru_cache_safe:
  assumes "lru_reach capacity r ins c"
  shows "(\<forall>e. 0 < r e \<longrightarrow> lc_memory c e \<noteq> None \<and> LRU_Release e c \<noteq> None) \<and>
    LRU_Erase key hash c \<noteq> None \<and> LRU_Prune c \<noteq> None \<and>
    ((\<forall>e. r e + 2 < 2 ^ 32) \<longrightarrow> LRU_Lookup key hash c \<noteq> None) \<and>
    (card {e. in_cache c e} < 2 ^ 31 \<longrightarrow> LRU_Insert key hash v charge c \<noteq> None) \<and>
    LRU_TotalCharge c = (\<Sum>e | in_cache c e. lh_charge (lc_at c e)) \<and>
    mset (lc_deleted c) + image_mset (\<lambda>e. lru_entry (lc_at c e)) (mset_set (dom (lc_memory c))) = ins \<and>
    (\<forall>e. lc_memory c e \<noteq> None \<longleftrightarrow> in_cache c e \<or> 0 < r e)"
proof -
  have ok: "lru_ok r ins c" using lru_reach_ok [OF assms] by blast
  then have inv: "counts_ok r c" "usage_ok c" "deleted_ok ins c" by (simp_all add: lru_ok_def lru_inv_def)
  have "lc_memory c e \<noteq> None \<and> LRU_Release e c \<noteq> None" if "0 < r e" for e
    using counts_okD(4) [OF inv(1) that] LRU_Unref_ok [OF ok that] by (auto simp: LRU_Release_def)
  moreover have "LRU_Erase key hash c \<noteq> None" using LRU_Erase_cases [OF ok, of key hash] by auto
  moreover have "LRU_Prune c \<noteq> None" using LRU_Prune_ok [OF ok] by auto
  moreover have "LRU_Lookup key hash c \<noteq> None" if "\<forall>e. r e + 2 < 2 ^ 32"
    using LRU_Lookup_ok [OF ok, of key hash] that by auto
  moreover have "LRU_Insert key hash v charge c \<noteq> None" if "card {e. in_cache c e} < 2 ^ 31"
    by (rule LRU_Insert_ok(1) [OF ok that])
  moreover have "lc_memory c e \<noteq> None \<longleftrightarrow> in_cache c e \<or> 0 < r e" for e
    using counts_okD(3,4) [OF inv(1), of e] by (auto simp: in_cache_def)
  ultimately show ?thesis using inv(2,3) unfolding usage_ok_def deleted_ok_def LRU_TotalCharge_def by blast
qed

theorem lru_cache_safe_witness:
  "\<exists>c :: nat LRUCache. LRUCache_new = Some c \<and> LRU_TotalCharge (LRU_SetCapacity 2 c) = 0 \<and>
    LRU_Insert [1] 5 7 1 (LRU_SetCapacity 2 c) \<noteq> None"
proof -
  obtain c :: "nat LRUCache" where c: "LRUCache_new = Some c" using LRUCache_new_returns by blast
  have "Collect (in_cache (LRU_SetCapacity 2 c)) = {}"
    using c by (auto simp: LRUCache_new_def in_cache_def LRU_SetCapacity_def split: Option.bind_splits)
  with lru_cache_safe [OF lru_reach.start [OF c], where capacity = 2 and key = "[1]" and hash = 5 and v = 7 and charge = 1] c
  show ?thesis by (intro exI [of _ c]) simp
qed

text \<open>Looking up a key gives its entry, when there is one in the cache.\<close>

lemma lookup_entry:
  assumes "lru_ok r ins c" and "\<And>e. r e + 2 < 2 ^ 32"
  shows "(\<exists>d. LRU_Lookup key hash c = Some (Some e, d)) \<longleftrightarrow>
    (\<exists>h. lc_memory c e = Some h \<and> lh_in_cache h \<and> lh_key h = key \<and> lh_hash h = hash)"
proof -
  have T: "table_ok (lc_at c) (lc_table c) (Collect (in_cache c))" using assms(1) by (simp add: lru_ok_def lru_inv_def)
  have L: "ht_Lookup (lc_at c) key hash (lc_table c) = Some e \<longleftrightarrow>
      (\<exists>h. lc_memory c e = Some h \<and> lh_in_cache h \<and> lh_key h = key \<and> lh_hash h = hash)"
    using ht_Lookup_ok [OF T, of key hash e] by (auto simp: in_cache_def lc_at_def)
  have "(\<exists>d. LRU_Lookup key hash c = Some (Some e, d)) \<longleftrightarrow> ht_Lookup (lc_at c) key hash (lc_table c) = Some e"
  proof
    assume "ht_Lookup (lc_at c) key hash (lc_table c) = Some e"
    then obtain h where "lc_memory c e = Some h" using L by blast
    then show "\<exists>d. LRU_Lookup key hash c = Some (Some e, d)"
      using LRU_Ref_ok [OF assms(1) _ assms(2), of e h] \<open>ht_Lookup (lc_at c) key hash (lc_table c) = Some e\<close>
      by (auto simp: LRU_Lookup_def)
  next
    assume "\<exists>d. LRU_Lookup key hash c = Some (Some e, d)"
    then show "ht_Lookup (lc_at c) key hash (lc_table c) = Some e"
      by (auto simp: LRU_Lookup_def split: option.splits Option.bind_splits)
  qed
  then show ?thesis using L by simp
qed

text \<open>
  C0: What an insertion does: the key is looked up to the new value, unless the capacity is zero;
  every other key is looked up to the entry it had, or is no longer there, and it is still there if a
  client holds the entry; and entries are evicted until the charges are within the capacity or
  everything that is left is in use.
\<close>

theorem lru_cache_insert:
  assumes "lru_reach capacity r ins c" and "\<forall>e. r e + 2 < 2 ^ 32" and "LRU_Insert key hash v charge c = Some (e, c')"
  shows "lh_value (lc_at c' e) = v \<and> (0 < capacity \<longrightarrow> (\<exists>d. LRU_Lookup key hash c' = Some (Some e, d))) \<and>
    (\<forall>k n x d. (k, n) \<noteq> (key, hash) \<longrightarrow> LRU_Lookup k n c' = Some (Some x, d) \<longrightarrow>
      (\<exists>d. LRU_Lookup k n c = Some (Some x, d)) \<and> lh_value (lc_at c' x) = lh_value (lc_at c x)) \<and>
    (\<forall>k n x d. (k, n) \<noteq> (key, hash) \<longrightarrow> LRU_Lookup k n c = Some (Some x, d) \<longrightarrow> 0 < r x \<longrightarrow>
      (\<exists>d. LRU_Lookup k n c' = Some (Some x, d))) \<and>
    (LRU_TotalCharge c' \<le> capacity \<or> (\<forall>x. in_cache c' x \<longrightarrow> x = e \<or> 0 < r x))"
proof -
  have ok: "lru_ok r ins c" "lc_capacity c = capacity" using lru_reach_ok [OF assms(1)] by simp_all
  note I = LRU_Insert_ok(2) [OF ok(1) assms(3)]
  then have ok': "lru_ok (r(e := 1)) (add_mset (key, v) ins) c'" and kept: "kept r key hash e c c'" by simp_all
  obtain h where h: "lc_memory c' e = Some h" "lru_entry h = (key, v)" "lh_hash h = hash" "lh_in_cache h \<longleftrightarrow> 0 < capacity"
    using I ok(2) by auto
  have r: "r x + 2 < 2 ^ 32" and r': "(r(e := 1)) x + 2 < 2 ^ 32" for x using assms(2) by simp_all
  note L = lookup_entry [OF ok(1) r] and L' = lookup_entry [OF ok' r']
  have "lc_capacity c' = capacity" using I ok(2) by simp
  moreover have "lc_usage c' \<le> lc_capacity c' \<or> lc_lru c' = []" using I by blast
  moreover have "x = e \<or> 0 < r x" if "lc_lru c' = []" "in_cache c' x" for x
    using ok' that by (auto simp: lru_ok_def lru_inv_def lists_ok_def split: if_splits)
  ultimately have last: "LRU_TotalCharge c' \<le> capacity \<or> (\<forall>x. in_cache c' x \<longrightarrow> x = e \<or> 0 < r x)"
    unfolding LRU_TotalCharge_def by metis
  have new: "\<exists>d. LRU_Lookup key hash c' = Some (Some e, d)" if "0 < capacity"
    using L' h that by (simp add: lru_entry_def)
  have old: "(\<exists>d. LRU_Lookup k n c = Some (Some x, d)) \<and> lh_value (lc_at c' x) = lh_value (lc_at c x)"
    if ne: "(k, n) \<noteq> (key, hash)" and l: "LRU_Lookup k n c' = Some (Some x, d)" for k n x d
  proof -
    obtain h' where h': "lc_memory c' x = Some h'" "lh_in_cache h'" "lh_key h' = k" "lh_hash h' = n" using iffD1 [OF L' exI, OF l] by blast
    have "x \<noteq> e" using ne h' h(1-3) by (auto simp: lru_entry_def)
    then obtain g where "lc_memory c x = Some g" "derived g h'" using kept h'(1) unfolding kept_def by blast
    then show ?thesis using L h' by (auto simp: derived_def lru_entry_def lc_at_def)
  qed
  have used: "\<exists>d. LRU_Lookup k n c' = Some (Some x, d)"
    if ne: "(k, n) \<noteq> (key, hash)" and l: "LRU_Lookup k n c = Some (Some x, d)" and held: "0 < r x" for k n x d
  proof -
    obtain g where g: "lc_memory c x = Some g" "lh_in_cache g" "lh_key g = k" "lh_hash g = n" using iffD1 [OF L exI, OF l] by blast
    obtain h' where "lc_memory c' x = Some h'" "derived g h'" "lh_in_cache h' = lh_in_cache g \<or> lh_key g = key \<and> lh_hash g = hash"
      using kept g(1) held unfolding kept_def by blast
    then show ?thesis using L' g ne by (auto simp: derived_def lru_entry_def)
  qed
  have "lh_value (lc_at c' e) = v" using h by (simp add: lc_at_def lru_entry_def)
  then show ?thesis using new old used last by blast
qed

theorem lru_cache_insert_witness:
  "\<exists>(c :: nat LRUCache) e c' d. LRUCache_new = Some c \<and> LRU_Insert [1] 5 7 1 (LRU_SetCapacity 2 c) = Some (e, c') \<and>
    LRU_Lookup [1] 5 c' = Some (Some e, d) \<and> lh_value (lc_at c' e) = 7"
proof -
  obtain c :: "nat LRUCache" where c: "LRUCache_new = Some c" using LRUCache_new_returns by blast
  note R = lru_reach.start [OF c, of 2]
  have "Collect (in_cache (LRU_SetCapacity 2 c)) = {}"
    using c by (auto simp: LRUCache_new_def in_cache_def LRU_SetCapacity_def split: Option.bind_splits)
  then have "card (Collect (in_cache (LRU_SetCapacity 2 c))) < 2 ^ 31" by (simp only: card.empty) simp
  then have "LRU_Insert [1] 5 7 1 (LRU_SetCapacity 2 c) \<noteq> None" by (rule LRU_Insert_ok(1) [OF LRUCache_new_start [OF c]])
  then obtain e c' where ins: "LRU_Insert [1] 5 7 1 (LRU_SetCapacity 2 c) = Some (e, c')" by auto
  from lru_cache_insert [OF R _ ins] c ins show ?thesis by auto
qed

section \<open>Sixteen caches\<close>

text \<open>Nobody holds a handle of any of them.\<close>

definition shards_ok :: "'v ShardedLRUCache \<Rightarrow> bool" where
  "shards_ok c \<longleftrightarrow> length (sc_shard c) = kNumShards \<and> (\<forall>i < kNumShards. \<exists>ins. lru_ok (\<lambda>_. 0) ins (sc_shard c ! i))"

definition shards_hold :: "'v ShardedLRUCache \<Rightarrow> slice \<Rightarrow> 'v \<Rightarrow> bool" where
  "shards_hold c k v \<longleftrightarrow> (\<exists>i < kNumShards. \<exists>e h. lc_memory (sc_shard c ! i) e = Some h \<and> lh_in_cache h \<and> lru_entry h = (k, v))"

lemma Shard_less: "Shard hash < kNumShards"
proof -
  have "unat hash < 2 ^ 32" using unat_bound [of hash] by simp
  moreover have "Shard hash = drop_bit 28 (unat hash)" by (simp add: Shard_def kNumShardBits_def unat_drop_bit drop_bit_eq_div unat_div)
  ultimately show ?thesis by (simp add: kNumShards_def kNumShardBits_def drop_bit_eq_div less_mult_imp_div_less)
qed

lemma NewLRUCache_ok:
  assumes "NewLRUCache capacity = Some c"
  shows "shards_ok c \<and> \<not> shards_hold c k v"
proof -
  obtain s n where s: "LRUCache_new = Some s"
    "c = \<lparr>sc_shard = replicate kNumShards (LRU_SetCapacity n s), sc_last_id = 0\<rparr>"
    using assms by (auto simp: NewLRUCache_def Let_def split: Option.bind_splits)
  have m: "lc_memory s = (\<lambda>_. None)" using s(1) by (auto simp: LRUCache_new_def split: Option.bind_splits)
  have "shards_ok c" using LRUCache_new_start [OF s(1), of n] by (auto simp: shards_ok_def s(2))
  moreover have "\<not> shards_hold c k v" by (auto simp: shards_hold_def LRU_SetCapacity_def m s(2))
  ultimately show ?thesis by blast
qed

lemma NewLRUCache_returns: "\<exists>c :: 'a ShardedLRUCache. NewLRUCache capacity = Some c"
proof -
  obtain s :: "'a LRUCache" where s: "LRUCache_new = Some s" by (metis LRUCache_new_returns)
  show ?thesis unfolding NewLRUCache_def s Let_def by simp
qed

text \<open>A lookup whose handle is released again, and an insertion likewise.\<close>

definition cache_peek :: "slice \<Rightarrow> 'v ShardedLRUCache \<Rightarrow> ('v option \<times> 'v ShardedLRUCache) option" where
  "cache_peek k c = do {
     (handle, c) \<leftarrow> Cache_Lookup k c;
     case handle of
       None \<Rightarrow> Some (None, c)
     | Some h \<Rightarrow> do { v \<leftarrow> Cache_Value h c; c \<leftarrow> Cache_Release h c; Some (Some v, c) } }"

definition cache_put :: "slice \<Rightarrow> 'v \<Rightarrow> size_t \<Rightarrow> 'v ShardedLRUCache \<Rightarrow> 'v ShardedLRUCache option" where
  "cache_put k v charge c = do { (handle, c) \<leftarrow> Cache_Insert k v charge c; Cache_Release handle c }"

lemma shards_update:
  assumes "shards_ok c" and "i < kNumShards" and "lru_ok (\<lambda>_. 0) ins s"
  shows "shards_ok (c\<lparr>sc_shard := (sc_shard c)[i := s]\<rparr>)"
  using assms by (auto simp: shards_ok_def nth_list_update)

lemma shards_hold_update:
  assumes "shards_ok c" and "shards_hold (c\<lparr>sc_shard := (sc_shard c)[i := s]\<rparr>) k v"
  shows "shards_hold c k v \<or> (\<exists>e h. lc_memory s e = Some h \<and> lh_in_cache h \<and> lru_entry h = (k, v))"
proof -
  obtain j e h where j: "j < kNumShards" "lc_memory ((sc_shard c)[i := s] ! j) e = Some h" "lh_in_cache h" "lru_entry h = (k, v)"
    using assms(2) by (auto simp: shards_hold_def)
  then show ?thesis using assms(1) by (cases "i = j") (auto simp: shards_ok_def shards_hold_def)
qed

lemma cache_peek_ok:
  assumes "shards_ok c"
  shows "\<exists>res c'. cache_peek k c = Some (res, c') \<and> shards_ok c' \<and> (\<forall>v. res = Some v \<longrightarrow> shards_hold c k v) \<and>
    (\<forall>k' v. shards_hold c' k' v \<longrightarrow> shards_hold c k' v)"
proof -
  let ?i = "Shard (HashSlice k)"
  let ?s = "sc_shard c ! ?i"
  have i: "?i < kNumShards" by (rule Shard_less)
  then obtain ins where s: "lru_ok (\<lambda>_. 0) ins ?s" using assms by (auto simp: shards_ok_def)
  have len: "length (sc_shard c) = kNumShards" using assms by (simp add: shards_ok_def)
  from LRU_Lookup_ok [OF s, of k "HashSlice k"] show ?thesis
  proof
    assume "\<exists>e c' h. LRU_Lookup k (HashSlice k) ?s = Some (Some e, c') \<and> lc_memory ?s e = Some h \<and> lh_in_cache h \<and> lh_key h = k \<and>
      lh_hash h = HashSlice k \<and> lru_ok ((\<lambda>_. 0)(e := 0 + 1)) ins c' \<and>
      lc_memory c' = (lc_memory ?s)(e := Some (h\<lparr>lh_refs := lh_refs h + 1\<rparr>)) \<and> lc_capacity c' = lc_capacity ?s"
    then obtain e s1 h where l: "LRU_Lookup k (HashSlice k) ?s = Some (Some e, s1)" "lc_memory ?s e = Some h" "lh_in_cache h"
      "lh_key h = k" "lh_hash h = HashSlice k" "lru_ok ((\<lambda>_. 0)(e := 1)) ins s1"
      "lc_memory s1 = (lc_memory ?s)(e := Some (h\<lparr>lh_refs := lh_refs h + 1\<rparr>))" by auto
    from LRU_Unref_ok [OF l(6), of e] obtain s2 h1 where u: "LRU_Unref e s1 = Some s2" "lru_ok ((\<lambda>_. 0)(e := 0)) ins s2"
      "lc_memory s1 e = Some h1"
      "lc_memory s2 = (lc_memory s1)(e := (if \<not> lh_in_cache h1 then None else Some (h1\<lparr>lh_refs := lh_refs h1 - 1\<rparr>)))" by auto
    have h1: "h1 = h\<lparr>lh_refs := lh_refs h + 1\<rparr>" using u(3) l(7) by simp
    let ?c = "c\<lparr>sc_shard := (sc_shard c)[?i := s2]\<rparr>"
    have zero: "(\<lambda>_. 0)(e := 0) = (\<lambda>_. 0 :: nat)" by auto
    have run: "cache_peek k c = Some (Some (lh_value h), ?c)"
      using l(1,2,5,7) u(1) len i
      by (simp add: cache_peek_def Cache_Lookup_def Cache_Value_def Cache_Release_def handle_at_def LRU_Release_def Let_def)
    have ok: "shards_ok ?c" using shards_update [OF assms i] u(2) unfolding zero by blast
    have m: "lc_memory s2 = lc_memory ?s" using u(4) l(2,3,7) h1 by (simp add: fun_upd_idem)
    have held: "shards_hold c k (lh_value h)" using i l(2-4) by (auto simp: shards_hold_def lru_entry_def)
    have "shards_hold c k' v" if "shards_hold ?c k' v" for k' v
      using shards_hold_update [OF assms that] i unfolding m by (auto simp: shards_hold_def)
    then show ?thesis using run ok held by blast
  next
    assume "LRU_Lookup k (HashSlice k) ?s = Some (None, ?s) \<and>
      (\<forall>e h. lc_memory ?s e = Some h \<longrightarrow> lh_in_cache h \<longrightarrow> \<not> (lh_key h = k \<and> lh_hash h = HashSlice k))"
    then have "cache_peek k c = Some (None, c)" by (simp add: cache_peek_def Cache_Lookup_def Let_def)
    then show ?thesis using assms by blast
  qed simp
qed

lemma cache_put_ok:
  assumes "shards_ok c" and "cache_put k v charge c = Some c'"
  shows "shards_ok c' \<and> (\<forall>k' v'. shards_hold c' k' v' \<longrightarrow> k' = k \<and> v' = v \<or> shards_hold c k' v')"
proof -
  let ?i = "Shard (HashSlice k)"
  let ?s = "sc_shard c ! ?i"
  have i: "?i < kNumShards" by (rule Shard_less)
  then obtain ins where s: "lru_ok (\<lambda>_. 0) ins ?s" using assms by (auto simp: shards_ok_def)
  have len: "length (sc_shard c) = kNumShards" using assms by (simp add: shards_ok_def)
  obtain e s1 where ins: "LRU_Insert k (HashSlice k) v charge ?s = Some (e, s1)"
    using assms(2) by (auto simp: cache_put_def Cache_Insert_def Let_def split: Option.bind_splits)
  note I = LRU_Insert_ok(2) [OF s ins]
  then have s1: "lru_ok ((\<lambda>_. 0)(e := 1)) (add_mset (k, v) ins) s1" and kept: "kept (\<lambda>_. 0) k (HashSlice k) e ?s s1" by simp_all
  obtain h where h: "lc_memory s1 e = Some h" "lru_entry h = (k, v)" "lh_hash h = HashSlice k" using I by auto
  from LRU_Unref_ok [OF s1, of e] h(1) obtain s2 where u: "LRU_Unref e s1 = Some s2"
    "lru_ok ((\<lambda>_. 0)(e := 0)) (add_mset (k, v) ins) s2"
    "lc_memory s2 = (lc_memory s1)(e := (if \<not> lh_in_cache h then None else Some (h\<lparr>lh_refs := lh_refs h - 1\<rparr>)))" by auto
  let ?c = "c\<lparr>sc_shard := (sc_shard c)[?i := s2]\<rparr>"
  have zero: "(\<lambda>_. 0)(e := 0) = (\<lambda>_. 0 :: nat)" by auto
  have c': "c' = ?c"
    using assms(2) ins h u(1) len i
    by (simp add: cache_put_def Cache_Insert_def Cache_Release_def handle_at_def LRU_Release_def Let_def)
  have "shards_ok ?c" using shards_update [OF assms(1) i] u(2) unfolding zero by blast
  moreover have "k' = k \<and> v' = v \<or> shards_hold c k' v'" if hold: "shards_hold ?c k' v'" for k' v'
  proof -
    from shards_hold_update [OF assms(1) hold] show ?thesis
    proof
      assume "\<exists>x g. lc_memory s2 x = Some g \<and> lh_in_cache g \<and> lru_entry g = (k', v')"
      then obtain x g where g: "lc_memory s2 x = Some g" "lh_in_cache g" "lru_entry g = (k', v')" by blast
      show ?thesis
      proof (cases "x = e")
        case True
        then show ?thesis using g u(3) h(2) by (auto simp: lru_entry_def split: if_splits)
      next
        case False
        then have "lc_memory s1 x = Some g" using g(1) u(3) by simp
        then obtain g0 where "lc_memory ?s x = Some g0" "derived g0 g" using kept False unfolding kept_def by blast
        then have "shards_hold c k' v'" using g(2,3) i by (auto simp: shards_hold_def derived_def)
        then show ?thesis by blast
      qed
    qed blast
  qed
  ultimately show ?thesis unfolding c' by blast
qed

end
