(* ===== verification/Ldb_Table_Props.thy ===== *)
theory Ldb_Table_Props
  imports Ldb_Table_Options Ldb_Cache_Props Ldb_Log_Props
begin

text \<open>
  Tables from end to end: the LRU cache as the cache of blocks, the tables of the database on POSIX files,
  and what is read from a table that has been written.
\<close>

section \<open>The block cache\<close>

text \<open>The handle of a block is released when its iterator is deleted, which happens at once here.\<close>

definition lru_block_cache :: "Block ShardedLRUCache BlockCache" where
  "lru_block_cache =
     \<lparr>cache_Lookup = (\<lambda>c k. case cache_peek k c of None \<Rightarrow> (None, c) | Some r \<Rightarrow> r),
      cache_Insert = (\<lambda>c k b. case cache_put k b (of_nat (bl_size b)) c of None \<Rightarrow> c | Some c' \<Rightarrow> c'),
      cache_NewId = Cache_NewId\<rparr>"

interpretation no_cache: block_cache None "\<lambda>_. True" "\<lambda>_ _ _. False"
  by unfold_locales simp_all

interpretation lru_blocks: block_cache "Some lru_block_cache" shards_ok shards_hold
proof (unfold_locales, goal_cases)
  case (1 ops c k r c')
  then show ?case using cache_peek_ok [of c k] by (auto simp: lru_block_cache_def)
next
  case (2 ops c k b)
  show ?case
  proof (cases "cache_put k b (of_nat (bl_size b)) c")
    case None
    then show ?thesis using 2 by (auto simp: lru_block_cache_def)
  next
    case (Some c')
    then have "cache_Insert ops c k b = c'" using 2(1) by (auto simp: lru_block_cache_def)
    then show ?thesis using cache_put_ok [OF 2(2) Some] by blast
  qed
next
  case (3 ops c n c')
  then show ?case by (auto simp: lru_block_cache_def Cache_NewId_def Let_def shards_ok_def)
qed

lemma NewLRUCache_unused: "NewLRUCache capacity = Some c \<Longrightarrow> unused_id (Some lru_block_cache) shards_hold c"
  using NewLRUCache_ok [of capacity c]
  by (auto simp: unused_id_def lru_block_cache_def Cache_NewId_def Let_def shards_hold_def)

section \<open>The tables of the database\<close>

definition db_options :: "BloomFilterPolicy option \<Rightarrow> TableOptions" where
  "db_options bloom = SanitizeOptions (Options_new\<lparr>op_filter_policy := map_option NewBloomFilterPolicy bloom\<rparr>)"

lemma db_options_table: "table_options (db_options bloom) bytewise.ivalid (\<lambda>keys. bloom_ok bloom (map ExtractUserKey keys))
    (\<lambda>a b. ExtractUserKey a = ExtractUserKey b)"
  unfolding db_options_def by (rule default_options.db_table_options)

interpretation db_writer: table_writer "db_options bloom" bytewise.ivalid "\<lambda>keys. bloom_ok bloom (map ExtractUserKey keys)"
  "\<lambda>a b. ExtractUserKey a = ExtractUserKey b" "Posix_Append os" "Posix_Flush os" pf_contents pf_file for bloom os
  by (intro table_writer.intro db_options_table posix_writable.writable_file_axioms)

interpretation db_reader: table_reader "db_options bloom" bytewise.ivalid "\<lambda>keys. bloom_ok bloom (map ExtractUserKey keys)"
  "\<lambda>a b. ExtractUserKey a = ExtractUserKey b" "Mmap_Read os" "\<lambda>f. length (mm_memory f) < 2 ^ 64" mm_memory
  "Some lru_block_cache" shards_ok shards_hold ro for bloom os ro
  by (intro table_reader.intro db_options_table mmap.random_access_file_axioms lru_blocks.block_cache_axioms)

section \<open>Writing succeeds\<close>

text \<open>When every write to the file succeeds, so does the building of a table.\<close>

definition writes_succeed :: "(slice \<Rightarrow> 'f \<Rightarrow> (Status \<times> 'f) option) \<Rightarrow> ('f \<Rightarrow> (Status \<times> 'f) option) \<Rightarrow> bool" where
  "writes_succeed fappend fflush \<longleftrightarrow>
     (\<forall>s f. \<exists>g. fappend s f = Some (Status_OK, g)) \<and> (\<forall>f. \<exists>g. fflush f = Some (Status_OK, g))"

lemma WriteRawBlock_succeeds:
  assumes "writes_succeed fappend fflush"
  shows "\<exists>h r'. WriteRawBlock fappend data kind r = Some (h, r') \<and> TableBuilder_ok r'"
proof -
  obtain f where f: "fappend data (tb_file r) = Some (Status_OK, f)" using assms unfolding writes_succeed_def by blast
  obtain g where "fappend (compression_byte kind # EncodeFixed32 (crc32c_Mask (crc32c_Extend (crc32c_Value data) [compression_byte kind]))) f
      = Some (Status_OK, g)" using assms unfolding writes_succeed_def by blast
  then show ?thesis using f by (simp add: WriteRawBlock_def Let_def TableBuilder_ok_def)
qed

lemma WriteBlock_succeeds:
  assumes "writes_succeed fappend fflush"
  shows "\<exists>h b r'. WriteBlock options fappend block r = Some (h, b, r') \<and> TableBuilder_ok r'"
proof -
  obtain data kind where "WriteBlock options fappend block r =
      WriteRawBlock fappend data kind r \<bind> (\<lambda>(handle, r). Some (handle, BlockBuilder_Reset, r))"
    by (simp add: WriteBlock_def Let_def split_def)
  then show ?thesis using WriteRawBlock_succeeds [OF assms, of data kind r] by auto
qed

lemma TableBuilder_ok_updates [simp]:
  "TableBuilder_ok (r\<lparr>tb_data_block := b\<rparr>) = TableBuilder_ok r" "TableBuilder_ok (r\<lparr>tb_index_block := b\<rparr>) = TableBuilder_ok r"
  "TableBuilder_ok (r\<lparr>tb_pending_handle := h\<rparr>) = TableBuilder_ok r" "TableBuilder_ok (r\<lparr>tb_closed := c\<rparr>) = TableBuilder_ok r"
  "TableBuilder_ok (r\<lparr>tb_last_key := k\<rparr>) = TableBuilder_ok r" "TableBuilder_ok (r\<lparr>tb_num_entries := n\<rparr>) = TableBuilder_ok r"
  "TableBuilder_ok (r\<lparr>tb_filter_block := fb\<rparr>) = TableBuilder_ok r"
  "TableBuilder_ok (add_index_entry k r) = TableBuilder_ok r" "TableBuilder_ok (on_filter options f r) = TableBuilder_ok r"
  by (simp_all add: TableBuilder_ok_def add_index_entry_def on_filter_def split: option.split)

lemma Flush_succeeds:
  assumes "writes_succeed fappend fflush" and "TableBuilder_ok r"
  shows "\<exists>r'. TableBuilder_Flush options fappend fflush r = Some r' \<and> TableBuilder_ok r'"
proof -
  obtain h b r1 where w: "WriteBlock options fappend (tb_data_block r) r = Some (h, b, r1)" "TableBuilder_ok r1"
    using WriteBlock_succeeds [OF assms(1)] by blast
  obtain g where "fflush (tb_file r1) = Some (Status_OK, g)" using assms(1) unfolding writes_succeed_def by blast
  then show ?thesis using assms(2) w by (simp add: TableBuilder_Flush_def Let_def) (simp add: TableBuilder_ok_def)
qed

lemma Add_succeeds:
  assumes "writes_succeed fappend fflush" and "TableBuilder_ok r"
  shows "\<exists>r'. TableBuilder_Add options fappend fflush k v r = Some r' \<and> TableBuilder_ok r'"
  using Flush_succeeds [OF assms(1)] assms(2) by (simp add: TableBuilder_Add_def Let_def)

lemma AddAll_succeeds:
  assumes "writes_succeed fappend fflush"
  shows "TableBuilder_ok r \<Longrightarrow> \<exists>r'. TableBuilder_AddAll options fappend fflush es r = Some r' \<and> TableBuilder_ok r'"
proof (induction es arbitrary: r)
  case (Cons e es)
  obtain k v where e: "e = (k, v)" by (cases e)
  obtain r1 where "TableBuilder_Add options fappend fflush k v r = Some r1" "TableBuilder_ok r1"
    using Add_succeeds [OF assms Cons.prems] by blast
  then show ?case using Cons.IH e by simp
qed simp

lemma Finish_succeeds:
  assumes "writes_succeed fappend fflush" and "TableBuilder_ok r"
  shows "\<exists>r'. TableBuilder_Finish options fappend fflush r = Some (Status_OK, r')"
proof -
  obtain r0 where r0: "TableBuilder_Flush options fappend fflush r = Some r0" "TableBuilder_ok r0"
    using Flush_succeeds [OF assms] by blast
  have "\<exists>h r1. Finish_filter options fappend (r0\<lparr>tb_closed := True\<rparr>) = Some (h, r1) \<and> TableBuilder_ok r1"
  proof (cases "op_filter_policy options")
    case (Some policy)
    show ?thesis
    proof (cases "tb_filter_block r0")
      case fb: (Some fb)
      then show ?thesis using WriteRawBlock_succeeds [OF assms(1)] r0(2) Some by (simp add: Finish_filter_def split_def Let_def)
    qed (use r0 Some in \<open>simp add: Finish_filter_def\<close>)
  qed (use r0 in \<open>simp add: Finish_filter_def\<close>)
  then obtain h r1 where r1: "Finish_filter options fappend (r0\<lparr>tb_closed := True\<rparr>) = Some (h, r1)" "TableBuilder_ok r1" by blast
  have "\<exists>mh r2. Finish_metaindex options fappend h r1 = Some (mh, r2) \<and> TableBuilder_ok r2"
  proof -
    obtain block where b: "Finish_metaindex options fappend h r1 =
        WriteBlock options fappend block r1 \<bind> (\<lambda>(handle, block, r). Some (handle, r))"
      using r1(2) by (auto simp: Finish_metaindex_def Let_def)
    then show ?thesis using WriteBlock_succeeds [OF assms(1), of options block r1] by auto
  qed
  then obtain mh r2 where r2: "Finish_metaindex options fappend h r1 = Some (mh, r2)" "TableBuilder_ok r2" by blast
  have "\<exists>ih r3. Finish_index options fappend r2 = Some (ih, r3) \<and> TableBuilder_ok r3"
  proof -
    define r where "r = (if tb_pending_index_entry r2 then add_index_entry (op_FindShortSuccessor options (tb_last_key r2)) r2 else r2)"
    obtain h b r3 where "WriteBlock options fappend (tb_index_block r) r = Some (h, b, r3)" "TableBuilder_ok r3"
      using WriteBlock_succeeds [OF assms(1)] by blast
    then show ?thesis using r2(2) by (simp add: Finish_index_def Let_def r_def)
  qed
  then obtain ih r3 where r3: "Finish_index options fappend r2 = Some (ih, r3)" "TableBuilder_ok r3" by blast
  obtain g where "fappend (Footer_EncodeTo \<lparr>ft_metaindex = mh, ft_index = ih\<rparr> []) (tb_file r3) = Some (Status_OK, g)"
    using assms(1) unfolding writes_succeed_def by blast
  then show ?thesis using r0(1) r1(1) r2(1) r3 by (simp add: TableBuilder_Finish_def Finish_footer_def Let_def)
qed

lemma TableBuilder_new_ok: "TableBuilder_ok (TableBuilder_new options file)"
  by (simp add: TableBuilder_new_def) (simp add: TableBuilder_ok_def)

lemma Build_succeeds:
  "writes_succeed fappend fflush \<Longrightarrow> \<exists>r. TableBuilder_Build options fappend fflush es file = Some (Status_OK, r)"
proof -
  assume w: "writes_succeed fappend fflush"
  obtain r1 where r1: "TableBuilder_AddAll options fappend fflush es (TableBuilder_new options file) = Some r1" "TableBuilder_ok r1"
    using AddAll_succeeds [OF w TableBuilder_new_ok] by blast
  then show ?thesis using Finish_succeeds [OF w r1(2)] by (simp add: TableBuilder_Build_def)
qed

lemma calm_writes_succeed: "writes_succeed (Posix_Append calm_os) (Posix_Flush calm_os)"
  using calm_Append calm_Flush by (simp add: writes_succeed_def)

section \<open>Properties\<close>

text \<open>
  C0: Tables keep what is added to them: when the builder writes entries with increasing internal keys to
  a POSIX file without an error, with any block sizes, restart interval and filter, the file has the
  size it reports and opens, through \<open>mmap\<close> and an LRU cache of any capacity, as a table whose iterator
  walks through exactly these entries from the first, backwards from the last and from any place, and
  where a lookup finds the first entry that is not before its key, which only the filter may leave out
  and never when that entry has the user key that was asked for.
\<close>

theorem table_roundtrip:
  assumes "bytewise_options src bloom" and "options = SanitizeOptions src"
    and "TableBuilder_Build options (Posix_Append os) (Posix_Flush os) es w = Some (Status_OK, r)" and "pf_contents w = []"
    and "length (pf_contents (tb_file r)) < 2 ^ 32"
    and "increasing bytewise.ivalid (op_Compare options) es" and "bloom_ok bloom (map (ExtractUserKey \<circ> fst) es)"
    and "mm_memory m = pf_contents (tb_file r)" and "NewLRUCache capacity = Some c" and "length es < n"
    and "vt = Table_Iter options (Mmap_Read os') (Some lru_block_cache) ro"
  shows "TableBuilder_FileSize r = of_nat (length (mm_memory m)) \<and>
    (\<exists>t it. Table_Open options (Mmap_Read os') (Some lru_block_cache) m (TableBuilder_FileSize r) c = Some (Status_OK, Some t) \<and>
      Table_NewIterator options t = Some it \<and>
      (vt_SeekToFirst vt it \<bind> iter_walk vt (vt_Next vt) n) = Some es \<and>
      (vt_SeekToLast vt it \<bind> iter_walk vt (vt_Prev vt) (Suc n)) = Some (rev es) \<and>
      (\<forall>k. 8 \<le> length k \<longrightarrow> (let rest = dropWhile (\<lambda>e. op_Compare options (fst e) k < 0) es in
        (vt_Seek vt k it \<bind> iter_walk vt (vt_Next vt) n) = Some rest \<and>
        (\<exists>res t'. InternalGet options (Mmap_Read os') (Some lru_block_cache) ro k t = Some (Status_OK, res, t') \<and>
          (res = None \<or> rest \<noteq> [] \<and> res = Some (hd rest)) \<and>
          (rest \<noteq> [] \<and> ExtractUserKey (fst (hd rest)) = ExtractUserKey k \<longrightarrow> res = Some (hd rest))))))"
proof -
  let ?ok = "\<lambda>keys. bloom_ok bloom (map ExtractUserKey keys)"
  let ?same = "\<lambda>a b. ExtractUserKey a = ExtractUserKey b"
  have T: "table_options options bytewise.ivalid ?ok ?same"
    unfolding assms(2) by (rule bytewise_options.db_table_options [OF assms(1)])
  have W: "table_writer options bytewise.ivalid ?ok ?same (Posix_Append os) (Posix_Flush os) pf_contents pf_file"
    by (intro table_writer.intro T posix_writable.writable_file_axioms)
  have R: "table_reader options bytewise.ivalid ?ok ?same (Mmap_Read os') (\<lambda>f. length (mm_memory f) < 2 ^ 64) mm_memory
      (Some lru_block_cache) shards_ok shards_hold"
    by (intro table_reader.intro T mmap.random_access_file_axioms lru_blocks.block_cache_axioms)
  have "table_writer.offsets_fit options pf_contents (tb_file r)" using assms(5) by (simp add: table_writer.offsets_fit_def [OF W])
  from table_writer.TableBuilder_Build_laid_out [OF W assms(4,3) this]
  have laid: "table_options.laid_out options es (mm_memory m)" and size: "TableBuilder_FileSize r = of_nat (length (mm_memory m))"
    using assms(8) by simp_all
  have ok: "?ok g" if "sublist g (map fst es)" for g
  proof -
    have "sublist (map ExtractUserKey g) (map ExtractUserKey (map fst es))" using that by (rule map_mono_sublist)
    then show ?thesis using bloom_ok_sublist [OF assms(7)] by simp
  qed
  have small: "length (mm_memory m) < 2 ^ 32" "length (mm_memory m) < 2 ^ 64" using assms(5,8) by simp_all
  have cache: "unused_id (Some lru_block_cache) shards_hold c" "Some lru_block_cache \<noteq> None \<longrightarrow> shards_ok c"
    using NewLRUCache_unused [OF assms(9)] NewLRUCache_ok [OF assms(9)] by simp_all
  have v: "bytewise.ivalid k \<longleftrightarrow> 8 \<le> length k" for k by (simp add: bytewise.ivalid_def)
  from table_reader.laid_out_reads [OF R small(2) laid small(1) ok cache assms(6,10), of ro]
  show ?thesis unfolding size assms(11) v table_reader.get_result_def [OF R] Let_def by blast
qed

text \<open>One value, under the user key a.\<close>

definition one_entry :: entries where
  "one_entry = [([0x61, 1, 5, 0, 0, 0, 0, 0, 0], [0x76])]"

lemma one_table_size: "length (table_bytes (SanitizeOptions Options_new) [one_entry] fb) < 2 ^ 32"
proof -
  let ?o = "SanitizeOptions Options_new"
  have o: "op_restart_interval ?o = 16" "op_filter_policy ?o = None" by (simp_all add: SanitizeOptions_def Options_new_def)
  have b: "length (built_block 16 one_entry) = 21" "length (built_block 16 []) = 8" by code_simp+
  have "index_entries ?o [one_entry] (length [one_entry]) = [(index_key ?o [one_entry] 0, handle_bytes (block_handle 16 [one_entry] 0))]"
    by (simp add: index_entries_def o)
  moreover have "index_key ?o [one_entry] 0 = [0x61, 1, 5, 0, 0, 0, 0, 0, 0]" by code_simp
  moreover have "handle_bytes (block_handle 16 [one_entry] 0) = [0, 21]"
    by (simp add: block_handle_def block_start_def data_part_def b) code_simp
  ultimately have i: "length (index_block ?o [one_entry]) = 22" unfolding index_block_def by (simp only:) code_simp
  show ?thesis
    by (simp add: table_bytes_def data_part_def filter_part_def meta_block_def meta_entries_def o b i length_Footer)
qed

theorem table_roundtrip_witness:
  "\<exists>r m c t it. TableBuilder_Build (SanitizeOptions Options_new) (Posix_Append calm_os) (Posix_Flush calm_os) one_entry
      (PosixWritableFile_new [] 5 []) = Some (Status_OK, r) \<and> mm_memory m = pf_contents (tb_file r) \<and>
    NewLRUCache 8388608 = Some c \<and>
    Table_Open (SanitizeOptions Options_new) (Mmap_Read whole_os) (Some lru_block_cache) m (TableBuilder_FileSize r) c
      = Some (Status_OK, Some t) \<and>
    Table_NewIterator (SanitizeOptions Options_new) t = Some it"
proof -
  let ?o = "SanitizeOptions Options_new" and ?w = "PosixWritableFile_new [] 5 []"
  have B: "bytewise_options Options_new None" by unfold_locales (simp_all add: Options_new_def)
  have W: "pf_contents ?w = []" by (simp add: PosixWritableFile_new_def pf_contents_def)
  obtain r where r: "TableBuilder_Build ?o (Posix_Append calm_os) (Posix_Flush calm_os) one_entry ?w = Some (Status_OK, r)"
    using Build_succeeds [OF calm_writes_succeed] by blast
  obtain c :: "Block ShardedLRUCache" where c: "NewLRUCache 8388608 = Some c" using NewLRUCache_returns by blast
  have T: "table_writer ?o bytewise.ivalid (\<lambda>keys. bloom_ok None (map ExtractUserKey keys)) (\<lambda>a b. ExtractUserKey a = ExtractUserKey b)
      (Posix_Append calm_os) (Posix_Flush calm_os) pf_contents pf_file"
    by (intro table_writer.intro bytewise_options.db_table_options [OF B] posix_writable.writable_file_axioms)
  have "table_writer.offsets_fit ?o pf_contents (tb_file r)"
    unfolding table_writer.offsets_fit_def [OF T] by (simp add: SanitizeOptions_def Options_new_def)
  from table_writer.TableBuilder_Build_laid_out [OF T W r this] obtain bs fb where
    "concat bs = one_entry" "[] \<notin> set bs" "pf_contents (tb_file r) = table_bytes ?o bs fb"
    by (auto simp: table_options.laid_out_def [OF bytewise_options.db_table_options [OF B]])
  moreover from this have "bs = [one_entry]"
    by (cases bs; cases "hd bs"; cases "tl bs"; cases "hd (tl bs)") (auto simp: one_entry_def)
  ultimately have small: "length (pf_contents (tb_file r)) < 2 ^ 32" using one_table_size by simp
  let ?m = "\<lparr>mm_filename = [], mm_memory = pf_contents (tb_file r)\<rparr>"
  have inc: "increasing bytewise.ivalid (op_Compare ?o) one_entry"
    by (simp add: increasing_def one_entry_def bytewise.ivalid_def)
  have ok: "bloom_ok None (map (ExtractUserKey \<circ> fst) one_entry)" by (simp add: bloom_ok_def)
  from table_roundtrip [OF B refl r W small inc ok _ c, of ?m 2 _ whole_os ReadOptions_new] r c show ?thesis
    by (intro exI [of _ r] exI [of _ ?m] exI [of _ c]) (auto simp: one_entry_def)
qed

end
