(* ===== verification/Spec2Isabelle.thy ===== *)
theory Spec2Isabelle
  imports Pb_Wire_Props Bs_Mem_Props Bs_Props Ldb_Key_Props Ldb_Crc Ldb_Env Ldb_Log_Props
    Ldb_Skiplist_Props Ldb_Batch_Props Ldb_Db_Props
    Ldb_Table_Props
begin

text \<open>
  \<^bold>\<open>The program.\<close>  BookSelf is an iOS application for trading books: about a thousand lines of Swift in
  \<open>src/BookSelf/BookSelf\<close> that show views and call Firebase.  What it is built from is C and C++ under
  \<open>src/BookSelf/Pods\<close>, and the path of its data goes through three of those libraries.  A Firestore
  document is written on the wire by nanopb, travels over TLS, whose messages and certificates
  BoringSSL parses and builds, and is kept on the device in a leveldb database.  These three are
  modelled here, from the byte level up.

  \<^bold>\<open>How the theories follow the code.\<close>  \<open>Prelude\<close> holds the lemmas on words, bytes and memory that the
  components share, \<open>Varint\<close> the reference of the varint codes that nanopb and leveldb both use.  Each
  theory models the files named in its own header; definitions keep the names of the code, with a
  prefix where a name is taken.  Structures are records, integers are words of the width of the code
  wherever they can wrap around, \<open>size_t\<close> is 64 bits, \<open>char\<close> is signed and the byte order little endian,
  as on the platforms of the application.  An option type around a result says \<open>None\<close> for what C leaves
  undefined, an access outside a buffer above all, so that each theorem that a function returns
  \<open>Some\<close> is also one of memory safety.  Errors that the code reports are values.

  \<^item> nanopb (\<open>pb_decode.c\<close>, \<open>pb_encode.c\<close>): \<open>Pb_Stream\<close> and \<open>Pb_Ostream\<close> are the streams over a buffer or a
    callback of the user, \<open>Pb_Wire_Encode\<close> and \<open>Pb_Wire_Decode\<close> the varints, tags, strings, fixed width
    values and substreams, \<open>Pb_Wire_Spec\<close> their meaning as lists of bytes, \<open>Pb_Wire_Props\<close> the properties:
    every decoder stays within its buffer, what is written is read back, and skipping a field takes
    exactly its bytes.  \<open>PB_FIELD_32BIT\<close>, \<open>PB_NO_PACKED_STRUCTS\<close> and \<open>PB_ENABLE_MALLOC\<close> are set.
  \<^item> BoringSSL (\<open>crypto/mem.c\<close>, \<open>crypto/bytestring\<close>): \<open>Bs_Mem\<close> is the allocator with its size prefix and the
    string functions; \<open>malloc\<close> is a parameter that may refuse.  \<open>Bs_Cbs\<close> is the parser of byte strings
    and DER, \<open>Bs_Cbb\<close> the builder with its nested children whose length prefixes are filled in late.
    \<open>Bs_Cbs_Spec\<close>, \<open>Bs_Der\<close>, \<open>Bs_Der_Elem\<close> and \<open>Bs_Asn1\<close> give DER as a specification of its own;
    \<open>Bs_Cbb_Spec\<close>, \<open>Bs_Cbb_Writer\<close> and \<open>Bs_Codec\<close> show that a tree of elements written through children is the
    DER of the tree and is parsed back; \<open>Bs_Cbb_Safe\<close> shows the invariant of a builder over any run of
    operations, failures of the allocator included; \<open>Bs_Props\<close> has the properties.
  \<^item> leveldb, codes and keys: \<open>Ldb_Coding\<close> (\<open>util/coding.cc\<close>), \<open>Ldb_Key\<close> (\<open>db/dbformat.cc\<close>, \<open>util/comparator.cc\<close>),
    \<open>Ldb_Bloom\<close> (\<open>util/bloom.cc\<close>, \<open>util/hash.cc\<close>), \<open>Ldb_Crc\<close> (\<open>util/crc32c.cc\<close>: the tables and strides against CRC-32C bit
    by bit), \<open>Ldb_Status\<close> (\<open>util/status.cc\<close>), with properties in \<open>Ldb_Key_Props\<close>.
  \<^item> leveldb, files and log: \<open>Ldb_Env\<close> is \<open>util/env_posix.cc\<close> over a record of what the system calls return;
    \<open>Ldb_Log\<close> the writer and reader of the log (\<open>db/log_writer.cc\<close>, \<open>db/log_reader.cc\<close>) over a file given by its
    operations.  \<open>Ldb_Log_Spec\<close> gives the bytes of a log, \<open>Ldb_Log_Read\<close> what reading them or a part of them
    returns, \<open>Ldb_Log_Props\<close> recovery after a crash at any byte and the termination of reading.
  \<^item> leveldb, tables in memory: \<open>Ldb_Skiplist\<close> (\<open>db/skiplist.h\<close>, \<open>util/random.h\<close>) with its shape in
    \<open>Ldb_Skiplist_Inv\<close>, the effect of its operations in \<open>Ldb_Skiplist_Ops\<close> and its properties in
    \<open>Ldb_Skiplist_Props\<close>; \<open>Ldb_Memtable\<close> and \<open>Ldb_Memtable_Props\<close> (\<open>db/memtable.cc\<close>).
  \<^item> leveldb, the database: \<open>Ldb_Batch\<close> and \<open>Ldb_Batch_Props\<close> (\<open>db/write_batch.cc\<close>), \<open>Ldb_Db\<close> (the writers' queue,
    the write path, reads and log recovery of \<open>db/db_impl.cc\<close>), \<open>Ldb_Db_Spec\<close> and \<open>Ldb_Db_Props\<close>, which put
    comparator, skip list, memtable, batches, log, checksums and files together: a read returns what
    the updates before its snapshot leave in a map, and recovery brings back whole groups of updates.

  \<^bold>\<open>Interfaces.\<close>  Where one part relies on a contract of another there is a locale, interpreted on the
  model of the part that keeps it: comparators (\<open>comparator\<close>, \<open>user_comparator\<close>; the bytewise one and the
  internal one built on it), \<open>filter_policy\<close> (the Bloom filter), \<open>writable_file\<close>, \<open>log_file\<close> and \<open>sequential_file\<close>
  (the POSIX files), \<open>posix_regular_file\<close> (what is assumed of the system when a regular file is read),
  \<open>key_order\<close> (what a skip list asks of its comparator; every comparator gives it, and so does the
  memtable's) and \<open>descent\<close> (the three searches of the skip list).

  \<^bold>\<open>Loops and bounds.\<close>  Loops over a buffer or a list are recursive functions with a termination proof;
  loops that a client or the system can keep going, such as a repeated system call, the reading of a
  log or a search through linked nodes, are partial functions whose value \<open>None\<close> stands for not
  returning, and the properties show that they return.  Fuel occurs only in observers, such as the
  walk over a skip list or the calls of a log's client, and a number above that of the elements is
  shown to be enough.  Sizes are bounded only where the formats bound them: 32-bit lengths of slices,
  56-bit sequence numbers, 31-bit counts of a batch.

  \<^bold>\<open>Not modelled.\<close>  The Swift code, which is views and calls of Firebase; gRPC, abseil, the Firebase
  SDKs and the other pods, which are services of their own or user interface; of nanopb the iteration
  over message descriptors; of BoringSSL everything but memory and byte strings; of leveldb the tables
  on disk, versions and compactions, the arena and the threads, so that writers are served one group
  at a time and a reader runs alone.  Assertions are left out: the builds are release builds, and the
  proofs show those that matter.
\<close>

end
